(* ===== verification/Prelude.thy ===== *)
theory Prelude imports Main "HOL-Library.Word" begin

text \<open>
  The prelude of the development: the names of the machine types, the outcome of a Go
  computation that can panic, Go's slice expression and \<^verbatim>\<open>copy\<close>, and the generic lemmas
  on circular arrays that the receive buffer and the send buffer share.
\<close>

section \<open>Machine types\<close>

type_synonym u8 = "8 word"
type_synonym u16 = "16 word"
type_synonym u32 = "32 word"
type_synonym bytes = "8 word list"

text \<open>
  A Go \<^verbatim>\<open>int32\<close> is the same 32 bits read as two's complement: arithmetic is that of the word,
  comparisons go through \<^term>\<open>sint\<close>.
\<close>

type_synonym i32 = "32 word"

section \<open>Outcomes of a Go computation\<close>

text \<open>
  What can go wrong inside a Go function besides a returned \<^verbatim>\<open>error\<close> value: the run-time
  panics of the language, a call of \<^verbatim>\<open>panic\<close> (\<open>Panicked\<close>), a loop that never ends (\<open>NeverReturns\<close>), and a wait on a channel or a
  condition that only another goroutine can end (\<open>Blocked\<close>).
\<close>

datatype fault =
    SliceBounds
  | IndexRange
  | DivideByZero
  | NilDereference
  | NegativeShift
  | Panicked
  | NeverReturns
  | Blocked

type_synonym 'a go = "fault + 'a"

definition ok :: "'a \<Rightarrow> 'a go" where
  "ok x = Inr x"

definition panic :: "fault \<Rightarrow> 'a go" where
  "panic f = Inl f"

definition bindG :: "'a go \<Rightarrow> ('a \<Rightarrow> 'b go) \<Rightarrow> 'b go" where
  "bindG m f = (case m of Inl e \<Rightarrow> Inl e | Inr x \<Rightarrow> f x)"

lemma bindG_ok [simp]: "bindG (ok x) f = f x"
  by (simp add: bindG_def ok_def)

lemma bindG_Inr [simp]: "bindG (Inr x) f = f x"
  by (simp add: bindG_def)

lemma bindG_panic [simp]: "bindG (panic e) f = panic e"
  by (simp add: bindG_def panic_def)

lemma bindG_Inl [simp]: "bindG (Inl e) f = Inl e"
  by (simp add: bindG_def)

lemma ok_eq_iff [simp]: "ok x = ok y \<longleftrightarrow> x = y"
  by (simp add: ok_def)

lemma ok_neq_panic [simp]: "ok x \<noteq> panic e" "panic e \<noteq> ok x"
  by (simp_all add: ok_def panic_def)

lemma panic_eq_iff [simp]: "(panic e :: 'a go) = panic e' \<longleftrightarrow> e = e'"
  by (simp add: panic_def)

lemma bindG_eq_ok_iff: "bindG m f = ok y \<longleftrightarrow> (\<exists>x. m = ok x \<and> f x = ok y)"
  by (cases m) (auto simp: bindG_def ok_def)

lemma bindG_panic_iff: "bindG m g = panic f \<longleftrightarrow> m = panic f \<or> (\<exists>x. m = ok x \<and> g x = panic f)"
  by (cases m) (auto simp: ok_def panic_def)

lemma bindG_okE:
  assumes "bindG m f = ok y"
  obtains x where "m = ok x" and "f x = ok y"
  using assms by (auto simp: bindG_eq_ok_iff)

lemma bindG_assoc: "bindG (bindG m f) g = bindG m (\<lambda>x. bindG (f x) g)"
  by (cases m) (simp_all add: bindG_def)

section \<open>Slices and copy\<close>

text \<open>
  \<^verbatim>\<open>xs[lo:hi]\<close>. Go bounds \<^verbatim>\<open>hi\<close> by the slice's capacity; every slice expression modelled
  here is applied to a slice that fills its backing array, so that the bound is its length.
\<close>

definition go_slice :: "'a list \<Rightarrow> nat \<Rightarrow> nat \<Rightarrow> 'a list go" where
  "go_slice xs lo hi =
     (if lo \<le> hi \<and> hi \<le> length xs then ok (take (hi - lo) (drop lo xs)) else panic SliceBounds)"

text \<open>
  \<^verbatim>\<open>copy(dst[lo:hi], src)\<close>: the new contents of \<^verbatim>\<open>dst\<close>. As many elements are copied as fit
  in both.
\<close>

definition go_copy :: "'a list \<Rightarrow> nat \<Rightarrow> nat \<Rightarrow> 'a list \<Rightarrow> 'a list go" where
  "go_copy dst lo hi src =
     (if lo \<le> hi \<and> hi \<le> length dst
      then ok (take lo dst @ take (hi - lo) src @ drop (lo + min (hi - lo) (length src)) dst)
      else panic SliceBounds)"

lemma go_slice_ok [simp]:
  "lo \<le> hi \<Longrightarrow> hi \<le> length xs \<Longrightarrow> go_slice xs lo hi = ok (take (hi - lo) (drop lo xs))"
  by (simp add: go_slice_def)

lemma go_slice_panic: "\<not> (lo \<le> hi \<and> hi \<le> length xs) \<Longrightarrow> go_slice xs lo hi = panic SliceBounds"
  by (simp only: go_slice_def if_False)

lemma go_copy_ok:
  "lo \<le> hi \<Longrightarrow> hi \<le> length dst \<Longrightarrow>
   go_copy dst lo hi src = ok (take lo dst @ take (hi - lo) src @ drop (lo + min (hi - lo) (length src)) dst)"
  by (simp add: go_copy_def)

lemma length_go_copy: "go_copy dst lo hi src = ok dst' \<Longrightarrow> length dst' = length dst"
  by (auto simp: go_copy_def split: if_splits)

section \<open>Circular arrays\<close>

text \<open>
  \<open>ring xs s n\<close> is the run of \<open>n\<close> elements that starts at index \<open>s\<close> of the circular array
  \<open>xs\<close>; \<open>ring_off L t j\<close> is how far the index \<open>j\<close> lies after \<open>t\<close> around a circle of \<open>L\<close>;
  \<open>ring_put xs t d\<close> overwrites the run that starts at \<open>t\<close> with \<open>d\<close>.
\<close>

definition ring :: "'a list \<Rightarrow> nat \<Rightarrow> nat \<Rightarrow> 'a list" where
  "ring xs s n = map (\<lambda>i. xs ! ((s + i) mod length xs)) [0..<n]"

definition ring_off :: "nat \<Rightarrow> nat \<Rightarrow> nat \<Rightarrow> nat" where
  "ring_off L t j = (j + (L - t mod L)) mod L"

definition ring_put :: "'a list \<Rightarrow> nat \<Rightarrow> 'a list \<Rightarrow> 'a list" where
  "ring_put xs t d =
     map (\<lambda>j. if ring_off (length xs) t j < length d then d ! ring_off (length xs) t j else xs ! j)
       [0..<length xs]"

named_theorems ring_simps

lemma length_ring [simp]: "length (ring xs s n) = n"
  by (simp add: ring_def)

lemma length_ring_put [simp]: "length (ring_put xs t d) = length xs"
  by (simp add: ring_put_def)

lemma ring_0 [simp]: "ring xs s 0 = []"
  by (simp add: ring_def)

lemma nth_ring: "i < n \<Longrightarrow> ring xs s n ! i = xs ! ((s + i) mod length xs)"
  by (simp add: ring_def)

lemma ring_mod [ring_simps]: "ring xs (s mod length xs) n = ring xs s n"
  by (simp add: ring_def mod_add_left_eq)

lemma ring_append: "ring xs s (m + n) = ring xs s m @ ring xs (s + m) n"
  by (rule nth_equalityI) (auto simp: nth_ring nth_append ac_simps)

lemma take_ring: "k \<le> n \<Longrightarrow> take k (ring xs s n) = ring xs s k"
  using ring_append [of xs s k "n - k"] by simp

lemma drop_ring: "k \<le> n \<Longrightarrow> drop k (ring xs s n) = ring xs (s + k) (n - k)"
  using ring_append [of xs s k "n - k"] by simp

lemma ring_straight:
  assumes "h < length xs" and "h + n \<le> length xs"
  shows "ring xs h n = take n (drop h xs)"
  using assms by (intro nth_equalityI) (auto simp: nth_ring)

lemma ring_wrapped:
  assumes h: "h < length xs" and w: "length xs \<le> h + n" and n: "n \<le> length xs"
  shows "ring xs h n = drop h xs @ take (n - (length xs - h)) xs"
proof -
  let ?k = "length xs - h"
  have "ring xs h n = ring xs h ?k @ ring xs (h + ?k) (n - ?k)"
    using ring_append [of xs h ?k "n - ?k"] w by simp
  also have "ring xs h ?k = drop h xs"
    using h by (simp add: ring_straight)
  also have "ring xs (h + ?k) (n - ?k) = ring xs 0 (n - ?k)"
    using h ring_mod [of xs "h + ?k" "n - ?k"] by simp
  also have "ring xs 0 (n - ?k) = take (n - ?k) xs"
    using h n by (subst ring_straight) auto
  finally show ?thesis .
qed

lemma mod_one_turn:
  fixes a n L :: nat
  assumes "a < L" and "n \<le> L"
  shows "(a + n) mod L = (if a + n < L then a + n else a + n - L)"
  using assms le_mod_geq [of L "a + n"] by simp

text \<open>A run that was written is read back, and the run just before it is untouched.\<close>

lemma ring_off_run:
  assumes "i < L"
  shows "ring_off L t ((t + i) mod L) = i"
proof -
  have L: "0 < L" using assms by simp
  then have le: "t mod L \<le> L" by (simp add: less_imp_le_nat)
  have "ring_off L t ((t + i) mod L) = (t mod L + i + (L - t mod L)) mod L"
    by (metis mod_add_left_eq ring_off_def)
  also have "t mod L + i + (L - t mod L) = i + L"
    using le by simp
  finally show ?thesis using assms by simp
qed

lemma ring_off_before:
  assumes "n + m \<le> L" and "i < n"
  shows "m \<le> ring_off L (s + n) ((s + i) mod L)"
proof -
  have "(s + i) mod L = (s + i + L) mod L" by simp
  also have "s + i + L = (s + n) + (L - n + i)" using assms by simp
  finally have "ring_off L (s + n) ((s + i) mod L) = L - n + i"
    using ring_off_run [of "L - n + i" L "s + n"] assms by simp
  then show ?thesis using assms by simp
qed

lemma nth_ring_put:
  "j < length xs \<Longrightarrow> ring_put xs t d ! j =
     (if ring_off (length xs) t j < length d then d ! ring_off (length xs) t j else xs ! j)"
  by (simp add: ring_put_def)

lemma ring_put_same:
  assumes "length d \<le> length xs" and "xs \<noteq> []"
  shows "ring (ring_put xs t d) t (length d) = d"
  using assms by (intro nth_equalityI) (auto simp: nth_ring nth_ring_put ring_off_run)

lemma ring_put_before:
  assumes "n + length d \<le> length xs" and "xs \<noteq> []"
  shows "ring (ring_put xs (s + n) d) s n = ring xs s n"
proof (rule nth_equalityI)
  fix i assume "i < length (ring (ring_put xs (s + n) d) s n)"
  then have i: "i < n" by simp
  with assms have "length d \<le> ring_off (length xs) (s + n) ((s + i) mod length xs)"
    by (intro ring_off_before) auto
  then show "ring (ring_put xs (s + n) d) s n ! i = ring xs s n ! i"
    using i assms by (simp add: nth_ring nth_ring_put)
qed simp

lemma ring_put_append:
  assumes "n + length d \<le> length xs" and "xs \<noteq> []"
  shows "ring (ring_put xs (s + n) d) s (n + length d) = ring xs s n @ d"
  using assms by (simp add: ring_append ring_put_before ring_put_same)

lemma ring_put_mod [ring_simps]: "ring_put xs (t mod length xs) d = ring_put xs t d"
  by (simp add: ring_put_def ring_off_def)

text \<open>The two shapes in which the code writes a run: in one piece, or in two around the end.\<close>

lemma ring_off_lower: "t < L \<Longrightarrow> j < t \<Longrightarrow> ring_off L t j = j + (L - t)"
  by (simp add: ring_off_def)

lemma ring_off_upper: "t \<le> j \<Longrightarrow> j < L \<Longrightarrow> ring_off L t j = j - t"
  using mod_add_self1 [of L "j - t"] by (simp add: ring_off_def add.commute)

lemma ring_put_straight:
  assumes t: "t < length xs" and d: "t + length d \<le> length xs"
  shows "take t xs @ d @ drop (t + length d) xs = ring_put xs t d" (is "?l = _")
proof (rule nth_equalityI)
  show "length ?l = length (ring_put xs t d)" using assms by simp
  fix j assume "j < length ?l"
  then have j: "j < length xs" using assms by simp
  show "?l ! j = ring_put xs t d ! j"
  proof (cases "j < t")
    case True
    moreover from True assms have "\<not> ring_off (length xs) t j < length d"
      by (simp add: ring_off_lower)
    ultimately show ?thesis using assms j by (simp add: nth_ring_put nth_append)
  next
    case False
    then show ?thesis using assms j by (simp add: nth_ring_put nth_append ring_off_upper)
  qed
qed

lemma ring_put_wrapped:
  assumes t: "t < length xs" and d: "length d \<le> length xs" and w: "length xs - t \<le> length d"
  shows "drop (length xs - t) d @ drop (length d - (length xs - t)) (take t xs) @ take (length xs - t) d
         = ring_put xs t d" (is "?l = _")
proof (rule nth_equalityI)
  show len: "length ?l = length (ring_put xs t d)" using assms by simp
  fix j assume "j < length ?l"
  with len have j: "j < length xs" by (simp only: length_ring_put)
  show "?l ! j = ring_put xs t d ! j"
  proof (cases "j < t")
    case True
    then show ?thesis using assms j
      by (auto simp: nth_ring_put nth_append ring_off_lower add.commute)
  next
    case False
    let ?a = "drop (length xs - t) d @ drop (length d - (length xs - t)) (take t xs)"
    have "length ?a = t" using assms by simp
    moreover from False have "?l ! j = (?a @ take (length xs - t) d) ! j" by simp
    ultimately have "?l ! j = d ! (j - t)"
      using False assms j by (simp only: nth_append) simp
    moreover have "j - t < length d" using False w j by linarith
    ultimately show ?thesis using False j by (simp only: nth_ring_put ring_off_upper) simp
  qed
qed

section \<open>Words\<close>

named_theorems unat_simps

lemma unat_add_small [unat_simps]:
  "unat (a :: u32) + unat b < 2 ^ 32 \<Longrightarrow> unat (a + b) = unat a + unat b"
  by (simp add: unat_word_ariths)

lemma unat_sub_small [unat_simps]: "b \<le> (a :: u32) \<Longrightarrow> unat (a - b) = unat a - unat b"
  by (rule unat_sub)

lemma unat_of_nat_small [unat_simps]: "n < 2 ^ 32 \<Longrightarrow> unat (of_nat n :: u32) = n"
  by (simp add: unat_of_nat)

lemma unat_mod_u32 [unat_simps]: "unat ((a :: u32) mod b) = unat a mod unat b"
  by (rule unat_mod)

lemma unat_is_of_nat: "unat (w :: u32) = n \<Longrightarrow> w = of_nat n"
  by (metis of_nat_unat ucast_id)

lemma unat_less_2_32 [simp]: "unat (a :: u32) < 4294967296"
  using unsigned_less [of a] by simp

end
