(* ===== verification/Netip.thy ===== *)
theory Netip imports Prelude begin

text \<open>
  The part of Go's \<^verbatim>\<open>encoding/binary\<close> and \<^verbatim>\<open>net/netip\<close> that the program uses: big-endian byte
  order, addresses and prefixes. An address is the zero value, an IPv4 address or an IPv6 address
  with its zone; a prefix is an address and a number of bits, \<open>-1\<close> for an invalid prefix.
\<close>

unbundle bit_operations_syntax

section \<open>Big-endian byte order\<close>

definition PutUint16 :: "u16 \<Rightarrow> bytes" where
  "PutUint16 u = [ucast (drop_bit 8 u), ucast u]"

definition PutUint32 :: "u32 \<Rightarrow> bytes" where
  "PutUint32 u = [ucast (drop_bit 24 u), ucast (drop_bit 16 u), ucast (drop_bit 8 u), ucast u]"

definition Uint16 :: "bytes \<Rightarrow> u16 go" where
  "Uint16 b = (if length b < 2 then panic IndexRange
     else ok (push_bit 8 (ucast (b ! 0)) OR ucast (b ! 1)))"

definition Uint32 :: "bytes \<Rightarrow> u32 go" where
  "Uint32 b = (if length b < 4 then panic IndexRange
     else ok (push_bit 24 (ucast (b ! 0)) OR push_bit 16 (ucast (b ! 1)) OR
              push_bit 8 (ucast (b ! 2)) OR ucast (b ! 3)))"

lemma length_PutUint [simp]: "length (PutUint16 v) = 2" "length (PutUint32 u) = 4"
  by (simp_all add: PutUint16_def PutUint32_def)

lemma join_u16:
  "push_bit 8 (ucast (ucast (drop_bit 8 u) :: u8)) OR ucast (ucast u :: u8) = (u :: u16)"
  by (rule bit_word_eqI) (auto simp: bit_simps)

lemma join_u32:
  "push_bit 24 (ucast (ucast (drop_bit 24 u) :: u8)) OR
   push_bit 16 (ucast (ucast (drop_bit 16 u) :: u8)) OR
   push_bit 8 (ucast (ucast (drop_bit 8 u) :: u8)) OR ucast (ucast u :: u8) = (u :: u32)"
proof (rule bit_word_eqI)
  fix n assume "n < LENGTH(32)"
  then have "n < 32" by simp
  then consider "n < 8" | "8 \<le> n" "n < 16" | "16 \<le> n" "n < 24" | "24 \<le> n" "n < 32"
    by fastforce
  then show "bit (push_bit 24 (ucast (ucast (drop_bit 24 u) :: u8)) OR
     push_bit 16 (ucast (ucast (drop_bit 16 u) :: u8)) OR
     push_bit 8 (ucast (ucast (drop_bit 8 u) :: u8)) OR ucast (ucast u :: u8) :: u32) n = bit u n"
    by cases (auto simp: bit_simps)
qed

lemma Uint16_Put [simp]: "Uint16 (PutUint16 u) = ok u"
  by (simp add: Uint16_def PutUint16_def join_u16)

lemma Uint32_Put [simp]: "Uint32 (PutUint32 u) = ok u"
  using join_u32 [of u] by (simp add: Uint32_def PutUint32_def)

lemma split_u8s:
  "PutUint16 (push_bit 8 (ucast a) OR ucast b) = [a, b]"
  "PutUint32 (push_bit 24 (ucast a) OR push_bit 16 (ucast b) OR push_bit 8 (ucast c) OR ucast d) = [a, b, c, d]"
  by (auto simp: PutUint16_def PutUint32_def intro!: bit_word_eqI)
    (auto simp: bit_simps dest: bit_imp_le_length)

lemma PutUint32_Uint32:
  assumes "length b = 4" and "Uint32 b = ok u"
  shows "PutUint32 u = b"
proof -
  obtain a c d e where b: "b = [a, c, d, e]"
    using assms(1) by (auto simp: eval_nat_numeral length_Suc_conv)
  then show ?thesis using assms(2) split_u8s(2) [of a c d e] by (simp add: Uint32_def)
qed

section \<open>Addresses\<close>

datatype Addr = NoAddr | V4 u32 | V6 "128 word" string

fun IsValid :: "Addr \<Rightarrow> bool" where
  "IsValid NoAddr = False"
| "IsValid (V4 a) = True"
| "IsValid (V6 a z) = True"

fun BitLen :: "Addr \<Rightarrow> int" where
  "BitLen NoAddr = 0"
| "BitLen (V4 a) = 32"
| "BitLen (V6 a z) = 128"

fun hasZone :: "Addr \<Rightarrow> bool" where
  "hasZone (V6 a z) = (z \<noteq> [])"
| "hasZone a = False"

fun withoutZone :: "Addr \<Rightarrow> Addr" where
  "withoutZone (V6 a z) = V6 a []"
| "withoutZone a = a"

definition bytes16 :: "128 word \<Rightarrow> bytes" where
  "bytes16 a = map (\<lambda>i. ucast (drop_bit (8 * (15 - i)) a)) [0..<16]"

fun AsSlice :: "Addr \<Rightarrow> bytes" where
  "AsSlice NoAddr = []"
| "AsSlice (V4 a) = PutUint32 a"
| "AsSlice (V6 a z) = bytes16 a"

section \<open>Prefixes\<close>

record Prefix =
  p_addr :: Addr
  p_bits :: int

definition NoPrefix :: Prefix where
  "NoPrefix = \<lparr>p_addr = NoAddr, p_bits = -1\<rparr>"

definition PrefixFrom :: "Addr \<Rightarrow> int \<Rightarrow> Prefix" where
  "PrefixFrom ip b =
     \<lparr>p_addr = withoutZone ip,
      p_bits = (if ip \<noteq> NoAddr \<and> 0 \<le> b \<and> b \<le> BitLen ip then b else -1)\<rparr>"

definition PrefixValid :: "Prefix \<Rightarrow> bool" where
  "PrefixValid p \<longleftrightarrow> 0 \<le> p_bits p"

definition Bits :: "Prefix \<Rightarrow> int" where
  "Bits p = p_bits p"

text \<open>Only the leading \<open>bits\<close> of the two addresses are compared; the host bits of the prefix do not count.\<close>

definition Contains :: "Prefix \<Rightarrow> Addr \<Rightarrow> bool" where
  "Contains p ip =
     (if \<not> PrefixValid p \<or> hasZone ip then False
      else (case (p_addr p, ip) of
          (V4 a, V4 b) \<Rightarrow> drop_bit (nat (32 - p_bits p)) (b XOR a) = 0
        | (V6 a z, V6 b z') \<Rightarrow> drop_bit (nat (128 - p_bits p)) (b XOR a) = 0
        | _ \<Rightarrow> False))"

text \<open>A prefix in canonical form has no host bits set.\<close>

definition Masked :: "Prefix \<Rightarrow> Prefix" where
  "Masked p =
     (if \<not> PrefixValid p then NoPrefix
      else p\<lparr>p_addr := (case p_addr p of
          NoAddr \<Rightarrow> NoAddr
        | V4 a \<Rightarrow> V4 (push_bit (nat (32 - p_bits p)) (drop_bit (nat (32 - p_bits p)) a))
        | V6 a z \<Rightarrow> V6 (push_bit (nat (128 - p_bits p)) (drop_bit (nat (128 - p_bits p)) a)) z)\<rparr>)"

lemma PrefixFrom_bits: "Bits (PrefixFrom ip b) = -1 \<or> (0 \<le> b \<and> Bits (PrefixFrom ip b) = b)"
  by (simp add: PrefixFrom_def Bits_def)

lemma Contains_valid: "Contains p ip \<Longrightarrow> PrefixValid p \<and> IsValid ip \<and> 0 \<le> Bits p"
  by (cases ip) (auto simp: Contains_def PrefixValid_def Bits_def split: if_splits prod.splits Addr.splits)

text \<open>Two canonical prefixes of one length that contain the same address are the same prefix.\<close>

lemma word_xor_0: "(a :: 'a :: len word) XOR b = 0 \<longleftrightarrow> a = b"
  by (metis xor.assoc xor.right_neutral xor_self_eq)

lemma Contains_V4:
  "Contains p (V4 b) \<longleftrightarrow> PrefixValid p \<and>
     (\<exists>a. p_addr p = V4 a \<and> drop_bit (nat (32 - p_bits p)) b = drop_bit (nat (32 - p_bits p)) a)"
  by (cases "p_addr p") (auto simp: Contains_def word_xor_0)

lemma Contains_V6:
  "Contains p (V6 b z) \<longleftrightarrow> PrefixValid p \<and> z = [] \<and>
     (\<exists>a z'. p_addr p = V6 a z' \<and> drop_bit (nat (128 - p_bits p)) b = drop_bit (nat (128 - p_bits p)) a)"
  by (cases "p_addr p") (auto simp: Contains_def word_xor_0)

lemma Contains_NoAddr [simp]: "\<not> Contains p NoAddr"
  by (cases "p_addr p") (auto simp: Contains_def)

lemma Masked_V4:
  assumes "Masked p = p" and "PrefixValid p" and "p_addr p = V4 a"
  shows "push_bit (nat (32 - p_bits p)) (drop_bit (nat (32 - p_bits p)) a) = a"
proof -
  have "p_addr (Masked p) = V4 (push_bit (nat (32 - p_bits p)) (drop_bit (nat (32 - p_bits p)) a))"
    using assms(2,3) by (simp add: Masked_def)
  then show ?thesis using assms(1,3) by (simp only: Addr.inject)
qed

lemma Masked_V6:
  assumes "Masked p = p" and "PrefixValid p" and "p_addr p = V6 a z"
  shows "push_bit (nat (128 - p_bits p)) (drop_bit (nat (128 - p_bits p)) a) = a"
proof -
  have "p_addr (Masked p) = V6 (push_bit (nat (128 - p_bits p)) (drop_bit (nat (128 - p_bits p)) a)) z"
    using assms(2,3) by (simp add: Masked_def)
  then show ?thesis using assms(1,3) by (simp only: Addr.inject)
qed

lemma canonical_unique:
  assumes "Masked p = p" and "Masked q = q" and bits: "Bits p = Bits q"
    and "Contains p ip" and "Contains q ip"
    and zone: "withoutZone (p_addr p) = p_addr p" "withoutZone (p_addr q) = p_addr q"
  shows "p = q"
proof -
  have valid: "PrefixValid p" "PrefixValid q" using assms(4,5) by (auto dest: Contains_valid)
  have k: "p_bits p = p_bits q" using bits by (simp add: Bits_def)
  have "p_addr p = p_addr q"
  proof (cases ip)
    case NoAddr
    then show ?thesis using assms(4) by simp
  next
    case (V4 b)
    then obtain x y where x: "p_addr p = V4 x" and y: "p_addr q = V4 y"
        and d: "drop_bit (nat (32 - p_bits q)) x = drop_bit (nat (32 - p_bits q)) y"
      using assms(4,5) k by (auto simp: Contains_V4)
    have "x = push_bit (nat (32 - p_bits q)) (drop_bit (nat (32 - p_bits q)) x)"
      using Masked_V4 [OF assms(1) valid(1) x] k by simp
    also have "\<dots> = y"
      unfolding d by (rule Masked_V4 [OF assms(2) valid(2) y])
    finally show ?thesis using x y by simp
  next
    case (V6 b z)
    then obtain x u y v where x: "p_addr p = V6 x u" and y: "p_addr q = V6 y v"
        and d: "drop_bit (nat (128 - p_bits q)) x = drop_bit (nat (128 - p_bits q)) y"
      using assms(4,5) k by (auto simp: Contains_V6)
    have "x = push_bit (nat (128 - p_bits q)) (drop_bit (nat (128 - p_bits q)) x)"
      using Masked_V6 [OF assms(1) valid(1) x] k by simp
    also have "\<dots> = y"
      unfolding d by (rule Masked_V6 [OF assms(2) valid(2) y])
    finally show ?thesis using x y zone by simp
  qed
  then show ?thesis using bits by (cases p, cases q) (simp add: Bits_def)
qed

end
