(* ===== verification/Ip_Packet.thy ===== *)
theory Ip_Packet imports Netip begin

text \<open>
  IP packets (\<^verbatim>\<open>pkg/proto/ippacket.go\<close>). The header's wire format and the Internet checksum are
  third-party packages (\<^verbatim>\<open>iptcp-headers\<close> and \<^verbatim>\<open>netstack/tcpip/header\<close>): they are the fields of the
  record \<open>netlib\<close>, an argument of every definition that uses them.
\<close>

section \<open>Headers and the libraries behind them\<close>

record IPv4Header =
  Version :: int
  Len :: int
  TOS :: int
  TotalLen :: int
  ID :: int
  HFlags :: int
  FragOff :: int
  TTL :: int
  Protocol :: int
  HChecksum :: int
  Src :: Addr
  Dst :: Addr
  Options :: bytes

text \<open>
  \<open>hdr_Marshal\<close> and \<open>hdr_Parse\<close> are \<^verbatim>\<open>IPv4Header.Marshal\<close> and \<^verbatim>\<open>ipv4header.ParseHeader\<close>, \<open>Checksum\<close>
  is \<^verbatim>\<open>header.Checksum\<close> of netstack, and the two UDP functions say whether the operating system
  accepts a bind and a datagram.
\<close>

record netlib =
  Checksum :: "bytes \<Rightarrow> u16 \<Rightarrow> u16"
  hdr_Marshal :: "IPv4Header \<Rightarrow> bytes option"
  hdr_Parse :: "bytes \<Rightarrow> IPv4Header option"
  ListenUDP :: "Addr \<times> u16 \<Rightarrow> bool"
  WriteToUDP :: "bytes \<Rightarrow> Addr \<times> u16 \<Rightarrow> bool"

section \<open>The code\<close>

definition MTU :: nat where
  "MTU = 1400"

definition DefaultIpHeaderLen :: nat where
  "DefaultIpHeaderLen = 20"

definition ProtoNumRIP :: u8 where "ProtoNumRIP = 200"
definition ProtoNumTest :: u8 where "ProtoNumTest = 0"
definition ProtoNumTCP :: u8 where "ProtoNumTCP = 6"

record IPPacket =
  Header :: IPv4Header
  Payload :: bytes

definition newHeader :: "Addr \<Rightarrow> Addr \<Rightarrow> bytes \<Rightarrow> u8 \<Rightarrow> IPv4Header" where
  "newHeader srcIP destIP msg protoNum =
     \<lparr>Version = 4, Len = int DefaultIpHeaderLen, TOS = 0,
      TotalLen = min (int (DefaultIpHeaderLen + length msg)) (int MTU),
      ID = 0, HFlags = 0, FragOff = 0, TTL = 32, Protocol = uint protoNum, HChecksum = 0,
      Src = srcIP, Dst = destIP, Options = []\<rparr>"

text \<open>An \<^verbatim>\<open>int\<close> slice bound; a negative one panics.\<close>

definition slice_to :: "bytes \<Rightarrow> int \<Rightarrow> bytes go" where
  "slice_to b hi = (if hi < 0 then panic SliceBounds else go_slice b 0 (nat hi))"

definition slice_from :: "bytes \<Rightarrow> int \<Rightarrow> bytes go" where
  "slice_from b lo = (if lo < 0 then panic SliceBounds else go_slice b (nat lo) (length b))"

definition NewPacket :: "Addr \<Rightarrow> Addr \<Rightarrow> bytes \<Rightarrow> u8 \<Rightarrow> IPPacket go" where
  "NewPacket srcIP destIP msg protoNum =
     (let hdr = newHeader srcIP destIP msg protoNum
      in bindG (slice_to msg (TotalLen hdr - Len hdr)) (\<lambda>payload.
           ok \<lparr>Header = hdr, Payload = payload\<rparr>))"

text \<open>\<open>None\<close> is the error of a header that cannot be marshalled.\<close>

definition MarshalIP :: "netlib \<Rightarrow> IPPacket \<Rightarrow> bytes option" where
  "MarshalIP L p = (case hdr_Marshal L (Header p) of
       None \<Rightarrow> None
     | Some headerBytes \<Rightarrow> Some (headerBytes @ Payload p))"

definition UnmarshalIP :: "netlib \<Rightarrow> bytes \<Rightarrow> IPPacket option go" where
  "UnmarshalIP L data = (case hdr_Parse L data of
       None \<Rightarrow> ok None
     | Some hdr \<Rightarrow> bindG (slice_from data (Len hdr)) (\<lambda>payload.
         ok (Some \<lparr>Header = hdr, Payload = payload\<rparr>)))"

definition ComputeChecksum :: "netlib \<Rightarrow> bytes \<Rightarrow> u16" where
  "ComputeChecksum L b = Checksum L b 0 XOR 0xffff"

definition ValidateIPChecksum :: "netlib \<Rightarrow> bytes \<Rightarrow> u16 \<Rightarrow> u16" where
  "ValidateIPChecksum L b fromHeader = Checksum L b fromHeader"

section \<open>Lemmas\<close>

lemma NewPacket_ok:
  "NewPacket s d msg p = ok \<lparr>Header = newHeader s d msg p, Payload = take (MTU - DefaultIpHeaderLen) msg\<rparr>"
proof -
  have "nat (TotalLen (newHeader s d msg p) - Len (newHeader s d msg p)) = min (length msg) (MTU - DefaultIpHeaderLen)"
    by (simp add: newHeader_def MTU_def DefaultIpHeaderLen_def)
  moreover have "0 \<le> TotalLen (newHeader s d msg p) - Len (newHeader s d msg p)"
    by (simp add: newHeader_def MTU_def DefaultIpHeaderLen_def)
  ultimately show ?thesis by (simp add: NewPacket_def slice_to_def min_def)
qed

lemma newHeader_length: "TotalLen (newHeader s d msg p) = int (DefaultIpHeaderLen + length (take (MTU - DefaultIpHeaderLen) msg))"
  by (simp add: newHeader_def MTU_def DefaultIpHeaderLen_def)

end
