(* ===== verification/Lnx_Config.thy ===== *)
theory Lnx_Config imports Netip begin

text \<open>
  The configuration of a node (\<^verbatim>\<open>pkg/lnxconfig/lnxconfig.go\<close>): the structures the parser fills, and
  the checks that relate its directives to each other. The parser itself is in \<^verbatim>\<open>Config_Parser\<close>.
\<close>

type_synonym AddrPort = "Addr \<times> u16"

datatype RoutingMode = RoutingTypeNone | RoutingTypeStatic | RoutingTypeRIP

record InterfaceConfig =
  cfgName :: string
  cfgAssignedIP :: Addr
  cfgAssignedPrefix :: Prefix
  cfgUDPAddr :: AddrPort

record NeighborConfig =
  cfgDestAddr :: Addr
  cfgNUDPAddr :: AddrPort
  cfgInterfaceName :: string

record IPConfig =
  cfgInterfaces :: "InterfaceConfig list"
  cfgNeighbors :: "NeighborConfig list"
  cfgOriginatingPrefixes :: "Prefix list"
  cfgRoutingMode :: RoutingMode
  cfgRipNeighbors :: "Addr list"
  cfgStaticRoutes :: "Prefix \<rightharpoonup> Addr"

definition emptyConfig :: IPConfig where
  "emptyConfig = \<lparr>cfgInterfaces = [], cfgNeighbors = [], cfgOriginatingPrefixes = [],
     cfgRoutingMode = RoutingTypeNone, cfgRipNeighbors = [], cfgStaticRoutes = Map.empty\<rparr>"

text \<open>The two directives that are checked against earlier ones; \<open>None\<close> is the error.\<close>

definition addOriginatingPrefix :: "IPConfig \<Rightarrow> Prefix \<Rightarrow> IPConfig option" where
  "addOriginatingPrefix config prefix =
     (if \<exists>iface \<in> set (cfgInterfaces config). cfgAssignedPrefix iface = prefix
      then Some (config\<lparr>cfgOriginatingPrefixes := cfgOriginatingPrefixes config @ [prefix]\<rparr>)
      else None)"

definition addRipNeighbor :: "IPConfig \<Rightarrow> Addr \<Rightarrow> IPConfig option" where
  "addRipNeighbor config neighbor =
     (if \<exists>iface \<in> set (cfgNeighbors config). cfgDestAddr iface = neighbor
      then Some (config\<lparr>cfgRipNeighbors := cfgRipNeighbors config @ [neighbor]\<rparr>)
      else None)"

end
