(* ===== verification/Ip_Stack.thy ===== *)
theory Ip_Stack imports Ip_Packet Lnx_Config begin

text \<open>
  The IP layer shared by hosts and routers (\<^verbatim>\<open>pkg/ipstack/ipstack.go\<close> and \<^verbatim>\<open>ip_internal.go\<close>): the
  interfaces, the neighbours on each of them, the routing table, the resolution of a destination
  to an interface and a neighbour, sending, and the receive loop.
\<close>

section \<open>State\<close>

text \<open>\<open>bound\<close> says whether the interface's UDP socket \<^verbatim>\<open>conn\<close> is open (not \<^verbatim>\<open>nil\<close>).\<close>

record Interface =
  Name :: string
  AssignedIP :: Addr
  AssignedPrefix :: Prefix
  UDPAddr :: AddrPort
  isDown :: bool
  bound :: bool

record Neighbor =
  VIP :: Addr
  nUDPAddr :: AddrPort
  IFName :: string

datatype RouteType = RouteTypeLocal | RouteTypeStatic | RouteTypeRIP

text \<open>\<open>UpdatedAt\<close> is a point in time, in seconds.\<close>

record RoutingEntry =
  RouteTypeOf :: RouteType
  EPrefix :: Prefix
  NextHop :: Addr
  LocalNextHop :: string
  RCost :: u32
  UpdatedAt :: int

text \<open>The functions that the program registers as receive handlers.\<close>

datatype handler = RipRecvHandler | RouterTestRecvHandler | HostTestRecvHandler | TcpRecvHandler

record IPGlobalInfo =
  Interfaces :: "string \<rightharpoonup> Interface"
  IFNeighbors :: "string \<rightharpoonup> Neighbor list"
  RoutingTable :: "Prefix \<rightharpoonup> RoutingEntry"
  routingMode :: RoutingMode
  recvHandlers :: "u8 \<rightharpoonup> handler"
  RipNeighbors :: "Addr list"

datatype ip_error =
    InvalidProtocol | NoLocalNextHop | NotANeighbor | BindFailed | HeaderMarshal | WriteFailed
  | NoSuchInterface

section \<open>Initialisation\<close>

definition initInterface :: "IPGlobalInfo \<Rightarrow> InterfaceConfig \<Rightarrow> IPGlobalInfo" where
  "initInterface s ifcfg =
     s\<lparr>Interfaces := (Interfaces s)(cfgName ifcfg \<mapsto>
         \<lparr>Name = cfgName ifcfg, AssignedIP = cfgAssignedIP ifcfg, AssignedPrefix = cfgAssignedPrefix ifcfg,
          UDPAddr = cfgUDPAddr ifcfg, isDown = False, bound = False\<rparr>),
       IFNeighbors := (IFNeighbors s)(cfgName ifcfg \<mapsto> []),
       RoutingTable := (RoutingTable s)(cfgAssignedPrefix ifcfg \<mapsto>
         \<lparr>RouteTypeOf = RouteTypeLocal, EPrefix = cfgAssignedPrefix ifcfg, NextHop = NoAddr,
          LocalNextHop = cfgName ifcfg, RCost = 0, UpdatedAt = 0\<rparr>)\<rparr>"

definition initNeighbor :: "IPGlobalInfo \<Rightarrow> NeighborConfig \<Rightarrow> IPGlobalInfo" where
  "initNeighbor s ncfg =
     s\<lparr>IFNeighbors := (IFNeighbors s)(cfgInterfaceName ncfg \<mapsto>
         (case IFNeighbors s (cfgInterfaceName ncfg) of None \<Rightarrow> [] | Some ns \<Rightarrow> ns) @
         [\<lparr>VIP = cfgDestAddr ncfg, nUDPAddr = cfgNUDPAddr ncfg, IFName = cfgInterfaceName ncfg\<rparr>])\<rparr>"

text \<open>The static routes are a map: each of its entries is written once, over what the table has.\<close>

definition initRoutes :: "IPGlobalInfo \<Rightarrow> (Prefix \<rightharpoonup> Addr) \<Rightarrow> IPGlobalInfo" where
  "initRoutes s routes =
     s\<lparr>RoutingTable := (\<lambda>prefix. case routes prefix of
         None \<Rightarrow> RoutingTable s prefix
       | Some addr \<Rightarrow> Some \<lparr>RouteTypeOf = RouteTypeStatic, EPrefix = prefix, NextHop = addr,
                           LocalNextHop = [], RCost = 0, UpdatedAt = 0\<rparr>)\<rparr>"

definition Init :: "IPConfig \<Rightarrow> IPGlobalInfo" where
  "Init config =
     (let s = \<lparr>Interfaces = Map.empty, IFNeighbors = Map.empty, RoutingTable = Map.empty,
               routingMode = (if cfgRoutingMode config = RoutingTypeNone then RoutingTypeStatic
                              else cfgRoutingMode config),
               recvHandlers = Map.empty, RipNeighbors = cfgRipNeighbors config\<rparr>;
          s = foldl initInterface s (cfgInterfaces config);
          s = foldl initNeighbor s (cfgNeighbors config)
      in initRoutes s (cfgStaticRoutes config))"

text \<open>\<^verbatim>\<open>bindUDP\<close> binds the interfaces in the map's order until one fails.\<close>

fun bindUDP :: "netlib \<Rightarrow> string list \<Rightarrow> IPGlobalInfo \<Rightarrow> IPGlobalInfo" where
  "bindUDP L [] s = s"
| "bindUDP L (n # ns) s = (case Interfaces s n of
       None \<Rightarrow> bindUDP L ns s
     | Some i \<Rightarrow> if ListenUDP L (UDPAddr i)
                then bindUDP L ns (s\<lparr>Interfaces := (Interfaces s)(n \<mapsto> i\<lparr>bound := True\<rparr>)\<rparr>)
                else s)"

section \<open>Resolving a destination\<close>

text \<open>
  Go iterates over a map in an unspecified order, which may differ from one loop to the next: the
  order is an argument, the list of the table's keys as this loop meets them.
\<close>

fun lpmLoop :: "Addr \<Rightarrow> Prefix list \<Rightarrow> Prefix \<Rightarrow> int \<Rightarrow> Prefix" where
  "lpmLoop destIP [] longestPrefix maxLength = longestPrefix"
| "lpmLoop destIP (prefix # ps) longestPrefix maxLength =
     (if Contains prefix destIP \<and> Bits prefix \<ge> maxLength
      then lpmLoop destIP ps prefix (Bits prefix)
      else lpmLoop destIP ps longestPrefix maxLength)"

definition findLongestMatchedPrefix :: "Prefix list \<Rightarrow> Addr \<Rightarrow> Prefix" where
  "findLongestMatchedPrefix order destIP = lpmLoop destIP order NoPrefix 0"

text \<open>
  The search for a local entry: \<open>orders i\<close> is the iteration order of the \<open>i\<close>-th look-up. The loop
  need not end: \<open>None\<close> is "does not return".
\<close>

partial_function (option) nextHopLoop ::
    "(nat \<Rightarrow> Prefix list) \<Rightarrow> IPGlobalInfo \<Rightarrow> nat \<Rightarrow> RoutingEntry \<Rightarrow> Addr
      \<Rightarrow> (RoutingEntry option \<times> Addr) go option" where
  "nextHopLoop orders s i entry altAddr =
     (if LocalNextHop entry \<noteq> [] then Some (ok (Some entry, altAddr))
      else
        let alt' = NextHop entry;
            matchedPrefix = findLongestMatchedPrefix (orders i) (NextHop entry)
        in if \<not> PrefixValid matchedPrefix then Some (ok (None, alt'))
           else (case RoutingTable s matchedPrefix of
               None \<Rightarrow> Some (panic NilDereference)
             | Some e \<Rightarrow> nextHopLoop orders s (i + 1) e alt'))"

definition findNextHopEntry ::
    "(nat \<Rightarrow> Prefix list) \<Rightarrow> IPGlobalInfo \<Rightarrow> Addr \<Rightarrow> (RoutingEntry option \<times> Addr) go" where
  "findNextHopEntry orders s destIP =
     (let matchedPrefix = findLongestMatchedPrefix (orders 0) destIP
      in if \<not> PrefixValid matchedPrefix then ok (None, NoAddr)
         else (case RoutingTable s matchedPrefix of
             None \<Rightarrow> panic NilDereference
           | Some e \<Rightarrow> (case nextHopLoop orders s 1 e NoAddr of
               None \<Rightarrow> panic NeverReturns
             | Some r \<Rightarrow> r)))"

definition findNextHopNeighbor :: "IPGlobalInfo \<Rightarrow> string \<Rightarrow> Addr \<Rightarrow> Neighbor option" where
  "findNextHopNeighbor s ifName nexthopIP =
     (case IFNeighbors s ifName of None \<Rightarrow> None | Some ns \<Rightarrow> find (\<lambda>nbhr. VIP nbhr = nexthopIP) ns)"

definition FindLinkLayerSrcDst ::
    "(nat \<Rightarrow> Prefix list) \<Rightarrow> IPGlobalInfo \<Rightarrow> Addr \<Rightarrow> (ip_error + Interface \<times> AddrPort) go" where
  "FindLinkLayerSrcDst orders s destIP =
     bindG (findNextHopEntry orders s destIP) (\<lambda>(nextHop, altDestIP).
       case nextHop of
         None \<Rightarrow> ok (Inl NoLocalNextHop)
       | Some e \<Rightarrow>
           if LocalNextHop e = [] then ok (Inl NoLocalNextHop)
           else
             let alt = (if \<not> IsValid altDestIP then destIP else altDestIP)
             in case Interfaces s (LocalNextHop e) of
                  None \<Rightarrow> panic NilDereference
                | Some srcIF \<Rightarrow>
                    if AssignedIP srcIF = destIP then ok (Inr (srcIF, UDPAddr srcIF))
                    else (case findNextHopNeighbor s (LocalNextHop e) alt of
                        None \<Rightarrow> ok (Inl NotANeighbor)
                      | Some nbhr \<Rightarrow> ok (Inr (srcIF, nUDPAddr nbhr))))"

section \<open>Sending\<close>

text \<open>A datagram on the link layer: source and destination UDP endpoint, and its bytes.\<close>

type_synonym datagram = "AddrPort \<times> AddrPort \<times> bytes"

text \<open>
  \<^verbatim>\<open>ForwardPacket\<close>: the error, the datagram that went out, the interface (its socket may have been
  opened) and the packet (its header checksum was filled in).
\<close>

definition ForwardPacket ::
    "netlib \<Rightarrow> Interface \<Rightarrow> AddrPort \<Rightarrow> IPPacket
      \<Rightarrow> ip_error option \<times> datagram list \<times> Interface \<times> IPPacket" where
  "ForwardPacket L srcIF dst packet =
     (if isDown srcIF then (None, [], srcIF, packet)
      else if \<not> bound srcIF \<and> \<not> ListenUDP L (UDPAddr srcIF) then (Some BindFailed, [], srcIF, packet)
      else
        let srcIF' = srcIF\<lparr>bound := True\<rparr>
        in case hdr_Marshal L (Header packet) of
             None \<Rightarrow> (Some HeaderMarshal, [], srcIF', packet)
           | Some headerBytes \<Rightarrow>
               let packet' = packet\<lparr>Header := (Header packet)\<lparr>HChecksum := uint (ComputeChecksum L headerBytes)\<rparr>\<rparr>
               in case MarshalIP L packet' of
                    None \<Rightarrow> (Some HeaderMarshal, [], srcIF', packet')
                  | Some bytesToSend \<Rightarrow>
                      if WriteToUDP L bytesToSend dst
                      then (None, [(UDPAddr srcIF', dst, bytesToSend)], srcIF', packet')
                      else (Some WriteFailed, [], srcIF', packet'))"

definition IPSend ::
    "netlib \<Rightarrow> (nat \<Rightarrow> Prefix list) \<Rightarrow> IPGlobalInfo \<Rightarrow> Addr \<Rightarrow> bytes \<Rightarrow> u8
      \<Rightarrow> (ip_error option \<times> datagram list \<times> IPGlobalInfo) go" where
  "IPSend L orders s destIP msg protoNum =
     (if protoNum \<noteq> ProtoNumRIP \<and> protoNum \<noteq> ProtoNumTest \<and> protoNum \<noteq> ProtoNumTCP
      then ok (Some InvalidProtocol, [], s)
      else
        bindG (FindLinkLayerSrcDst orders s destIP) (\<lambda>r.
          case r of
            Inl e \<Rightarrow> ok (Some e, [], s)
          | Inr (srcIF, remoteAddr) \<Rightarrow>
              bindG (NewPacket (AssignedIP srcIF) destIP msg protoNum) (\<lambda>packet.
                let (err, out, srcIF', packet') = ForwardPacket L srcIF remoteAddr packet
                in ok (err, out, s\<lparr>Interfaces := (Interfaces s)(Name srcIF \<mapsto> srcIF')\<rparr>))))"

definition RegisterRecvHandler :: "IPGlobalInfo \<Rightarrow> u8 \<Rightarrow> handler \<Rightarrow> IPGlobalInfo" where
  "RegisterRecvHandler s protoNum callback = s\<lparr>recvHandlers := (recvHandlers s)(protoNum \<mapsto> callback)\<rparr>"

definition SetInterfaceIsDown :: "IPGlobalInfo \<Rightarrow> string \<Rightarrow> bool \<Rightarrow> ip_error option \<times> IPGlobalInfo" where
  "SetInterfaceIsDown s ifname down =
     (case Interfaces s ifname of
        None \<Rightarrow> (Some NoSuchInterface, s)
      | Some iface \<Rightarrow> (None, s\<lparr>Interfaces := (Interfaces s)(ifname \<mapsto> iface\<lparr>isDown := down\<rparr>)\<rparr>))"

section \<open>Receiving\<close>

text \<open>The buffer of one turn of the receive loop: \<^verbatim>\<open>MTU\<close> zero bytes with the datagram copied over.\<close>

definition recvBuffer :: "bytes \<Rightarrow> bytes" where
  "recvBuffer dgram = take MTU dgram @ replicate (MTU - length dgram) 0"

datatype received = Dropped | Handled handler IPPacket

text \<open>One turn of \<^verbatim>\<open>listenOn\<close>, from the datagram to the call of the handler.\<close>

definition listenOnStep :: "netlib \<Rightarrow> IPGlobalInfo \<Rightarrow> Interface \<Rightarrow> bytes \<Rightarrow> received go" where
  "listenOnStep L s i dgram =
     (let buf = recvBuffer dgram
      in if isDown i then ok Dropped
         else bindG (UnmarshalIP L buf) (\<lambda>r.
           case r of
             None \<Rightarrow> ok Dropped
           | Some p0 \<Rightarrow>
               let p = p0\<lparr>Header := (Header p0)\<lparr>TTL := TTL (Header p0) - 1\<rparr>\<rparr>;
                   h = Header p
               in if Dst h \<noteq> AssignedIP i \<and> TTL h \<le> 0 then ok Dropped
                  else
                    let checksumFromHeader = word_of_int (HChecksum h) :: u16
                    in bindG (slice_to buf (Len h)) (\<lambda>hb.
                         if checksumFromHeader \<noteq> ValidateIPChecksum L hb checksumFromHeader then ok Dropped
                         else (case recvHandlers s (word_of_int (Protocol h)) of
                             None \<Rightarrow> ok Dropped
                           | Some hnd \<Rightarrow> ok (Handled hnd p)))))"

text \<open>\<^verbatim>\<open>Send\<close> changes nothing but the sockets of the interfaces.\<close>

lemma IPSend_keeps:
  assumes "IPSend L orders s destIP msg protoNum = ok (err, out, s')"
  shows "RoutingTable s' = RoutingTable s \<and> IFNeighbors s' = IFNeighbors s \<and>
         recvHandlers s' = recvHandlers s \<and> RipNeighbors s' = RipNeighbors s"
  using assms
  by (auto simp: IPSend_def split: if_splits sum.splits prod.splits elim!: bindG_okE)

section \<open>Longest prefix matching\<close>

lemma lpmLoop_cases:
  "(lpmLoop ip ps l m = l \<and> (\<forall>q \<in> set ps. Contains q ip \<longrightarrow> Bits q < m)) \<or>
   (lpmLoop ip ps l m \<in> set ps \<and> Contains (lpmLoop ip ps l m) ip \<and> m \<le> Bits (lpmLoop ip ps l m) \<and>
    (\<forall>q \<in> set ps. Contains q ip \<longrightarrow> Bits q \<le> Bits (lpmLoop ip ps l m)))"
proof (induction ps arbitrary: l m)
  case (Cons p ps)
  show ?case
  proof (cases "Contains p ip \<and> m \<le> Bits p")
    case True
    then show ?thesis using Cons.IH [of p "Bits p"] by fastforce
  next
    case False
    then show ?thesis using Cons.IH [of l m] by fastforce
  qed
qed simp

lemma lpm_cases:
  obtains "findLongestMatchedPrefix order ip = NoPrefix" and "\<forall>q \<in> set order. \<not> Contains q ip"
  | "findLongestMatchedPrefix order ip \<in> set order" and "Contains (findLongestMatchedPrefix order ip) ip"
    and "\<forall>q \<in> set order. Contains q ip \<longrightarrow> Bits q \<le> Bits (findLongestMatchedPrefix order ip)"
proof (cases "\<exists>q \<in> set order. Contains q ip")
  case False
  then have "findLongestMatchedPrefix order ip = NoPrefix"
    using lpmLoop_cases [of ip order NoPrefix 0] unfolding findLongestMatchedPrefix_def by blast
  then show ?thesis using False that(1) by blast
next
  case True
  then obtain q where "q \<in> set order" "Contains q ip" "0 \<le> Bits q"
    using Contains_valid by blast
  then have "\<not> (\<forall>q \<in> set order. Contains q ip \<longrightarrow> Bits q < 0)" by force
  then show ?thesis
    using lpmLoop_cases [of ip order NoPrefix 0] that(2) unfolding findLongestMatchedPrefix_def by blast
qed

lemma NoPrefix_invalid [simp]: "\<not> PrefixValid NoPrefix"
  by (simp add: PrefixValid_def NoPrefix_def)

lemma lpm_valid_iff: "PrefixValid (findLongestMatchedPrefix order ip) \<longleftrightarrow> (\<exists>q \<in> set order. Contains q ip)"
  by (cases rule: lpm_cases [of order ip]) (auto dest: Contains_valid)

lemma lpm_in_table: "PrefixValid (findLongestMatchedPrefix order ip) \<Longrightarrow> findLongestMatchedPrefix order ip \<in> set order"
  by (cases rule: lpm_cases [of order ip]) auto

text \<open>A prefix as the configuration and RIP write them: no host bits, no zone.\<close>

definition canonical :: "Prefix \<Rightarrow> bool" where
  "canonical p \<longleftrightarrow> Masked p = p \<and> withoutZone (p_addr p) = p_addr p"

text \<open>
  C29. Longest-prefix matching: the look-up returns a table prefix that contains the destination
  and is at least as long as every other that does, and the invalid prefix exactly when none
  contains it.
\<close>

theorem lpm_longest:
  "(if \<exists>q \<in> set order. Contains q ip
    then findLongestMatchedPrefix order ip \<in> {p \<in> set order. Contains p ip} \<and>
         Bits (findLongestMatchedPrefix order ip) = Max (Bits ` {p \<in> set order. Contains p ip})
    else findLongestMatchedPrefix order ip = NoPrefix)"
proof (cases rule: lpm_cases [of order ip])
  case 2
  then have "Max (Bits ` {p \<in> set order. Contains p ip}) = Bits (findLongestMatchedPrefix order ip)"
    by (intro Max_eqI) auto
  then show ?thesis using 2(1,2) by auto
qed auto

text \<open>
  C30. On a table of canonical prefixes the look-up does not depend on the order in which Go
  iterates over the map.
\<close>

theorem lpm_order_independent:
  assumes same: "set order1 = set order2"
    and canon: "\<forall>p \<in> set order1. canonical p"
  shows "findLongestMatchedPrefix order1 ip = findLongestMatchedPrefix order2 ip"
proof (cases "\<exists>q \<in> set order1. Contains q ip")
  case False
  then show ?thesis using same
    by (cases rule: lpm_cases [of order1 ip]; cases rule: lpm_cases [of order2 ip]) auto
next
  case True
  let ?p = "findLongestMatchedPrefix order1 ip" and ?q = "findLongestMatchedPrefix order2 ip"
  have p: "?p \<in> set order1" "Contains ?p ip" "\<forall>q \<in> set order1. Contains q ip \<longrightarrow> Bits q \<le> Bits ?p"
    using True by (cases rule: lpm_cases [of order1 ip]; auto)+
  have q: "?q \<in> set order1" "Contains ?q ip" "\<forall>q \<in> set order1. Contains q ip \<longrightarrow> Bits q \<le> Bits ?q"
    using True same by (cases rule: lpm_cases [of order2 ip]; auto)+
  have bits: "Bits ?p = Bits ?q" using p q by (meson order_antisym)
  show ?thesis
  proof (rule canonical_unique [OF _ _ bits p(2) q(2)])
    have "canonical ?p" "canonical ?q" using p(1) q(1) canon by blast+
    then show "Masked ?p = ?p" "Masked ?q = ?q" "withoutZone (p_addr ?p) = p_addr ?p"
      "withoutZone (p_addr ?q) = p_addr ?q"
      by (simp_all only: canonical_def)
  qed
qed

definition demo_net :: Prefix where
  "demo_net = \<lparr>p_addr = V4 0x0a000000, p_bits = 8\<rparr>"

definition demo_subnet :: Prefix where
  "demo_subnet = \<lparr>p_addr = V4 0x0a010000, p_bits = 24\<rparr>"

lemma demo_canonical: "canonical demo_net" "canonical demo_subnet"
  by (simp_all add: canonical_def Masked_def demo_net_def demo_subnet_def PrefixValid_def)

lemma lpm_order_independent_witness:
  "findLongestMatchedPrefix [demo_net, demo_subnet] (V4 0x0a010005) =
   findLongestMatchedPrefix [demo_subnet, demo_net] (V4 0x0a010005)"
  by (rule lpm_order_independent) (auto simp: demo_canonical)

section \<open>Next hops\<close>

text \<open>A look-up never misses in a table whose keys are what the loop iterates over.\<close>

definition orders_of :: "IPGlobalInfo \<Rightarrow> (nat \<Rightarrow> Prefix list) \<Rightarrow> bool" where
  "orders_of s orders \<longleftrightarrow> (\<forall>i. set (orders i) = dom (RoutingTable s))"

lemma orders_of_hit:
  assumes "orders_of s orders" and "PrefixValid (findLongestMatchedPrefix (orders i) ip)"
  obtains e where "RoutingTable s (findLongestMatchedPrefix (orders i) ip) = Some e"
  using assms lpm_in_table [of "orders i" ip] unfolding orders_of_def by blast

lemma nextHopLoop_local:
  "LocalNextHop e \<noteq> [] \<Longrightarrow> nextHopLoop orders s i e alt = Some (ok (Some e, alt))"
  by (simp add: nextHopLoop.simps)

lemma nextHopLoop_step:
  "LocalNextHop e = [] \<Longrightarrow> RoutingTable s (findLongestMatchedPrefix (orders i) (NextHop e)) = Some e' \<Longrightarrow>
   PrefixValid (findLongestMatchedPrefix (orders i) (NextHop e)) \<Longrightarrow>
   nextHopLoop orders s i e alt = nextHopLoop orders s (Suc i) e' (NextHop e)"
  by (subst nextHopLoop.simps) (simp add: Let_def)

lemma nextHopLoop_miss:
  "LocalNextHop e = [] \<Longrightarrow> \<not> PrefixValid (findLongestMatchedPrefix (orders i) (NextHop e)) \<Longrightarrow>
   nextHopLoop orders s i e alt = Some (ok (None, NextHop e))"
  by (subst nextHopLoop.simps) (simp add: Let_def)

lemma nextHopLoop_ranked:
  fixes rank :: "Addr \<Rightarrow> nat"
  assumes ords: "orders_of s orders"
    and ranked: "\<And>i ip e. RoutingTable s (findLongestMatchedPrefix (orders i) ip) = Some e \<Longrightarrow>
                   LocalNextHop e = [] \<Longrightarrow> rank (NextHop e) < rank ip"
  shows "RoutingTable s (findLongestMatchedPrefix (orders j) ip) = Some e \<Longrightarrow>
         \<exists>r. nextHopLoop orders s i e alt = Some (ok r) \<and>
             (case fst r of None \<Rightarrow> True | Some e' \<Rightarrow> LocalNextHop e' \<noteq> [] \<and> e' \<in> ran (RoutingTable s))"
proof (induction "rank ip" arbitrary: j ip i e alt rule: less_induct)
  case less
  show ?case
  proof (cases "LocalNextHop e = []")
    case False
    then show ?thesis using less.prems by (auto simp: nextHopLoop_local ran_def)
  next
    case loc: True
    show ?thesis
    proof (cases "PrefixValid (findLongestMatchedPrefix (orders i) (NextHop e))")
      case False
      then show ?thesis using loc by (simp add: nextHopLoop_miss)
    next
      case True
      from orders_of_hit [OF ords True] obtain e' where
        e': "RoutingTable s (findLongestMatchedPrefix (orders i) (NextHop e)) = Some e'" .
      show ?thesis
        unfolding nextHopLoop_step [of e s orders i e' alt, OF loc e' True]
        by (rule less.hyps [OF ranked [OF less.prems loc] e'])
    qed
  qed
qed

text \<open>
  C34. The next-hop search returns whenever the routes are ranked, that is, whenever every hop
  through a static or RIP route leads to an address strictly closer to a local network; it then
  yields no entry or a table entry with a local interface. The result is shown, not assumed.
\<close>

theorem next_hop_found:
  fixes rank :: "Addr \<Rightarrow> nat"
  assumes ords: "orders_of s orders"
    and ranked: "\<And>i ip e. RoutingTable s (findLongestMatchedPrefix (orders i) ip) = Some e \<Longrightarrow>
                   LocalNextHop e = [] \<Longrightarrow> rank (NextHop e) < rank ip"
  shows "\<exists>r. findNextHopEntry orders s destIP = ok r \<and>
             (case fst r of None \<Rightarrow> True | Some e \<Rightarrow> LocalNextHop e \<noteq> [] \<and> e \<in> ran (RoutingTable s))"
proof (cases "PrefixValid (findLongestMatchedPrefix (orders 0) destIP)")
  case False
  then show ?thesis by (simp add: findNextHopEntry_def)
next
  case True
  from orders_of_hit [OF ords True] obtain e where
    e: "RoutingTable s (findLongestMatchedPrefix (orders 0) destIP) = Some e" .
  have "\<exists>r. nextHopLoop orders s 1 e NoAddr = Some (ok r) \<and>
      (case fst r of None \<Rightarrow> True | Some e' \<Rightarrow> LocalNextHop e' \<noteq> [] \<and> e' \<in> ran (RoutingTable s))"
    using ranked by (intro nextHopLoop_ranked [where rank = rank and j = 0, OF ords _ e]) blast
  with True e show ?thesis
    by (auto simp: findNextHopEntry_def Let_def)
qed

text \<open>A static route whose gateway resolves to that very route makes the search spin.\<close>

lemma nextHopLoop_spins:
  assumes e: "LocalNextHop e = []" "RoutingTable s p = Some e" "PrefixValid p"
    and again: "\<And>i. findLongestMatchedPrefix (orders i) (NextHop e) = p"
  shows "nextHopLoop orders s i e alt = None"
proof -
  have "e' = e \<longrightarrow> orders' = orders \<longrightarrow> s' = s \<longrightarrow> False"
    if "nextHopLoop orders' s' i e' alt = Some r" for orders' s' i e' alt r
  proof (rule nextHopLoop.raw_induct [OF _ that, where P = "\<lambda>orders' s' i e' alt r.
      e' = e \<longrightarrow> orders' = orders \<longrightarrow> s' = s \<longrightarrow> False"], intro impI)
    fix f orders' s' i e' alt r
    assume "\<And>orders' s' i e' alt r. f orders' s' i e' alt = Some r \<Longrightarrow>
        e' = e \<longrightarrow> orders' = orders \<longrightarrow> s' = s \<longrightarrow> False"
      and "e' = e" "orders' = orders" "s' = s"
      and "(if LocalNextHop e' \<noteq> [] then Some (ok (Some e', alt))
        else let alt' = NextHop e'; matchedPrefix = findLongestMatchedPrefix (orders' i) (NextHop e')
          in if \<not> PrefixValid matchedPrefix then Some (ok (None, alt'))
             else case RoutingTable s' matchedPrefix of None \<Rightarrow> Some (panic NilDereference)
               | Some e \<Rightarrow> f orders' s' (i + 1) e alt') = Some r"
    then show False using e again by (fastforce simp: Let_def)
  qed
  then show ?thesis by (metis not_None_eq)
qed

text \<open>
  C40. A route through a gateway that the table resolves to that same route (a default route via
  an address outside every local network) makes the search for any destination it is selected for
  run forever, holding the table's read lock.
\<close>

theorem next_hop_spins:
  assumes e: "LocalNextHop e = []" "RoutingTable s p = Some e" "PrefixValid p"
    and chosen: "findLongestMatchedPrefix (orders 0) destIP = p"
    and again: "\<And>i. findLongestMatchedPrefix (orders i) (NextHop e) = p"
  shows "findNextHopEntry orders s destIP = panic NeverReturns \<and>
         IPSend L orders s destIP msg ProtoNumTest = panic NeverReturns"
proof -
  have "findNextHopEntry orders s destIP = panic NeverReturns"
    using e chosen nextHopLoop_spins [OF e again] by (simp add: findNextHopEntry_def Let_def)
  then show ?thesis
    by (simp add: IPSend_def FindLinkLayerSrcDst_def)
qed

text \<open>A host on 10.1.0.0/24 with a default route, through a neighbour or through nowhere.\<close>

definition demo_default :: Prefix where
  "demo_default = \<lparr>p_addr = V4 0, p_bits = 0\<rparr>"

definition demo_config :: "Addr \<Rightarrow> IPConfig" where
  "demo_config gateway = emptyConfig
     \<lparr>cfgInterfaces := [\<lparr>cfgName = ''if0'', cfgAssignedIP = V4 0x0a010001, cfgAssignedPrefix = demo_subnet,
                        cfgUDPAddr = (V4 0x7f000001, 5000)\<rparr>],
      cfgNeighbors := [\<lparr>cfgDestAddr = V4 0x0a01000a, cfgNUDPAddr = (V4 0x7f000001, 6001),
                        cfgInterfaceName = ''if0''\<rparr>],
      cfgStaticRoutes := [demo_default \<mapsto> gateway]\<rparr>"

definition demo_orders :: "nat \<Rightarrow> Prefix list" where
  "demo_orders i = (if even i then [demo_subnet, demo_default] else [demo_default, demo_subnet])"

lemma demo_distinct [simp]: "demo_subnet \<noteq> demo_default" "demo_default \<noteq> demo_subnet"
  by (simp_all add: demo_subnet_def demo_default_def)

lemma demo_table:
  "RoutingTable (Init (demo_config g)) =
     [demo_subnet \<mapsto> \<lparr>RouteTypeOf = RouteTypeLocal, EPrefix = demo_subnet, NextHop = NoAddr,
                     LocalNextHop = ''if0'', RCost = 0, UpdatedAt = 0\<rparr>,
      demo_default \<mapsto> \<lparr>RouteTypeOf = RouteTypeStatic, EPrefix = demo_default, NextHop = g,
                     LocalNextHop = [], RCost = 0, UpdatedAt = 0\<rparr>]"
  by (auto simp: Init_def demo_config_def emptyConfig_def initRoutes_def initNeighbor_def initInterface_def
      Let_def fun_eq_iff)

lemma demo_orders_of: "orders_of (Init (demo_config g)) demo_orders"
  by (auto simp: orders_of_def demo_orders_def demo_table)

lemma demo_lpm:
  "findLongestMatchedPrefix (demo_orders i) (V4 a) = (if drop_bit 8 a = 0x0a0100 then demo_subnet else demo_default)"
  "findLongestMatchedPrefix (demo_orders i) (V6 b z) = NoPrefix"
  "findLongestMatchedPrefix (demo_orders i) NoAddr = NoPrefix"
proof -
  have "Contains demo_subnet (V4 a) \<longleftrightarrow> drop_bit 8 a = 0x0a0100" "Contains demo_default (V4 a)"
    by (auto simp: Contains_V4 demo_subnet_def demo_default_def PrefixValid_def)
  then show "findLongestMatchedPrefix (demo_orders i) (V4 a) = (if drop_bit 8 a = 0x0a0100 then demo_subnet else demo_default)"
    by (auto simp: findLongestMatchedPrefix_def demo_orders_def Bits_def demo_subnet_def demo_default_def)
qed (simp_all add: findLongestMatchedPrefix_def demo_orders_def Contains_V6 demo_subnet_def demo_default_def)

lemma demo_NoPrefix [simp]: "NoPrefix \<noteq> demo_subnet" "NoPrefix \<noteq> demo_default"
  by (simp_all add: demo_subnet_def demo_default_def NoPrefix_def)

lemma next_hop_found_witness:
  "\<exists>r. findNextHopEntry demo_orders (Init (demo_config (V4 0x0a01000a))) (V4 0x08080808) = ok r \<and>
       (case fst r of None \<Rightarrow> True
        | Some e \<Rightarrow> LocalNextHop e \<noteq> [] \<and> e \<in> ran (RoutingTable (Init (demo_config (V4 0x0a01000a)))))"
proof (rule next_hop_found [where rank = "\<lambda>ip. if ip = V4 0x0a01000a then 0 else 1"])
  show "orders_of (Init (demo_config (V4 0x0a01000a))) demo_orders" by (rule demo_orders_of)
  fix i ip e
  assume "RoutingTable (Init (demo_config (V4 0x0a01000a))) (findLongestMatchedPrefix (demo_orders i) ip) = Some e"
    and "LocalNextHop e = []"
  then show "(if NextHop e = V4 0x0a01000a then 0 else 1) < (if ip = V4 0x0a01000a then 0 else (1::nat))"
    by (cases ip) (auto simp: demo_table demo_lpm split: if_splits)
qed

lemma next_hop_spins_witness:
  "\<forall>L msg. findNextHopEntry demo_orders (Init (demo_config (V4 0x0a020001))) (V4 0x08080808) = panic NeverReturns \<and>
   IPSend L demo_orders (Init (demo_config (V4 0x0a020001))) (V4 0x08080808) msg ProtoNumTest = panic NeverReturns"
  by (intro allI, rule next_hop_spins [where p = demo_default and e = "\<lparr>RouteTypeOf = RouteTypeStatic, EPrefix = demo_default,
        NextHop = V4 0x0a020001, LocalNextHop = [], RCost = 0, UpdatedAt = 0\<rparr>"])
    (simp_all add: demo_table demo_lpm, simp add: demo_default_def PrefixValid_def)

end
