(* ===== verification/Ip_Delivery.thy ===== *)
theory Ip_Delivery imports Ip_Stack begin

text \<open>
  A packet's way from \<^verbatim>\<open>Send\<close> on one node through the receive loop of another. What is relied on of
  the third-party packages is their documented behaviour: \<^verbatim>\<open>header.Checksum\<close> computes the ones'
  complement sum of RFC 1071, and the header codec is inverse to itself on option-free IPv4
  headers and keeps the checksum in bytes 10 and 11.
\<close>

unbundle bit_operations_syntax

section \<open>The documented behaviour of the libraries\<close>

fun sum16 :: "bytes \<Rightarrow> nat" where
  "sum16 [] = 0"
| "sum16 [a] = unat a * 256"
| "sum16 (a # b # r) = unat a * 256 + unat b + sum16 r"

text \<open>End-around carry: the representative of a sum modulo \<open>65535\<close>, zero only for zero.\<close>

definition ones_fold :: "nat \<Rightarrow> nat" where
  "ones_fold v = (if v = 0 then 0 else if v mod 65535 = 0 then 65535 else v mod 65535)"

text \<open>The headers \<^verbatim>\<open>newHeader\<close> makes and the receive loop sees.\<close>

definition plain_header :: "IPv4Header \<Rightarrow> bool" where
  "plain_header h \<longleftrightarrow> Version h = 4 \<and> Len h = 20 \<and> TOS h = 0 \<and> ID h = 0 \<and> HFlags h = 0 \<and> FragOff h = 0 \<and>
     Options h = [] \<and> 0 \<le> TotalLen h \<and> TotalLen h < 65536 \<and> 0 \<le> TTL h \<and> TTL h < 256 \<and>
     0 \<le> Protocol h \<and> Protocol h < 256 \<and> (\<exists>a. Src h = V4 a) \<and> (\<exists>a. Dst h = V4 a)"

definition checksum_doc :: "netlib \<Rightarrow> bool" where
  "checksum_doc L \<longleftrightarrow> (\<forall>b c. Checksum L b c = of_nat (ones_fold (sum16 b + unat c)))"

definition header_doc :: "netlib \<Rightarrow> bool" where
  "header_doc L \<longleftrightarrow> (\<forall>h. plain_header h \<longrightarrow>
     (\<exists>b. length b = 20 \<and> b ! 10 = 0 \<and> b ! 11 = 0 \<and>
        (\<forall>c. hdr_Marshal L (h\<lparr>HChecksum := uint (c :: u16)\<rparr>) = Some (take 10 b @ PutUint16 c @ drop 12 b)) \<and>
        (\<forall>c rest. hdr_Parse L (take 10 b @ PutUint16 c @ drop 12 b @ rest) = Some (h\<lparr>HChecksum := uint (c :: u16)\<rparr>))))"

section \<open>The checksum\<close>

lemma unat_hi_lo_u16:
  "unat (ucast (drop_bit 8 u) :: u8) * 256 + unat (ucast u :: u8) = unat (u :: u16)"
proof -
  have u: "unat u < 65536" using unsigned_less [of u] by simp
  have "unat (ucast (drop_bit 8 u) :: u8) = unat u div 256"
    using u by (simp add: unsigned_ucast_eq take_bit_eq_mod drop_bit_eq_div unat_div)
  moreover have "unat (ucast u :: u8) = unat u mod 256"
    by (simp add: unsigned_ucast_eq take_bit_eq_mod)
  ultimately show ?thesis by simp
qed

lemma sum16_checksum_field:
  assumes "length b = 20" and "b ! 10 = 0" and "b ! 11 = 0"
  shows "sum16 (take 10 b @ PutUint16 c @ drop 12 b) = sum16 b + unat c"
proof -
  have c: "unat (ucast (drop_bit 8 c) :: u8) * 256 + unat (ucast c :: u8) = unat c"
    by (rule unat_hi_lo_u16)
  obtain b0 b1 b2 b3 b4 b5 b6 b7 b8 b9 b10 b11 b12 b13 b14 b15 b16 b17 b18 b19 where
    b: "b = [b0, b1, b2, b3, b4, b5, b6, b7, b8, b9, b10, b11, b12, b13, b14, b15, b16, b17, b18, b19]"
    using assms(1) by (auto simp: eval_nat_numeral length_Suc_conv)
  show ?thesis using assms(2,3) c unfolding b by (simp add: PutUint16_def)
qed

lemma ones_fold_less: "ones_fold v < 65536"
  by (auto simp: ones_fold_def intro: less_trans [of _ 65535])

lemma unat_xor_ones: "unat ((w :: u16) XOR 0xffff) = 65535 - unat w"
proof -
  have "(0xffff :: u16) = - 1" by simp
  then have "w XOR 0xffff = NOT w" by (simp only: bit.xor_one_right)
  also have "NOT w = - 1 - w" by (simp add: not_eq_complement)
  finally show ?thesis by (simp add: unat_sub [OF word_n1_ge] unsigned_minus_1_eq_mask mask_eq_exp_minus_1)
qed

text \<open>
  The receiver's test: adding the checksum to a header that holds it leaves the checksum, save for
  the checksum \<open>0\<close>, which comes back as \<open>0xffff\<close>.
\<close>

lemma checksum_validates:
  assumes cs: "checksum_doc L" and b: "length b = 20" "b ! 10 = 0" "b ! 11 = 0"
    and c: "c = ComputeChecksum L b"
  shows "ValidateIPChecksum L (take 10 b @ PutUint16 c @ drop 12 b) c = (if c = 0 then 0xffff else c)"
proof -
  define v where "v = sum16 b"
  have sum: "Checksum L b 0 = of_nat (ones_fold v)"
    using cs by (simp add: checksum_doc_def v_def)
  have uc: "unat c = 65535 - ones_fold v"
    using ones_fold_less [of v] unfolding c ComputeChecksum_def unat_xor_ones sum
    by (simp add: unat_of_nat)
  have fold: "ones_fold (v + unat c + unat c) = (if unat c = 0 then 65535 else unat c)"
  proof (cases "v = 0")
    case True
    then show ?thesis using uc by (simp add: ones_fold_def)
  next
    case False
    have le: "unat c < 65535"
      using False uc by (simp add: ones_fold_def split: if_splits)
    have "(v + unat c) mod 65535 = 0"
    proof (cases "v mod 65535 = 0")
      case True
      then show ?thesis using False uc by (simp add: ones_fold_def)
    next
      case ne: False
      then have "unat c = 65535 - v mod 65535" using False uc by (simp add: ones_fold_def)
      then have "(v + unat c) mod 65535 = (v mod 65535 + (65535 - v mod 65535)) mod 65535"
        by (metis mod_add_left_eq)
      also have "v mod 65535 + (65535 - v mod 65535) = 65535" by (simp add: less_imp_le_nat)
      finally show ?thesis by simp
    qed
    then have "(v + unat c + unat c) mod 65535 = unat c"
      using le by (metis add_0 mod_add_left_eq mod_less)
    then show ?thesis using False by (auto simp: ones_fold_def)
  qed
  have "ValidateIPChecksum L (take 10 b @ PutUint16 c @ drop 12 b) c = of_nat (ones_fold (v + unat c + unat c))"
    using cs b by (simp add: ValidateIPChecksum_def checksum_doc_def sum16_checksum_field v_def)
  also have "\<dots> = (if c = 0 then 0xffff else c)"
    unfolding fold by (simp add: unat_eq_0)
  finally show ?thesis .
qed

section \<open>Sending\<close>

lemma ForwardPacket_down: "isDown i \<Longrightarrow> ForwardPacket L i dst p = (None, [], i, p)"
  by (simp add: ForwardPacket_def)

lemma ForwardPacket_out:
  assumes "ForwardPacket L i dst p = (err, out, i', p')"
  shows "out = [] \<or> (err = None \<and> \<not> isDown i \<and>
           (\<exists>hb c. hdr_Marshal L ((Header p)\<lparr>HChecksum := c\<rparr>) = Some hb \<and> out = [(UDPAddr i, dst, hb @ Payload p)]))"
  using assms by (auto simp: ForwardPacket_def MarshalIP_def Let_def split: if_splits option.splits)

lemma ForwardPacket_sends:
  assumes "\<not> isDown i" and "bound i" and "WriteToUDP L (hb' @ Payload p) dst"
    and hb: "hdr_Marshal L (Header p) = Some hb"
    and hb': "hdr_Marshal L ((Header p)\<lparr>HChecksum := uint (ComputeChecksum L hb)\<rparr>) = Some hb'"
  shows "\<exists>p'. ForwardPacket L i dst p = (None, [(UDPAddr i, dst, hb' @ Payload p)], i, p')"
  using assms by (simp add: ForwardPacket_def MarshalIP_def Let_def)

text \<open>
  \<^verbatim>\<open>Send\<close> puts at most one datagram on the link. If it does, the error is nil, the interface is
  up, and the datagram is the marshalled header followed by the message cut at the MTU, addressed
  to what the destination resolved to; the tables stay as they were.
\<close>

theorem ip_send_at_most_one:
  assumes "IPSend L orders s destIP msg protoNum = ok (err, out, s')"
  shows "RoutingTable s' = RoutingTable s \<and> IFNeighbors s' = IFNeighbors s \<and> recvHandlers s' = recvHandlers s \<and>
    (out = [] \<or>
     (err = None \<and>
      (\<exists>srcIF remote hb c.
         FindLinkLayerSrcDst orders s destIP = ok (Inr (srcIF, remote)) \<and> \<not> isDown srcIF \<and>
         hdr_Marshal L ((newHeader (AssignedIP srcIF) destIP msg protoNum)\<lparr>HChecksum := c\<rparr>) = Some hb \<and>
         out = [(UDPAddr srcIF, remote, hb @ take 1380 msg)])))"
proof (cases "protoNum \<noteq> ProtoNumRIP \<and> protoNum \<noteq> ProtoNumTest \<and> protoNum \<noteq> ProtoNumTCP")
  case True
  then show ?thesis using assms by (simp add: IPSend_def)
next
  case False
  with assms obtain r where r: "FindLinkLayerSrcDst orders s destIP = ok r"
    by (auto simp: IPSend_def elim!: bindG_okE split: if_splits)
  show ?thesis
  proof (cases r)
    case (Inl e)
    then show ?thesis using assms r False by (auto simp: IPSend_def split: if_splits)
  next
    case (Inr x)
    obtain srcIF remote where x: "x = (srcIF, remote)" by (cases x)
    let ?p = "\<lparr>Header = newHeader (AssignedIP srcIF) destIP msg protoNum, Payload = take 1380 msg\<rparr>"
    obtain e sent i' p' where f: "ForwardPacket L srcIF remote ?p = (e, sent, i', p')"
      by (metis prod_cases4)
    have *: "out = sent" "err = e" "RoutingTable s' = RoutingTable s \<and> IFNeighbors s' = IFNeighbors s \<and> recvHandlers s' = recvHandlers s"
      using assms r False f unfolding Inr x
      by (auto simp: IPSend_def NewPacket_ok MTU_def DefaultIpHeaderLen_def split: if_splits)
    show ?thesis using ForwardPacket_out [OF f] *(3) r unfolding * Inr x by auto
  qed
qed

text \<open>
  An interface that is down is silent both ways: \<^verbatim>\<open>Send\<close> through it reports success without
  sending anything, and the receive loop drops every datagram.
\<close>

theorem ip_interface_down:
  assumes "FindLinkLayerSrcDst orders s destIP = ok (Inr (srcIF, remote))" and "isDown srcIF"
    and "Interfaces s (Name srcIF) = Some srcIF" and "protoNum \<in> {ProtoNumRIP, ProtoNumTest, ProtoNumTCP}"
  shows "IPSend L orders s destIP msg protoNum = ok (None, [], s) \<and> listenOnStep L s srcIF dgram = ok Dropped"
proof -
  have "s\<lparr>Interfaces := (Interfaces s)(Name srcIF \<mapsto> srcIF)\<rparr> = s"
    using assms(3) by (simp add: map_upd_triv)
  then show ?thesis
    using assms by (auto simp: IPSend_def NewPacket_ok ForwardPacket_down listenOnStep_def Let_def)
qed

section \<open>Delivery\<close>

lemma newHeader_plain: "plain_header (newHeader (V4 a) (V4 d) msg p)"
proof -
  have "uint p < 256" using unsigned_less [where 'a = int, of p] by simp
  then show ?thesis by (simp add: plain_header_def newHeader_def DefaultIpHeaderLen_def MTU_def)
qed

lemma newHeader_no_checksum: "(newHeader a d msg p)\<lparr>HChecksum := 0\<rparr> = newHeader a d msg p"
  by (simp add: newHeader_def)

text \<open>The checksum that \<^verbatim>\<open>ForwardPacket\<close> fills in.\<close>

definition header_checksum :: "netlib \<Rightarrow> IPv4Header \<Rightarrow> u16" where
  "header_checksum L h = (case hdr_Marshal L h of None \<Rightarrow> 0 | Some b \<Rightarrow> ComputeChecksum L b)"

lemma receive_plain:
  assumes cs: "checksum_doc L" and b: "length b = 20" "b ! 10 = 0" "b ! 11 = 0"
    and c: "c = ComputeChecksum L b"
    and parse: "\<And>rest. hdr_Parse L (take 10 b @ PutUint16 c @ drop 12 b @ rest) = Some h"
    and h: "Len h = 20" "HChecksum h = uint c" "Dst h = AssignedIP j"
    and len: "length pay \<le> 1380" and up: "\<not> isDown j"
    and hnd: "recvHandlers r (word_of_int (Protocol h)) = Some hnd"
  shows "listenOnStep L r j (take 10 b @ PutUint16 c @ drop 12 b @ pay) =
    ok (if c = 0 then Dropped
        else Handled hnd \<lparr>Header = h\<lparr>TTL := TTL h - 1\<rparr>, Payload = pay @ replicate (1380 - length pay) 0\<rparr>)"
proof -
  let ?hb = "take 10 b @ PutUint16 c @ drop 12 b"
  have hb: "length ?hb = 20" using b by simp
  have buf: "recvBuffer (take 10 b @ PutUint16 c @ drop 12 b @ pay) =
      ?hb @ pay @ replicate (1380 - length pay) 0"
    using hb len b by (simp add: recvBuffer_def MTU_def)
  have parse': "hdr_Parse L (?hb @ pay @ replicate (1380 - length pay) 0) = Some h"
    using parse [of "pay @ replicate (1380 - length pay) 0"] by simp
  have un: "UnmarshalIP L (?hb @ pay @ replicate (1380 - length pay) 0) =
      ok (Some \<lparr>Header = h, Payload = pay @ replicate (1380 - length pay) 0\<rparr>)"
    unfolding UnmarshalIP_def parse' using h(1) hb b len by (simp add: slice_from_def)
  have hdr: "slice_to (?hb @ pay @ replicate (1380 - length pay) 0) 20 = ok ?hb"
    using hb b len by (simp add: slice_to_def)
  have v: "ValidateIPChecksum L ?hb c = (if c = 0 then 0xffff else c)"
    by (rule checksum_validates [OF cs b c])
  show ?thesis
    using up hnd h hdr v
    unfolding listenOnStep_def buf Let_def un
    by (simp split: if_splits)
qed

text \<open>The way of one message, from the sender's call to the receiver's handler.\<close>

lemma ip_delivered:
  assumes h_def: "h = newHeader (V4 a) (V4 d) msg protoNum"
    and docs: "checksum_doc L" "header_doc L"
    and route: "FindLinkLayerSrcDst orders s (V4 d) = ok (Inr (i, remote))"
    and sender: "\<not> isDown i" "bound i" "AssignedIP i = V4 a" "\<forall>b. WriteToUDP L b remote"
    and proto: "protoNum \<in> {ProtoNumRIP, ProtoNumTest, ProtoNumTCP}"
    and receiver: "AssignedIP j = V4 d" "\<not> isDown j" "recvHandlers r protoNum = Some hnd"
  shows "\<exists>s' dgram. IPSend L orders s (V4 d) msg protoNum = ok (None, [(UDPAddr i, remote, dgram)], s') \<and>
    length dgram \<le> MTU \<and>
    listenOnStep L r j dgram = ok (if header_checksum L h = 0 then Dropped
      else Handled hnd \<lparr>Header = h\<lparr>TTL := 31, HChecksum := uint (header_checksum L h)\<rparr>,
                        Payload = take 1380 msg @ replicate (1380 - length msg) 0\<rparr>)"
proof -
  from docs(2) newHeader_plain [of a d msg protoNum] obtain b where
    b: "length b = 20" "b ! 10 = 0" "b ! 11 = 0"
    and m: "\<And>c. hdr_Marshal L (h\<lparr>HChecksum := uint (c :: u16)\<rparr>) = Some (take 10 b @ PutUint16 c @ drop 12 b)"
    and p: "\<And>c rest. hdr_Parse L (take 10 b @ PutUint16 c @ drop 12 b @ rest) = Some (h\<lparr>HChecksum := uint (c :: u16)\<rparr>)"
    unfolding header_doc_def h_def by blast
  have "take 10 b @ PutUint16 0 @ drop 12 b = take 10 b @ [b ! 10, b ! 11] @ drop 12 b"
    using b by (simp add: PutUint16_def)
  also have "\<dots> = b"
    using b(1) id_take_nth_drop [of 10 b] Cons_nth_drop_Suc [of 11 b] by simp
  finally have m0: "hdr_Marshal L h = Some b"
    using m [of 0] unfolding h_def by (simp add: newHeader_no_checksum)
  define c where "c = ComputeChecksum L b"
  have hc: "header_checksum L h = c" by (simp add: header_checksum_def m0 c_def)
  let ?dgram = "take 10 b @ PutUint16 c @ drop 12 b @ take 1380 msg"
  obtain p' where fwd: "ForwardPacket L i remote \<lparr>Header = h, Payload = take 1380 msg\<rparr> =
      (None, [(UDPAddr i, remote, ?dgram)], i, p')"
    using ForwardPacket_sends [of i L _ "\<lparr>Header = h, Payload = take 1380 msg\<rparr>" remote b]
      sender m0 m [of c] unfolding c_def by fastforce
  have send: "IPSend L orders s (V4 d) msg protoNum =
      ok (None, [(UDPAddr i, remote, ?dgram)], s\<lparr>Interfaces := (Interfaces s)(Name i \<mapsto> i)\<rparr>)"
    using proto route sender fwd
    by (auto simp: IPSend_def NewPacket_ok MTU_def DefaultIpHeaderLen_def h_def)
  have recv: "listenOnStep L r j ?dgram = ok (if c = 0 then Dropped
      else Handled hnd \<lparr>Header = (h\<lparr>HChecksum := uint c\<rparr>)\<lparr>TTL := TTL (h\<lparr>HChecksum := uint c\<rparr>) - 1\<rparr>,
        Payload = take 1380 msg @ replicate (1380 - length (take 1380 msg)) 0\<rparr>)"
    using receiver
    by (intro receive_plain [OF docs(1) b c_def p])
      (simp_all add: h_def newHeader_def DefaultIpHeaderLen_def)
  have "1380 - length (take 1380 msg) = 1380 - length msg" by simp
  then show ?thesis
    using send recv b hc by (intro exI conjI) (auto simp: h_def newHeader_def MTU_def)
qed

text \<open>
  C18. End to end: a message sent to a resolved neighbour goes out as one datagram of at most the
  MTU, and the receive loop of the interface that owns the destination address hands the
  registered handler a packet with the sender's source address, the TTL decremented once and the
  message cut at 1380 bytes, followed by the zeros that fill the receive buffer. The one
  exception is a header whose checksum comes out as \<open>0\<close>: the receiver drops it.
\<close>

theorem ip_delivery:
  assumes h_def: "h = newHeader (V4 a) (V4 d) msg protoNum"
    and docs: "checksum_doc L" "header_doc L"
    and route: "FindLinkLayerSrcDst orders s (V4 d) = ok (Inr (i, remote))"
    and sender: "\<not> isDown i" "bound i" "AssignedIP i = V4 a" "\<forall>b. WriteToUDP L b remote"
    and proto: "protoNum \<in> {ProtoNumRIP, ProtoNumTest, ProtoNumTCP}"
    and receiver: "AssignedIP j = V4 d" "\<not> isDown j" "recvHandlers r protoNum = Some hnd"
  shows "\<exists>s' dgram. IPSend L orders s (V4 d) msg protoNum = ok (None, [(UDPAddr i, remote, dgram)], s') \<and>
    length dgram \<le> MTU \<and>
    listenOnStep L r j dgram = ok (if header_checksum L h = 0 then Dropped
      else Handled hnd \<lparr>Header = h\<lparr>TTL := 31, HChecksum := uint (header_checksum L h)\<rparr>,
                        Payload = take 1380 msg @ replicate (1380 - length msg) 0\<rparr>)"
  using assms by (rule ip_delivered)

section \<open>The hypotheses can hold\<close>

text \<open>A codec for option-free headers, used in the witnesses only.\<close>

definition demo_bytes :: "IPv4Header \<Rightarrow> bytes" where
  "demo_bytes h = [0x45, 0] @ PutUint16 (word_of_int (TotalLen h)) @ [0, 0, 0, 0] @
     [word_of_int (TTL h), word_of_int (Protocol h)] @ PutUint16 (word_of_int (HChecksum h)) @
     AsSlice (Src h) @ AsSlice (Dst h)"

definition demo_parse :: "bytes \<Rightarrow> IPv4Header option" where
  "demo_parse b = (case (Uint16 (take 2 (drop 2 b)), Uint16 (take 2 (drop 10 b)), Uint32 (take 4 (drop 12 b)), Uint32 (take 4 (drop 16 b))) of
       (Inr l, Inr c, Inr s, Inr d) \<Rightarrow>
         Some \<lparr>Version = 4, Len = 20, TOS = 0, TotalLen = uint l, ID = 0, HFlags = 0, FragOff = 0,
               TTL = uint (b ! 8), Protocol = uint (b ! 9), HChecksum = uint c,
               Src = V4 s, Dst = V4 d, Options = []\<rparr>
     | _ \<Rightarrow> None)"

definition demo_lib :: netlib where
  "demo_lib = \<lparr>Checksum = (\<lambda>b c. of_nat (ones_fold (sum16 b + unat c))),
     hdr_Marshal = (\<lambda>h. if plain_header h then Some (demo_bytes h) else None),
     hdr_Parse = demo_parse, ListenUDP = (\<lambda>a. True), WriteToUDP = (\<lambda>b a. True)\<rparr>"

lemma demo_checksum_doc: "checksum_doc demo_lib"
  by (simp add: checksum_doc_def demo_lib_def)

lemma PutUint_split:
  obtains x y where "PutUint16 u = [x, y]"
  using that by (simp add: PutUint16_def)

lemma PutUint32_split:
  obtains x y z w where "PutUint32 u = [x, y, z, w]"
  using that by (simp add: PutUint32_def)

lemma word_of_uint_fields:
  "0 \<le> x \<Longrightarrow> x < 65536 \<Longrightarrow> uint (word_of_int x :: u16) = x"
  "0 \<le> y \<Longrightarrow> y < 256 \<Longrightarrow> uint (word_of_int y :: u8) = y"
  by (simp_all add: unsigned_of_int take_bit_int_eq_self)

lemma demo_header_doc: "header_doc demo_lib"
  unfolding header_doc_def
proof (intro allI impI)
  fix h assume h: "plain_header h"
  then obtain s d where sd: "Src h = V4 s" "Dst h = V4 d" by (auto simp: plain_header_def)
  obtain l1 l2 where l: "PutUint16 (word_of_int (TotalLen h)) = [l1, l2]" by (rule PutUint_split)
  obtain s1 s2 s3 s4 where s: "PutUint32 s = [s1, s2, s3, s4]" by (rule PutUint32_split)
  obtain d1 d2 d3 d4 where d: "PutUint32 d = [d1, d2, d3, d4]" by (rule PutUint32_split)
  have zero: "PutUint16 0 = [0, 0]" by (simp add: PutUint16_def)
  let ?b = "demo_bytes (h\<lparr>HChecksum := 0\<rparr>)"
  have len: "Uint16 [l1, l2] = ok (word_of_int (TotalLen h))" using Uint16_Put [of "word_of_int (TotalLen h)"] l by simp
  have src: "Uint32 [s1, s2, s3, s4] = ok s" using Uint32_Put [of s] s by simp
  have dst: "Uint32 [d1, d2, d3, d4] = ok d" using Uint32_Put [of d] d by simp
  have b: "?b = [0x45, 0, l1, l2, 0, 0, 0, 0, word_of_int (TTL h), word_of_int (Protocol h), 0, 0,
      s1, s2, s3, s4, d1, d2, d3, d4]"
    using sd l s d zero by (simp add: demo_bytes_def)
  have marshal: "hdr_Marshal demo_lib (h\<lparr>HChecksum := uint c\<rparr>) = Some (take 10 ?b @ PutUint16 c @ drop 12 ?b)" for c :: u16
    using h sd l s d unfolding b by (simp add: demo_lib_def demo_bytes_def plain_header_def)
  have parse: "hdr_Parse demo_lib (take 10 ?b @ PutUint16 c @ drop 12 ?b @ rest) = Some (h\<lparr>HChecksum := uint c\<rparr>)"
    for c :: u16 and rest
  proof -
    obtain c1 c2 where c: "PutUint16 c = [c1, c2]" by (rule PutUint_split)
    have cs: "Uint16 [c1, c2] = ok c" using Uint16_Put [of c] c by simp
    show ?thesis
      using h sd len src dst cs unfolding b c
      by (simp add: demo_lib_def demo_parse_def plain_header_def word_of_uint_fields ok_def)
  qed
  show "\<exists>b. length b = 20 \<and> b ! 10 = 0 \<and> b ! 11 = 0 \<and>
        (\<forall>c. hdr_Marshal demo_lib (h\<lparr>HChecksum := uint (c :: u16)\<rparr>) = Some (take 10 b @ PutUint16 c @ drop 12 b)) \<and>
        (\<forall>c rest. hdr_Parse demo_lib (take 10 b @ PutUint16 c @ drop 12 b @ rest) = Some (h\<lparr>HChecksum := uint (c :: u16)\<rparr>))"
    using marshal parse by (intro exI [of _ ?b] conjI) (auto simp: b)
qed

definition demo_host :: IPGlobalInfo where
  "demo_host = bindUDP demo_lib [''if0''] (Init (demo_config (V4 0x0a01000a)))"

definition demo_if :: "u32 \<Rightarrow> Interface" where
  "demo_if a = \<lparr>Name = ''if0'', AssignedIP = V4 a, AssignedPrefix = demo_subnet,
     UDPAddr = (V4 0x7f000001, 5000), isDown = False, bound = True\<rparr>"

lemma demo_Init:
  "Init (demo_config g) = \<lparr>Interfaces = [''if0'' \<mapsto> (demo_if 0x0a010001)\<lparr>bound := False\<rparr>],
     IFNeighbors = [''if0'' \<mapsto> [\<lparr>VIP = V4 0x0a01000a, nUDPAddr = (V4 0x7f000001, 6001), IFName = ''if0''\<rparr>]],
     RoutingTable = RoutingTable (Init (demo_config g)), routingMode = RoutingTypeStatic,
     recvHandlers = Map.empty, RipNeighbors = []\<rparr>"
  by (simp add: Init_def demo_config_def emptyConfig_def initRoutes_def initNeighbor_def initInterface_def
      Let_def demo_if_def)

lemma demo_host_eq:
  "demo_host = (Init (demo_config (V4 0x0a01000a)))\<lparr>Interfaces := [''if0'' \<mapsto> demo_if 0x0a010001]\<rparr>"
  unfolding demo_host_def by (subst (1 2) demo_Init) (simp add: demo_lib_def demo_if_def)

lemma demo_route:
  "FindLinkLayerSrcDst demo_orders demo_host (V4 0x0a01000a) = ok (Inr (demo_if 0x0a010001, (V4 0x7f000001, 6001)))"
proof -
  have n: "IFNeighbors demo_host = [''if0'' \<mapsto> [\<lparr>VIP = V4 0x0a01000a, nUDPAddr = (V4 0x7f000001, 6001), IFName = ''if0''\<rparr>]]"
    unfolding demo_host_eq by (subst demo_Init) simp
  have t: "RoutingTable demo_host demo_subnet = Some \<lparr>RouteTypeOf = RouteTypeLocal, EPrefix = demo_subnet, NextHop = NoAddr,
                     LocalNextHop = ''if0'', RCost = 0, UpdatedAt = 0\<rparr>"
    by (simp add: demo_host_eq demo_table)
  have i: "Interfaces demo_host = [''if0'' \<mapsto> demo_if 0x0a010001]" by (simp add: demo_host_eq)
  have "PrefixValid demo_subnet" by (simp add: demo_subnet_def PrefixValid_def)
  then show ?thesis
    by (simp add: FindLinkLayerSrcDst_def findNextHopEntry_def demo_lpm t nextHopLoop_local
        findNextHopNeighbor_def n i Let_def)
      (simp add: demo_if_def)
qed

lemma ip_delivery_witness:
  "\<exists>s' dgram. IPSend demo_lib demo_orders demo_host (V4 0x0a01000a) [104, 105] ProtoNumTest =
      ok (None, [(UDPAddr (demo_if 0x0a010001), (V4 0x7f000001, 6001), dgram)], s') \<and> length dgram \<le> MTU \<and>
    listenOnStep demo_lib (RegisterRecvHandler demo_host ProtoNumTest HostTestRecvHandler) (demo_if 0x0a01000a) dgram =
      ok (if header_checksum demo_lib (newHeader (V4 0x0a010001) (V4 0x0a01000a) [104, 105] ProtoNumTest) = 0 then Dropped
          else Handled HostTestRecvHandler
            \<lparr>Header = (newHeader (V4 0x0a010001) (V4 0x0a01000a) [104, 105] ProtoNumTest)\<lparr>TTL := 31,
               HChecksum := uint (header_checksum demo_lib (newHeader (V4 0x0a010001) (V4 0x0a01000a) [104, 105] ProtoNumTest))\<rparr>,
             Payload = take 1380 [104, 105] @ replicate (1380 - length [104, 105 :: u8]) 0\<rparr>)"
  by (rule ip_delivery [OF refl demo_checksum_doc demo_header_doc demo_route])
    (simp_all add: demo_if_def demo_lib_def RegisterRecvHandler_def)

lemma demo_send_ok:
  "\<exists>out s'. IPSend demo_lib demo_orders demo_host (V4 0x0a01000a) [104, 105] ProtoNumTest = ok (None, out, s') \<and> out \<noteq> []"
proof -
  have plain: "plain_header (newHeader (V4 0x0a010001) (V4 0x0a01000a) [104, 105] ProtoNumTest)"
    by (rule newHeader_plain)
  then have "plain_header ((newHeader (V4 0x0a010001) (V4 0x0a01000a) [104, 105] ProtoNumTest)\<lparr>HChecksum := c\<rparr>)" for c
    by (simp add: plain_header_def)
  with plain show ?thesis
    by (simp add: IPSend_def demo_route NewPacket_ok ForwardPacket_def MarshalIP_def demo_lib_def demo_if_def Let_def)
qed

lemma ip_send_at_most_one_witness:
  "\<exists>out s'. IPSend demo_lib demo_orders demo_host (V4 0x0a01000a) [104, 105] ProtoNumTest = ok (None, out, s') \<and> out \<noteq> [] \<and>
    (\<exists>srcIF remote hb c.
       FindLinkLayerSrcDst demo_orders demo_host (V4 0x0a01000a) = ok (Inr (srcIF, remote)) \<and> \<not> isDown srcIF \<and>
       hdr_Marshal demo_lib ((newHeader (AssignedIP srcIF) (V4 0x0a01000a) [104, 105] ProtoNumTest)\<lparr>HChecksum := c\<rparr>) = Some hb \<and>
       out = [(UDPAddr srcIF, remote, hb @ take 1380 [104, 105])])"
proof -
  obtain out s' where send: "IPSend demo_lib demo_orders demo_host (V4 0x0a01000a) [104, 105] ProtoNumTest = ok (None, out, s')"
    and ne: "out \<noteq> []"
    using demo_send_ok by blast
  then show ?thesis using ip_send_at_most_one [OF send] by blast
qed

lemma ip_interface_down_witness:
  "IPSend demo_lib demo_orders (snd (SetInterfaceIsDown demo_host ''if0'' True)) (V4 0x0a01000a) [104, 105] ProtoNumTest =
     ok (None, [], snd (SetInterfaceIsDown demo_host ''if0'' True)) \<and>
   listenOnStep demo_lib (snd (SetInterfaceIsDown demo_host ''if0'' True)) ((demo_if 0x0a010001)\<lparr>isDown := True\<rparr>) [1, 2, 3] = ok Dropped"
proof (rule ip_interface_down [where remote = "(V4 0x7f000001, 6001)"])
  let ?s = "snd (SetInterfaceIsDown demo_host ''if0'' True)"
  have s: "?s = demo_host\<lparr>Interfaces := [''if0'' \<mapsto> (demo_if 0x0a010001)\<lparr>isDown := True\<rparr>]\<rparr>"
    by (simp add: SetInterfaceIsDown_def demo_host_eq)
  have n: "IFNeighbors demo_host = [''if0'' \<mapsto> [\<lparr>VIP = V4 0x0a01000a, nUDPAddr = (V4 0x7f000001, 6001), IFName = ''if0''\<rparr>]]"
    unfolding demo_host_eq by (subst demo_Init) simp
  have v: "PrefixValid demo_subnet" by (simp add: demo_subnet_def PrefixValid_def)
  show "FindLinkLayerSrcDst demo_orders ?s (V4 0x0a01000a) =
      ok (Inr ((demo_if 0x0a010001)\<lparr>isDown := True\<rparr>, (V4 0x7f000001, 6001)))"
    unfolding s using v
    by (simp add: FindLinkLayerSrcDst_def findNextHopEntry_def demo_lpm nextHopLoop_local
        findNextHopNeighbor_def n Let_def demo_table demo_host_eq)
      (simp add: demo_if_def n [unfolded demo_host_eq, simplified])
  show "Interfaces ?s (Name ((demo_if 0x0a010001)\<lparr>isDown := True\<rparr>)) = Some ((demo_if 0x0a010001)\<lparr>isDown := True\<rparr>)"
    unfolding s by (simp add: demo_if_def)
qed simp_all

end
