(* ===== verification/Rip_Codec.thy ===== *)
theory Rip_Codec imports Netip begin

text \<open>
  RIP messages and their wire format (\<^verbatim>\<open>pkg/proto/rip.go\<close>): a command, the number of entries and
  twelve bytes per entry, everything big-endian.
\<close>

section \<open>The code\<close>

definition INFINITY :: u32 where
  "INFINITY = 16"

definition ripEntriesOffset :: nat where
  "ripEntriesOffset = 4"

record RipEntry =
  Cost :: u32
  Address :: u32
  Mask :: u32

definition RoutingCmdTypeRequest :: u16 where
  "RoutingCmdTypeRequest = 1"

definition RoutingCmdTypeResponse :: u16 where
  "RoutingCmdTypeResponse = 2"

record RipMsg =
  Command :: u16
  NumEntries :: u16
  Entries :: "RipEntry list"

datatype rip_error = InvalidInput

definition uint32ToBytes :: "u32 \<Rightarrow> bytes" where
  "uint32ToBytes u = PutUint32 u"

definition bytesToUint32 :: "bytes \<Rightarrow> u32 go" where
  "bytesToUint32 u = (if length u < 4 then ok 0 else Uint32 u)"

definition uint16ToBytes :: "u16 \<Rightarrow> bytes" where
  "uint16ToBytes u = PutUint16 u"

definition bytesToUint16 :: "bytes \<Rightarrow> u16 go" where
  "bytesToUint16 u = (if length u < 2 then ok 0 else Uint16 u)"

definition marshalEntry :: "RipEntry \<Rightarrow> bytes" where
  "marshalEntry r = uint32ToBytes (Cost r) @ uint32ToBytes (Address r) @ uint32ToBytes (Mask r)"

definition unmarshalEntry :: "bytes \<Rightarrow> (rip_error + RipEntry) go" where
  "unmarshalEntry b =
     (if length b < 12 then ok (Inl InvalidInput)
      else bindG (go_slice b 0 4) (\<lambda>s1. bindG (bytesToUint32 s1) (\<lambda>cost.
           bindG (go_slice b 4 8) (\<lambda>s2. bindG (bytesToUint32 s2) (\<lambda>addr.
           bindG (go_slice b 8 12) (\<lambda>s3. bindG (bytesToUint32 s3) (\<lambda>mask.
           ok (Inr \<lparr>Cost = cost, Address = addr, Mask = mask\<rparr>))))))))"

definition MarshalRip :: "RipMsg \<Rightarrow> bytes" where
  "MarshalRip m =
     uint16ToBytes (Command m) @ uint16ToBytes (NumEntries m) @ concat (map marshalEntry (Entries m))"

text \<open>The loop of \<^verbatim>\<open>Unmarshal\<close>: \<open>n\<close> entries from number \<open>i\<close> on.\<close>

fun unmarshalEntries :: "bytes \<Rightarrow> nat \<Rightarrow> nat \<Rightarrow> (rip_error + RipEntry list) go" where
  "unmarshalEntries b i 0 = ok (Inr [])"
| "unmarshalEntries b i (Suc n) =
     bindG (go_slice b (ripEntriesOffset + i * 12) (ripEntriesOffset + (i + 1) * 12)) (\<lambda>entryBytes.
     bindG (unmarshalEntry entryBytes) (\<lambda>r.
       case r of Inl e \<Rightarrow> ok (Inl e)
       | Inr x \<Rightarrow> bindG (unmarshalEntries b (i + 1) n) (\<lambda>rs.
           ok (case rs of Inl e \<Rightarrow> Inl e | Inr xs \<Rightarrow> Inr (x # xs)))))"

definition UnmarshalRip :: "bytes \<Rightarrow> (rip_error + RipMsg) go" where
  "UnmarshalRip b =
     bindG (go_slice b 0 2) (\<lambda>s1. bindG (bytesToUint16 s1) (\<lambda>command.
     bindG (go_slice b 2 4) (\<lambda>s2. bindG (bytesToUint16 s2) (\<lambda>num.
     bindG (unmarshalEntries b 0 (unat num)) (\<lambda>r.
       ok (case r of Inl e \<Rightarrow> Inl e
           | Inr xs \<Rightarrow> Inr \<lparr>Command = command, NumEntries = num, Entries = xs\<rparr>))))))"

section \<open>Lemmas\<close>

lemma length_marshalEntry [simp]: "length (marshalEntry r) = 12"
  by (simp add: marshalEntry_def uint32ToBytes_def)

lemma length_marshalEntries [simp]: "length (concat (map marshalEntry es)) = 12 * length es"
  by (induction es) simp_all

lemma length_MarshalRip: "length (MarshalRip m) = 4 + 12 * length (Entries m)"
  by (simp add: MarshalRip_def uint16ToBytes_def)

lemma unmarshalEntry_marshal [simp]: "unmarshalEntry (marshalEntry r) = ok (Inr r)"
  by (simp add: unmarshalEntry_def marshalEntry_def uint32ToBytes_def bytesToUint32_def)

text \<open>Twelve bytes always decode, and to an entry that encodes to them.\<close>

lemma unmarshalEntry_total:
  assumes "length b = 12"
  obtains r where "unmarshalEntry b = ok (Inr r)" and "marshalEntry r = b"
proof -
  let ?s = "\<lambda>i. take 4 (drop i b)"
  have l: "length (?s 0) = 4" "length (?s 4) = 4" "length (?s 8) = 4" using assms by simp_all
  then obtain x y z where u: "Uint32 (?s 0) = ok x" "Uint32 (?s 4) = ok y" "Uint32 (?s 8) = ok z"
    by (simp add: Uint32_def)
  let ?r = "\<lparr>Cost = x, Address = y, Mask = z\<rparr>"
  have "unmarshalEntry b = ok (Inr ?r)"
    using assms u by (simp add: unmarshalEntry_def bytesToUint32_def)
  moreover have "marshalEntry ?r = ?s 0 @ ?s 4 @ ?s 8"
    using PutUint32_Uint32 [OF l(1) u(1)] PutUint32_Uint32 [OF l(2) u(2)] PutUint32_Uint32 [OF l(3) u(3)]
    by (simp add: marshalEntry_def uint32ToBytes_def)
  moreover have "?s 0 @ ?s 4 @ ?s 8 = take (4 + (4 + 4)) b"
    by (simp only: take_add drop_drop drop_0) simp
  ultimately show ?thesis using that assms by simp
qed

lemma unmarshalEntries_marshal:
  "length pre = ripEntriesOffset + i * 12 \<Longrightarrow>
   unmarshalEntries (pre @ concat (map marshalEntry es) @ rest) i (length es) = ok (Inr es)"
proof (induction es arbitrary: pre i)
  case Nil
  then show ?case by simp
next
  case (Cons e es)
  have "unmarshalEntries ((pre @ marshalEntry e) @ concat (map marshalEntry es) @ rest) (i + 1) (length es)
      = ok (Inr es)"
    using Cons.prems by (intro Cons.IH) simp
  then show ?case
    using Cons.prems by simp
qed

lemma unmarshalEntries_short:
  "length b < ripEntriesOffset + (i + n) * 12 \<Longrightarrow> 0 < n \<Longrightarrow> unmarshalEntries b i n = panic SliceBounds"
proof (induction n arbitrary: i)
  case 0
  then show ?case by simp
next
  case (Suc n)
  show ?case
  proof (cases "ripEntriesOffset + (i + 1) * 12 \<le> length b")
    case True
    let ?e = "take 12 (drop (ripEntriesOffset + i * 12) b)"
    have "length ?e = 12" using True by simp
    then obtain r where "unmarshalEntry ?e = ok (Inr r)" by (rule unmarshalEntry_total)
    moreover have "0 < n" using True Suc.prems by (cases n) auto
    moreover have "length b < ripEntriesOffset + (i + 1 + n) * 12" using Suc.prems by simp
    ultimately show ?thesis using True Suc.IH [of "i + 1"] by simp
  next
    case False
    then show ?thesis by (simp add: go_slice_panic)
  qed
qed

lemma unmarshalEntries_total:
  "ripEntriesOffset + (i + n) * 12 \<le> length b \<Longrightarrow>
   \<exists>es. unmarshalEntries b i n = ok (Inr es) \<and> length es = n \<and>
        concat (map marshalEntry es) = take (n * 12) (drop (ripEntriesOffset + i * 12) b)"
proof (induction n arbitrary: i)
  case 0
  then show ?case by simp
next
  case (Suc n)
  let ?k = "ripEntriesOffset + i * 12"
  let ?e = "take 12 (drop ?k b)"
  have "length ?e = 12" using Suc.prems by simp
  then obtain r where r: "unmarshalEntry ?e = ok (Inr r)" "marshalEntry r = ?e"
    by (rule unmarshalEntry_total)
  obtain es where es: "unmarshalEntries b (i + 1) n = ok (Inr es)" "length es = n"
      "concat (map marshalEntry es) = take (n * 12) (drop (ripEntriesOffset + (i + 1) * 12) b)"
    using Suc.IH [of "i + 1"] Suc.prems by auto
  have "take (12 + n * 12) (drop ?k b) = ?e @ take (n * 12) (drop (?k + 12) b)"
    by (simp only: take_add drop_drop add.commute)
  also have "?k + 12 = ripEntriesOffset + (i + 1) * 12" by simp
  finally show ?case using r es Suc.prems by (simp add: add.commute)
qed

lemma UnmarshalRip_header:
  assumes "4 \<le> length b"
  obtains c n where "UnmarshalRip b = bindG (unmarshalEntries b 0 (unat n)) (\<lambda>r.
       ok (case r of Inl e \<Rightarrow> Inl e | Inr xs \<Rightarrow> Inr \<lparr>Command = c, NumEntries = n, Entries = xs\<rparr>))"
    and "PutUint16 c = take 2 b" and "PutUint16 n = take 2 (drop 2 b)"
proof -
  obtain a0 a1 a2 a3 t where b: "b = a0 # a1 # a2 # a3 # t"
    using assms by (auto simp: eval_nat_numeral Suc_le_length_iff)
  show ?thesis
    by (rule that [of "push_bit 8 (ucast a2) OR ucast a3" "push_bit 8 (ucast a0) OR ucast a1"])
      (simp_all add: b UnmarshalRip_def bytesToUint16_def Uint16_def split_u8s)
qed

section \<open>Properties\<close>

text \<open>
  RIP messages survive the wire: a message whose entry count is right decodes, from its encoding
  followed by anything at all (the receive buffer is padded), to itself.
\<close>

theorem rip_roundtrip:
  assumes "unat (NumEntries m) = length (Entries m)"
  shows "UnmarshalRip (MarshalRip m @ rest) = ok (Inr m)"
proof -
  let ?pre = "PutUint16 (Command m) @ PutUint16 (NumEntries m)"
  have "unmarshalEntries (?pre @ concat (map marshalEntry (Entries m)) @ rest) 0 (length (Entries m))
      = ok (Inr (Entries m))"
    by (rule unmarshalEntries_marshal) (simp add: ripEntriesOffset_def)
  then show ?thesis
    using assms by (simp add: UnmarshalRip_def MarshalRip_def uint16ToBytes_def bytesToUint16_def)
qed

theorem rip_roundtrip_witness:
  "UnmarshalRip (MarshalRip \<lparr>Command = 2, NumEntries = 1,
       Entries = [\<lparr>Cost = 3, Address = 167772160, Mask = 4294967040\<rparr>]\<rparr> @ [0, 0])
   = ok (Inr \<lparr>Command = 2, NumEntries = 1, Entries = [\<lparr>Cost = 3, Address = 167772160, Mask = 4294967040\<rparr>]\<rparr>)"
  by (rule rip_roundtrip) simp

text \<open>
  Decoding is defined by the length alone: with at least the header and the announced entries in
  the buffer it returns a message, with as many entries as announced, that encodes back to the bytes
  read; with fewer bytes the receiver panics. No input makes it return its error value.
\<close>

theorem rip_unmarshal_total_or_panic:
  "(if \<exists>n. 4 \<le> length b \<and> bytesToUint16 (take 2 (drop 2 b)) = ok n \<and> 4 + 12 * unat n \<le> length b
    then \<exists>m. UnmarshalRip b = ok (Inr m) \<and> length (Entries m) = unat (NumEntries m) \<and>
             MarshalRip m = take (length (MarshalRip m)) b
    else UnmarshalRip b = panic SliceBounds)"
proof (cases "4 \<le> length b")
  case False
  then show ?thesis by (cases "length b < 2") (auto simp: UnmarshalRip_def go_slice_def bytesToUint16_def Uint16_def)
next
  case True
  obtain c n where h: "UnmarshalRip b = bindG (unmarshalEntries b 0 (unat n)) (\<lambda>r.
       ok (case r of Inl e \<Rightarrow> Inl e | Inr xs \<Rightarrow> Inr \<lparr>Command = c, NumEntries = n, Entries = xs\<rparr>))"
    and cb: "PutUint16 c = take 2 b" and nb: "PutUint16 n = take 2 (drop 2 b)"
    using True by (rule UnmarshalRip_header)
  have num: "bytesToUint16 (take 2 (drop 2 b)) = ok n"
    by (simp add: bytesToUint16_def flip: nb)
  show ?thesis
  proof (cases "4 + 12 * unat n \<le> length b")
    case enough: True
    obtain es where es: "unmarshalEntries b 0 (unat n) = ok (Inr es)" "length es = unat n"
        "concat (map marshalEntry es) = take (unat n * 12) (drop 4 b)"
      using unmarshalEntries_total [of 0 "unat n" b] enough by (auto simp: ripEntriesOffset_def)
    let ?m = "\<lparr>Command = c, NumEntries = n, Entries = es\<rparr>"
    have "take (2 + (2 + unat n * 12)) b = take 2 b @ take 2 (drop 2 b) @ take (unat n * 12) (drop 4 b)"
      by (simp only: take_add drop_drop) simp
    moreover have "length (MarshalRip ?m) = 2 + (2 + unat n * 12)"
      using es(2) by (simp add: length_MarshalRip)
    ultimately have "MarshalRip ?m = take (length (MarshalRip ?m)) b"
      using es(3) by (simp only:) (simp add: MarshalRip_def uint16ToBytes_def cb nb)
    then show ?thesis using True enough num es h by auto
  next
    case False
    then have "0 < unat n" using True by (cases "unat n") auto
    then have "unmarshalEntries b 0 (unat n) = panic SliceBounds"
      using False by (intro unmarshalEntries_short) (simp_all add: ripEntriesOffset_def)
    then show ?thesis using False num h by auto
  qed
qed

end
