(* ===== verification/Vrouter.thy ===== *)
theory Vrouter imports Ip_Delivery Rip_Codec begin

text \<open>
  The router (\<^verbatim>\<open>pkg/vrouter/vrouter.go\<close> and \<^verbatim>\<open>utils.go\<close>): RIP's conversions between routing entries
  and messages, the update and the expiry of the routing table, and the handlers. The state is
  the IP layer's \<open>IPGlobalInfo\<close>. Points in time are counted in nanoseconds; the current time
  \<open>now\<close>, the iteration orders of Go maps and the value of \<^verbatim>\<open>int(math.Log2(0))\<close>, which Go leaves to
  the implementation, are arguments.
\<close>

unbundle bit_operations_syntax

section \<open>Conversions (\<^verbatim>\<open>utils.go\<close>)\<close>

definition uint32ToIp :: "u32 \<Rightarrow> Addr" where
  "uint32ToIp u = V4 u"

definition ipToUint32 :: "Addr \<Rightarrow> u32 go" where
  "ipToUint32 ip = Uint32 (AsSlice ip)"

text \<open>\<^verbatim>\<open>1 << (32 - b)\<close> is a \<^verbatim>\<open>uint32\<close>: a count of 32 or more gives \<open>0\<close>, a negative one panics.\<close>

definition prefixLenToIPMask :: "int \<Rightarrow> u32 go" where
  "prefixLenToIPMask b =
     (if 32 - b < 0 then panic NegativeShift
      else ok (NOT (push_bit (nat (32 - b)) 1 - 1)))"

text \<open>
  The integer part of the binary logarithm: \<^verbatim>\<open>int(math.Log2(float64(v)))\<close> for a 32-bit \<open>v \<noteq> 0\<close>,
  which the float format represents exactly.
\<close>

fun log2_floor :: "nat \<Rightarrow> nat" where
  "log2_floor n = (if n \<le> 1 then 0 else Suc (log2_floor (n div 2)))"

declare log2_floor.simps [simp del]

definition ipMaskToPrefixLen :: "int \<Rightarrow> u32 \<Rightarrow> int" where
  "ipMaskToPrefixLen logZero m =
     (let v = NOT m + 1
      in if v = 0 then (32 - logZero + 2 ^ 63) mod 2 ^ 64 - 2 ^ 63
         else 32 - int (log2_floor (unat v)))"

definition ripEntryOf :: "Addr \<Rightarrow> RoutingEntry \<Rightarrow> RipEntry go" where
  "ripEntryOf dest entry =
     bindG (ipToUint32 (p_addr (EPrefix entry))) (\<lambda>address.
     bindG (prefixLenToIPMask (Bits (EPrefix entry))) (\<lambda>mask.
       ok \<lparr>Cost = (if NextHop entry = dest then INFINITY else RCost entry), Address = address, Mask = mask\<rparr>))"

fun routingEntriesToRipEntries :: "RoutingEntry list \<Rightarrow> Addr \<Rightarrow> RipEntry list go" where
  "routingEntriesToRipEntries [] dest = ok []"
| "routingEntriesToRipEntries (e # es) dest =
     bindG (ripEntryOf dest e) (\<lambda>r. bindG (routingEntriesToRipEntries es dest) (\<lambda>rs. ok (r # rs)))"

definition createRipResponse :: "RoutingEntry list \<Rightarrow> Addr \<Rightarrow> bytes go" where
  "createRipResponse entries dest =
     bindG (routingEntriesToRipEntries entries dest) (\<lambda>rs.
       ok (MarshalRip \<lparr>Command = RoutingCmdTypeResponse, NumEntries = of_nat (length entries), Entries = rs\<rparr>))"

definition routingEntryOf :: "int \<Rightarrow> Addr \<Rightarrow> RipEntry \<Rightarrow> RoutingEntry" where
  "routingEntryOf logZero proposer entry =
     \<lparr>RouteTypeOf = RouteTypeRIP,
      EPrefix = PrefixFrom (uint32ToIp (Address entry)) (ipMaskToPrefixLen logZero (Mask entry)),
      NextHop = proposer, LocalNextHop = [],
      RCost = min (Cost entry + 1) INFINITY, UpdatedAt = 0\<rparr>"

definition ripEntriesToRoutingEntries :: "int \<Rightarrow> RipEntry list \<Rightarrow> Addr \<Rightarrow> RoutingEntry list" where
  "ripEntriesToRoutingEntries logZero entries proposer = map (routingEntryOf logZero proposer) entries"

section \<open>Sending\<close>

text \<open>\<open>orders k\<close> are the iteration orders of the \<open>k\<close>-th \<^verbatim>\<open>Send\<close>; its error is ignored by the caller.\<close>

fun sendRequests ::
    "netlib \<Rightarrow> (nat \<Rightarrow> nat \<Rightarrow> Prefix list) \<Rightarrow> nat \<Rightarrow> bytes \<Rightarrow> Addr list \<Rightarrow> IPGlobalInfo
      \<Rightarrow> (datagram list \<times> IPGlobalInfo) go" where
  "sendRequests L orders k requestBytes [] s = ok ([], s)"
| "sendRequests L orders k requestBytes (neighbor # ns) s =
     bindG (IPSend L (orders k) s neighbor requestBytes ProtoNumRIP) (\<lambda>(err, out, s').
     bindG (sendRequests L orders (k + 1) requestBytes ns s') (\<lambda>(outs, t). ok (out @ outs, t)))"

definition SendRipRequest ::
    "netlib \<Rightarrow> (nat \<Rightarrow> nat \<Rightarrow> Prefix list) \<Rightarrow> IPGlobalInfo \<Rightarrow> (datagram list \<times> IPGlobalInfo) go" where
  "SendRipRequest L orders s =
     sendRequests L orders 0 (MarshalRip \<lparr>Command = RoutingCmdTypeRequest, NumEntries = 0, Entries = []\<rparr>)
       (RipNeighbors s) s"

fun sendResponses ::
    "netlib \<Rightarrow> (nat \<Rightarrow> nat \<Rightarrow> Prefix list) \<Rightarrow> nat \<Rightarrow> RoutingEntry list \<Rightarrow> Addr list \<Rightarrow> IPGlobalInfo
      \<Rightarrow> (datagram list \<times> IPGlobalInfo) go" where
  "sendResponses L orders k entries [] s = ok ([], s)"
| "sendResponses L orders k entries (neighbor # ns) s =
     bindG (createRipResponse entries neighbor) (\<lambda>responseBytes.
     bindG (IPSend L (orders k) s neighbor responseBytes ProtoNumRIP) (\<lambda>(err, out, s').
     bindG (sendResponses L orders (k + 1) entries ns s') (\<lambda>(outs, t). ok (out @ outs, t))))"

definition sendRipUpdate ::
    "netlib \<Rightarrow> (nat \<Rightarrow> nat \<Rightarrow> Prefix list) \<Rightarrow> IPGlobalInfo \<Rightarrow> RoutingEntry list
      \<Rightarrow> (datagram list \<times> IPGlobalInfo) go" where
  "sendRipUpdate L orders s entries =
     (if entries = [] then ok ([], s) else sendResponses L orders 0 entries (RipNeighbors s) s)"

fun getAllEntries :: "Prefix list \<Rightarrow> IPGlobalInfo \<Rightarrow> RoutingEntry list" where
  "getAllEntries [] s = []"
| "getAllEntries (p # ps) s = (case RoutingTable s p of
       None \<Rightarrow> getAllEntries ps s
     | Some e \<Rightarrow> if RouteTypeOf e = RouteTypeRIP \<or> RouteTypeOf e = RouteTypeLocal
                then e # getAllEntries ps s else getAllEntries ps s)"

definition SendPeriodicRipUpdate ::
    "netlib \<Rightarrow> (nat \<Rightarrow> nat \<Rightarrow> Prefix list) \<Rightarrow> Prefix list \<Rightarrow> IPGlobalInfo \<Rightarrow> (datagram list \<times> IPGlobalInfo) go" where
  "SendPeriodicRipUpdate L orders order s = sendRipUpdate L orders s (getAllEntries order s)"


section \<open>The routing table\<close>

text \<open>
  One entry of a response. The second result lists the prefixes whose entries the code appends to
  \<^verbatim>\<open>updated\<close>: it appends pointers into the table, and reads them after the loop.
\<close>

definition updateEntry :: "int \<Rightarrow> RoutingEntry \<Rightarrow> (Prefix \<rightharpoonup> RoutingEntry) \<Rightarrow> (Prefix \<rightharpoonup> RoutingEntry) \<times> Prefix list" where
  "updateEntry now entry table =
     (case table (EPrefix entry) of
        Some oldEntry \<Rightarrow>
          if RouteTypeOf oldEntry \<noteq> RouteTypeRIP then (table, [])
          else if NextHop oldEntry = NextHop entry then
            (if RCost oldEntry \<noteq> RCost entry
             then (table(EPrefix entry \<mapsto> oldEntry\<lparr>UpdatedAt := now, RCost := RCost entry\<rparr>), [EPrefix entry])
             else (table(EPrefix entry \<mapsto> oldEntry\<lparr>UpdatedAt := now\<rparr>), []))
          else if RCost entry < RCost oldEntry then
            (table(EPrefix entry \<mapsto> oldEntry\<lparr>UpdatedAt := now, NextHop := NextHop entry, RCost := RCost entry\<rparr>),
             [EPrefix entry])
          else (table, [])
      | None \<Rightarrow>
          if RCost entry < INFINITY
          then (table(EPrefix entry \<mapsto> entry\<lparr>UpdatedAt := now\<rparr>), [EPrefix entry])
          else (table, []))"

fun updateEntries :: "int \<Rightarrow> RoutingEntry list \<Rightarrow> (Prefix \<rightharpoonup> RoutingEntry) \<Rightarrow> (Prefix \<rightharpoonup> RoutingEntry) \<times> Prefix list" where
  "updateEntries now [] table = (table, [])"
| "updateEntries now (e # es) table =
     (let (t1, u1) = updateEntry now e table; (t2, u2) = updateEntries now es t1 in (t2, u1 @ u2))"

definition updateRoutingTable ::
    "netlib \<Rightarrow> (nat \<Rightarrow> nat \<Rightarrow> Prefix list) \<Rightarrow> int \<Rightarrow> IPGlobalInfo \<Rightarrow> RoutingEntry list
      \<Rightarrow> (datagram list \<times> IPGlobalInfo) go" where
  "updateRoutingTable L orders now s entries =
     (let (table, updated) = updateEntries now entries (RoutingTable s)
      in sendRipUpdate L orders (s\<lparr>RoutingTable := table\<rparr>) (map (\<lambda>p. the (table p)) updated))"

text \<open>The loop of \<^verbatim>\<open>RemoveExpiredEntries\<close>, in the map's order.\<close>

fun removeExpired :: "int \<Rightarrow> Prefix list \<Rightarrow> (Prefix \<rightharpoonup> RoutingEntry) \<Rightarrow> (Prefix \<rightharpoonup> RoutingEntry) \<times> RoutingEntry list" where
  "removeExpired expiry [] table = (table, [])"
| "removeExpired expiry (prefix # ps) table =
     (case table prefix of
        None \<Rightarrow> removeExpired expiry ps table
      | Some entry \<Rightarrow>
          if RouteTypeOf entry = RouteTypeRIP \<and> UpdatedAt entry < expiry
          then (let (t, u) = removeExpired expiry ps (table(prefix := None))
                in (t, entry\<lparr>RCost := INFINITY\<rparr> # u))
          else removeExpired expiry ps table)"

definition RemoveExpiredEntries ::
    "netlib \<Rightarrow> (nat \<Rightarrow> nat \<Rightarrow> Prefix list) \<Rightarrow> Prefix list \<Rightarrow> int \<Rightarrow> IPGlobalInfo
      \<Rightarrow> (datagram list \<times> IPGlobalInfo) go" where
  "RemoveExpiredEntries L orders order now s =
     (let expiry = now - 12000000000;
          (table, updated) = removeExpired expiry order (RoutingTable s)
      in sendRipUpdate L orders (s\<lparr>RoutingTable := table\<rparr>) updated)"

section \<open>Handlers\<close>

definition ripRecvHandler ::
    "netlib \<Rightarrow> (nat \<Rightarrow> nat \<Rightarrow> Prefix list) \<Rightarrow> Prefix list \<Rightarrow> int \<Rightarrow> int \<Rightarrow> IPGlobalInfo \<Rightarrow> IPPacket
      \<Rightarrow> (datagram list \<times> IPGlobalInfo) go" where
  "ripRecvHandler L orders order logZero now s packet =
     bindG (UnmarshalRip (Payload packet)) (\<lambda>r. case r of
       Inl e \<Rightarrow> ok ([], s)
     | Inr msg \<Rightarrow>
         if Command msg = RoutingCmdTypeRequest then
           (if NumEntries msg \<noteq> 0 then ok ([], s)
            else bindG (createRipResponse (getAllEntries order s) (Src (Header packet))) (\<lambda>responseBytes.
                 bindG (IPSend L (orders 0) s (Src (Header packet)) responseBytes ProtoNumRIP) (\<lambda>(err, out, s').
                   ok (out, s'))))
         else if Command msg = RoutingCmdTypeResponse then
           updateRoutingTable L orders now s
             (ripEntriesToRoutingEntries logZero (Entries msg) (Src (Header packet)))
         else ok ([], s))"

datatype test_result = Printed IPPacket | Forwarded "datagram list" IPGlobalInfo

text \<open>A test packet for one of the router's addresses is printed, any other is forwarded.\<close>

definition routerTestRecvHandler ::
    "netlib \<Rightarrow> (nat \<Rightarrow> Prefix list) \<Rightarrow> IPGlobalInfo \<Rightarrow> IPPacket \<Rightarrow> test_result go" where
  "routerTestRecvHandler L orders s packet =
     (if \<exists>i \<in> ran (Interfaces s). Dst (Header packet) = AssignedIP i then ok (Printed packet)
      else
        let packet' = packet\<lparr>Header := (Header packet)\<lparr>HChecksum := 0\<rparr>\<rparr>
        in bindG (FindLinkLayerSrcDst orders s (Dst (Header packet))) (\<lambda>r. case r of
             Inl e \<Rightarrow> ok (Forwarded [] s)
           | Inr (srcIF, remoteAddr) \<Rightarrow>
               let (err, out, srcIF', p) = ForwardPacket L srcIF remoteAddr packet'
               in ok (Forwarded out (s\<lparr>Interfaces := (Interfaces s)(Name srcIF \<mapsto> srcIF')\<rparr>))))"

definition newRouter :: "IPConfig \<Rightarrow> IPGlobalInfo" where
  "newRouter config =
     RegisterRecvHandler (RegisterRecvHandler (Init config) ProtoNumRIP RipRecvHandler) ProtoNumTest RouterTestRecvHandler"

section \<open>Masks\<close>

lemma log2_floor_power: "log2_floor (2 ^ k) = k"
proof (induction k)
  case 0
  then show ?case by (simp add: log2_floor.simps)
next
  case (Suc k)
  have "1 \<le> (2 :: nat) ^ k" by simp
  then have "\<not> (2 :: nat) ^ Suc k \<le> 1" unfolding power_Suc by linarith
  then show ?case using Suc by (subst log2_floor.simps) simp
qed

lemma mask_inverse: "NOT (NOT ((x :: u32) - 1)) + 1 = x"
  by simp

lemma mask_length:
  assumes "0 < b" and "b \<le> 32" and "prefixLenToIPMask b = ok m"
  shows "ipMaskToPrefixLen logZero m = b"
proof -
  define k where "k = nat (32 - b)"
  have b: "b = 32 - int k" and k: "k < 32" using assms(1,2) by (auto simp: k_def)
  have m: "m = NOT (push_bit k 1 - 1)"
    using assms(3) b by (simp add: prefixLenToIPMask_def split: if_splits)
  have v: "NOT m + 1 = push_bit k 1" unfolding m by (rule mask_inverse)
  have u: "unat (push_bit k (1 :: u32)) = 2 ^ k"
  proof -
    have "(2 :: nat) ^ k < 2 ^ 32" using k by (intro power_strict_increasing) auto
    then have "unat (of_nat (2 ^ k) :: u32) = 2 ^ k" by (rule unat_of_nat_small)
    then show ?thesis by (simp add: push_bit_of_1)
  qed
  have "push_bit k (1 :: u32) \<noteq> 0" using k by auto
  then show ?thesis
    using u b by (simp only: ipMaskToPrefixLen_def v Let_def log2_floor_power if_False)
qed

section \<open>Messages\<close>

text \<open>What a RIP entry can carry: an IPv4 prefix of at least one bit.\<close>

definition sendable :: "RoutingEntry \<Rightarrow> bool" where
  "sendable e \<longleftrightarrow> (\<exists>a. p_addr (EPrefix e) = V4 a) \<and> 0 \<le> Bits (EPrefix e) \<and> Bits (EPrefix e) \<le> 32"

definition prefix_word :: "RoutingEntry \<Rightarrow> u32" where
  "prefix_word e = (case p_addr (EPrefix e) of V4 a \<Rightarrow> a | _ \<Rightarrow> 0)"

definition prefix_mask :: "RoutingEntry \<Rightarrow> u32" where
  "prefix_mask e = NOT (push_bit (nat (32 - Bits (EPrefix e))) 1 - 1)"

text \<open>What a neighbour is told about an entry: poisoned reverse for the one it was learnt from.\<close>

definition advertised :: "Addr \<Rightarrow> RoutingEntry \<Rightarrow> RipEntry" where
  "advertised dest e =
     \<lparr>Cost = (if NextHop e = dest then INFINITY else RCost e), Address = prefix_word e, Mask = prefix_mask e\<rparr>"

lemma ripEntryOf_sendable: "sendable e \<Longrightarrow> ripEntryOf dest e = ok (advertised dest e)"
  by (auto simp: sendable_def ripEntryOf_def ipToUint32_def prefixLenToIPMask_def advertised_def
      prefix_word_def prefix_mask_def)

lemma routingEntriesToRipEntries_sendable:
  "\<forall>e \<in> set es. sendable e \<Longrightarrow> routingEntriesToRipEntries es dest = ok (map (advertised dest) es)"
  by (induction es) (simp_all add: ripEntryOf_sendable)

lemma createRipResponse_sendable:
  "\<forall>e \<in> set es. sendable e \<Longrightarrow>
   createRipResponse es dest = ok (MarshalRip \<lparr>Command = RoutingCmdTypeResponse, NumEntries = of_nat (length es),
      Entries = map (advertised dest) es\<rparr>)"
  by (simp add: createRipResponse_def routingEntriesToRipEntries_sendable)

lemma UnmarshalRip_Marshal:
  assumes "unat (NumEntries m) = length (Entries m)"
  shows "UnmarshalRip (MarshalRip m @ rest) = ok (Inr m)"
proof -
  let ?pre = "PutUint16 (Command m) @ PutUint16 (NumEntries m)"
  have "unmarshalEntries (?pre @ concat (map marshalEntry (Entries m)) @ rest) 0 (length (Entries m))
      = ok (Inr (Entries m))"
    by (rule unmarshalEntries_marshal) (simp add: ripEntriesOffset_def)
  then show ?thesis
    using assms by (simp add: UnmarshalRip_def MarshalRip_def uint16ToBytes_def bytesToUint16_def)
qed

lemma learnt_prefix:
  assumes "sendable e" and "0 < Bits (EPrefix e)"
  shows "EPrefix (routingEntryOf logZero proposer (advertised dest e)) = EPrefix e"
proof -
  obtain a where a: "p_addr (EPrefix e) = V4 a" using assms by (auto simp: sendable_def)
  have "prefixLenToIPMask (Bits (EPrefix e)) = ok (prefix_mask e)"
    using assms by (simp add: prefixLenToIPMask_def prefix_mask_def sendable_def)
  then have "ipMaskToPrefixLen logZero (prefix_mask e) = Bits (EPrefix e)"
    using assms by (intro mask_length) (auto simp: sendable_def)
  then show ?thesis
    using assms a
    by (intro Prefix.equality)
      (auto simp: routingEntryOf_def advertised_def prefix_word_def uint32ToIp_def PrefixFrom_def Bits_def sendable_def)
qed

text \<open>The cost a receiver computes, as long as the advertised one is not the largest word.\<close>

lemma learnt_cost:
  assumes "c \<noteq> - 1"
  shows "unat (min (c + 1) INFINITY) = min (unat c + 1) 16"
proof -
  have "unat c \<noteq> 4294967295"
  proof
    assume "unat c = 4294967295"
    then have "c = of_nat 4294967295" by (rule unat_is_of_nat)
    then show False using assms by simp
  qed
  then have "unat c < 4294967295" using unat_less_2_32 [of c] by linarith
  then have "unat c + unat (1 :: u32) < 2 ^ 32" by simp
  then have "unat (c + 1) = unat c + unat (1 :: u32)" by (rule unat_add_small)
  then have "unat (c + 1) = unat c + 1" by simp
  then show ?thesis
    by (auto simp: min_def word_le_nat_alt INFINITY_def)
qed

section \<open>Lemmas on the table\<close>

lemma updateEntry_other: "p \<noteq> EPrefix e \<Longrightarrow> fst (updateEntry now e table) p = table p"
  by (auto simp: updateEntry_def split: option.splits)

lemma updateEntry_local:
  "t (EPrefix e) = table (EPrefix e) \<Longrightarrow>
   fst (updateEntry now e t) (EPrefix e) = fst (updateEntry now e table) (EPrefix e)"
  by (simp add: updateEntry_def split: option.splits)

lemma updateEntries_Cons:
  "fst (updateEntries now (e # es) table) = fst (updateEntries now es (fst (updateEntry now e table)))"
  "snd (updateEntries now (e # es) table) = snd (updateEntry now e table) @ snd (updateEntries now es (fst (updateEntry now e table)))"
  by (simp_all split: prod.splits)

lemma updateEntries_other:
  "p \<notin> EPrefix ` set es \<Longrightarrow> fst (updateEntries now es table) p = table p"
proof (induction es arbitrary: table)
  case (Cons e es)
  then show ?case by (simp only: updateEntries_Cons) (simp add: updateEntry_other)
qed simp

lemma updateEntries_at:
  assumes "distinct (map EPrefix es)" and "e \<in> set es"
  shows "fst (updateEntries now es table) (EPrefix e) = fst (updateEntry now e table) (EPrefix e)"
  using assms
proof (induction es arbitrary: table)
  case (Cons x es)
  show ?case
  proof (cases "e = x")
    case True
    then have "EPrefix e \<notin> EPrefix ` set es" using Cons.prems by simp
    then show ?thesis unfolding updateEntries_Cons using True by (simp add: updateEntries_other)
  next
    case False
    then have e: "e \<in> set es" using Cons.prems(2) by simp
    from e have "EPrefix e \<in> EPrefix ` set es" by (rule imageI)
    with Cons.prems(1) have ne: "EPrefix e \<noteq> EPrefix x" by auto
    have "fst (updateEntries now (x # es) table) (EPrefix e) =
        fst (updateEntry now e (fst (updateEntry now x table))) (EPrefix e)"
      unfolding updateEntries_Cons using Cons.prems(1) e by (intro Cons.IH) auto
    also have "\<dots> = fst (updateEntry now e table) (EPrefix e)"
      by (rule updateEntry_local) (rule updateEntry_other [OF ne])
    finally show ?thesis .
  qed
qed simp

text \<open>What every table of the router satisfies: keys are the entries' prefixes, costs are at most \<open>16\<close>.\<close>

definition entry_wf :: "Prefix \<Rightarrow> RoutingEntry \<Rightarrow> bool" where
  "entry_wf p e \<longleftrightarrow> EPrefix e = p \<and> RCost e \<le> INFINITY \<and> (RouteTypeOf e = RouteTypeRIP \<longrightarrow> LocalNextHop e = [])"

definition table_wf :: "(Prefix \<rightharpoonup> RoutingEntry) \<Rightarrow> bool" where
  "table_wf table \<longleftrightarrow> (\<forall>p e. table p = Some e \<longrightarrow> entry_wf p e)"

text \<open>The entries that RIP makes from a message.\<close>

definition learnt :: "RoutingEntry \<Rightarrow> bool" where
  "learnt e \<longleftrightarrow> RouteTypeOf e = RouteTypeRIP \<and> RCost e \<le> INFINITY \<and> LocalNextHop e = []"

lemma learnt_routingEntryOf: "learnt (routingEntryOf logZero proposer r)"
  by (simp add: learnt_def routingEntryOf_def)

lemma updateEntry_wf: "table_wf table \<Longrightarrow> learnt e \<Longrightarrow> table_wf (fst (updateEntry now e table))"
  by (auto simp: updateEntry_def table_wf_def entry_wf_def learnt_def split: option.splits)

lemma updateEntries_wf: "table_wf table \<Longrightarrow> \<forall>e \<in> set es. learnt e \<Longrightarrow> table_wf (fst (updateEntries now es table))"
proof (induction es arbitrary: table)
  case (Cons e es)
  then show ?case unfolding updateEntries_Cons by (simp add: updateEntry_wf)
qed simp

lemma updateEntry_fixed:
  "table p = Some e \<Longrightarrow> RouteTypeOf e \<noteq> RouteTypeRIP \<Longrightarrow> fst (updateEntry now x table) p = Some e"
  by (cases "p = EPrefix x") (auto simp: updateEntry_def split: option.splits)

lemma updateEntries_fixed:
  "table p = Some e \<Longrightarrow> RouteTypeOf e \<noteq> RouteTypeRIP \<Longrightarrow> fst (updateEntries now es table) p = Some e"
proof (induction es arbitrary: table)
  case (Cons x es)
  then show ?case unfolding updateEntries_Cons by (simp add: updateEntry_fixed)
qed simp

lemma updateEntries_updated: "p \<in> set (snd (updateEntries now es table)) \<Longrightarrow> fst (updateEntries now es table) p \<noteq> None"
proof (induction es arbitrary: table)
  case (Cons e es)
  have keep: "table p \<noteq> None \<Longrightarrow> fst (updateEntries now xs table) p \<noteq> None" for xs and table :: "Prefix \<rightharpoonup> RoutingEntry"
  proof (induction xs arbitrary: table)
    case (Cons y ys)
    have "fst (updateEntry now y table) p \<noteq> None"
      using Cons.prems by (auto simp: updateEntry_def split: option.splits)
    then show ?case unfolding updateEntries_Cons by (rule Cons.IH)
  qed simp
  have "p \<in> set (snd (updateEntry now e table)) \<Longrightarrow> fst (updateEntry now e table) p \<noteq> None"
    by (auto simp: updateEntry_def split: option.splits if_splits)
  then show ?case using Cons keep unfolding updateEntries_Cons by auto
qed simp

lemma removeExpired_spec:
  "fst (removeExpired expiry order table) p =
     (if p \<in> set order \<and> (\<exists>e. table p = Some e \<and> RouteTypeOf e = RouteTypeRIP \<and> UpdatedAt e < expiry)
      then None else table p)"
proof (induction order arbitrary: table)
  case (Cons q order)
  then show ?case by (auto simp: Let_def split_beta split: option.splits)
qed simp

lemma removeExpired_wf: "table_wf table \<Longrightarrow> table_wf (fst (removeExpired expiry order table))"
  by (auto simp: table_wf_def removeExpired_spec)

lemma sendResponses_table:
  "sendResponses L orders k es ns s = ok (out, s') \<Longrightarrow> RoutingTable s' = RoutingTable s \<and> RipNeighbors s' = RipNeighbors s"
proof (induction ns arbitrary: k s out s')
  case (Cons n ns)
  then show ?case by (fastforce elim!: bindG_okE dest: IPSend_keeps split: prod.splits)
qed simp

lemma sendRipUpdate_table:
  "sendRipUpdate L orders s es = ok (out, s') \<Longrightarrow> RoutingTable s' = RoutingTable s \<and> RipNeighbors s' = RipNeighbors s"
  by (auto simp: sendRipUpdate_def dest: sendResponses_table split: if_splits)

section \<open>The router as a state machine\<close>

text \<open>
  What can happen to a router after it was made: the IP layer starts, a RIP packet or a test packet
  arrives, one of the two timers fires, the start-up requests go out, or the user turns an interface up
  or down.
\<close>

inductive router_step :: "netlib \<Rightarrow> IPGlobalInfo \<Rightarrow> IPGlobalInfo \<Rightarrow> bool" for L where
  bind: "router_step L s (bindUDP L names s)"
| rip: "ripRecvHandler L orders order logZero now s packet = ok (out, s') \<Longrightarrow> router_step L s s'"
| test: "routerTestRecvHandler L ords s packet = ok (Forwarded out s') \<Longrightarrow> router_step L s s'"
| request: "SendRipRequest L orders s = ok (out, s') \<Longrightarrow> router_step L s s'"
| periodic: "SendPeriodicRipUpdate L orders order s = ok (out, s') \<Longrightarrow> router_step L s s'"
| expiry: "RemoveExpiredEntries L orders order now s = ok (out, s') \<Longrightarrow> router_step L s s'"
| link: "SetInterfaceIsDown s ifname down = (err, s') \<Longrightarrow> router_step L s s'"

inductive router_reachable :: "netlib \<Rightarrow> IPConfig \<Rightarrow> IPGlobalInfo \<Rightarrow> bool" for L config where
  start: "router_reachable L config (newRouter config)"
| step: "router_reachable L config s \<Longrightarrow> router_step L s s' \<Longrightarrow> router_reachable L config s'"

inductive_cases router_stepE: "router_step L s s'"

text \<open>How the table of a step's result comes from the table before it.\<close>

lemma updateRoutingTable_table:
  assumes "updateRoutingTable L orders now s es = ok (out, s')"
  shows "RoutingTable s' = fst (updateEntries now es (RoutingTable s))"
  using assms sendRipUpdate_table by (fastforce simp: updateRoutingTable_def Let_def split_beta)

lemma RemoveExpired_table:
  assumes "RemoveExpiredEntries L orders order now s = ok (out, s')"
  shows "RoutingTable s' = fst (removeExpired (now - 12000000000) order (RoutingTable s))"
  using assms sendRipUpdate_table by (fastforce simp: RemoveExpiredEntries_def Let_def split_beta)

lemma sendRequests_table:
  "sendRequests L orders k b ns s = ok (out, s') \<Longrightarrow> RoutingTable s' = RoutingTable s"
proof (induction ns arbitrary: k s out s')
  case (Cons n ns)
  then show ?case by (fastforce elim!: bindG_okE dest: IPSend_keeps split: prod.splits)
qed simp

lemma cmd_distinct [simp]: "RoutingCmdTypeResponse \<noteq> RoutingCmdTypeRequest" "RoutingCmdTypeRequest \<noteq> RoutingCmdTypeResponse"
  by (simp_all add: RoutingCmdTypeResponse_def RoutingCmdTypeRequest_def)

lemma ripRecvHandler_table:
  assumes "ripRecvHandler L orders order logZero now s packet = ok (out, s')"
  shows "RoutingTable s' = RoutingTable s \<or>
    (\<exists>es. (\<forall>e \<in> set es. learnt e) \<and> RoutingTable s' = fst (updateEntries now es (RoutingTable s)))"
proof -
  from assms obtain r where r: "UnmarshalRip (Payload packet) = ok r"
    by (auto simp: ripRecvHandler_def elim!: bindG_okE)
  show ?thesis
  proof (cases r)
    case (Inl e)
    then show ?thesis using assms r by (simp add: ripRecvHandler_def)
  next
    case (Inr msg)
    show ?thesis
    proof (cases "Command msg = RoutingCmdTypeRequest \<or> Command msg \<noteq> RoutingCmdTypeResponse")
      case True
      then show ?thesis using assms r Inr
        by (auto simp: ripRecvHandler_def elim!: bindG_okE dest: IPSend_keeps split: if_splits prod.splits)
    next
      case False
      then have "updateRoutingTable L orders now s
          (ripEntriesToRoutingEntries logZero (Entries msg) (Src (Header packet))) = ok (out, s')"
        using assms r Inr by (simp add: ripRecvHandler_def)
      note table = updateRoutingTable_table [OF this]
      show ?thesis
      proof (intro disjI2 exI conjI)
        show "\<forall>e \<in> set (ripEntriesToRoutingEntries logZero (Entries msg) (Src (Header packet))). learnt e"
          by (simp add: ripEntriesToRoutingEntries_def learnt_routingEntryOf)
      qed (rule table)
    qed
  qed
qed

lemma routerTest_table:
  "routerTestRecvHandler L ords s packet = ok (Forwarded out s') \<Longrightarrow> RoutingTable s' = RoutingTable s"
  by (auto simp: routerTestRecvHandler_def Let_def elim!: bindG_okE split: if_splits sum.splits prod.splits)

lemma bindUDP_table: "RoutingTable (bindUDP L names s) = RoutingTable s"
  by (induction L names s rule: bindUDP.induct) (auto split: option.splits)

text \<open>The three ways in which a step changes the table.\<close>

lemma router_step_table:
  assumes "router_step L s s'"
  obtains "RoutingTable s' = RoutingTable s"
  | now es where "\<forall>e \<in> set es. learnt e" and "RoutingTable s' = fst (updateEntries now es (RoutingTable s))"
  | expiry order where "RoutingTable s' = fst (removeExpired expiry order (RoutingTable s))"
  using assms
proof (cases rule: router_step.cases)
  case bind
  then show ?thesis using that(1) bindUDP_table by simp
next
  case rip
  then show ?thesis using ripRecvHandler_table that(1,2) by blast
next
  case test
  then show ?thesis using routerTest_table that(1) by blast
next
  case request
  then show ?thesis using sendRequests_table that(1) unfolding SendRipRequest_def by blast
next
  case periodic
  then show ?thesis using sendRipUpdate_table that(1) unfolding SendPeriodicRipUpdate_def by blast
next
  case expiry
  then show ?thesis using RemoveExpired_table that(3) by blast
next
  case link
  then show ?thesis using that(1) by (auto simp: SetInterfaceIsDown_def split: option.splits)
qed

text \<open>The configured table holds local and static routes only.\<close>

definition configured :: "(Prefix \<rightharpoonup> RoutingEntry) \<Rightarrow> bool" where
  "configured table \<longleftrightarrow> (\<forall>p e. table p = Some e \<longrightarrow> RouteTypeOf e \<noteq> RouteTypeRIP)"

lemma Init_interfaces:
  "configured (RoutingTable s) \<and> table_wf (RoutingTable s) \<Longrightarrow>
   configured (RoutingTable (foldl initInterface s ifs)) \<and> table_wf (RoutingTable (foldl initInterface s ifs))"
proof (induction ifs arbitrary: s)
  case (Cons i ifs)
  have "configured (RoutingTable (initInterface s i)) \<and> table_wf (RoutingTable (initInterface s i))"
    using Cons.prems by (simp add: initInterface_def configured_def table_wf_def entry_wf_def INFINITY_def)
  from Cons.IH [OF this] show ?case by simp
qed simp

lemma Init_neighbors: "RoutingTable (foldl initNeighbor s ns) = RoutingTable s"
  by (induction ns arbitrary: s) (simp_all add: initNeighbor_def)

lemma Init_table: "configured (RoutingTable (Init config)) \<and> table_wf (RoutingTable (Init config))"
proof -
  define s0 where "s0 = \<lparr>Interfaces = Map.empty, IFNeighbors = Map.empty, RoutingTable = Map.empty,
               routingMode = (if cfgRoutingMode config = RoutingTypeNone then RoutingTypeStatic
                              else cfgRoutingMode config),
               recvHandlers = Map.empty, RipNeighbors = cfgRipNeighbors config\<rparr>"
  have "configured (RoutingTable s0) \<and> table_wf (RoutingTable s0)"
    by (simp add: s0_def configured_def table_wf_def)
  from Init_interfaces [OF this, of "cfgInterfaces config"]
  show ?thesis
    unfolding Init_def Let_def s0_def [symmetric] initRoutes_def
    by (auto simp: Init_neighbors configured_def table_wf_def entry_wf_def split: option.splits)
qed

lemma newRouter_table: "RoutingTable (newRouter config) = RoutingTable (Init config)"
  by (simp add: newRouter_def RegisterRecvHandler_def)

text \<open>
  C16. However RIP packets, timers and the user interleave, the router's table stays well-formed
  (every key is its entry's prefix, no cost exceeds 16, no RIP route has an interface of its own)
  and every local and static route of the configuration stays in it unchanged.
\<close>

theorem router_table_invariant:
  assumes "router_reachable L config s"
  shows "table_wf (RoutingTable s) \<and> RoutingTable (Init config) \<subseteq>\<^sub>m RoutingTable s"
  using assms
proof (induction rule: router_reachable.induct)
  case start
  then show ?case using Init_table by (simp add: newRouter_table)
next
  case (step s s')
  have keep: "RoutingTable s' p = Some e" if "RoutingTable s p = Some e" "RouteTypeOf e \<noteq> RouteTypeRIP" for p e
    using step.hyps(2) that
    by (cases rule: router_step_table) (auto simp: updateEntries_fixed removeExpired_spec)
  have "table_wf (RoutingTable s')"
    using step.hyps(2) step.IH
    by (cases rule: router_step_table) (auto simp: updateEntries_wf removeExpired_wf)
  moreover have "RoutingTable (Init config) \<subseteq>\<^sub>m RoutingTable s'"
    unfolding map_le_def
  proof
    fix p assume "p \<in> dom (RoutingTable (Init config))"
    then obtain e where e: "RoutingTable (Init config) p = Some e" by blast
    with Init_table have "RouteTypeOf e \<noteq> RouteTypeRIP" unfolding configured_def by blast
    moreover have "RoutingTable s p = Some e" using e step.IH by (auto simp: map_le_def dest!: bspec [of _ _ p])
    ultimately show "RoutingTable (Init config) p = RoutingTable s' p" using e keep by simp
  qed
  ultimately show ?case by blast
qed

lemma router_table_invariant_witness:
  "table_wf (RoutingTable (newRouter (demo_config (V4 0x0a01000a)))) \<and>
   RoutingTable (Init (demo_config (V4 0x0a01000a))) \<subseteq>\<^sub>m RoutingTable (newRouter (demo_config (V4 0x0a01000a)))"
  by (rule router_table_invariant [of demo_lib]) (rule router_reachable.start)

text \<open>
  The distance-vector rule. A response with one entry per prefix leaves every prefix it does
  not name alone; for a prefix it names, a local or static route wins, a route through the same
  neighbour takes the announced cost, a route through another neighbour is replaced exactly when
  the announced cost is smaller, and an unknown prefix is added exactly when the cost is finite.
\<close>

theorem rip_update_rule:
  assumes "distinct (map EPrefix es)"
  shows "(\<forall>p. p \<notin> EPrefix ` set es \<longrightarrow> fst (updateEntries now es table) p = table p) \<and>
    (\<forall>e \<in> set es. fst (updateEntries now es table) (EPrefix e) =
       (case table (EPrefix e) of
          None \<Rightarrow> if RCost e < 16 then Some (e\<lparr>UpdatedAt := now\<rparr>) else None
        | Some old \<Rightarrow>
            if RouteTypeOf old \<noteq> RouteTypeRIP then Some old
            else if NextHop old = NextHop e \<or> RCost e < RCost old
            then Some (old\<lparr>NextHop := NextHop e, RCost := RCost e, UpdatedAt := now\<rparr>)
            else Some old))"
proof (intro conjI ballI allI impI)
  fix p assume "p \<notin> EPrefix ` set es"
  then show "fst (updateEntries now es table) p = table p" by (rule updateEntries_other)
next
  fix e assume "e \<in> set es"
  from updateEntries_at [OF assms this]
  show "fst (updateEntries now es table) (EPrefix e) =
       (case table (EPrefix e) of
          None \<Rightarrow> if RCost e < 16 then Some (e\<lparr>UpdatedAt := now\<rparr>) else None
        | Some old \<Rightarrow>
            if RouteTypeOf old \<noteq> RouteTypeRIP then Some old
            else if NextHop old = NextHop e \<or> RCost e < RCost old
            then Some (old\<lparr>NextHop := NextHop e, RCost := RCost e, UpdatedAt := now\<rparr>)
            else Some old)"
    by (auto simp: updateEntry_def INFINITY_def split: option.splits)
qed

definition demo_learnt :: RoutingEntry where
  "demo_learnt = \<lparr>RouteTypeOf = RouteTypeRIP, EPrefix = demo_net, NextHop = V4 0x0a01000a, LocalNextHop = [],
     RCost = 3, UpdatedAt = 0\<rparr>"

lemma rip_update_rule_witness:
  "fst (updateEntries 7 [demo_learnt] Map.empty) demo_net = Some (demo_learnt\<lparr>UpdatedAt := 7\<rparr>)"
  using rip_update_rule [of "[demo_learnt]" 7 Map.empty] by (simp add: demo_learnt_def)

lemma removeExpired_updated:
  "distinct order \<Longrightarrow> snd (removeExpired expiry order table) =
     map (\<lambda>p. (the (table p))\<lparr>RCost := INFINITY\<rparr>)
       (filter (\<lambda>p. \<exists>e. table p = Some e \<and> RouteTypeOf e = RouteTypeRIP \<and> UpdatedAt e < expiry) order)"
proof (induction order arbitrary: table)
  case (Cons p ps)
  then have "p \<notin> set ps" by simp
  then have "filter (\<lambda>q. \<exists>e. (table(p := None)) q = Some e \<and> RouteTypeOf e = RouteTypeRIP \<and> UpdatedAt e < expiry) ps =
        filter (\<lambda>q. \<exists>e. table q = Some e \<and> RouteTypeOf e = RouteTypeRIP \<and> UpdatedAt e < expiry) ps"
    by (intro filter_cong) auto
  moreover have "map (\<lambda>q. (the ((table(p := None)) q))\<lparr>RCost := INFINITY\<rparr>) (filter Q ps) =
      map (\<lambda>q. (the (table q))\<lparr>RCost := INFINITY\<rparr>) (filter Q ps)" for Q
    using \<open>p \<notin> set ps\<close> by (intro map_cong) auto
  ultimately show ?case
    using Cons by (auto simp: Let_def split_beta split: option.splits)
qed simp

text \<open>
  Expiry removes exactly the RIP routes not refreshed for more than twelve seconds, and tells
  the neighbours about exactly those, with cost 16.
\<close>

theorem rip_expiry:
  assumes "distinct order" and "set order = dom (RoutingTable s)"
  shows "RemoveExpiredEntries L orders order now s =
    (let old = (\<lambda>e. RouteTypeOf e = RouteTypeRIP \<and> UpdatedAt e < now - 12000000000);
         gone = filter (\<lambda>p. \<exists>e. RoutingTable s p = Some e \<and> old e) order
     in sendRipUpdate L orders
          (s\<lparr>RoutingTable := (\<lambda>p. case RoutingTable s p of None \<Rightarrow> None
               | Some e \<Rightarrow> if old e then None else Some e)\<rparr>)
          (map (\<lambda>p. (the (RoutingTable s p))\<lparr>RCost := 16\<rparr>) gone))"
proof -
  have "fst (removeExpired (now - 12000000000) order (RoutingTable s)) =
      (\<lambda>p. case RoutingTable s p of None \<Rightarrow> None
         | Some e \<Rightarrow> if RouteTypeOf e = RouteTypeRIP \<and> UpdatedAt e < now - 12000000000 then None else Some e)"
    using assms(2) by (auto simp: removeExpired_spec fun_eq_iff split: option.splits)
  then show ?thesis
    using removeExpired_updated [OF assms(1)]
    by (simp add: RemoveExpiredEntries_def split_beta INFINITY_def Let_def)
qed

lemma rip_expiry_witness:
  "RemoveExpiredEntries demo_lib (\<lambda>k. demo_orders) [demo_net] 20000000000
     ((newRouter emptyConfig)\<lparr>RoutingTable := [demo_net \<mapsto> demo_learnt]\<rparr>) =
   sendRipUpdate demo_lib (\<lambda>k. demo_orders)
     ((newRouter emptyConfig)\<lparr>RoutingTable := Map.empty\<rparr>) [demo_learnt\<lparr>RCost := 16\<rparr>]"
proof -
  have [simp]: "RouteTypeOf demo_learnt = RouteTypeRIP" "UpdatedAt demo_learnt = 0"
    by (simp_all add: demo_learnt_def)
  have "(\<lambda>p. case if p = demo_net then Some demo_learnt else None of None \<Rightarrow> None
      | Some e \<Rightarrow> if RouteTypeOf e = RouteTypeRIP \<and> UpdatedAt e < 8000000000 then None else Some e) = Map.empty"
    by (auto simp: fun_eq_iff)
  then show ?thesis
    by (subst rip_expiry) (simp_all add: Let_def)
qed

text \<open>
  C31. What a neighbour learns. A response made for a neighbour \<open>dest\<close> decodes, whatever bytes pad it,
  to a message from which the neighbour makes routes for the same prefixes through the sender, at
  one more than the sender's cost and at most 16; the routes that the sender has through \<open>dest\<close>
  itself come back at cost 16 (split horizon with poisoned reverse).
\<close>

theorem rip_advertise_learn:
  assumes "\<forall>e \<in> set es. sendable e \<and> 0 < Bits (EPrefix e) \<and> RCost e \<le> INFINITY" and "length es < 2 ^ 16"
  shows "\<exists>b msg. createRipResponse es dest = ok b \<and> (\<forall>pad. UnmarshalRip (b @ pad) = ok (Inr msg)) \<and>
    Command msg = RoutingCmdTypeResponse \<and>
    map (\<lambda>e. (EPrefix e, NextHop e, RouteTypeOf e, unat (RCost e))) (ripEntriesToRoutingEntries logZero (Entries msg) me) =
    map (\<lambda>e. (EPrefix e, me, RouteTypeRIP, if NextHop e = dest then 16 else min (unat (RCost e) + 1) 16)) es"
proof -
  let ?msg = "\<lparr>Command = RoutingCmdTypeResponse, NumEntries = of_nat (length es), Entries = map (advertised dest) es\<rparr>"
  have "createRipResponse es dest = ok (MarshalRip ?msg)"
    using assms(1) by (intro createRipResponse_sendable) blast
  moreover have "UnmarshalRip (MarshalRip ?msg @ pad) = ok (Inr ?msg)" for pad
    using assms(2) by (intro UnmarshalRip_Marshal) (simp add: unat_of_nat)
  moreover have "RCost (routingEntryOf logZero me (advertised dest e)) =
      min ((if NextHop e = dest then INFINITY else RCost e) + 1) INFINITY" for e
    by (simp add: routingEntryOf_def advertised_def)
  moreover have "unat (min ((if NextHop e = dest then INFINITY else RCost e) + 1) INFINITY) =
      (if NextHop e = dest then 16 else min (unat (RCost e) + 1) 16)" if "e \<in> set es" for e
  proof -
    have "RCost e \<le> 16" using assms(1) that by (simp add: INFINITY_def)
    then have "RCost e \<noteq> - 1"
      by (auto simp: word_le_nat_alt unsigned_minus_1_eq_mask mask_eq_exp_minus_1)
    then show ?thesis
      using learnt_cost [of "RCost e"] learnt_cost [of INFINITY] by (auto simp: INFINITY_def)
  qed
  ultimately show ?thesis
    using assms(1) learnt_prefix
    by (intro exI conjI)
      (auto simp: ripEntriesToRoutingEntries_def, auto simp: routingEntryOf_def)
qed

lemma demo_sendable: "sendable demo_learnt" "0 < Bits (EPrefix demo_learnt)" "RCost demo_learnt \<le> INFINITY"
  by (simp_all add: sendable_def demo_learnt_def demo_net_def Bits_def INFINITY_def)

lemma rip_advertise_learn_witness:
  "\<exists>b msg. createRipResponse [demo_learnt, demo_learnt\<lparr>NextHop := V4 7\<rparr>] (V4 0x0a01000a) = ok b \<and>
    (\<forall>pad. UnmarshalRip (b @ pad) = ok (Inr msg)) \<and>
    map (\<lambda>e. (EPrefix e, NextHop e, RouteTypeOf e, unat (RCost e))) (ripEntriesToRoutingEntries 0 (Entries msg) (V4 5)) =
    [(demo_net, V4 5, RouteTypeRIP, 16), (demo_net, V4 5, RouteTypeRIP, 4)]"
proof -
  have "\<forall>e \<in> set [demo_learnt, demo_learnt\<lparr>NextHop := V4 7\<rparr>]. sendable e \<and> 0 < Bits (EPrefix e) \<and> RCost e \<le> INFINITY"
    using demo_sendable by (simp add: sendable_def)
  from rip_advertise_learn [OF this, of "V4 0x0a01000a" 0 "V4 5"] obtain b msg where
    b: "createRipResponse [demo_learnt, demo_learnt\<lparr>NextHop := V4 7\<rparr>] (V4 0x0a01000a) = ok b"
      "\<forall>pad. UnmarshalRip (b @ pad) = ok (Inr msg)"
    and m: "map (\<lambda>e. (EPrefix e, NextHop e, RouteTypeOf e, unat (RCost e))) (ripEntriesToRoutingEntries 0 (Entries msg) (V4 5)) =
      map (\<lambda>e. (EPrefix e, V4 5, RouteTypeRIP, if NextHop e = V4 0x0a01000a then 16 else min (unat (RCost e) + 1) 16))
        [demo_learnt, demo_learnt\<lparr>NextHop := V4 7\<rparr>]"
    by auto
  have "map (\<lambda>e. (EPrefix e, V4 5, RouteTypeRIP, if NextHop e = V4 0x0a01000a then 16 else min (unat (RCost e) + 1) 16))
      [demo_learnt, demo_learnt\<lparr>NextHop := V4 7\<rparr>] = [(demo_net, V4 5, RouteTypeRIP, 16), (demo_net, V4 5, RouteTypeRIP, 4)]"
    by (simp add: demo_learnt_def)
  with m b show ?thesis by (intro exI [of _ b] exI [of _ msg]) (simp only: simp_thms)
qed

lemma PutUint16_inject: "PutUint16 x = PutUint16 y \<Longrightarrow> x = y"
  by (metis Uint16_Put ok_eq_iff)

lemma UnmarshalRip_truncated:
  assumes n: "unat (NumEntries m) = length (Entries m)" and k: "4 \<le> k" "k < 4 + 12 * length (Entries m)"
  shows "UnmarshalRip (take k (MarshalRip m)) = panic SliceBounds"
proof -
  let ?b = "take k (MarshalRip m)"
  have len: "length ?b = k" using k by (simp add: length_MarshalRip)
  obtain c x where h: "UnmarshalRip ?b = bindG (unmarshalEntries ?b 0 (unat x)) (\<lambda>r.
       ok (case r of Inl e \<Rightarrow> Inl e | Inr xs \<Rightarrow> Inr \<lparr>Command = c, NumEntries = x, Entries = xs\<rparr>))"
    and x: "PutUint16 x = take 2 (drop 2 ?b)"
    by (rule UnmarshalRip_header [of ?b]) (use k len in auto)
  have "take 2 (drop 2 ?b) = take (min 2 (k - 2)) (drop 2 (MarshalRip m))"
    by (simp add: drop_take min.commute)
  also have "min 2 (k - 2) = 2" using k by simp
  also have "take 2 (drop 2 (MarshalRip m)) = PutUint16 (NumEntries m)"
    by (simp add: MarshalRip_def uint16ToBytes_def)
  finally have "x = NumEntries m" using x PutUint16_inject by metis
  moreover have "unmarshalEntries ?b 0 (unat (NumEntries m)) = panic SliceBounds"
    using k n len by (intro unmarshalEntries_short) (auto simp: ripEntriesOffset_def)
  ultimately show ?thesis by (simp add: h)
qed

text \<open>
  A router with more than 114 routes to announce makes a response longer than a packet can
  carry; the IP layer cuts it, and every router that receives it panics.
\<close>

theorem rip_large_table_panics:
  assumes "\<forall>e \<in> set es. sendable e" and "114 < length es" and "length es < 2 ^ 16"
    and "Payload packet = take 1380 (MarshalRip \<lparr>Command = RoutingCmdTypeResponse,
           NumEntries = of_nat (length es), Entries = map (advertised dest) es\<rparr>)"
  shows "createRipResponse es dest = ok (MarshalRip \<lparr>Command = RoutingCmdTypeResponse,
           NumEntries = of_nat (length es), Entries = map (advertised dest) es\<rparr>) \<and>
         ripRecvHandler L orders order logZero now s packet = panic SliceBounds"
proof
  show "createRipResponse es dest = ok (MarshalRip \<lparr>Command = RoutingCmdTypeResponse,
           NumEntries = of_nat (length es), Entries = map (advertised dest) es\<rparr>)"
    by (rule createRipResponse_sendable [OF assms(1)])
  have "UnmarshalRip (Payload packet) = panic SliceBounds"
    unfolding assms(4) using assms(2,3) by (intro UnmarshalRip_truncated) (simp_all add: unat_of_nat)
  then show "ripRecvHandler L orders order logZero now s packet = panic SliceBounds"
    by (simp add: ripRecvHandler_def)
qed

lemma rip_large_table_panics_witness:
  "\<exists>packet. \<forall>L orders order logZero now s.
     createRipResponse (replicate 115 demo_learnt) (V4 7) = ok (MarshalRip \<lparr>Command = RoutingCmdTypeResponse,
           NumEntries = of_nat (length (replicate 115 demo_learnt)),
           Entries = map (advertised (V4 7)) (replicate 115 demo_learnt)\<rparr>) \<and>
     ripRecvHandler L orders order logZero now s packet = panic SliceBounds"
proof (rule exI, intro allI)
  fix L orders order logZero now s
  let ?es = "replicate 115 demo_learnt"
  show "createRipResponse ?es (V4 7) = ok (MarshalRip \<lparr>Command = RoutingCmdTypeResponse,
           NumEntries = of_nat (length ?es), Entries = map (advertised (V4 7)) ?es\<rparr>) \<and>
     ripRecvHandler L orders order logZero now s
       \<lparr>Header = newHeader (V4 1) (V4 2) [] ProtoNumRIP, Payload = take 1380 (MarshalRip \<lparr>Command = RoutingCmdTypeResponse,
           NumEntries = of_nat (length ?es), Entries = map (advertised (V4 7)) ?es\<rparr>)\<rparr> = panic SliceBounds"
    by (rule rip_large_table_panics) (simp_all add: demo_sendable)
qed

text \<open>
  Two announcements that come out wrong: an entry at the largest cost, unreachable to any
  reader, is learnt at cost 0, better than every other; and an entry with mask 0, a default route,
  is learnt under an invalid prefix that matches no destination (\<^verbatim>\<open>int(-Inf)\<close> is \<open>- 2 ^ 63\<close> on
  amd64).
\<close>

theorem rip_cost_and_default_route:
  "RCost (routingEntryOf logZero proposer \<lparr>Cost = 0xffffffff, Address = a, Mask = m\<rparr>) = 0 \<and>
   (prefixLenToIPMask 0 = ok 0 \<and>
    \<not> Contains (EPrefix (routingEntryOf (- (2 ^ 63)) proposer \<lparr>Cost = c, Address = a, Mask = 0\<rparr>)) ip)"
proof -
  have "\<not> PrefixValid (EPrefix (routingEntryOf (- (2 ^ 63)) proposer \<lparr>Cost = c, Address = a, Mask = 0\<rparr>))"
    by (simp add: routingEntryOf_def ipMaskToPrefixLen_def PrefixFrom_def PrefixValid_def)
  then show ?thesis
    by (auto simp: routingEntryOf_def prefixLenToIPMask_def INFINITY_def min_def dest: Contains_valid)
qed

end
