(* ===== verification/Rip_Network.thy ===== *)
theory Rip_Network imports Vrouter begin

text \<open>
  Several routers that run RIP with each other. A network is a router for each number; a link is one
  direction of an adjacency, with the address that the sender's packets come from and the address to which
  the sender tells its routes. The theory composes the definitions of \<open>Vrouter\<close>: what the responses of one
  router do to the table of the next, for every interleaving of messages that the links may delay, lose,
  repeat and reorder, and for rounds in which every router tells each neighbour its table.
\<close>

section \<open>The network\<close>

type_synonym net = "nat \<Rightarrow> IPGlobalInfo"

record link =
  lfrom :: nat
  lto :: nat
  lsrc :: Addr
  ldst :: Addr

text \<open>Every address belongs to one router.\<close>

definition links_ok :: "(Addr \<Rightarrow> nat) \<Rightarrow> link list \<Rightarrow> bool" where
  "links_ok owner ls \<longleftrightarrow> (\<forall>l \<in> set ls. owner (lsrc l) = lfrom l \<and> owner (ldst l) = lto l \<and> IsValid (ldst l))"

text \<open>Interfaces with IPv4 prefixes of at least one bit: the routes that a RIP message can carry.\<close>

definition plain_config :: "IPConfig \<Rightarrow> bool" where
  "plain_config config \<longleftrightarrow> (\<forall>i \<in> set (cfgInterfaces config).
     (\<exists>a. p_addr (cfgAssignedPrefix i) = V4 a) \<and> 0 < Bits (cfgAssignedPrefix i) \<and> Bits (cfgAssignedPrefix i) \<le> 32)"

definition plain_net :: "net \<Rightarrow> bool" where
  "plain_net N \<longleftrightarrow> (\<forall>u p e. RoutingTable (N u) p = Some e \<longrightarrow> entry_wf p e \<and> RouteTypeOf e \<noteq> RouteTypeRIP \<and>
     (RouteTypeOf e = RouteTypeLocal \<longrightarrow> sendable e \<and> 0 < Bits p \<and> RCost e = 0 \<and> NextHop e = NoAddr))"

text \<open>
  \<open>hops N ls p k u\<close>: from router \<open>u\<close> there is a way of at most \<open>k\<close> links to a router with an interface on
  \<open>p\<close>, through routers that have no route of their own for \<open>p\<close>.
\<close>

fun hops :: "net \<Rightarrow> link list \<Rightarrow> Prefix \<Rightarrow> nat \<Rightarrow> nat \<Rightarrow> bool" where
  "hops N ls p 0 u = (case RoutingTable (N u) p of None \<Rightarrow> False | Some e \<Rightarrow> RouteTypeOf e = RouteTypeLocal)"
| "hops N ls p (Suc k) u =
     (hops N ls p k u \<or> RoutingTable (N u) p = None \<and> (\<exists>l \<in> set ls. lto l = u \<and> hops N ls p k (lfrom l)))"

definition distance :: "net \<Rightarrow> link list \<Rightarrow> Prefix \<Rightarrow> nat \<Rightarrow> nat \<Rightarrow> bool" where
  "distance N ls p k u \<longleftrightarrow> hops N ls p k u \<and> (\<forall>i < k. \<not> hops N ls p i u)"

lemma hops_mono: "hops N ls p i u \<Longrightarrow> i \<le> k \<Longrightarrow> hops N ls p k u"
  by (induction k) (auto simp: le_Suc_eq)

lemma hops_Suc: "RoutingTable (N u) p = None \<Longrightarrow> l \<in> set ls \<Longrightarrow> lto l = u \<Longrightarrow> hops N ls p k (lfrom l) \<Longrightarrow> hops N ls p (Suc k) u"
  by auto

lemma hops_local: "hops N ls p 0 u \<longleftrightarrow> (\<exists>e. RoutingTable (N u) p = Some e \<and> RouteTypeOf e = RouteTypeLocal)"
  by (simp split: option.splits)

lemma distance_le: "distance N ls p k u \<Longrightarrow> hops N ls p i u \<Longrightarrow> k \<le> i"
  by (auto simp: distance_def not_less [symmetric])

text \<open>The last link of a shortest way.\<close>

lemma distance_Suc:
  assumes "distance N ls p (Suc k) u"
  shows "RoutingTable (N u) p = None \<and> (\<exists>l \<in> set ls. lto l = u \<and> distance N ls p k (lfrom l))"
proof -
  from assms have "hops N ls p (Suc k) u" "\<not> hops N ls p k u" by (simp_all add: distance_def del: hops.simps)
  then obtain l where l: "RoutingTable (N u) p = None" "l \<in> set ls" "lto l = u" "hops N ls p k (lfrom l)" by auto
  have "\<not> hops N ls p i (lfrom l)" if "i < k" for i
  proof
    assume "hops N ls p i (lfrom l)"
    with l have "hops N ls p (Suc i) u" by (intro hops_Suc)
    then show False using assms that by (auto simp: distance_def simp del: hops.simps)
  qed
  then show ?thesis using l by (auto simp: distance_def simp del: hops.simps)
qed

section \<open>What one response does to a table\<close>

text \<open>What the handler makes of its table when the payload \<open>b\<close> comes from \<open>src\<close>.\<close>

definition rip_table :: "int \<Rightarrow> int \<Rightarrow> Addr \<Rightarrow> bytes \<Rightarrow> (Prefix \<rightharpoonup> RoutingEntry) \<Rightarrow> (Prefix \<rightharpoonup> RoutingEntry) go" where
  "rip_table logZero now src b table =
     bindG (UnmarshalRip b) (\<lambda>r. case r of
       Inl e \<Rightarrow> ok table
     | Inr msg \<Rightarrow> ok (if Command msg = RoutingCmdTypeResponse
         then fst (updateEntries now (ripEntriesToRoutingEntries logZero (Entries msg) src) table) else table))"

lemma ripRecvHandler_rip_table:
  assumes "ripRecvHandler L orders order logZero now s packet = ok (out, s')"
  shows "rip_table logZero now (Src (Header packet)) (Payload packet) (RoutingTable s) = ok (RoutingTable s')"
proof -
  from assms obtain r where r: "UnmarshalRip (Payload packet) = ok r"
    by (auto simp: ripRecvHandler_def elim!: bindG_okE)
  show ?thesis
  proof (cases r)
    case (Inl e)
    then show ?thesis using assms r by (simp add: ripRecvHandler_def rip_table_def)
  next
    case (Inr msg)
    show ?thesis
    proof (cases "Command msg = RoutingCmdTypeResponse")
      case True
      then show ?thesis using assms r Inr updateRoutingTable_table
        by (auto simp: ripRecvHandler_def rip_table_def)
    next
      case False
      then have "RoutingTable s' = RoutingTable s" using assms r Inr
        by (auto simp: ripRecvHandler_def elim!: bindG_okE dest: IPSend_keeps split: if_splits prod.splits)
      then show ?thesis using r Inr False by (simp add: rip_table_def)
    qed
  qed
qed

text \<open>What the far end of a link learns from an entry.\<close>

definition offered :: "int \<Rightarrow> link \<Rightarrow> RoutingEntry \<Rightarrow> RoutingEntry" where
  "offered logZero l e = routingEntryOf logZero (lsrc l) (advertised (ldst l) e)"

lemma rip_table_response:
  assumes "createRipResponse es (ldst l) = ok b" and "\<forall>e \<in> set es. sendable e" and "length es \<le> 114"
  shows "rip_table logZero now (lsrc l) (b @ pad) table = ok (fst (updateEntries now (map (offered logZero l) es) table))"
proof -
  let ?msg = "\<lparr>Command = RoutingCmdTypeResponse, NumEntries = of_nat (length es), Entries = map (advertised (ldst l)) es\<rparr>"
  have "b = MarshalRip ?msg" using assms(1) createRipResponse_sendable [OF assms(2), of "ldst l"] by simp
  moreover have "UnmarshalRip (MarshalRip ?msg @ pad) = ok (Inr ?msg)"
    using assms(3) by (intro UnmarshalRip_Marshal) (simp add: unat_of_nat)
  moreover have "offered logZero l = (\<lambda>e. routingEntryOf logZero (lsrc l) (advertised (ldst l) e))"
    by (simp add: offered_def fun_eq_iff)
  ultimately show ?thesis by (simp add: rip_table_def ripEntriesToRoutingEntries_def comp_def)
qed

lemma offered_fields:
  assumes "sendable e" and "0 < Bits (EPrefix e)" and "RCost e \<le> INFINITY"
  shows "EPrefix (offered logZero l e) = EPrefix e" "RouteTypeOf (offered logZero l e) = RouteTypeRIP"
    "NextHop (offered logZero l e) = lsrc l" "sendable (offered logZero l e)"
    "unat (RCost (offered logZero l e)) = (if NextHop e = ldst l then 16 else min (unat (RCost e) + 1) 16)"
    "entry_wf (EPrefix e) (offered logZero l e)"
proof -
  show p: "EPrefix (offered logZero l e) = EPrefix e" unfolding offered_def using assms(1,2) by (rule learnt_prefix)
  show "RouteTypeOf (offered logZero l e) = RouteTypeRIP" "NextHop (offered logZero l e) = lsrc l"
    by (simp_all add: offered_def routingEntryOf_def)
  show "sendable (offered logZero l e)" using assms(1) p by (simp add: sendable_def)
  have "RCost e \<le> 16" using assms(3) by (simp add: INFINITY_def)
  then have "RCost e \<noteq> - 1" by (auto simp: word_le_nat_alt unsigned_minus_1_eq_mask mask_eq_exp_minus_1)
  then show "unat (RCost (offered logZero l e)) = (if NextHop e = ldst l then 16 else min (unat (RCost e) + 1) 16)"
    using learnt_cost [of "RCost e"] learnt_cost [of INFINITY]
    by (auto simp: INFINITY_def offered_def routingEntryOf_def advertised_def)
  show "entry_wf (EPrefix e) (offered logZero l e)" using p by (simp add: entry_wf_def) (simp add: offered_def routingEntryOf_def)
qed


section \<open>Costs are lengths of ways\<close>

text \<open>The prefixes on which some router has an interface.\<close>

definition known :: "net \<Rightarrow> Prefix \<Rightarrow> bool" where
  "known N p \<longleftrightarrow> (\<exists>v e. RoutingTable (N v) p = Some e \<and> RouteTypeOf e = RouteTypeLocal)"

text \<open>
  A RIP route of router \<open>u\<close> follows a way: its next hop is a neighbour from which the way goes on with one link
  less. \<open>follows_at K\<close> says so of the routes whose cost is below a level, which may depend on the time of the
  route's last update; \<open>follows\<close> of all finite costs.
\<close>

definition follows_at :: "(int \<Rightarrow> nat) \<Rightarrow> net \<Rightarrow> link list \<Rightarrow> nat \<Rightarrow> RoutingEntry \<Rightarrow> bool" where
  "follows_at K N ls u e \<longleftrightarrow> RouteTypeOf e = RouteTypeRIP \<and> known N (EPrefix e) \<and> sendable e \<and> 0 < Bits (EPrefix e) \<and> RCost e \<le> INFINITY \<and>
     (unat (RCost e) < K (UpdatedAt e) \<longrightarrow>
       (\<exists>l \<in> set ls. \<exists>k. lto l = u \<and> lsrc l = NextHop e \<and> unat (RCost e) = Suc k \<and> hops N ls (EPrefix e) k (lfrom l)))"

definition sound_at :: "(int \<Rightarrow> nat) \<Rightarrow> net \<Rightarrow> link list \<Rightarrow> nat \<Rightarrow> (Prefix \<rightharpoonup> RoutingEntry) \<Rightarrow> bool" where
  "sound_at K N ls u table \<longleftrightarrow> RoutingTable (N u) \<subseteq>\<^sub>m table \<and>
     (\<forall>p e. table p = Some e \<longrightarrow> RoutingTable (N u) p = Some e \<or> RoutingTable (N u) p = None \<and> EPrefix e = p \<and> follows_at K N ls u e)"

text \<open>What router \<open>v\<close> may announce.\<close>

definition truthful_upto :: "nat \<Rightarrow> net \<Rightarrow> link list \<Rightarrow> nat \<Rightarrow> RoutingEntry \<Rightarrow> bool" where
  "truthful_upto k N ls v e \<longleftrightarrow> known N (EPrefix e) \<and> sendable e \<and> 0 < Bits (EPrefix e) \<and> RCost e \<le> INFINITY \<and>
     (unat (RCost e) < k \<longrightarrow> hops N ls (EPrefix e) (unat (RCost e)) v)"

abbreviation follows :: "net \<Rightarrow> link list \<Rightarrow> nat \<Rightarrow> RoutingEntry \<Rightarrow> bool" where
  "follows \<equiv> follows_at (\<lambda>t. 16)"

abbreviation sound_table :: "net \<Rightarrow> link list \<Rightarrow> nat \<Rightarrow> (Prefix \<rightharpoonup> RoutingEntry) \<Rightarrow> bool" where
  "sound_table \<equiv> sound_at (\<lambda>t. 16)"

abbreviation truthful :: "net \<Rightarrow> link list \<Rightarrow> nat \<Rightarrow> RoutingEntry \<Rightarrow> bool" where
  "truthful \<equiv> truthful_upto 16"

lemma finite_cost: "unat c < 16 \<longleftrightarrow> c < INFINITY" for c :: u32
  by (simp add: word_less_nat_alt INFINITY_def)

lemmas follows_def = follows_at_def [of "\<lambda>t. 16", unfolded finite_cost]
lemmas truthful_def = truthful_upto_def [of 16, unfolded finite_cost]

lemma sound_initial: "sound_at K N ls u (RoutingTable (N u))"
  by (simp add: sound_at_def)

lemma sound_nonRIP: "sound_at K N ls u table \<Longrightarrow> table p = Some e \<Longrightarrow> RouteTypeOf e \<noteq> RouteTypeRIP \<Longrightarrow> RoutingTable (N u) p = Some e"
  by (auto simp: sound_at_def follows_at_def)

lemma sound_RIP:
  assumes "plain_net N" and "sound_at K N ls u table" and "table p = Some e" and "RouteTypeOf e = RouteTypeRIP"
  shows "RoutingTable (N u) p = None \<and> EPrefix e = p \<and> follows_at K N ls u e"
proof -
  have "RoutingTable (N u) p \<noteq> Some e" using assms(1,4) unfolding plain_net_def by blast
  then show ?thesis using assms(2,3) unfolding sound_at_def by blast
qed

lemma sound_fixed: "sound_at K N ls u table \<Longrightarrow> RoutingTable (N u) p = Some e \<Longrightarrow> table p = Some e"
  by (auto simp: sound_at_def map_le_def dest!: bspec [of _ _ p])

text \<open>A cost below the level is the length of a way.\<close>

lemma sound_at_hops:
  assumes "plain_net N" and "sound_at K N ls u table" and "table p = Some e" and "RouteTypeOf e \<noteq> RouteTypeStatic"
    and "unat (RCost e) < K (UpdatedAt e)"
  shows "hops N ls p (unat (RCost e)) u"
proof (cases "RouteTypeOf e = RouteTypeRIP")
  case True
  note r = sound_RIP [OF assms(1-3) True]
  then obtain l k where l: "l \<in> set ls" "lto l = u" "unat (RCost e) = Suc k" "hops N ls p k (lfrom l)"
    using assms(5) by (auto simp: follows_at_def)
  then show ?thesis unfolding l(3) using r by (intro hops_Suc) auto
next
  case False
  then have e: "RoutingTable (N u) p = Some e" by (rule sound_nonRIP [OF assms(2,3)])
  moreover have "RouteTypeOf e = RouteTypeLocal" using False assms(4) by (cases "RouteTypeOf e") auto
  ultimately have "RCost e = 0" using assms(1) by (auto simp: plain_net_def)
  then show ?thesis using e \<open>RouteTypeOf e = RouteTypeLocal\<close> by simp
qed

lemmas sound_hops = sound_at_hops [where K = "\<lambda>t. 16", unfolded finite_cost]

lemma sound_truthful_at:
  assumes "plain_net N" and "sound_at K N ls v table" and "table p = Some e" and "RouteTypeOf e \<noteq> RouteTypeStatic"
    and "\<And>t. k \<le> K t"
  shows "EPrefix e = p" and "truthful_upto k N ls v e"
proof -
  consider "RouteTypeOf e = RouteTypeRIP" | "RouteTypeOf e = RouteTypeLocal" using assms(4) by (cases "RouteTypeOf e") auto
  then have "EPrefix e = p \<and> known N p \<and> sendable e \<and> 0 < Bits p \<and> RCost e \<le> INFINITY"
  proof cases
    case 1
    then show ?thesis using sound_RIP [OF assms(1-3)] by (auto simp: follows_at_def)
  next
    case 2
    then have "RoutingTable (N v) p = Some e" using sound_nonRIP [OF assms(2,3)] by simp
    then show ?thesis using assms(1) 2 by (auto simp: plain_net_def entry_wf_def known_def)
  qed
  then show "EPrefix e = p" "truthful_upto k N ls v e"
    using sound_at_hops [OF assms(1-4)] order_less_le_trans [OF _ assms(5)] by (auto simp: truthful_upto_def)
qed

lemma sound_truthful:
  assumes "plain_net N" and "sound_table N ls v table" and "table p = Some e" and "RouteTypeOf e \<noteq> RouteTypeStatic"
  shows "EPrefix e = p" and "truthful N ls v e"
  using sound_truthful_at [OF assms, of 16] by simp_all

text \<open>An offer is true up to a cost one higher than what the sender announces.\<close>

lemma offered_follows:
  assumes "truthful_upto k N ls (lfrom l) e" and "l \<in> set ls" and "m \<le> 16" and "m \<le> Suc k"
  shows "follows_at (\<lambda>t. m) N ls (lto l) (offered logZero l e)"
proof -
  have e: "sendable e" "0 < Bits (EPrefix e)" "RCost e \<le> INFINITY" and "known N (EPrefix e)"
    using assms(1) by (simp_all add: truthful_upto_def)
  note o' = offered_fields [OF e, of logZero l]
  have "\<exists>k. unat (RCost (offered logZero l e)) = Suc k \<and> hops N ls (EPrefix e) k (lfrom l)"
    if "unat (RCost (offered logZero l e)) < m"
  proof -
    have c: "unat (RCost (offered logZero l e)) = Suc (unat (RCost e))"
      using o'(5) that assms(3) by (auto simp: min_def split: if_splits)
    then have "unat (RCost e) < k" using that assms(4) by simp
    then show ?thesis using assms(1) c by (simp add: truthful_upto_def)
  qed
  then show ?thesis using assms(2) e o' \<open>known N (EPrefix e)\<close> by (auto simp: follows_at_def entry_wf_def)
qed

lemma follows_same: "follows_at K N ls u r \<Longrightarrow> EPrefix x = EPrefix r \<Longrightarrow> RouteTypeOf x = RouteTypeOf r \<Longrightarrow> NextHop x = NextHop r \<Longrightarrow>
    RCost x = RCost r \<Longrightarrow> K' (UpdatedAt x) \<le> K (UpdatedAt r) \<Longrightarrow> follows_at K' N ls u x"
  by (simp add: follows_at_def sendable_def)

lemma sound_upd: "sound_at K N ls u t \<Longrightarrow> RoutingTable (N u) p = None \<Longrightarrow> EPrefix x = p \<Longrightarrow> follows_at K N ls u x \<Longrightarrow>
    sound_at K N ls u (t(p \<mapsto> x))"
  by (auto simp: sound_at_def map_le_def)

lemma sound_updateEntry:
  assumes "plain_net N" and "sound_at K N ls u t" and "follows_at (\<lambda>t. m) N ls u r" and "K now \<le> m"
  shows "sound_at K N ls u (fst (updateEntry now r t))"
proof (cases "t (EPrefix r)")
  case None
  then have "RoutingTable (N u) (EPrefix r) = None" using sound_fixed [OF assms(2)] by (metis option.exhaust)
  moreover have "follows_at K N ls u (r\<lparr>UpdatedAt := now\<rparr>)" using assms(3) by (rule follows_same) (simp_all add: assms(4))
  ultimately show ?thesis using None assms(2) by (auto simp: updateEntry_def intro: sound_upd)
next
  case (Some old)
  show ?thesis
  proof (cases "RouteTypeOf old = RouteTypeRIP")
    case False
    then show ?thesis using Some assms(2) by (simp add: updateEntry_def)
  next
    case True
    note o' = sound_RIP [OF assms(1,2) Some True]
    have r: "RouteTypeOf r = RouteTypeRIP" using assms(3) by (simp add: follows_at_def)
    have "follows_at K N ls u (old\<lparr>UpdatedAt := now, NextHop := NextHop r, RCost := RCost r\<rparr>)"
      using assms(3) by (rule follows_same) (simp_all add: o' True r assms(4))
    moreover have "follows_at K N ls u (old\<lparr>UpdatedAt := now, RCost := RCost r\<rparr>)" if "NextHop old = NextHop r"
      using assms(3) by (rule follows_same) (simp_all add: o' True r that assms(4))
    moreover have "follows_at K N ls u (old\<lparr>UpdatedAt := now\<rparr>)" if "NextHop old = NextHop r" "RCost old = RCost r"
      using assms(3) by (rule follows_same) (simp_all add: o' True r that assms(4))
    ultimately show ?thesis using Some True o' assms(2) by (auto simp: updateEntry_def intro!: sound_upd)
  qed
qed

lemma sound_updateEntries:
  "plain_net N \<Longrightarrow> sound_at K N ls u t \<Longrightarrow> \<forall>r \<in> set rs. follows_at (\<lambda>t. m) N ls u r \<Longrightarrow> K now \<le> m \<Longrightarrow>
   sound_at K N ls u (fst (updateEntries now rs t))"
proof (induction rs arbitrary: t)
  case (Cons r rs)
  have "sound_at K N ls u (fst (updateEntry now r t))"
    using Cons.prems by (intro sound_updateEntry [OF Cons.prems(1,2)]) simp_all
  then show ?case unfolding updateEntries_Cons using Cons by simp
qed simp

lemma sound_removeExpired:
  assumes "plain_net N" and "sound_at K N ls u t"
  shows "sound_at K N ls u (fst (removeExpired expiry order t))"
proof -
  have "RoutingTable (N u) p = Some e \<Longrightarrow> fst (removeExpired expiry order t) p = Some e" for p e
    using sound_fixed [OF assms(2)] assms(1) by (auto simp: removeExpired_spec plain_net_def)
  then have "RoutingTable (N u) \<subseteq>\<^sub>m fst (removeExpired expiry order t)" by (auto simp: map_le_def)
  then show ?thesis using assms(2) by (auto simp: sound_at_def removeExpired_spec)
qed


section \<open>Messages under way\<close>

text \<open>
  The network with the responses that were sent. A message stays on the wire: it may be received late, more than
  once, out of order, or never. \<open>send\<close> is a periodic update, a triggered one or the answer to a request: entries
  of the sender's table. \<open>expire\<close> removes old routes and tells them at cost 16. \<open>other\<close> is every step
  that leaves the table alone. A response of more than 114 entries does not fit a packet.
\<close>

definition announced :: "(Prefix \<rightharpoonup> RoutingEntry) \<Rightarrow> RoutingEntry \<Rightarrow> bool" where
  "announced table e \<longleftrightarrow> (\<exists>p. table p = Some e \<and> RouteTypeOf e \<noteq> RouteTypeStatic)"

definition told_by :: "link list \<Rightarrow> nat \<Rightarrow> RoutingEntry list \<Rightarrow> (link \<times> bytes) set" where
  "told_by ls u es = {(l, b). l \<in> set ls \<and> lfrom l = u \<and> length es \<le> 114 \<and> createRipResponse es (ldst l) = ok b}"

inductive net_step :: "netlib \<Rightarrow> link list \<Rightarrow> int \<Rightarrow> net \<times> (link \<times> bytes) set \<Rightarrow> net \<times> (link \<times> bytes) set \<Rightarrow> bool" for L ls now where
  send: "\<forall>e \<in> set es. announced (RoutingTable (N u)) e \<Longrightarrow> net_step L ls now (N, W) (N, W \<union> told_by ls u es)"
| receive: "(l, b) \<in> W \<Longrightarrow> Src (Header packet) = lsrc l \<Longrightarrow> Payload packet = b @ pad \<Longrightarrow>
    ripRecvHandler L orders order logZero now (N (lto l)) packet = ok (out, s') \<Longrightarrow> net_step L ls now (N, W) (N(lto l := s'), W)"
| expire: "RemoveExpiredEntries L orders order now (N u) = ok (out, s') \<Longrightarrow>
    net_step L ls now (N, W) (N(u := s'), W \<union> told_by ls u (snd (removeExpired (now - 12000000000) order (RoutingTable (N u)))))"
| other: "router_step L (N u) s' \<Longrightarrow> RoutingTable s' = RoutingTable (N u) \<Longrightarrow> net_step L ls now (N, W) (N(u := s'), W)"

inductive net_reachable :: "netlib \<Rightarrow> link list \<Rightarrow> net \<Rightarrow> net \<times> (link \<times> bytes) set \<Rightarrow> bool" for L ls N0 where
  start: "net_reachable L ls N0 (N0, {})"
| step: "net_reachable L ls N0 x \<Longrightarrow> net_step L ls now x y \<Longrightarrow> net_reachable L ls N0 y"

definition truthful_msg :: "nat \<Rightarrow> net \<Rightarrow> link list \<Rightarrow> link \<times> bytes \<Rightarrow> bool" where
  "truthful_msg k N ls m \<longleftrightarrow> (case m of (l, b) \<Rightarrow> l \<in> set ls \<and>
     (\<exists>es. createRipResponse es (ldst l) = ok b \<and> length es \<le> 114 \<and> (\<forall>e \<in> set es. truthful_upto k N ls (lfrom l) e)))"

definition sound_net_at :: "(int \<Rightarrow> nat) \<Rightarrow> nat \<Rightarrow> net \<Rightarrow> link list \<Rightarrow> net \<times> (link \<times> bytes) set \<Rightarrow> bool" where
  "sound_net_at K k N0 ls x \<longleftrightarrow> (case x of (N, W) \<Rightarrow>
     (\<forall>u. sound_at K N0 ls u (RoutingTable (N u))) \<and> (\<forall>m \<in> W. truthful_msg k N0 ls m))"

abbreviation sound_net :: "net \<Rightarrow> link list \<Rightarrow> net \<times> (link \<times> bytes) set \<Rightarrow> bool" where
  "sound_net \<equiv> sound_net_at (\<lambda>t. 16) 16"

lemma truthful_told: "\<forall>e \<in> set es. truthful_upto k N0 ls u e \<Longrightarrow> m \<in> told_by ls u es \<Longrightarrow> truthful_msg k N0 ls m"
  by (auto simp: told_by_def truthful_msg_def)

lemma removeExpired_told:
  "e \<in> set (snd (removeExpired expiry order t)) \<Longrightarrow> \<exists>p x. t p = Some x \<and> RouteTypeOf x = RouteTypeRIP \<and> e = x\<lparr>RCost := INFINITY\<rparr>"
proof (induction order arbitrary: t)
  case (Cons q order)
  show ?case
  proof (cases "\<exists>x. t q = Some x \<and> RouteTypeOf x = RouteTypeRIP \<and> UpdatedAt x < expiry")
    case True
    then obtain x where x: "t q = Some x" "RouteTypeOf x = RouteTypeRIP" "UpdatedAt x < expiry" by blast
    then have "e = x\<lparr>RCost := INFINITY\<rparr> \<or> e \<in> set (snd (removeExpired expiry order (t(q := None))))"
      using Cons.prems by (simp add: Let_def split_beta)
    then show ?thesis using x Cons.IH [of "t(q := None)"] by (fastforce split: if_splits)
  next
    case False
    then have "snd (removeExpired expiry (q # order) t) = snd (removeExpired expiry order t)" by (auto split: option.splits)
    then show ?thesis using Cons by metis
  qed
qed simp

lemma truthful_expired: "follows_at K N ls u x \<Longrightarrow> k \<le> 16 \<Longrightarrow> truthful_upto k N ls u (x\<lparr>RCost := INFINITY\<rparr>)"
  by (simp add: follows_at_def truthful_upto_def sendable_def INFINITY_def)

lemma sound_receive:
  assumes plain: "plain_net N0" and t: "sound_at K N0 ls (lto l) table" and m: "truthful_msg k N0 ls (l, b)"
    and level: "K now \<le> 16" "K now \<le> Suc k"
    and r: "rip_table logZero now (lsrc l) (b @ pad) table = ok table'"
  shows "sound_at K N0 ls (lto l) table'"
proof -
  obtain es where es: "l \<in> set ls" "createRipResponse es (ldst l) = ok b" "length es \<le> 114" "\<forall>e \<in> set es. truthful_upto k N0 ls (lfrom l) e"
    using m by (auto simp: truthful_msg_def)
  have "\<forall>e \<in> set es. sendable e" using es(4) by (simp add: truthful_upto_def)
  then have "table' = fst (updateEntries now (map (offered logZero l) es) table)"
    using rip_table_response [OF es(2) _ es(3), of logZero now pad table] r by simp
  moreover have "\<forall>r \<in> set (map (offered logZero l) es). follows_at (\<lambda>t. K now) N0 ls (lto l) r"
    using es(1,4) offered_follows [OF _ _ level] by simp
  ultimately show ?thesis using sound_updateEntries [OF plain t] by simp
qed

lemma sound_upd_net:
  "sound_net_at K k N0 ls (N, W) \<Longrightarrow> sound_at K N0 ls u (RoutingTable s') \<Longrightarrow> \<forall>m \<in> W'. truthful_msg k N0 ls m \<Longrightarrow>
   sound_net_at K k N0 ls (N(u := s'), W \<union> W')"
  by (auto simp: sound_net_at_def)

text \<open>
  A step keeps the levels: what is on the wire is true up to \<open>k\<close>, routes up to their levels of at least \<open>k\<close>, and
  a route that is updated now gets the level \<open>k + 1\<close>, or 16.
\<close>

lemma sound_step:
  assumes plain: "plain_net N0" and "net_step L ls now x y" and "sound_net_at K k N0 ls x"
    and low: "\<And>t. k \<le> K t" and level: "K now \<le> 16" "K now \<le> Suc k"
  shows "sound_net_at K k N0 ls y"
  using assms(2,3)
proof (induction rule: net_step.induct)
  case (send es N u W)
  have "truthful_upto k N0 ls u e" if "e \<in> set es" for e
  proof -
    have "announced (RoutingTable (N u)) e" using send(1) that by simp
    then obtain p where e: "RoutingTable (N u) p = Some e" "RouteTypeOf e \<noteq> RouteTypeStatic"
      unfolding announced_def by (elim exE conjE)
    have "sound_at K N0 ls u (RoutingTable (N u))" using send(2) by (simp add: sound_net_at_def)
    then show ?thesis using e low by (rule sound_truthful_at(2) [OF plain])
  qed
  then have "\<forall>m \<in> told_by ls u es. truthful_msg k N0 ls m" by (intro ballI truthful_told) simp_all
  then show ?case using send(2) by (simp add: sound_net_at_def ball_Un)
next
  case (receive l b W packet pad orders order logZero N out s')
  have "sound_at K N0 ls (lto l) (RoutingTable s')"
  proof (rule sound_receive [where K = K and now = now and k = k, OF plain _ _ level])
    show "sound_at K N0 ls (lto l) (RoutingTable (N (lto l)))" using receive(5) by (simp add: sound_net_at_def)
    show "truthful_msg k N0 ls (l, b)" using receive(1,5) unfolding sound_net_at_def by blast
    show "rip_table logZero now (lsrc l) (b @ pad) (RoutingTable (N (lto l))) = ok (RoutingTable s')"
      using ripRecvHandler_rip_table [OF receive(4)] receive(2,3) by simp
  qed
  then show ?case using sound_upd_net [OF receive(5), of "lto l" s' "{}"] by simp
next
  case (expire orders order N u out s' W)
  let ?es = "snd (removeExpired (now - 12000000000) order (RoutingTable (N u)))"
  have t: "sound_at K N0 ls u (RoutingTable (N u))" using expire(2) by (simp add: sound_net_at_def)
  have "k \<le> 16" using low [of now] level(1) by simp
  then have "\<forall>e \<in> set ?es. truthful_upto k N0 ls u e"
    using removeExpired_told sound_RIP [OF plain t] truthful_expired by blast
  then show ?case
    using sound_removeExpired [OF plain t] RemoveExpired_table [OF expire(1)] truthful_told
    by (intro sound_upd_net [OF expire(2)]) auto
next
  case (other N u s' W)
  then have "sound_at K N0 ls u (RoutingTable s')" by (simp add: sound_net_at_def)
  then show ?case using sound_upd_net [OF other(3), of u s' "{}"] by simp
qed

lemma sound_reachable: "net_reachable L ls N0 x \<Longrightarrow> plain_net N0 \<Longrightarrow> sound_net N0 ls x"
proof (induction rule: net_reachable.induct)
  case start
  then show ?case by (simp add: sound_net_at_def sound_initial)
next
  case (step x now y)
  then show ?case using sound_step [OF step(4,2)] by simp
qed

text \<open>The tables that routers start with.\<close>

lemma initInterface_plain:
  assumes "RoutingTable (foldl initInterface s is) p = Some e" and "RoutingTable s p = None"
  shows "\<exists>i \<in> set is. e = \<lparr>RouteTypeOf = RouteTypeLocal, EPrefix = cfgAssignedPrefix i, NextHop = NoAddr,
          LocalNextHop = cfgName i, RCost = 0, UpdatedAt = 0\<rparr> \<and> p = cfgAssignedPrefix i"
  using assms(1) by (induction "is" arbitrary: e rule: rev_induct) (auto simp: initInterface_def assms(2) split: if_splits)

lemma plain_routers:
  assumes "\<forall>u. plain_config (config u)"
  shows "plain_net (\<lambda>u. newRouter (config u))"
  unfolding plain_net_def
proof (intro allI impI)
  fix u p e assume e: "RoutingTable (newRouter (config u)) p = Some e"
  let ?s = "\<lparr>Interfaces = Map.empty, IFNeighbors = Map.empty, RoutingTable = Map.empty,
       routingMode = (if cfgRoutingMode (config u) = RoutingTypeNone then RoutingTypeStatic else cfgRoutingMode (config u)),
       recvHandlers = Map.empty, RipNeighbors = cfgRipNeighbors (config u)\<rparr>"
  have t: "RoutingTable (Init (config u)) p = Some e" using e by (simp add: newRouter_table)
  then have wf: "entry_wf p e" "RouteTypeOf e \<noteq> RouteTypeRIP" using Init_table [of "config u"] by (auto simp: configured_def table_wf_def)
  have "sendable e \<and> 0 < Bits p \<and> RCost e = 0 \<and> NextHop e = NoAddr" if loc: "RouteTypeOf e = RouteTypeLocal"
  proof -
    have "RoutingTable (foldl initInterface ?s (cfgInterfaces (config u))) p = Some e"
      using t loc by (auto simp: Init_def Let_def initRoutes_def Init_neighbors split: option.splits)
    from initInterface_plain [OF this] obtain i where
      "i \<in> set (cfgInterfaces (config u))" "e = \<lparr>RouteTypeOf = RouteTypeLocal, EPrefix = cfgAssignedPrefix i, NextHop = NoAddr,
          LocalNextHop = cfgName i, RCost = 0, UpdatedAt = 0\<rparr>" "p = cfgAssignedPrefix i"
      by auto
    then show ?thesis using assms by (auto simp: plain_config_def sendable_def intro: less_imp_le)
  qed
  then show "entry_wf p e \<and> RouteTypeOf e \<noteq> RouteTypeRIP \<and>
      (RouteTypeOf e = RouteTypeLocal \<longrightarrow> sendable e \<and> 0 < Bits p \<and> RCost e = 0 \<and> NextHop e = NoAddr)"
    using wf by blast
qed


section \<open>Convergence\<close>

text \<open>
  One full response over a link: the sender's whole table, in the iteration order of the map, and what the
  handler at the far end makes of its own. \<open>told_all\<close> runs over a list of links, \<open>rounds\<close> over lists that
  contain every link.
\<close>

inductive tells :: "link \<Rightarrow> net \<Rightarrow> net \<Rightarrow> bool" for l where
  "distinct order \<Longrightarrow> set order = dom (RoutingTable (N (lfrom l))) \<Longrightarrow>
   createRipResponse (getAllEntries order (N (lfrom l))) (ldst l) = ok b \<Longrightarrow>
   rip_table logZero now (lsrc l) b (RoutingTable (N (lto l))) = ok table \<Longrightarrow>
   tells l N (N(lto l := (N (lto l))\<lparr>RoutingTable := table\<rparr>))"

inductive told_all :: "link list \<Rightarrow> net \<Rightarrow> net \<Rightarrow> bool" where
  "told_all [] N N"
| "tells l N N1 \<Longrightarrow> told_all ls N1 N2 \<Longrightarrow> told_all (l # ls) N N2"

inductive_cases told_all_ConsE: "told_all (l # ls) N N2"
inductive_cases told_all_NilE: "told_all [] N N2"

inductive rounds :: "link list \<Rightarrow> nat \<Rightarrow> net \<Rightarrow> net \<Rightarrow> bool" for ls where
  "rounds ls 0 N N"
| "rounds ls k N N1 \<Longrightarrow> set ms = set ls \<Longrightarrow> told_all ms N1 N2 \<Longrightarrow> rounds ls (Suc k) N N2"

text \<open>A table of at most 114 prefixes fits a packet.\<close>

definition few_prefixes :: "net \<Rightarrow> bool" where
  "few_prefixes N \<longleftrightarrow> finite {p. known N p} \<and> card {p. known N p} \<le> 114"

lemma getAllEntries_map:
  "getAllEntries order s = map (\<lambda>p. the (RoutingTable s p))
     (filter (\<lambda>p. \<exists>e. RoutingTable s p = Some e \<and> RouteTypeOf e \<noteq> RouteTypeStatic) order)"
proof (induction order)
  case (Cons p order)
  show ?case
  proof (cases "RoutingTable s p")
    case (Some e)
    then show ?thesis using Cons by (cases "RouteTypeOf e") simp_all
  qed (use Cons in simp)
qed simp

lemma announced_entries:
  assumes plain: "plain_net N0" and t: "sound_table N0 ls v (RoutingTable s)"
    and order: "distinct order" "set order = dom (RoutingTable s)"
  shows "set (getAllEntries order s) = {e. announced (RoutingTable s) e}" "distinct (map EPrefix (getAllEntries order s))"
    "\<forall>e \<in> set (getAllEntries order s). truthful N0 ls v e \<and> RoutingTable s (EPrefix e) = Some e"
proof -
  have pre: "RoutingTable s p = Some e \<Longrightarrow> RouteTypeOf e \<noteq> RouteTypeStatic \<Longrightarrow> EPrefix e = p \<and> truthful N0 ls v e" for p e
    using sound_truthful [OF plain t] by blast
  show all: "set (getAllEntries order s) = {e. announced (RoutingTable s) e}"
    using order(2) by (fastforce simp: getAllEntries_map announced_def image_iff)
  show "\<forall>e \<in> set (getAllEntries order s). truthful N0 ls v e \<and> RoutingTable s (EPrefix e) = Some e"
    unfolding all announced_def using pre by auto
  have "map EPrefix (getAllEntries order s) = filter (\<lambda>p. \<exists>e. RoutingTable s p = Some e \<and> RouteTypeOf e \<noteq> RouteTypeStatic) order"
    unfolding getAllEntries_map map_map using pre by (intro map_idI) auto
  then show "distinct (map EPrefix (getAllEntries order s))" using order(1) by simp
qed

lemma announced_few:
  assumes "plain_net N0" and "sound_table N0 ls v (RoutingTable s)" and "distinct order" "set order = dom (RoutingTable s)"
    and few: "few_prefixes N0"
  shows "length (getAllEntries order s) \<le> 114"
proof -
  note a = announced_entries [OF assms(1-4)]
  have "set (map EPrefix (getAllEntries order s)) \<subseteq> {p. known N0 p}" using a(3) by (auto simp: truthful_def)
  then have "card (set (map EPrefix (getAllEntries order s))) \<le> card {p. known N0 p}"
    using few by (intro card_mono) (simp_all only: few_prefixes_def)
  then have "card (set (map EPrefix (getAllEntries order s))) \<le> 114" using few by (simp add: few_prefixes_def)
  then show ?thesis unfolding distinct_card [OF a(2)] by simp
qed

text \<open>What a full response does to the entry of a prefix.\<close>

lemma tells_table:
  assumes plain: "plain_net N0" and few: "few_prefixes N0" and sound: "\<forall>u. sound_table N0 ls u (RoutingTable (N u))"
    and l: "l \<in> set ls" and step: "tells l N N'"
  shows "\<forall>u. sound_table N0 ls u (RoutingTable (N' u))"
    and "\<exists>logZero now. RoutingTable (N' (lto l)) p = (case RoutingTable (N (lfrom l)) p of
       None \<Rightarrow> RoutingTable (N (lto l)) p
     | Some e \<Rightarrow> if RouteTypeOf e = RouteTypeStatic then RoutingTable (N (lto l)) p
         else fst (updateEntry now (offered logZero l e) (RoutingTable (N (lto l)))) p)"
    and "u \<noteq> lto l \<Longrightarrow> N' u = N u"
proof -
  from step obtain order b logZero now table where s: "distinct order" "set order = dom (RoutingTable (N (lfrom l)))"
      "createRipResponse (getAllEntries order (N (lfrom l))) (ldst l) = ok b"
      "rip_table logZero now (lsrc l) b (RoutingTable (N (lto l))) = ok table"
      "N' = N(lto l := (N (lto l))\<lparr>RoutingTable := table\<rparr>)"
    by (auto elim: tells.cases)
  let ?es = "getAllEntries order (N (lfrom l))" and ?t = "RoutingTable (N (lto l))"
  have v: "sound_table N0 ls (lfrom l) (RoutingTable (N (lfrom l)))" and t: "sound_table N0 ls (lto l) ?t" using sound by simp_all
  note a = announced_entries [OF plain v s(1,2)] and len = announced_few [OF plain v s(1,2) few]
  have carry: "\<forall>e \<in> set ?es. sendable e" using a(3) by (simp add: truthful_def)
  have off: "EPrefix (offered logZero l e) = EPrefix e" if "e \<in> set ?es" for e
    using a(3) that by (intro offered_fields(1)) (auto simp: truthful_def)
  have tab: "table = fst (updateEntries now (map (offered logZero l) ?es) ?t)"
    using rip_table_response [OF s(3) carry len, of logZero now "[]" ?t] s(4) by simp
  have "truthful_msg 16 N0 ls (l, b)" using l s(3) len a(3) by (auto simp: truthful_msg_def)
  then have "sound_table N0 ls (lto l) table"
    by (rule sound_receive [where K = "\<lambda>t. 16" and k = 16 and now = now and logZero = logZero and pad = "[]", OF plain t]) (simp_all add: s(4))
  then show "\<forall>u. sound_table N0 ls u (RoutingTable (N' u))" using sound s(5) by simp
  show "u \<noteq> lto l \<Longrightarrow> N' u = N u" using s(5) by simp
  have pre: "map EPrefix (map (offered logZero l) ?es) = map EPrefix ?es"
    using off by simp
  show "\<exists>logZero now. RoutingTable (N' (lto l)) p = (case RoutingTable (N (lfrom l)) p of
       None \<Rightarrow> RoutingTable (N (lto l)) p
     | Some e \<Rightarrow> if RouteTypeOf e = RouteTypeStatic then RoutingTable (N (lto l)) p
         else fst (updateEntry now (offered logZero l e) (RoutingTable (N (lto l)))) p)"
  proof (cases "\<exists>e. RoutingTable (N (lfrom l)) p = Some e \<and> RouteTypeOf e \<noteq> RouteTypeStatic")
    case True
    then obtain e where e: "RoutingTable (N (lfrom l)) p = Some e" "RouteTypeOf e \<noteq> RouteTypeStatic" by blast
    then have m: "e \<in> set ?es" unfolding a(1) announced_def by auto
    then have p: "EPrefix (offered logZero l e) = p" using off sound_truthful(1) [OF plain v e] by simp
    have "fst (updateEntries now (map (offered logZero l) ?es) ?t) (EPrefix (offered logZero l e)) =
        fst (updateEntry now (offered logZero l e) ?t) (EPrefix (offered logZero l e))"
    proof (rule updateEntries_at)
      show "distinct (map EPrefix (map (offered logZero l) ?es))" unfolding pre by (rule a(2))
      show "offered logZero l e \<in> set (map (offered logZero l) ?es)" using m by simp
    qed
    then have "table p = fst (updateEntry now (offered logZero l e) ?t) p" unfolding p tab .
    then show ?thesis using s(5) e by (intro exI [of _ logZero] exI [of _ now]) simp
  next
    case False
    have "p \<notin> EPrefix ` set ?es"
    proof
      assume "p \<in> EPrefix ` set ?es"
      then obtain e where e: "e \<in> set ?es" "p = EPrefix e" by blast
      then have "RoutingTable (N (lfrom l)) p = Some e" using a(3) by simp
      moreover have "RouteTypeOf e \<noteq> RouteTypeStatic" using e(1) unfolding a(1) by (auto simp: announced_def)
      ultimately show False using False by blast
    qed
    moreover have "EPrefix ` set (map (offered logZero l) ?es) = EPrefix ` set ?es" using arg_cong [OF pre, of set] unfolding set_map .
    ultimately have "table p = ?t p" unfolding tab by (intro updateEntries_other) simp
    then show ?thesis using s(5) False by (auto split: option.splits)
  qed
qed


text \<open>Router \<open>u\<close> has the route of length \<open>k\<close>.\<close>

definition settled :: "net \<Rightarrow> Prefix \<Rightarrow> nat \<Rightarrow> nat \<Rightarrow> bool" where
  "settled N p k u \<longleftrightarrow> (\<exists>e. RoutingTable (N u) p = Some e \<and> unat (RCost e) = k)"

lemma links_owner: "links_ok owner ls \<Longrightarrow> l \<in> set ls \<Longrightarrow> owner (lsrc l) = lfrom l \<and> owner (ldst l) = lto l"
  by (simp add: links_ok_def)

text \<open>The offer of a router at distance \<open>k\<close> to one at distance \<open>k + 1\<close> is not poisoned.\<close>

lemma offer_exact:
  assumes plain: "plain_net N0" and links: "links_ok owner ls" and v: "sound_table N0 ls (lfrom l) table"
    and l: "l \<in> set ls" and d: "distance N0 ls p k (lfrom l)" "distance N0 ls p (Suc k) (lto l)" and k: "Suc k < 16"
    and e: "table p = Some e" "unat (RCost e) = k"
  shows "RouteTypeOf e \<noteq> RouteTypeStatic \<and> EPrefix (offered logZero l e) = p \<and> NextHop (offered logZero l e) = lsrc l \<and>
    unat (RCost (offered logZero l e)) = Suc k"
proof -
  have ne: "ldst l \<noteq> NoAddr" using links l by (auto simp: links_ok_def)
  have "RouteTypeOf e \<noteq> RouteTypeStatic \<and> NextHop e \<noteq> ldst l"
  proof (cases k)
    case 0
    then obtain x where x: "RoutingTable (N0 (lfrom l)) p = Some x" "RouteTypeOf x = RouteTypeLocal"
      using d(1) by (auto simp: distance_def split: option.splits)
    then have "e = x" using sound_fixed [OF v x(1)] e(1) by simp
    then show ?thesis using x plain ne by (auto simp: plain_net_def)
  next
    case (Suc j)
    have none: "RoutingTable (N0 (lfrom l)) p = None" using distance_Suc d(1) unfolding Suc by blast
    have rip: "RouteTypeOf e = RouteTypeRIP" using sound_nonRIP [OF v e(1)] none by fastforce
    have "RCost e < INFINITY" using e(2) k by (simp add: word_less_nat_alt INFINITY_def)
    then obtain l1 i where l1: "l1 \<in> set ls" "lto l1 = lfrom l" "lsrc l1 = NextHop e" "unat (RCost e) = Suc i" "hops N0 ls p i (lfrom l1)"
      using sound_RIP [OF plain v e(1) rip] by (auto simp: follows_def)
    have "NextHop e \<noteq> ldst l"
    proof
      assume "NextHop e = ldst l"
      then have "owner (lsrc l1) = owner (ldst l)" using l1(3) by simp
      then have "lfrom l1 = lto l" using links_owner [OF links l1(1)] links_owner [OF links l] by simp
      then have "Suc k \<le> i" using distance_le [OF d(2)] l1(5) by simp
      then show False using l1(4) e(2) by simp
    qed
    then show ?thesis using rip by simp
  qed
  moreover have "truthful N0 ls (lfrom l) e" "EPrefix e = p" using sound_truthful [OF plain v e(1)] calculation by simp_all
  then have "sendable e" "0 < Bits (EPrefix e)" "RCost e \<le> INFINITY" "EPrefix e = p" by (simp_all add: truthful_def)
  ultimately show ?thesis using offered_fields [of e logZero l] e(2) k by simp
qed

text \<open>In a sound table no route for \<open>p\<close> is shorter than the distance.\<close>

lemma sound_distance:
  assumes "plain_net N0" and "sound_table N0 ls u table" and "table p = Some e" and "distance N0 ls p (Suc k) u"
  shows "RouteTypeOf e = RouteTypeRIP \<and> (unat (RCost e) < 16 \<longrightarrow> Suc k \<le> unat (RCost e))"
proof -
  have none: "RoutingTable (N0 u) p = None" using distance_Suc [OF assms(4)] by blast
  then have rip: "RouteTypeOf e = RouteTypeRIP" using sound_nonRIP [OF assms(2,3)] by fastforce
  then show ?thesis using sound_hops [OF assms(1-3)] distance_le [OF assms(4)] by (auto simp: word_less_nat_alt INFINITY_def)
qed

lemma gain:
  assumes plain: "plain_net N0" and few: "few_prefixes N0" and links: "links_ok owner ls"
    and sound: "\<forall>u. sound_table N0 ls u (RoutingTable (N u))" and l: "l \<in> set ls" and step: "tells l N N'"
    and d: "distance N0 ls p k (lfrom l)" "distance N0 ls p (Suc k) (lto l)" and k: "Suc k < 16" and v: "settled N p k (lfrom l)"
  shows "settled N' p (Suc k) (lto l)"
proof -
  have sv: "sound_table N0 ls (lfrom l) (RoutingTable (N (lfrom l)))" and su: "sound_table N0 ls (lto l) (RoutingTable (N (lto l)))"
    using sound by simp_all
  obtain e where e: "RoutingTable (N (lfrom l)) p = Some e" "unat (RCost e) = k" using v by (auto simp: settled_def)
  note off = offer_exact [OF plain links sv l d k e]
  obtain logZero now where t: "RoutingTable (N' (lto l)) p = fst (updateEntry now (offered logZero l e) (RoutingTable (N (lto l)))) p"
    using tells_table(2) [OF plain few sound l step, of p] e off by auto
  have fin: "RCost (offered logZero l e) < INFINITY" using off k by (simp add: word_less_nat_alt INFINITY_def)
  show ?thesis
  proof (cases "RoutingTable (N (lto l)) p")
    case None
    then show ?thesis using t off fin by (simp add: settled_def updateEntry_def)
  next
    case (Some old)
    have rip: "RouteTypeOf old = RouteTypeRIP" "unat (RCost old) < 16 \<longrightarrow> Suc k \<le> unat (RCost old)"
      using sound_distance [OF plain su Some d(2)] by simp_all
    have eq: "unat (RCost old) = Suc k" if "\<not> RCost (offered logZero l e) < RCost old"
      using rip(2) that off k by (simp add: word_less_nat_alt)
    show ?thesis using t off Some rip(1) eq by (auto simp: settled_def updateEntry_def)
  qed
qed

text \<open>The next hop of an exact route is one link nearer.\<close>

lemma exact_next_hop:
  assumes plain: "plain_net N0" and links: "links_ok owner ls" and su: "sound_table N0 ls (lto l) table" and l: "l \<in> set ls"
    and e: "table p = Some e" "unat (RCost e) = Suc j" "NextHop e = lsrc l" and d: "distance N0 ls p (Suc j) (lto l)" and j: "Suc j < 16"
  shows "distance N0 ls p j (lfrom l)"
proof -
  have rip: "RouteTypeOf e = RouteTypeRIP" using sound_distance [OF plain su e(1) d] by simp
  have none: "RoutingTable (N0 (lto l)) p = None" using distance_Suc [OF d] by simp
  have "RCost e < INFINITY" using e(2) j by (simp add: word_less_nat_alt INFINITY_def)
  then obtain l1 where l1: "l1 \<in> set ls" "lsrc l1 = lsrc l" "hops N0 ls p j (lfrom l1)"
    using sound_RIP [OF plain su e(1) rip] e(2,3) by (auto simp: follows_def)
  have "owner (lsrc l1) = owner (lsrc l)" using l1(2) by simp
  then have "lfrom l1 = lfrom l" using links_owner [OF links l1(1)] links_owner [OF links l] by simp
  moreover have "\<not> hops N0 ls p i (lfrom l)" if "i < j" for i
  proof
    assume "hops N0 ls p i (lfrom l)"
    from distance_le [OF d hops_Suc [where u = "lto l", OF none l refl this]] show False using that by simp
  qed
  ultimately show ?thesis using l1(3) by (simp add: distance_def)
qed

text \<open>An exact route survives an offer: the same neighbour offers the same, and no other offers less.\<close>

lemma updateEntry_exact:
  assumes plain: "plain_net N0" and links: "links_ok owner ls"
    and sv: "sound_table N0 ls (lfrom l) from" and su: "sound_table N0 ls (lto l) table" and l: "l \<in> set ls"
    and old: "table p = Some old" "unat (RCost old) = Suc j" and d: "distance N0 ls p (Suc j) (lto l)" and j: "Suc j < 16"
    and e: "from p = Some e" "RouteTypeOf e \<noteq> RouteTypeStatic" and v: "distance N0 ls p j (lfrom l) \<Longrightarrow> unat (RCost e) = j"
  shows "\<exists>e'. fst (updateEntry now (offered logZero l e) table) p = Some e' \<and> unat (RCost e') = Suc j"
proof -
  let ?o = "offered logZero l e" and ?t = "fst (updateEntry now (offered logZero l e) table)"
  have rip: "RouteTypeOf old = RouteTypeRIP" using sound_distance [OF plain su old(1) d] by simp
  have tr: "truthful N0 ls (lfrom l) e" "EPrefix e = p" using sound_truthful [OF plain sv e] by simp_all
  then have o': "EPrefix ?o = p" "NextHop ?o = lsrc l" using offered_fields [of e logZero l] by (simp_all add: truthful_def)
  show ?thesis
  proof (cases "NextHop old = lsrc l")
    case True
    note dv = exact_next_hop [OF plain links su l old True d j]
    have "unat (RCost ?o) = Suc j" using offer_exact [OF plain links sv l dv d j e(1) v [OF dv]] by simp
    then show ?thesis using o' old rip True by (simp add: updateEntry_def)
  next
    case False
    have "sound_table N0 ls (lto l) ?t" using sound_updateEntry [OF plain su offered_follows [OF tr(1) l, of 16]] by simp
    then have low: "?t p = Some x \<Longrightarrow> unat (RCost x) < 16 \<longrightarrow> Suc j \<le> unat (RCost x)" for x
      using sound_distance [OF plain _ _ d] by blast
    show ?thesis
    proof (cases "RCost ?o < RCost old")
      case True
      then have "?t p = Some (old\<lparr>UpdatedAt := now, NextHop := lsrc l, RCost := RCost ?o\<rparr>)"
        using o' old(1) rip False by (simp add: updateEntry_def)
      from low [OF this] show ?thesis using True old(2) j by (simp add: word_less_nat_alt)
    qed (use o' old rip False in \<open>simp add: updateEntry_def\<close>)
  qed
qed

lemma stay:
  assumes plain: "plain_net N0" and few: "few_prefixes N0" and links: "links_ok owner ls"
    and sound: "\<forall>u. sound_table N0 ls u (RoutingTable (N u))" and l: "l \<in> set ls" and step: "tells l N N'"
    and d: "distance N0 ls p k u" and k: "k < 16" and u: "settled N p k u"
    and before: "\<And>j v. k = Suc j \<Longrightarrow> distance N0 ls p j v \<Longrightarrow> settled N p j v"
  shows "settled N' p k u"
proof (cases k)
  case 0
  then obtain x where x: "RoutingTable (N0 u) p = Some x" using d by (auto simp: distance_def split: option.splits)
  have "RoutingTable (N u) p = Some x" "RoutingTable (N' u) p = Some x"
    using sound_fixed [of "\<lambda>t. 16" N0 ls u _ p x] x sound tells_table(1) [OF plain few sound l step] by simp_all
  then show ?thesis using u by (simp add: settled_def)
next
  case (Suc j)
  show ?thesis
  proof (cases "u = lto l")
    case False
    then show ?thesis using u tells_table(3) [OF plain few sound l step] by (simp add: settled_def)
  next
    case True
    let ?from = "RoutingTable (N (lfrom l))" and ?t = "RoutingTable (N (lto l))"
    have sv: "sound_table N0 ls (lfrom l) ?from" and su: "sound_table N0 ls (lto l) ?t" using sound by simp_all
    obtain old where old: "?t p = Some old" "unat (RCost old) = Suc j" using u True Suc by (auto simp: settled_def)
    have v: "distance N0 ls p j (lfrom l) \<Longrightarrow> ?from p = Some e \<Longrightarrow> unat (RCost e) = j" for e
      using before [OF Suc, of "lfrom l"] by (auto simp: settled_def)
    have d': "distance N0 ls p (Suc j) (lto l)" and j: "Suc j < 16" using d k Suc True by simp_all
    show ?thesis
      using tells_table(2) [OF plain few sound l step, of p] old v updateEntry_exact [OF plain links sv su l old d' j] True Suc
      by (auto simp: settled_def split: option.splits if_splits)
  qed
qed


text \<open>All routers within \<open>k\<close> links of \<open>p\<close> have their routes.\<close>

definition settled_upto :: "net \<Rightarrow> link list \<Rightarrow> Prefix \<Rightarrow> nat \<Rightarrow> net \<Rightarrow> bool" where
  "settled_upto N0 ls p k N \<longleftrightarrow> (\<forall>j \<le> k. \<forall>u. distance N0 ls p j u \<longrightarrow> settled N p j u)"

lemma settled_tells:
  assumes "plain_net N0" and "few_prefixes N0" and "links_ok owner ls"
    and "\<forall>u. sound_table N0 ls u (RoutingTable (N u))" and "l \<in> set ls" and "tells l N N'" and "k < 16" and "settled_upto N0 ls p k N"
  shows "settled_upto N0 ls p k N'"
  unfolding settled_upto_def
proof (intro allI impI)
  fix j u assume j: "j \<le> k" "distance N0 ls p j u"
  show "settled N' p j u"
    by (rule stay [OF assms(1-6) j(2)]) (use j assms(7,8) in \<open>auto simp: settled_upto_def\<close>)
qed

text \<open>A round takes the routes one link further.\<close>

lemma settled_told_all:
  assumes net: "plain_net N0" "few_prefixes N0" "links_ok owner ls" and k: "Suc k < 16"
  shows "told_all ms N N' \<Longrightarrow> set ms \<subseteq> set ls \<Longrightarrow> \<forall>u. sound_table N0 ls u (RoutingTable (N u)) \<Longrightarrow> settled_upto N0 ls p k N \<Longrightarrow>
    \<forall>u. distance N0 ls p (Suc k) u \<and> u \<in> S \<longrightarrow> settled N p (Suc k) u \<Longrightarrow>
    (\<forall>u. sound_table N0 ls u (RoutingTable (N' u))) \<and> settled_upto N0 ls p k N' \<and>
    (\<forall>u. distance N0 ls p (Suc k) u \<and> (u \<in> S \<or> (\<exists>l \<in> set ms. lto l = u \<and> distance N0 ls p k (lfrom l))) \<longrightarrow> settled N' p (Suc k) u)"
proof (induction ms arbitrary: N S)
  case Nil
  then show ?case by (auto elim: told_all_NilE)
next
  case (Cons l ms)
  obtain N1 where N1: "tells l N N1" "told_all ms N1 N'" using Cons.prems(1) by (rule told_all_ConsE)
  have l: "l \<in> set ls" using Cons.prems(2) by simp
  note sound = Cons.prems(3) and upto = Cons.prems(4)
  note sound1 = tells_table(1) [OF net(1,2) sound l N1(1)]
  have upto1: "settled_upto N0 ls p k N1" using settled_tells [OF net sound l N1(1) _ upto] k by simp
  let ?S = "S \<union> {u. lto l = u \<and> distance N0 ls p k (lfrom l)}"
  have "settled N1 p (Suc k) u" if d: "distance N0 ls p (Suc k) u" "u \<in> ?S" for u
  proof (cases "u \<in> S")
    case True
    then have "settled N p (Suc k) u" using Cons.prems(5) d(1) by blast
    then show ?thesis by (rule stay [OF net sound l N1(1) d(1) k]) (use upto in \<open>auto simp: settled_upto_def\<close>)
  next
    case False
    then have u: "u = lto l" "distance N0 ls p k (lfrom l)" using d(2) by auto
    then have "settled N p k (lfrom l)" using upto by (auto simp: settled_upto_def)
    then show ?thesis using gain [OF net sound l N1(1) u(2) _ k] d(1) u(1) by simp
  qed
  then have S: "\<forall>u. distance N0 ls p (Suc k) u \<and> u \<in> ?S \<longrightarrow> settled N1 p (Suc k) u" by blast
  have ms: "set ms \<subseteq> set ls" using Cons.prems(2) by simp
  from Cons.IH [OF N1(2) ms sound1 upto1 S] show ?case by auto
qed

lemma settled_start:
  assumes "plain_net N0" and "\<forall>u. sound_table N0 ls u (RoutingTable (N u))"
  shows "settled_upto N0 ls p 0 N"
proof -
  have "settled N p 0 u" if d: "distance N0 ls p 0 u" for u
  proof -
    obtain e where e: "RoutingTable (N0 u) p = Some e" "RouteTypeOf e = RouteTypeLocal"
      using d by (auto simp: distance_def split: option.splits)
    moreover have "RoutingTable (N u) p = Some e" using sound_fixed e(1) assms(2) by blast
    ultimately show ?thesis using assms(1) by (auto simp: plain_net_def settled_def)
  qed
  then show ?thesis by (simp add: settled_upto_def)
qed

text \<open>After \<open>k\<close> rounds, from any tables that are sound.\<close>

lemma settled_rounds:
  "rounds ls k N N' \<Longrightarrow> plain_net N0 \<Longrightarrow> few_prefixes N0 \<Longrightarrow> links_ok owner ls \<Longrightarrow> k < 16 \<Longrightarrow>
   \<forall>u. sound_table N0 ls u (RoutingTable (N u)) \<Longrightarrow>
   (\<forall>u. sound_table N0 ls u (RoutingTable (N' u))) \<and> settled_upto N0 ls p k N'"
proof (induction rule: rounds.induct)
  case (1 N)
  then show ?case using settled_start by simp
next
  case (2 k N N1 ms N2)
  have IH: "\<forall>u. sound_table N0 ls u (RoutingTable (N1 u))" "settled_upto N0 ls p k N1" using 2 by simp_all
  note all = settled_told_all [OF "2.prems"(1-3), of k ms N1 N2 p "{}", OF "2.prems"(4) "2.hyps"(3) _ IH]
  have "settled N2 p j u" if j: "j \<le> Suc k" "distance N0 ls p j u" for j u
  proof (cases "j = Suc k")
    case True
    then obtain l where "l \<in> set ls" "lto l = u" "distance N0 ls p k (lfrom l)" using distance_Suc j(2) by blast
    then show ?thesis using all "2.hyps"(2) j True by auto
  next
    case False
    then show ?thesis using all "2.hyps"(2) j by (auto simp: settled_upto_def)
  qed
  then show ?case using all "2.hyps"(2) by (simp add: settled_upto_def)
qed

text \<open>Rounds can always be run.\<close>

lemma tells_exists:
  assumes plain: "plain_net N0" and few: "few_prefixes N0" and sound: "\<forall>u. sound_table N0 ls u (RoutingTable (N u))"
    and fin: "\<forall>u. finite (dom (RoutingTable (N u)))" and l: "l \<in> set ls"
  shows "\<exists>N'. tells l N N' \<and> (\<forall>u. finite (dom (RoutingTable (N' u))))"
proof -
  let ?s = "N (lfrom l)" and ?t = "RoutingTable (N (lto l))"
  have v: "sound_table N0 ls (lfrom l) (RoutingTable ?s)" using sound by simp
  obtain order where order: "distinct order" "set order = dom (RoutingTable ?s)"
    using finite_distinct_list fin by metis
  note a = announced_entries [OF plain v order] and len = announced_few [OF plain v order few]
  have carry: "\<forall>e \<in> set (getAllEntries order ?s). sendable e" using a(3) by (simp add: truthful_def)
  then obtain b where b: "createRipResponse (getAllEntries order ?s) (ldst l) = ok b" using createRipResponse_sendable by blast
  let ?t' = "fst (updateEntries 0 (map (offered 0 l) (getAllEntries order ?s)) ?t)"
  have "rip_table 0 0 (lsrc l) b ?t = ok ?t'" using rip_table_response [OF b carry len, of 0 0 "[]"] by simp
  then have step: "tells l N (N(lto l := (N (lto l))\<lparr>RoutingTable := ?t'\<rparr>))" by (rule tells.intros [of order N l, OF order b])
  have "finite (dom (fst (updateEntries now es t)))" if "finite (dom t)" for now es and t :: "Prefix \<rightharpoonup> RoutingEntry"
  proof (rule finite_subset)
    show "dom (fst (updateEntries now es t)) \<subseteq> dom t \<union> EPrefix ` set es" using updateEntries_other by fastforce
  qed (use that in simp)
  then have "\<forall>u. finite (dom (RoutingTable ((N(lto l := (N (lto l))\<lparr>RoutingTable := ?t'\<rparr>)) u)))" using fin by simp
  with step show ?thesis by blast
qed

lemma told_all_exists:
  assumes "plain_net N0" and "few_prefixes N0"
  shows "\<forall>u. sound_table N0 ls u (RoutingTable (N u)) \<Longrightarrow> \<forall>u. finite (dom (RoutingTable (N u))) \<Longrightarrow> set ms \<subseteq> set ls \<Longrightarrow>
    \<exists>N'. told_all ms N N' \<and> (\<forall>u. sound_table N0 ls u (RoutingTable (N' u))) \<and> (\<forall>u. finite (dom (RoutingTable (N' u))))"
proof (induction ms arbitrary: N)
  case Nil
  then show ?case using told_all.intros(1) by blast
next
  case (Cons l ms)
  then have l: "l \<in> set ls" and ms: "set ms \<subseteq> set ls" by simp_all
  obtain N1 where N1: "tells l N N1" "\<forall>u. finite (dom (RoutingTable (N1 u)))"
    using tells_exists [OF assms Cons.prems(1,2) l] by blast
  note sound1 = tells_table(1) [OF assms Cons.prems(1) l N1(1)]
  from Cons.IH [OF sound1 N1(2) ms] show ?case using told_all.intros(2) [OF N1(1)] by blast
qed

lemma rounds_exist:
  assumes "plain_net N0" and "few_prefixes N0" and "\<forall>u. sound_table N0 ls u (RoutingTable (N u))"
    and "\<forall>u. finite (dom (RoutingTable (N u)))"
  shows "\<exists>N'. rounds ls k N N' \<and> (\<forall>u. sound_table N0 ls u (RoutingTable (N' u))) \<and> (\<forall>u. finite (dom (RoutingTable (N' u))))"
proof (induction k)
  case 0
  then show ?case using rounds.intros(1) assms(3,4) by blast
next
  case (Suc k)
  then obtain N1 where N1: "rounds ls k N N1" "\<forall>u. sound_table N0 ls u (RoutingTable (N1 u))" "\<forall>u. finite (dom (RoutingTable (N1 u)))"
    by blast
  then show ?case using told_all_exists [OF assms(1,2) N1(2,3), of ls] rounds.intros(2) [OF N1(1)] by blast
qed

lemma newRouter_finite:
  assumes "finite (dom (cfgStaticRoutes config))"
  shows "finite (dom (RoutingTable (newRouter config)))"
proof -
  have i: "finite (dom (RoutingTable (foldl initInterface s is)))" if "finite (dom (RoutingTable s))" for s "is"
    using that by (induction "is" arbitrary: s) (simp_all add: initInterface_def)
  have "finite (dom (RoutingTable (initRoutes s m)))" if "finite (dom (RoutingTable s))" "finite (dom m)" for s m
  proof (rule finite_subset)
    show "dom (RoutingTable (initRoutes s m)) \<subseteq> dom m \<union> dom (RoutingTable s)"
      by (auto simp: initRoutes_def split: option.splits)
  qed (use that in simp)
  then show ?thesis using assms i unfolding newRouter_table by (simp add: Init_def Let_def Init_neighbors)
qed

section \<open>Properties\<close>

text \<open>
  C7. No router ever believes in a way that is not there. Whatever responses are delayed, lost, repeated or
  reordered, whatever routes expire and interfaces go down, a RIP route with a finite cost names as its
  next hop a neighbour from which the destination is at most that cost less one links away; so a prefix that no
  way reaches never gets a finite cost.
\<close>

theorem rip_costs_are_ways:
  assumes "\<forall>v. plain_config (config v)" and "net_reachable L ls (\<lambda>v. newRouter (config v)) (N, W)"
    and "RoutingTable (N u) p = Some e" and "RouteTypeOf e = RouteTypeRIP" and "RCost e < 16"
  shows "0 < RCost e \<and> (\<exists>l \<in> set ls. lto l = u \<and> lsrc l = NextHop e \<and>
    hops (\<lambda>v. newRouter (config v)) ls p (unat (RCost e) - 1) (lfrom l))"
proof -
  let ?N = "\<lambda>v. newRouter (config v)"
  note plain = plain_routers [OF assms(1)]
  have "sound_table ?N ls u (RoutingTable (N u))" using sound_reachable [OF assms(2) plain] by (simp add: sound_net_at_def)
  from sound_RIP [OF plain this assms(3,4)] obtain l k where
    l: "l \<in> set ls" "lto l = u" "lsrc l = NextHop e" "unat (RCost e) = Suc k" "hops ?N ls p k (lfrom l)"
    using assms(5) by (auto simp: follows_def INFINITY_def)
  moreover have "0 < RCost e" using l(4) by (simp add: word_less_nat_alt)
  ultimately show ?thesis by auto
qed

text \<open>Every router within \<open>k\<close> links of a prefix has a shortest route.\<close>

definition shortest_routes :: "net \<Rightarrow> link list \<Rightarrow> nat \<Rightarrow> net \<Rightarrow> bool" where
  "shortest_routes N0 ls k N \<longleftrightarrow> (\<forall>p j u. j \<le> k \<and> distance N0 ls p j u \<longrightarrow>
     (\<exists>e. RoutingTable (N u) p = Some e \<and> unat (RCost e) = j \<and>
       (0 < j \<longrightarrow> (\<exists>l \<in> set ls. lto l = u \<and> lsrc l = NextHop e \<and> distance N0 ls p (j - 1) (lfrom l)))))"

lemma settled_shortest:
  assumes plain: "plain_net N0" and sound: "\<forall>u. sound_table N0 ls u (RoutingTable (N u))" and "\<And>p. settled_upto N0 ls p k N"
    and k: "k < 16"
  shows "shortest_routes N0 ls k N"
  unfolding shortest_routes_def
proof (intro allI impI, elim conjE)
  fix p j u assume j: "j \<le> k" and d: "distance N0 ls p j u"
  then obtain e where e: "RoutingTable (N u) p = Some e" "unat (RCost e) = j"
    using assms(3) unfolding settled_upto_def settled_def by blast
  have su: "sound_table N0 ls u (RoutingTable (N u))" using sound by simp
  have "\<exists>l \<in> set ls. lto l = u \<and> lsrc l = NextHop e \<and> distance N0 ls p i (lfrom l)" if i: "j = Suc i" for i
  proof -
    have rip: "RouteTypeOf e = RouteTypeRIP" using sound_distance [OF plain su e(1) d [unfolded i]] by simp
    have none: "RoutingTable (N0 u) p = None" using distance_Suc [OF d [unfolded i]] by simp
    have "RCost e < INFINITY" using e(2) j k by (simp add: word_less_nat_alt INFINITY_def)
    then obtain l where l: "l \<in> set ls" "lto l = u" "lsrc l = NextHop e" "hops N0 ls p i (lfrom l)"
      using sound_RIP [OF plain su e(1) rip] e(2) i by (auto simp: follows_def)
    have "\<not> hops N0 ls p m (lfrom l)" if "m < i" for m
    proof
      assume "hops N0 ls p m (lfrom l)"
      from hops_Suc [where u = u, OF none l(1,2) this] distance_le [OF d] have "j \<le> Suc m" by (simp del: hops.simps)
      then show False using i that by simp
    qed
    then show ?thesis using l by (auto simp: distance_def)
  qed
  then show "\<exists>e. RoutingTable (N u) p = Some e \<and> unat (RCost e) = j \<and>
       (0 < j \<longrightarrow> (\<exists>l \<in> set ls. lto l = u \<and> lsrc l = NextHop e \<and> distance N0 ls p (j - 1) (lfrom l)))"
    using e by (cases j) auto
qed

lemma shortest_after_rounds:
  assumes plain: "plain_net N0" and "links_ok owner ls" and few: "few_prefixes N0" and k: "k < 16"
    and sound: "\<forall>u. sound_table N0 ls u (RoutingTable (N u))" and fin: "\<forall>u. finite (dom (RoutingTable (N u)))"
  shows "(\<exists>N'. rounds ls k N N') \<and> (\<forall>N'. rounds ls k N N' \<longrightarrow> shortest_routes N0 ls k N')"
proof -
  have "shortest_routes N0 ls k N'" if "rounds ls k N N'" for N'
    using settled_rounds [OF that plain few assms(2) k sound] by (intro settled_shortest [OF plain _ _ k]) simp_all
  then show ?thesis using rounds_exist [OF plain few sound fin] by blast
qed

text \<open>
  C6. RIP converges to shortest ways. From the configured tables, after \<open>k\<close> rounds in each of which
  every router has told every neighbour its table, in any order, every router within \<open>k\<close> links of a
  prefix has a route to it with the exact distance as its cost, through a neighbour that is one link nearer;
  and the rounds can always be run: no response makes a router panic or loop.
\<close>

theorem rip_converges:
  assumes "\<forall>v. plain_config (config v)" and "\<forall>v. finite (dom (cfgStaticRoutes (config v)))" and "links_ok owner ls"
    and "few_prefixes (\<lambda>v. newRouter (config v))" and "k < 16"
  shows "(\<exists>N. rounds ls k (\<lambda>v. newRouter (config v)) N) \<and>
    (\<forall>N. rounds ls k (\<lambda>v. newRouter (config v)) N \<longrightarrow> shortest_routes (\<lambda>v. newRouter (config v)) ls k N)"
  using newRouter_finite assms(2) sound_initial [where N = "\<lambda>v. newRouter (config v)"]
  by (intro shortest_after_rounds [OF plain_routers [OF assms(1)] assms(3-5)]) simp_all

text \<open>Three routers in a row, the first with an interface on a network.\<close>

definition demo_configs :: "nat \<Rightarrow> IPConfig" where
  "demo_configs v = (if v = 0 then emptyConfig\<lparr>cfgInterfaces :=
     [\<lparr>cfgName = ''if0'', cfgAssignedIP = V4 0x0a010001, cfgAssignedPrefix = demo_net, cfgUDPAddr = (V4 0x7f000001, 5000)\<rparr>]\<rparr>
     else emptyConfig)"

definition demo_links :: "link list" where
  "demo_links = [\<lparr>lfrom = 1, lto = 2, lsrc = V4 12, ldst = V4 21\<rparr>, \<lparr>lfrom = 0, lto = 1, lsrc = V4 1, ldst = V4 11\<rparr>,
     \<lparr>lfrom = 2, lto = 1, lsrc = V4 21, ldst = V4 12\<rparr>, \<lparr>lfrom = 1, lto = 0, lsrc = V4 11, ldst = V4 1\<rparr>]"

definition demo_owner :: "Addr \<Rightarrow> nat" where
  "demo_owner a = (case a of V4 w \<Rightarrow> unat w div 10 | _ \<Rightarrow> 0)"

definition demo_local :: RoutingEntry where
  "demo_local = \<lparr>RouteTypeOf = RouteTypeLocal, EPrefix = demo_net, NextHop = NoAddr, LocalNextHop = ''if0'', RCost = 0, UpdatedAt = 0\<rparr>"

lemma demo_tables: "RoutingTable (newRouter (demo_configs v)) = (if v = 0 then [demo_net \<mapsto> demo_local] else Map.empty)"
  by (auto simp: newRouter_table Init_def Let_def Init_neighbors demo_configs_def emptyConfig_def initInterface_def initRoutes_def
      demo_local_def fun_eq_iff)

lemma demo_network: "\<forall>v. plain_config (demo_configs v)" "\<forall>v. finite (dom (cfgStaticRoutes (demo_configs v)))"
    "links_ok demo_owner demo_links" "few_prefixes (\<lambda>v. newRouter (demo_configs v))"
proof -
  show "\<forall>v. plain_config (demo_configs v)"
    by (simp add: plain_config_def demo_configs_def emptyConfig_def demo_net_def Bits_def)
  show "\<forall>v. finite (dom (cfgStaticRoutes (demo_configs v)))" by (simp add: demo_configs_def emptyConfig_def)
  show "links_ok demo_owner demo_links" by (simp add: links_ok_def demo_links_def demo_owner_def)
  have "{p. known (\<lambda>v. newRouter (demo_configs v)) p} = {demo_net}"
    by (auto simp: known_def demo_tables demo_local_def split: if_splits)
  then show "few_prefixes (\<lambda>v. newRouter (demo_configs v))" by (simp add: few_prefixes_def)
qed

lemma demo_distance: "distance (\<lambda>v. newRouter (demo_configs v)) demo_links demo_net 2 2"
proof -
  let ?h = "hops (\<lambda>v. newRouter (demo_configs v)) demo_links demo_net"
  have h0: "?h 0 v \<longleftrightarrow> v = 0" for v by (simp add: demo_tables demo_local_def)
  have h1: "?h (Suc 0) v \<longleftrightarrow> v = 0 \<or> v = 1" for v
    unfolding hops.simps(2) h0 by (auto simp: demo_tables demo_links_def)
  have "?h (Suc (Suc 0)) 2" unfolding hops.simps(2) [of _ _ _ "Suc 0"] h1 by (simp add: demo_tables demo_links_def)
  moreover have "\<not> ?h i 2" if "i < Suc (Suc 0)" for i
  proof -
    consider "i = 0" | "i = Suc 0" using \<open>i < Suc (Suc 0)\<close> by linarith
    then show ?thesis by cases (simp_all only: h0 h1, simp_all)
  qed
  ultimately show ?thesis by (simp add: distance_def numeral_2_eq_2 del: hops.simps)
qed

lemma rip_converges_witness:
  "\<exists>N e. rounds demo_links 2 (\<lambda>v. newRouter (demo_configs v)) N \<and> RoutingTable (N 2) demo_net = Some e \<and> unat (RCost e) = 2 \<and> NextHop e = V4 12"
proof -
  obtain N where N: "rounds demo_links 2 (\<lambda>v. newRouter (demo_configs v)) N"
      "shortest_routes (\<lambda>v. newRouter (demo_configs v)) demo_links 2 N"
    using rip_converges [OF demo_network, of 2] by auto
  then obtain e where e: "RoutingTable (N 2) demo_net = Some e" "unat (RCost e) = 2"
      "\<exists>l \<in> set demo_links. lto l = 2 \<and> lsrc l = NextHop e"
    using demo_distance unfolding shortest_routes_def by (metis order_refl zero_less_numeral)
  then have "NextHop e = V4 12" by (auto simp: demo_links_def)
  then show ?thesis using N(1) e by blast
qed


text \<open>One response from the first router to the second.\<close>

definition demo_packet :: "bytes \<Rightarrow> IPPacket" where
  "demo_packet b = \<lparr>Header = newHeader (V4 1) (V4 11) [] ProtoNumRIP, Payload = b\<rparr>"

lemma demo_response:
  "\<exists>b e. EPrefix e = demo_net \<and> RouteTypeOf e = RouteTypeRIP \<and> NextHop e = V4 1 \<and> RCost e = 1 \<and> UpdatedAt e = 7 \<and>
     createRipResponse [demo_local] (V4 11) = ok b \<and>
     ripRecvHandler demo_lib (\<lambda>k. demo_orders) [] 0 7 (newRouter (demo_configs 1)) (demo_packet b) =
       ok ([], (newRouter (demo_configs 1))\<lparr>RoutingTable := [demo_net \<mapsto> e]\<rparr>)"
proof -
  let ?l = "\<lparr>lfrom = 0, lto = 1, lsrc = V4 1, ldst = V4 11\<rparr>"
  have s: "sendable demo_local" "0 < Bits (EPrefix demo_local)" "RCost demo_local \<le> INFINITY"
    by (simp_all add: sendable_def demo_local_def demo_net_def Bits_def)
  let ?msg = "\<lparr>Command = RoutingCmdTypeResponse, NumEntries = 1, Entries = [advertised (V4 11) demo_local]\<rparr>"
  have b: "createRipResponse [demo_local] (V4 11) = ok (MarshalRip ?msg)"
    using createRipResponse_sendable [of "[demo_local]" "V4 11"] s by simp
  have u: "UnmarshalRip (MarshalRip ?msg @ []) = ok (Inr ?msg)" by (rule UnmarshalRip_Marshal) simp
  let ?e = "(offered 0 ?l demo_local)\<lparr>UpdatedAt := 7\<rparr>"
  have off: "EPrefix (offered 0 ?l demo_local) = demo_net" "NextHop (offered 0 ?l demo_local) = V4 1"
      "RouteTypeOf (offered 0 ?l demo_local) = RouteTypeRIP" "RCost (offered 0 ?l demo_local) = 1"
    using offered_fields [OF s, of 0 ?l] by (simp_all add: demo_local_def word_unat_eq_iff)
  have o': "routingEntryOf 0 (V4 1) (advertised (V4 11) demo_local) = offered 0 ?l demo_local" by (simp add: offered_def)
  have r: "RipNeighbors (newRouter (demo_configs 1)) = []"
    by (simp add: newRouter_def RegisterRecvHandler_def Init_def demo_configs_def emptyConfig_def initRoutes_def)
  have "ripRecvHandler demo_lib (\<lambda>k. demo_orders) [] 0 7 (newRouter (demo_configs 1)) (demo_packet (MarshalRip ?msg)) =
      ok ([], (newRouter (demo_configs 1))\<lparr>RoutingTable := [demo_net \<mapsto> ?e]\<rparr>)"
    using u off r o'
    by (simp add: demo_packet_def newHeader_def ripRecvHandler_def updateRoutingTable_def ripEntriesToRoutingEntries_def updateEntry_def
        demo_tables INFINITY_def sendRipUpdate_def)
  then show ?thesis using b off by (intro exI [of _ "MarshalRip ?msg"] exI [of _ ?e]) simp
qed

lemma demo_learns:
  "\<exists>e W. EPrefix e = demo_net \<and> RouteTypeOf e = RouteTypeRIP \<and> NextHop e = V4 1 \<and> RCost e = 1 \<and> UpdatedAt e = 7 \<and>
     net_reachable demo_lib demo_links (\<lambda>v. newRouter (demo_configs v))
       ((\<lambda>v. newRouter (demo_configs v))(1 := (newRouter (demo_configs 1))\<lparr>RoutingTable := [demo_net \<mapsto> e]\<rparr>), W)"
proof -
  let ?N = "\<lambda>v. newRouter (demo_configs v)" and ?l = "\<lparr>lfrom = 0, lto = 1, lsrc = V4 1, ldst = V4 11\<rparr>"
  obtain b e where e: "EPrefix e = demo_net" "RouteTypeOf e = RouteTypeRIP" "NextHop e = V4 1" "RCost e = 1" "UpdatedAt e = 7"
    and b: "createRipResponse [demo_local] (V4 11) = ok b"
    and h: "ripRecvHandler demo_lib (\<lambda>k. demo_orders) [] 0 7 (?N 1) (demo_packet b) = ok ([], (?N 1)\<lparr>RoutingTable := [demo_net \<mapsto> e]\<rparr>)"
    using demo_response by blast
  let ?W = "{} \<union> told_by demo_links 0 [demo_local]"
  have "net_step demo_lib demo_links 7 (?N, {}) (?N, ?W)"
    by (rule net_step.send) (simp add: announced_def demo_tables demo_local_def)
  then have r1: "net_reachable demo_lib demo_links ?N (?N, ?W)" by (rule net_reachable.step [OF net_reachable.start])
  have W: "(?l, b) \<in> ?W" using b by (simp add: told_by_def demo_links_def)
  have "net_step demo_lib demo_links 7 (?N, ?W) (?N(lto ?l := (?N 1)\<lparr>RoutingTable := [demo_net \<mapsto> e]\<rparr>), ?W)"
  proof (rule net_step.receive [where N = ?N and pad = "[]" and packet = "demo_packet b", OF W])
    show "ripRecvHandler demo_lib (\<lambda>k. demo_orders) [] 0 7 (?N (lto ?l)) (demo_packet b) = ok ([], (?N 1)\<lparr>RoutingTable := [demo_net \<mapsto> e]\<rparr>)"
      using h by simp
  qed (simp_all add: demo_packet_def newHeader_def)
  from net_reachable.step [OF r1 this]
  have "net_reachable demo_lib demo_links ?N (?N(1 := (?N 1)\<lparr>RoutingTable := [demo_net \<mapsto> e]\<rparr>), ?W)" by simp
  then show ?thesis using e by (intro exI [of _ e] exI [of _ ?W]) simp
qed

lemma rip_costs_are_ways_witness:
  "\<exists>N W e. net_reachable demo_lib demo_links (\<lambda>v. newRouter (demo_configs v)) (N, W) \<and>
     RoutingTable (N 1) demo_net = Some e \<and> NextHop e = V4 1 \<and> RCost e = 1 \<and>
     (\<exists>l \<in> set demo_links. lto l = 1 \<and> lsrc l = V4 1 \<and> hops (\<lambda>v. newRouter (demo_configs v)) demo_links demo_net 0 (lfrom l))"
proof -
  let ?N = "\<lambda>v. newRouter (demo_configs v)"
  obtain e W where e: "RouteTypeOf e = RouteTypeRIP" "NextHop e = V4 1" "RCost e = 1"
    and reach: "net_reachable demo_lib demo_links ?N (?N(1 := (newRouter (demo_configs 1))\<lparr>RoutingTable := [demo_net \<mapsto> e]\<rparr>), W)"
    using demo_learns by blast
  from rip_costs_are_ways [OF demo_network(1) reach, of 1 demo_net e] e show ?thesis
    by (intro exI [of _ "?N(1 := (newRouter (demo_configs 1))\<lparr>RoutingTable := [demo_net \<mapsto> e]\<rparr>)"] exI [of _ W] exI [of _ e] conjI reach)
      simp_all
qed

end
