(* ===== verification/Rip_Recovery.thy ===== *)
theory Rip_Recovery imports Rip_Network begin

text \<open>
  RIP after links have failed or come up. The routers' tables still hold routes from before, and nothing tells
  a router that a neighbour is gone: what it learnt stays until it is not refreshed for 12 seconds, and neighbours
  refresh each other's old routes with growing costs. A period is any run over the links of now after which every
  router has swept its table: in each period the wrong routes get more expensive by one, so that fifteen periods leave none
  with a finite cost, and the rounds of \<open>Rip_Network\<close> then find the shortest ways that there are.
\<close>

section \<open>Periods\<close>

definition updated_since :: "int \<Rightarrow> (Prefix \<rightharpoonup> RoutingEntry) \<Rightarrow> bool" where
  "updated_since s table \<longleftrightarrow> (\<forall>p e. table p = Some e \<longrightarrow> RouteTypeOf e = RouteTypeRIP \<longrightarrow> s \<le> UpdatedAt e)"

definition updated_before :: "int \<Rightarrow> (Prefix \<rightharpoonup> RoutingEntry) \<Rightarrow> bool" where
  "updated_before s table \<longleftrightarrow> (\<forall>p e. table p = Some e \<longrightarrow> RouteTypeOf e = RouteTypeRIP \<longrightarrow> UpdatedAt e < s)"

text \<open>
  \<open>elapsed L ls s N U x\<close>: from the network \<open>N\<close> with nothing on the wire, steps after the time \<open>s\<close> lead to \<open>x\<close>, and the
  routers of \<open>U\<close> have run \<^verbatim>\<open>RemoveExpiredEntries\<close> over their whole tables 12 seconds after \<open>s\<close> or later.
\<close>

inductive elapsed :: "netlib \<Rightarrow> link list \<Rightarrow> int \<Rightarrow> net \<Rightarrow> nat set \<Rightarrow> net \<times> (link \<times> bytes) set \<Rightarrow> bool" for L ls s N where
  begins: "elapsed L ls s N {} (N, {})"
| goes_on: "elapsed L ls s N U x \<Longrightarrow> net_step L ls now x y \<Longrightarrow> s \<le> now \<Longrightarrow> elapsed L ls s N U y"
| sweeps: "elapsed L ls s N U (N1, W) \<Longrightarrow> s + 12000000000 \<le> now \<Longrightarrow> dom (RoutingTable (N1 u)) \<subseteq> set order \<Longrightarrow>
    RemoveExpiredEntries L orders order now (N1 u) = ok (out, s') \<Longrightarrow>
    elapsed L ls s N (insert u U)
      (N1(u := s'), W \<union> told_by ls u (snd (removeExpired (now - 12000000000) order (RoutingTable (N1 u)))))"

text \<open>
  A period begins when all routes are older than \<open>s\<close> and the messages of before have arrived or are lost; in it every router
  that had learnt something sweeps.
\<close>

inductive periods :: "netlib \<Rightarrow> link list \<Rightarrow> nat \<Rightarrow> net \<Rightarrow> net \<Rightarrow> bool" for L ls where
  none: "periods L ls 0 N N"
| more: "periods L ls k N N1 \<Longrightarrow> \<forall>u. updated_before s (RoutingTable (N1 u)) \<Longrightarrow> elapsed L ls s N1 U (N2, W) \<Longrightarrow>
    \<forall>u. u \<in> U \<or> configured (RoutingTable (N1 u)) \<Longrightarrow> periods L ls (Suc k) N N2"

lemma updated_sinceD: "updated_since s table \<Longrightarrow> table p = Some e \<Longrightarrow> RouteTypeOf e = RouteTypeRIP \<Longrightarrow> s \<le> UpdatedAt e"
  by (simp add: updated_since_def)

section \<open>A sweep leaves fresh routes\<close>

lemma updated_since_updateEntry: "updated_since s table \<Longrightarrow> s \<le> now \<Longrightarrow> updated_since s (fst (updateEntry now r table))"
  by (auto simp: updated_since_def updateEntry_def split: option.splits)

lemma updated_since_updateEntries: "updated_since s table \<Longrightarrow> s \<le> now \<Longrightarrow> updated_since s (fst (updateEntries now rs table))"
proof (induction rs arbitrary: table)
  case (Cons r rs)
  then show ?case unfolding updateEntries_Cons by (simp add: updated_since_updateEntry)
qed simp

lemma updated_since_rip_table:
  "rip_table logZero now src b table = ok table' \<Longrightarrow> updated_since s table \<Longrightarrow> s \<le> now \<Longrightarrow> updated_since s table'"
  by (auto simp: rip_table_def updated_since_updateEntries elim!: bindG_okE split: sum.splits if_splits)

lemma updated_since_removeExpired: "updated_since s table \<Longrightarrow> updated_since s (fst (removeExpired expiry order table))"
  by (auto simp: updated_since_def removeExpired_spec split: if_splits)

lemma swept: "dom table \<subseteq> set order \<Longrightarrow> s \<le> expiry \<Longrightarrow> updated_since s (fst (removeExpired expiry order table))"
  by (force simp: updated_since_def removeExpired_spec not_less split: if_splits)

lemma updated_since_step:
  assumes "net_step L ls now (N, W) (N', W')" and "s \<le> now" and "updated_since s (RoutingTable (N u))"
  shows "updated_since s (RoutingTable (N' u))"
  using assms(1)
proof cases
  case (receive l b packet pad orders order logZero out s')
  then show ?thesis using updated_since_rip_table [OF ripRecvHandler_rip_table [OF receive(6)]] assms(2,3) by auto
next
  case (expire orders order u' out s')
  then show ?thesis using RemoveExpired_table updated_since_removeExpired assms(3) by auto
qed (use assms(3) in auto)

lemma elapsed_updated:
  "elapsed L ls s N U x \<Longrightarrow> u \<in> U \<or> configured (RoutingTable (N u)) \<Longrightarrow> updated_since s (RoutingTable (fst x u))"
proof (induction arbitrary: u rule: elapsed.induct)
  case begins
  then show ?case by (auto simp: configured_def updated_since_def)
next
  case (goes_on U x now y)
  then show ?case using updated_since_step [of L ls now "fst x" "snd x" "fst y" "snd y"] by simp
next
  case (sweeps U N1 W now u' order orders out s')
  have t: "RoutingTable s' = fst (removeExpired (now - 12000000000) order (RoutingTable (N1 u')))"
    using RemoveExpired_table [OF sweeps(4)] .
  show ?case
  proof (cases "u = u'")
    case True
    then show ?thesis using t swept [OF sweeps(3), of s "now - 12000000000"] sweeps(2) by simp
  next
    case False
    then show ?thesis using sweeps by simp
  qed
qed

section \<open>A period raises the level\<close>

definition level :: "int \<Rightarrow> nat \<Rightarrow> int \<Rightarrow> nat" where
  "level s k t = (if t < s then k else min (Suc k) 16)"

lemma sound_at_mono:
  assumes "plain_net N0" and "sound_at K N0 ls u table"
    and "\<And>p e. table p = Some e \<Longrightarrow> RouteTypeOf e = RouteTypeRIP \<Longrightarrow> K' (UpdatedAt e) \<le> K (UpdatedAt e)"
  shows "sound_at K' N0 ls u table"
  unfolding sound_at_def
proof (intro conjI allI impI)
  show "RoutingTable (N0 u) \<subseteq>\<^sub>m table" using assms(2) by (simp add: sound_at_def)
  fix p e assume e: "table p = Some e"
  show "RoutingTable (N0 u) p = Some e \<or> RoutingTable (N0 u) p = None \<and> EPrefix e = p \<and> follows_at K' N0 ls u e"
  proof (cases "RouteTypeOf e = RouteTypeRIP")
    case True
    note r = sound_RIP [OF assms(1,2) e True]
    then have "follows_at K N0 ls u e" by simp
    then have "follows_at K' N0 ls u e" using assms(3) [OF e True] by (auto simp: follows_at_def)
    then show ?thesis using r by simp
  next
    case False
    then show ?thesis using sound_nonRIP [OF assms(2) e] by simp
  qed
qed

lemma elapsed_sound:
  assumes plain: "plain_net N0" and k: "k \<le> 16"
  shows "elapsed L ls s N U x \<Longrightarrow> \<forall>u. sound_at (level s k) N0 ls u (RoutingTable (N u)) \<Longrightarrow> sound_net_at (level s k) k N0 ls x"
proof (induction rule: elapsed.induct)
  case begins
  then show ?case by (simp add: sound_net_at_def)
next
  case (goes_on U x now y)
  show ?case by (rule sound_step [OF plain goes_on(2)]) (use goes_on k in \<open>simp_all add: level_def min_def\<close>)
next
  case (sweeps U N1 W now u order orders out s')
  have "sound_net_at (level s k) k N0 ls (N1, W)" using sweeps by simp
  then show ?case
    by (rule sound_step [OF plain net_step.expire [where N = N1 and s' = s' and u = u, OF sweeps(4)]]) (use sweeps(2) k in \<open>simp_all add: level_def min_def\<close>)
qed

lemma sound_periods:
  "periods L ls j N N1 \<Longrightarrow> plain_net N0 \<Longrightarrow> \<forall>u. sound_at (\<lambda>t. 1) N0 ls u (RoutingTable (N u)) \<Longrightarrow>
   \<forall>u. sound_at (\<lambda>t. min (Suc j) 16) N0 ls u (RoutingTable (N1 u))"
proof (induction rule: periods.induct)
  case (none N)
  then show ?case by simp
next
  case (more k N N1 s U N2 W)
  let ?k = "min (Suc k) 16"
  have "\<forall>u. sound_at (level s ?k) N0 ls u (RoutingTable (N1 u))"
    using sound_at_mono [OF more.prems(1), of "\<lambda>t. ?k"] more by (simp add: level_def updated_before_def)
  from elapsed_sound [OF more.prems(1) _ more.hyps(3) this]
  have s2: "sound_at (level s ?k) N0 ls u (RoutingTable (N2 u))" for u by (simp add: sound_net_at_def)
  show ?case
  proof
    fix u
    have "updated_since s (RoutingTable (N2 u))" using elapsed_updated [OF more.hyps(3)] more.hyps(4) by simp
    then show "sound_at (\<lambda>t. min (Suc (Suc k)) 16) N0 ls u (RoutingTable (N2 u))"
      by (intro sound_at_mono [OF more.prems(1) s2]) (auto simp: level_def min_def dest: updated_sinceD)
  qed
qed

text \<open>Whatever the links were before, no learnt route has the cost 0.\<close>

lemma follows_before: "follows N ls0 u e \<Longrightarrow> follows_at (\<lambda>t. 1) N ls u e"
  by (cases "unat (RCost e)") (auto simp: follows_at_def)

lemma sound_before:
  assumes "plain_net N0" and "sound_table N0 ls0 u table"
  shows "sound_at (\<lambda>t. 1) N0 ls u table"
  unfolding sound_at_def
proof (intro conjI allI impI)
  show "RoutingTable (N0 u) \<subseteq>\<^sub>m table" using assms(2) by (simp add: sound_at_def)
  fix p e assume "table p = Some e"
  then show "RoutingTable (N0 u) p = Some e \<or> RoutingTable (N0 u) p = None \<and> EPrefix e = p \<and> follows_at (\<lambda>t. 1) N0 ls u e"
    using assms(2) follows_before unfolding sound_at_def by blast
qed

lemma sound_finite:
  assumes "sound_at K N0 ls u table" and "few_prefixes N0" and "finite (dom (RoutingTable (N0 u)))"
  shows "finite (dom table)"
proof (rule finite_subset)
  show "dom table \<subseteq> dom (RoutingTable (N0 u)) \<union> {p. known N0 p}" using assms(1) by (fastforce simp: sound_at_def follows_at_def)
qed (use assms(2,3) in \<open>simp add: few_prefixes_def\<close>)


section \<open>Recovery\<close>

text \<open>After \<open>j\<close> periods a cost of at most \<open>j\<close> is the length of a way over the links of now.\<close>

lemma rip_forgets:
  assumes "\<forall>v. plain_config (config v)" and "net_reachable L ls0 (\<lambda>v. newRouter (config v)) (N, W)" and "periods L ls j N N1"
  shows "sound_at (\<lambda>t. min (Suc j) 16) (\<lambda>v. newRouter (config v)) ls u (RoutingTable (N1 u))"
proof -
  note plain = plain_routers [OF assms(1)]
  have "\<forall>u. sound_table (\<lambda>v. newRouter (config v)) ls0 u (RoutingTable (N u))"
    using sound_reachable [OF assms(2) plain] by (simp add: sound_net_at_def)
  then show ?thesis using sound_periods [OF assms(3) plain] sound_before [OF plain] by blast
qed

text \<open>
  C8. RIP recovers when links fail. Whatever the routers learnt over the links \<open>ls0\<close>, by messages delayed, lost,
  repeated or reordered: fifteen periods over the links \<open>ls\<close> later, in each of which anything may happen on the network
  and every router that had learnt something has removed its expired routes, every finite cost is the length of a way
  over \<open>ls\<close>; and \<open>k\<close> rounds of responses then give every router within \<open>k\<close> links of a prefix a shortest
  route to it, and can always be run.
\<close>

theorem rip_recovers:
  assumes "\<forall>v. plain_config (config v)" and "\<forall>v. finite (dom (cfgStaticRoutes (config v)))" and "links_ok owner ls"
    and "few_prefixes (\<lambda>v. newRouter (config v))" and "k < 16"
    and "net_reachable L ls0 (\<lambda>v. newRouter (config v)) (N, W)" and "periods L ls 15 N N1"
  shows "(\<forall>u p e. RoutingTable (N1 u) p = Some e \<and> RouteTypeOf e = RouteTypeRIP \<and> RCost e < 16 \<longrightarrow>
      hops (\<lambda>v. newRouter (config v)) ls p (unat (RCost e)) u) \<and>
    (\<exists>N2. rounds ls k N1 N2) \<and>
    (\<forall>N2. rounds ls k N1 N2 \<longrightarrow> shortest_routes (\<lambda>v. newRouter (config v)) ls k N2)"
proof -
  let ?N0 = "\<lambda>v. newRouter (config v)"
  note plain = plain_routers [OF assms(1)]
  have sound: "sound_table ?N0 ls u (RoutingTable (N1 u))" for u using rip_forgets [OF assms(1,6,7)] by simp
  have "finite (dom (RoutingTable (N1 u)))" for u using sound_finite [OF sound assms(4)] newRouter_finite assms(2) by simp
  then show ?thesis
    using sound_hops [OF plain sound] shortest_after_rounds [OF plain assms(3-5), of N1] sound by (auto simp: INFINITY_def)
qed

text \<open>
  In the row of three routers the first link fails after the second router has learnt its route, and a link from the first to
  the third comes up: the route goes round.
\<close>

definition demo_detour :: "link list" where
  "demo_detour = [\<lparr>lfrom = 2, lto = 1, lsrc = V4 21, ldst = V4 12\<rparr>, \<lparr>lfrom = 0, lto = 2, lsrc = V4 2, ldst = V4 20\<rparr>]"

lemma periods_idle: "periods L ls j N N1 \<Longrightarrow> \<forall>u. configured (RoutingTable (N1 u)) \<Longrightarrow> periods L ls (j + k) N N1"
proof (induction k)
  case (Suc k)
  have "updated_before 0 (RoutingTable (N1 u))" for u using Suc.prems(2) by (auto simp: configured_def updated_before_def)
  then have "\<forall>u. updated_before 0 (RoutingTable (N1 u))" by simp
  from periods.more [OF Suc.IH [OF Suc.prems] this elapsed.begins] show ?case using Suc.prems(2) by simp
qed simp

lemma sweep_period:
  assumes "\<forall>v. updated_before s (RoutingTable (N v))" and "s + 12000000000 \<le> now" and "dom (RoutingTable (N u)) \<subseteq> set order"
    and "RemoveExpiredEntries L orders order now (N u) = ok (out, s')" and "\<And>v. v \<noteq> u \<Longrightarrow> configured (RoutingTable (N v))"
  shows "periods L ls 1 N (N(u := s'))"
  using periods.more [OF periods.none assms(1) elapsed.sweeps [where ?N1.0 = N and u = u, OF elapsed.begins assms(2-4)]] assms(5) by auto

lemma rip_recovers_witness:
  "\<exists>N N1 N2 W e. net_reachable demo_lib demo_links (\<lambda>v. newRouter (demo_configs v)) (N, W) \<and>
     RoutingTable (N 1) demo_net \<noteq> None \<and> periods demo_lib demo_detour 15 N N1 \<and> rounds demo_detour 2 N1 N2 \<and>
     RoutingTable (N2 1) demo_net = Some e \<and> RCost e = 2 \<and> NextHop e = V4 21"
proof -
  let ?N = "\<lambda>v. newRouter (demo_configs v)"
  obtain e W where e: "EPrefix e = demo_net" "RouteTypeOf e = RouteTypeRIP" "UpdatedAt e = 7"
    and reach: "net_reachable demo_lib demo_links ?N (?N(1 := (newRouter (demo_configs 1))\<lparr>RoutingTable := [demo_net \<mapsto> e]\<rparr>), W)"
    using demo_learns by blast
  let ?r = "(newRouter (demo_configs 1))\<lparr>RoutingTable := [demo_net \<mapsto> e]\<rparr>"
  have n: "RipNeighbors (newRouter (demo_configs 1)) = []"
    by (simp add: newRouter_def RegisterRecvHandler_def Init_def demo_configs_def emptyConfig_def initRoutes_def)
  have same: "(newRouter (demo_configs 1))\<lparr>RoutingTable := Map.empty\<rparr> = newRouter (demo_configs 1)"
    using demo_tables [of 1] by (cases "newRouter (demo_configs 1)") simp
  have sweep: "RemoveExpiredEntries demo_lib (\<lambda>k. demo_orders) [demo_net] 20000000000 ?r = ok ([], newRouter (demo_configs 1))"
    using e n same by (simp add: RemoveExpiredEntries_def sendRipUpdate_def)
  have b: "\<forall>u. updated_before 8 (RoutingTable ((?N(1 := ?r)) u))"
    using e by (auto simp: updated_before_def demo_tables demo_local_def)
  have "periods demo_lib demo_detour 1 (?N(1 := ?r)) ((?N(1 := ?r))(1 := newRouter (demo_configs 1)))"
  proof (rule sweep_period [OF b])
    show "RemoveExpiredEntries demo_lib (\<lambda>k. demo_orders) [demo_net] 20000000000 ((?N(1 := ?r)) 1) = ok ([], newRouter (demo_configs 1))"
      using sweep by simp
  qed (auto simp: configured_def demo_tables demo_local_def)
  moreover have "(?N(1 := ?r))(1 := newRouter (demo_configs 1)) = ?N" by (simp add: fun_eq_iff)
  ultimately have "periods demo_lib demo_detour 1 (?N(1 := ?r)) ?N" by metis
  from periods_idle [OF this, of 14] have per: "periods demo_lib demo_detour 15 (?N(1 := ?r)) ?N"
    by (simp add: configured_def demo_tables demo_local_def)
  have links: "links_ok demo_owner demo_detour" by (simp add: links_ok_def demo_detour_def demo_owner_def)
  obtain N2 where N2: "rounds demo_detour 2 ?N N2" "shortest_routes ?N demo_detour 2 N2"
    using rip_recovers [OF demo_network(1,2) links demo_network(4) _ reach per, of 2] by auto
  let ?h = "hops ?N demo_detour demo_net"
  have h: "?h 0 v \<longleftrightarrow> v = 0" "?h (Suc 0) v \<longleftrightarrow> v = 0 \<or> v = 2" "?h 2 1" for v
    by (auto simp: numeral_2_eq_2 demo_tables demo_local_def demo_detour_def)
  have "\<not> ?h i 1" if "i < 2" for i
  proof -
    consider "i = 0" | "i = Suc 0" using \<open>i < 2\<close> by linarith
    then show ?thesis by cases (simp_all only: h, simp_all)
  qed
  then have "distance ?N demo_detour demo_net 2 1" using h(3) by (simp add: distance_def)
  then obtain x where x: "RoutingTable (N2 1) demo_net = Some x" "unat (RCost x) = 2" "\<exists>l \<in> set demo_detour. lto l = 1 \<and> lsrc l = NextHop x"
    using N2(2) unfolding shortest_routes_def by (metis order_refl zero_less_numeral)
  have "NextHop x = V4 21" using x(3) by (auto simp: demo_detour_def)
  moreover have "RCost x = 2" using x(2) by (simp add: word_unat_eq_iff)
  ultimately show ?thesis using reach per N2(1) x(1)
    by (intro exI [of _ "?N(1 := ?r)"] exI [of _ ?N] exI [of _ N2] exI [of _ W] exI [of _ x]) simp
qed

text \<open>
  Where routers wait for each other in a circle when the costs have reached 16, nobody forgets: a neighbour that announces the dead
  route at cost 16 refreshes it, and the search for the longest match does not look at costs.
\<close>

lemma dead_route_refreshed:
  assumes "table p = Some old" and "RouteTypeOf old = RouteTypeRIP" and "NextHop old = lsrc l" and "RCost old = INFINITY"
    and "sendable e" and "EPrefix e = p" and "0 < Bits p" and "RCost e = INFINITY" and "expiry \<le> now"
  shows "fst (removeExpired expiry order (fst (updateEntry now (offered logZero l e) table))) p = Some (old\<lparr>UpdatedAt := now\<rparr>)"
proof -
  have e: "sendable e" "0 < Bits (EPrefix e)" "RCost e \<le> INFINITY" using assms(5-8) by simp_all
  have "unat (RCost (offered logZero l e)) = 16" using offered_fields(5) [OF e, of logZero l] assms(8) by (simp add: INFINITY_def)
  then have "RCost (offered logZero l e) = INFINITY" by (simp add: word_unat_eq_iff INFINITY_def)
  then show ?thesis using offered_fields(1,3) [OF e, of logZero l] assms by (simp add: updateEntry_def removeExpired_spec)
qed

end
