(* ===== verification/Go_Text.thy ===== *)
theory Go_Text imports Netip begin

text \<open>
  The functions of Go's \<^verbatim>\<open>strings\<close>, \<^verbatim>\<open>strconv\<close>, \<^verbatim>\<open>fmt\<close> and \<^verbatim>\<open>bufio\<close> with which the program takes its input
  apart: splitting and joining, trimming, decimal numbers, \<^verbatim>\<open>Fscanf\<close> with a format of words, and the lines
  of a file. Text is a list of ASCII characters; what Go does for other Unicode space is left out.
\<close>

section \<open>Splitting and joining\<close>

text \<open>\<^verbatim>\<open>strings.Split(s, sep)\<close> and \<^verbatim>\<open>strings.Join(words, sep)\<close> for a separator of one character.\<close>

fun split_on :: "char \<Rightarrow> string \<Rightarrow> string list" where
  "split_on c [] = [[]]"
| "split_on c (x # xs) = (if x = c then [] # split_on c xs
     else (case split_on c xs of [] \<Rightarrow> [[x]] | w # ws \<Rightarrow> (x # w) # ws))"

fun join :: "char \<Rightarrow> string list \<Rightarrow> string" where
  "join c [] = []"
| "join c [w] = w"
| "join c (w # v # ws) = w @ c # join c (v # ws)"

definition words :: "string \<Rightarrow> string list" where
  "words s = split_on CHR '' '' s"

text \<open>The two parts around the last separator (\<^verbatim>\<open>strings.LastIndexByte\<close>).\<close>

definition split_last :: "char \<Rightarrow> string \<Rightarrow> (string \<times> string) option" where
  "split_last c s =
     (let tl_rev = takeWhile (\<lambda>x. x \<noteq> c) (rev s)
      in if length tl_rev = length s then None
         else Some (take (length s - length tl_rev - 1) s, rev tl_rev))"

lemma split_on_not_Nil [simp]: "split_on c s \<noteq> []"
  by (induction s) (auto split: list.splits)

lemma split_on_single [simp]: "c \<notin> set w \<Longrightarrow> split_on c w = [w]"
  by (induction w) auto

lemma split_on_append [simp]: "c \<notin> set w \<Longrightarrow> split_on c (w @ c # s) = w # split_on c s"
  by (induction w) auto

lemma split_on_join: "ws \<noteq> [] \<Longrightarrow> \<forall>w \<in> set ws. c \<notin> set w \<Longrightarrow> split_on c (join c ws) = ws"
  by (induction c ws rule: join.induct) auto

lemma join_split_on [simp]: "join c (split_on c s) = s"
proof (induction s)
  case (Cons x xs)
  obtain w ws where "split_on c xs = w # ws" by (cases "split_on c xs") simp_all
  then show ?case using Cons by (cases ws) auto
qed simp

lemma split_on_no_sep: "w \<in> set (split_on c s) \<Longrightarrow> c \<notin> set w"
  by (induction s arbitrary: w) (auto split: if_splits list.splits)

lemma split_last_append [simp]: "c \<notin> set b \<Longrightarrow> split_last c (a @ c # b) = Some (a, b)"
proof -
  assume c: "c \<notin> set b"
  have "takeWhile (\<lambda>x. x \<noteq> c) (rev (a @ c # b)) = rev b"
    using c by (simp add: takeWhile_append)
  then show ?thesis by (simp add: split_last_def)
qed

section \<open>Space\<close>

definition isSpace :: "char \<Rightarrow> bool" where
  "isSpace c \<longleftrightarrow> c = CHR '' '' \<or> c = CHR 0x09 \<or> c = CHR 0x0A \<or> c = CHR 0x0B \<or> c = CHR 0x0C \<or> c = CHR 0x0D"

text \<open>\<^verbatim>\<open>strings.TrimSpace\<close>\<close>

definition TrimSpace :: "string \<Rightarrow> string" where
  "TrimSpace s = rev (dropWhile isSpace (rev (dropWhile isSpace s)))"

definition no_space :: "string \<Rightarrow> bool" where
  "no_space s \<longleftrightarrow> s \<noteq> [] \<and> list_all (\<lambda>c. \<not> isSpace c) s"

lemma no_space_blank: "no_space w \<Longrightarrow> CHR '' '' \<notin> set w"
  by (auto simp: no_space_def list_all_iff isSpace_def)

lemma takeWhile_no_space:
  assumes "no_space w" and "s = [] \<or> isSpace (hd s)"
  shows "takeWhile (\<lambda>c. \<not> isSpace c) (w @ s) = w" "dropWhile (\<lambda>c. \<not> isSpace c) (w @ s) = s"
proof -
  have w: "\<forall>x \<in> set w. \<not> isSpace x" using assms(1) by (simp add: no_space_def list_all_iff)
  show "takeWhile (\<lambda>c. \<not> isSpace c) (w @ s) = w"
    using w assms(2) by (cases s) (auto simp: takeWhile_append takeWhile_eq_all_conv)
  show "dropWhile (\<lambda>c. \<not> isSpace c) (w @ s) = s"
    using w assms(2) by (cases s) (auto simp: dropWhile_append dropWhile_eq_Nil_conv)
qed

lemma dropWhile_space: "no_space w \<Longrightarrow> dropWhile isSpace (w @ s) = w @ s"
  by (cases w) (auto simp: no_space_def)

section \<open>Decimal numbers\<close>

definition digit_val :: "char \<Rightarrow> int option" where
  "digit_val c = (if (48 :: int) \<le> of_char c \<and> of_char c \<le> (57 :: int) then Some ((of_char c :: int) - 48) else None)"

fun digits_val :: "int \<Rightarrow> string \<Rightarrow> int option" where
  "digits_val acc [] = Some acc"
| "digits_val acc (c # cs) = (case digit_val c of None \<Rightarrow> None | Some d \<Rightarrow> digits_val (10 * acc + d) cs)"

text \<open>\<^verbatim>\<open>strconv.Atoi\<close>: an optional sign and decimal digits, within the range of a 64-bit \<^verbatim>\<open>int\<close>.\<close>

definition Atoi :: "string \<Rightarrow> int option" where
  "Atoi s =
     (let neg = (s \<noteq> [] \<and> hd s = CHR ''-'');
          ds = (if s \<noteq> [] \<and> (hd s = CHR ''-'' \<or> hd s = CHR ''+'') then tl s else s)
      in if ds = [] then None
         else (case digits_val 0 ds of
             None \<Rightarrow> None
           | Some v \<Rightarrow>
               let n = (if neg then - v else v)
               in if - (2 ^ 63) \<le> n \<and> n < 2 ^ 63 then Some n else None))"

text \<open>\<^verbatim>\<open>strconv.ParseUint(s, 10, 16)\<close>\<close>

definition ParseUint16 :: "string \<Rightarrow> u16 option" where
  "ParseUint16 s =
     (if s = [] then None
      else (case digits_val 0 s of None \<Rightarrow> None | Some v \<Rightarrow> if v < 2 ^ 16 then Some (word_of_int v) else None))"

text \<open>The decimal digits of a number, as \<^verbatim>\<open>fmt\<close> prints it.\<close>

definition digit_char :: "nat \<Rightarrow> char" where
  "digit_char d = char_of (48 + d)"

fun show_nat :: "nat \<Rightarrow> string" where
  "show_nat n = (if n < 10 then [digit_char n] else show_nat (n div 10) @ [digit_char (n mod 10)])"

declare show_nat.simps [simp del]

definition show_int :: "int \<Rightarrow> string" where
  "show_int i = (if i < 0 then CHR ''-'' # show_nat (nat (- i)) else show_nat (nat i))"

lemma digit_val_char [simp]: "d < 10 \<Longrightarrow> digit_val (digit_char d) = Some (int d)"
proof -
  assume "d < 10"
  then have "d \<in> {..<10}" by simp
  moreover have "\<forall>d \<in> set [0..<10]. digit_val (digit_char d) = Some (int d)" by code_simp
  ultimately show ?thesis by (simp add: atLeast0LessThan)
qed

lemma digits_val_append:
  "digits_val acc (a @ b) = (case digits_val acc a of None \<Rightarrow> None | Some v \<Rightarrow> digits_val v b)"
  by (induction acc a rule: digits_val.induct) (auto split: option.splits)

lemma show_nat_not_Nil [simp]: "show_nat n \<noteq> []"
  by (subst show_nat.simps) simp

lemma digits_val_show [simp]: "digits_val 0 (show_nat n) = Some (int n)"
proof (induction n rule: show_nat.induct)
  case (1 n)
  show ?case
  proof (cases "n < 10")
    case True
    then show ?thesis by (subst show_nat.simps) simp
  next
    case False
    have "10 * (int n div 10) + int n mod 10 = int n" by simp
    then show ?thesis using False 1
      by (subst show_nat.simps) (simp add: digits_val_append zdiv_int zmod_int)
  qed
qed

definition is_digit :: "char \<Rightarrow> bool" where
  "is_digit c \<longleftrightarrow> c \<in> set ''0123456789''"

lemma digit_char_is_digit: "d < 10 \<Longrightarrow> is_digit (digit_char d)"
proof -
  assume "d < 10"
  moreover have "\<forall>d \<in> set [0..<10]. is_digit (digit_char d)" by code_simp
  ultimately show ?thesis by (simp add: atLeast0LessThan)
qed

lemma show_nat_digits: "c \<in> set (show_nat n) \<Longrightarrow> is_digit c"
proof (induction n rule: show_nat.induct)
  case (1 n)
  then show ?case
    by (subst (asm) (2) show_nat.simps) (auto simp: digit_char_is_digit split: if_splits)
qed

lemma is_digit_plain: "is_digit c \<Longrightarrow> \<not> isSpace c \<and> c \<noteq> CHR ''.'' \<and> c \<noteq> CHR '':'' \<and> c \<noteq> CHR ''/'' \<and> c \<noteq> CHR ''-'' \<and>
    c \<noteq> CHR ''+'' \<and> c \<noteq> CHR ''['' \<and> c \<noteq> CHR ''%'' \<and> c \<noteq> CHR ''#''"
  by (auto simp: is_digit_def isSpace_def)

lemma show_nat_plain: "c \<in> set (show_nat n) \<Longrightarrow> \<not> isSpace c \<and> c \<noteq> CHR ''.'' \<and> c \<noteq> CHR '':'' \<and> c \<noteq> CHR ''/'' \<and>
    c \<noteq> CHR ''-'' \<and> c \<noteq> CHR ''+'' \<and> c \<noteq> CHR ''['' \<and> c \<noteq> CHR ''%'' \<and> c \<noteq> CHR ''#''"
  using show_nat_digits is_digit_plain by blast

lemma hd_show_nat: "is_digit (hd (show_nat n))"
  by (rule show_nat_digits [OF hd_in_set [OF show_nat_not_Nil]])

lemma Atoi_show_nat: "n < 2 ^ 63 \<Longrightarrow> Atoi (show_nat n) = Some (int n)"
proof -
  assume n: "n < 2 ^ 63"
  have "hd (show_nat n) \<noteq> CHR ''-''" "hd (show_nat n) \<noteq> CHR ''+''"
    using is_digit_plain [OF hd_show_nat, of n] by simp_all
  moreover have "int n < 2 ^ 63" using n by simp
  ultimately show ?thesis by (simp add: Atoi_def Let_def)
qed

lemma ParseUint16_show: "ParseUint16 (show_nat (unat (p :: u16))) = Some p"
proof -
  have "uint p < 2 ^ 16" using uint_lt2p [of p] by simp
  then show ?thesis by (simp add: ParseUint16_def)
qed

text \<open>No leading zero, which the parser of a prefix does not accept.\<close>

lemma show_nat_lead: "0 < n \<Longrightarrow> hd (show_nat n) \<noteq> CHR ''0''"
proof (induction n rule: show_nat.induct)
  case (1 n)
  show ?case
  proof (cases "n < 10")
    case True
    have "\<forall>d \<in> set [1..<10]. digit_char d \<noteq> CHR ''0''" by code_simp
    moreover have "n \<in> set [1..<10]" using 1(2) True by simp
    ultimately show ?thesis using True by (subst show_nat.simps) (simp del: set_upt)
  next
    case False
    then show ?thesis using 1 by (subst show_nat.simps) (simp add: hd_append)
  qed
qed

section \<open>Scanning words\<close>

text \<open>
  \<^verbatim>\<open>fmt.Fscanf(strings.NewReader(line), format, ...)\<close> for formats of literals, blanks and \<^verbatim>\<open>%s\<close>: the words
  it stores, or \<open>None\<close> for an error. A blank of the format matches one or more spaces of the input or
  its end; what follows the last verb is not looked at. The input is one line.
\<close>

lemma length_dropWhile_Suc: "length (dropWhile P fs) < Suc (length fs)"
  by (simp add: length_dropWhile_le le_imp_less_Suc)

function Fscanf :: "string \<Rightarrow> string \<Rightarrow> string list option" where
  "Fscanf [] inp = Some []"
| "Fscanf (f # fs) inp =
     (if isSpace f then
        (if inp = [] \<or> isSpace (hd inp) then Fscanf (dropWhile isSpace fs) (dropWhile isSpace inp) else None)
      else if f = CHR ''%'' then
        (let inp' = dropWhile isSpace inp
         in if fs = [] \<or> hd fs \<noteq> CHR ''s'' \<or> inp' = [] then None
            else map_option ((#) (takeWhile (\<lambda>c. \<not> isSpace c) inp'))
                   (Fscanf (tl fs) (dropWhile (\<lambda>c. \<not> isSpace c) inp')))
      else if inp = [] \<or> hd inp \<noteq> f then None
      else Fscanf fs (tl inp))"
  by pat_completeness auto

termination
  by (relation "measure (\<lambda>(fs, inp). length fs)") (auto simp: length_dropWhile_Suc)

declare Fscanf.simps(2) [simp del]

lemma Fscanf_literal [simp]:
  "\<not> isSpace f \<Longrightarrow> f \<noteq> CHR ''%'' \<Longrightarrow> Fscanf (f # fs) (f # inp) = Fscanf fs inp"
  by (simp add: Fscanf.simps)

lemma Fscanf_blank: "f = CHR '' '' \<Longrightarrow> no_space w \<Longrightarrow> fs \<noteq> [] \<Longrightarrow> \<not> isSpace (hd fs) \<Longrightarrow>
    Fscanf (f # fs) (CHR '' '' # w @ inp) = Fscanf fs (w @ inp)"
  by (cases fs) (auto simp: Fscanf.simps(2) [of "CHR '' ''"] isSpace_def [of "CHR '' ''"] dropWhile_space)

lemma Fscanf_verb: "no_space w \<Longrightarrow> inp = [] \<or> isSpace (hd inp) \<Longrightarrow>
    Fscanf (CHR ''%'' # CHR ''s'' # fs) (w @ inp) = map_option ((#) w) (Fscanf fs inp)"
proof -
  assume a: "no_space w" "inp = [] \<or> isSpace (hd inp)"
  moreover have "w \<noteq> []" using a(1) by (simp add: no_space_def)
  ultimately show ?thesis
    by (subst Fscanf.simps) (simp add: isSpace_def [of "CHR ''%''"] dropWhile_space takeWhile_no_space Let_def)
qed

section \<open>The lines of a file\<close>

text \<open>
  \<^verbatim>\<open>bufio.Scanner\<close>: the lines without their end, without a carriage return before it and without an empty last
  one. The scanner stops at a line that does not fit its buffer of 65536 bytes together with its end.
\<close>

definition strip_cr :: "string \<Rightarrow> string" where
  "strip_cr l = (if l \<noteq> [] \<and> last l = CHR 0x0D then butlast l else l)"

definition scan_lines :: "string \<Rightarrow> string list" where
  "scan_lines f =
     (let ls = split_on CHR 0x0A f
      in map strip_cr (takeWhile (\<lambda>l. length l < 65536) (if last ls = [] then butlast ls else ls)))"

definition unlines :: "string list \<Rightarrow> string" where
  "unlines ls = concat (map (\<lambda>l. l @ [CHR 0x0A]) ls)"

lemma split_unlines: "\<forall>l \<in> set ls. CHR 0x0A \<notin> set l \<Longrightarrow> split_on CHR 0x0A (unlines ls) = ls @ [[]]"
  by (induction ls) (simp_all add: unlines_def)

lemma scan_unlines:
  assumes "\<forall>l \<in> set ls. CHR 0x0A \<notin> set l \<and> CHR 0x0D \<notin> set l \<and> length l < 65536"
  shows "scan_lines (unlines ls) = ls"
proof -
  have t: "takeWhile (\<lambda>l. length l < 65536) ls = ls" using assms by (simp add: takeWhile_eq_all_conv)
  have "map strip_cr ls = ls"
    using assms by (intro map_idI) (auto simp: strip_cr_def dest: last_in_set)
  then show ?thesis using assms by (simp add: scan_lines_def split_unlines t)
qed

end
