(* ===== verification/Repl.thy ===== *)
theory Repl imports Go_Text begin

text \<open>
  The command loop of both programs (\<^verbatim>\<open>pkg/repl/repl.go\<close>): a table from trigger words to handlers and to help
  texts, the combination of several tables, and the loop that reads lines and calls handlers.
\<close>

section \<open>The table of commands\<close>

text \<open>
  \<open>'h\<close> stands for the handlers. A look-up in the map of handlers with a key that is not there gives \<^verbatim>\<open>nil\<close>,
  which can be stored in turn: the inner \<open>None\<close>.
\<close>

record 'h REPL =
  Commands :: "string \<rightharpoonup> 'h option"
  Help :: "string \<rightharpoonup> string"

definition NewRepl :: "'h REPL" where
  "NewRepl = \<lparr>Commands = Map.empty, Help = Map.empty\<rparr>"

definition AddCommand :: "string \<Rightarrow> 'h \<Rightarrow> string \<Rightarrow> 'h REPL \<Rightarrow> 'h REPL" where
  "AddCommand trigger h help r =
     (if trigger = [] then r
      else r\<lparr>Help := (Help r)(trigger \<mapsto> help), Commands := (Commands r)(trigger \<mapsto> Some h)\<rparr>)"

text \<open>
  \<^verbatim>\<open>CombineRepls\<close>. Each table comes with the order in which Go iterates over its help texts. \<open>None\<close> is the error
  of a trigger that two tables have.
\<close>

fun combineKeys :: "'h REPL \<Rightarrow> string list \<Rightarrow> 'h REPL \<Rightarrow> 'h REPL option" where
  "combineKeys r [] combined = Some combined"
| "combineKeys r (k # ks) combined =
     (case Help r k of
        None \<Rightarrow> combineKeys r ks combined
      | Some v \<Rightarrow>
          if Help combined k \<noteq> None then None
          else combineKeys r ks (combined\<lparr>Help := (Help combined)(k \<mapsto> v),
                 Commands := (Commands combined)(k \<mapsto> (case Commands r k of None \<Rightarrow> None | Some h \<Rightarrow> h))\<rparr>))"

fun combineAll :: "('h REPL \<times> string list) list \<Rightarrow> 'h REPL \<Rightarrow> 'h REPL option" where
  "combineAll [] combined = Some combined"
| "combineAll ((r, order) # rs) combined =
     (case combineKeys r order combined of None \<Rightarrow> None | Some c \<Rightarrow> combineAll rs c)"

definition CombineRepls :: "('h REPL \<times> string list) list \<Rightarrow> 'h REPL option" where
  "CombineRepls repls = combineAll repls NewRepl"

definition HelpString :: "string list \<Rightarrow> 'h REPL \<Rightarrow> string" where
  "HelpString order r = ''Commands'' @ [CHR 0x0A] @
     concat (map (\<lambda>k. [CHR 0x09] @ k @ '': '' @ the (Help r k) @ [CHR 0x0A]) order)"

text \<open>
  The rows of a table are written one by one until a write fails: \<open>w i\<close> is whether the \<open>i\<close>-th write succeeds. The result
  is whether all were written, and those that were.
\<close>

fun write_all :: "(nat \<Rightarrow> bool) \<Rightarrow> nat \<Rightarrow> string list \<Rightarrow> bool \<times> string list" where
  "write_all w i [] = (True, [])"
| "write_all w i (r # rs) = (if w i then (let (b, out) = write_all w (i + 1) rs in (b, r # out)) else (False, []))"

section \<open>The loop\<close>

text \<open>What \<^verbatim>\<open>Readline\<close> returns; \<open>Line\<close> also for an error that is neither of the two the loop tests for.\<close>

datatype read_line = Line string | ErrInterrupt | ErrEOF

text \<open>
  \<open>command_for\<close> is the look-up of a line. The handlers act on a state \<open>'s\<close>, return an error \<open>'e\<close> or not, and write
  \<open>'o\<close>; the first argument of \<open>exec\<close> counts the lines read. \<open>Run\<close> ends with an interrupt or the
  end of the input.
\<close>

datatype ('e, 'o) reply = InvalidCommand string string | Reply "'o list" "'e option"

definition command_for :: "'h REPL \<Rightarrow> string \<Rightarrow> 'h option option" where
  "command_for r input = Commands r (hd (words (TrimSpace input)))"

fun Run ::
    "(nat \<Rightarrow> 'h \<Rightarrow> string \<Rightarrow> 's \<Rightarrow> ('e option \<times> 'o list \<times> 's) go) \<Rightarrow> (nat \<Rightarrow> string list) \<Rightarrow> 'h REPL \<Rightarrow> nat
      \<Rightarrow> read_line list \<Rightarrow> 's \<Rightarrow> (('e, 'o) reply list \<times> 's) go" where
  "Run exec horder r i [] s = ok ([], s)"
| "Run exec horder r i (ErrInterrupt # ls) s = ok ([], s)"
| "Run exec horder r i (ErrEOF # ls) s = ok ([], s)"
| "Run exec horder r i (Line input # ls) s =
     (case command_for r input of
        None \<Rightarrow> bindG (Run exec horder r (i + 1) ls s) (\<lambda>(out, s').
                  ok (InvalidCommand (hd (words (TrimSpace input))) (HelpString (horder i) r) # out, s'))
      | Some None \<Rightarrow> panic NilDereference
      | Some (Some h) \<Rightarrow>
          bindG (exec i h (TrimSpace input) s) (\<lambda>(err, o1, s1).
          bindG (Run exec horder r (i + 1) ls s1) (\<lambda>(out, s'). ok (Reply o1 err # out, s'))))"

section \<open>Tables\<close>

text \<open>A table made with \<open>AddCommand\<close> has a handler for every trigger, and a help text.\<close>

definition repl_wf :: "'h REPL \<Rightarrow> bool" where
  "repl_wf r \<longleftrightarrow> dom (Help r) = dom (Commands r) \<and> (\<forall>k. Commands r k \<noteq> Some None)"

lemma repl_wf_New [simp]: "repl_wf NewRepl"
  by (simp add: repl_wf_def NewRepl_def)

lemma repl_wf_Add [simp]: "repl_wf r \<Longrightarrow> repl_wf (AddCommand t h help r)"
  by (auto simp: repl_wf_def AddCommand_def)

lemma combineKeys_spec:
  assumes "distinct ks" and "set ks \<subseteq> dom (Help r)" and "repl_wf r" and "repl_wf c"
  shows "combineKeys r ks c = (if set ks \<inter> dom (Help c) = {}
     then Some \<lparr>Commands = Commands c ++ (Commands r |` set ks), Help = Help c ++ (Help r |` set ks)\<rparr> else None)"
  using assms
proof (induction r ks c rule: combineKeys.induct)
  case (2 r k ks c)
  obtain v where v: "Help r k = Some v" using "2.prems"(2) by auto
  have "dom (Help r) = dom (Commands r)" "Commands r k \<noteq> Some None" using "2.prems"(3) by (simp_all add: repl_wf_def)
  moreover from this(1) have "k \<in> dom (Commands r)" using v by blast
  ultimately obtain h where k: "Help r k = Some v" "Commands r k = Some (Some h)" using v by (cases "the (Commands r k)") auto
  let ?c = "c\<lparr>Help := (Help c)(k \<mapsto> v), Commands := (Commands c)(k \<mapsto> Some h)\<rparr>"
  show ?case
  proof (cases "Help c k")
    case None
    have wf: "repl_wf ?c" using "2.prems"(4) by (auto simp: repl_wf_def)
    have "combineKeys r ks ?c = (if set ks \<inter> dom (Help ?c) = {}
        then Some \<lparr>Commands = Commands ?c ++ (Commands r |` set ks), Help = Help ?c ++ (Help r |` set ks)\<rparr> else None)"
      using "2.IH"(2) [OF k(1)] "2.prems"(1-3) wf None k by (simp del: fun_upd_apply)
    moreover have "set ks \<inter> dom (Help ?c) = {} \<longleftrightarrow> set (k # ks) \<inter> dom (Help c) = {}"
      using None "2.prems"(1) by auto
    moreover have "Commands ?c ++ (Commands r |` set ks) = Commands c ++ (Commands r |` set (k # ks))"
        "Help ?c ++ (Help r |` set ks) = Help c ++ (Help r |` set (k # ks))"
      using k "2.prems"(1) by (auto simp: fun_eq_iff map_add_def restrict_map_def split: option.split)
    ultimately show ?thesis using None k by simp
  next
    case (Some x)
    then show ?thesis using k by auto
  qed
qed (simp add: map_add_def)

lemma combineKeys_all:
  assumes "distinct ks" and "set ks = dom (Help r)" and "repl_wf r" and "repl_wf c"
  shows "combineKeys r ks c = (if dom (Help r) \<inter> dom (Help c) = {}
     then Some \<lparr>Commands = Commands c ++ Commands r, Help = Help c ++ Help r\<rparr> else None)"
proof -
  have dom: "m |` dom m = m" for m :: "'x \<rightharpoonup> 'y" by (rule ext) (simp add: restrict_map_def domIff)
  have "dom (Commands r) = set ks" using assms(2,3) by (simp add: repl_wf_def)
  then have "Commands r |` set ks = Commands r" "Help r |` set ks = Help r"
    using dom [of "Commands r"] dom [of "Help r"] assms(2) by simp_all
  then show ?thesis using combineKeys_spec [OF assms(1) _ assms(3,4)] assms(2) by simp
qed

fun tables_disjoint :: "'h REPL list \<Rightarrow> bool" where
  "tables_disjoint [] = True"
| "tables_disjoint (r # rs) = ((\<forall>q \<in> set rs. dom (Help r) \<inter> dom (Help q) = {}) \<and> tables_disjoint rs)"

definition ordered_table :: "'h REPL \<times> string list \<Rightarrow> bool" where
  "ordered_table = (\<lambda>(r, ks). repl_wf r \<and> distinct ks \<and> set ks = dom (Help r))"

lemma repl_wf_join: "repl_wf r \<Longrightarrow> repl_wf c \<Longrightarrow> repl_wf \<lparr>Commands = Commands c ++ Commands r, Help = Help c ++ Help r\<rparr>"
  by (auto simp: repl_wf_def map_add_Some_iff)

lemma combineAll_spec:
  assumes "list_all ordered_table rs" and "repl_wf c"
  shows "combineAll rs c =
    (if (\<forall>r \<in> set (map fst rs). dom (Help r) \<inter> dom (Help c) = {}) \<and> tables_disjoint (map fst rs)
     then Some \<lparr>Commands = foldl (++) (Commands c) (map (Commands \<circ> fst) rs), Help = foldl (++) (Help c) (map (Help \<circ> fst) rs)\<rparr>
     else None)"
  using assms
proof (induction rs arbitrary: c)
  case (Cons x rs)
  obtain r ks where x: "x = (r, ks)" by (cases x)
  have r: "repl_wf r" "distinct ks" "set ks = dom (Help r)" using Cons.prems(1) x by (simp_all add: ordered_table_def)
  let ?c = "\<lparr>Commands = Commands c ++ Commands r, Help = Help c ++ Help r\<rparr>"
  note k = combineKeys_all [OF r(2,3,1) Cons.prems(2)]
  show ?case
  proof (cases "dom (Help r) \<inter> dom (Help c) = {}")
    case True
    have "repl_wf ?c" by (rule repl_wf_join [OF r(1) Cons.prems(2)])
    note IH = Cons.IH [OF _ this]
    have "(\<forall>q \<in> set (map fst rs). dom (Help q) \<inter> dom (Help ?c) = {}) \<longleftrightarrow>
        (\<forall>q \<in> set (map fst rs). dom (Help r) \<inter> dom (Help q) = {}) \<and> (\<forall>q \<in> set (map fst rs). dom (Help q) \<inter> dom (Help c) = {})"
      unfolding REPL.select_convs dom_map_add by blast
    then have split: "(\<forall>q \<in> set (map fst (x # rs)). dom (Help q) \<inter> dom (Help c) = {}) \<and> tables_disjoint (map fst (x # rs)) \<longleftrightarrow>
        (\<forall>q \<in> set (map fst rs). dom (Help q) \<inter> dom (Help ?c) = {}) \<and> tables_disjoint (map fst rs)"
      using True unfolding x by (simp only: list.map fst_conv tables_disjoint.simps list.set ball_simps) blast
    have "combineAll (x # rs) c = combineAll rs ?c" using k True unfolding x by simp
    also have "\<dots> = (if (\<forall>q \<in> set (map fst rs). dom (Help q) \<inter> dom (Help ?c) = {}) \<and> tables_disjoint (map fst rs)
        then Some \<lparr>Commands = foldl (++) (Commands ?c) (map (Commands \<circ> fst) rs), Help = foldl (++) (Help ?c) (map (Help \<circ> fst) rs)\<rparr> else None)"
      by (rule IH) (use Cons.prems(1) in simp)
    finally show ?thesis unfolding split unfolding x by (simp add: comp_def)
  next
    case False
    then show ?thesis using k x by auto
  qed
qed simp

lemma CombineRepls_spec:
  assumes "list_all ordered_table rs"
  shows "CombineRepls rs = (if tables_disjoint (map fst rs)
     then Some \<lparr>Commands = foldl (++) Map.empty (map (Commands \<circ> fst) rs), Help = foldl (++) Map.empty (map (Help \<circ> fst) rs)\<rparr>
     else None)"
  using combineAll_spec [OF assms repl_wf_New] by (simp add: CombineRepls_def NewRepl_def)

lemma fold_tables:
  assumes "list_all ordered_table rs" and "tables_disjoint (map fst rs)" and "\<forall>r \<in> set (map fst rs). m k \<noteq> None \<longrightarrow> Help r k = None"
  shows "foldl (++) m (map (Commands \<circ> fst) rs) k =
    (case m k of Some h \<Rightarrow> Some h | None \<Rightarrow> (case find (\<lambda>(r, _). Commands r k \<noteq> None) rs of None \<Rightarrow> None | Some (r, _) \<Rightarrow> Commands r k))"
  using assms
proof (induction rs arbitrary: m)
  case (Cons x rs)
  obtain r ks where x: "x = (r, ks)" by (cases x)
  have dom: "Commands r k = None \<longleftrightarrow> Help r k = None" using Cons.prems(1) x by (auto simp: ordered_table_def repl_wf_def domIff)
  have later: "\<forall>q \<in> set (map fst rs). Help r k \<noteq> None \<longrightarrow> Help q k = None" using Cons.prems(2) x by (auto simp: domIff)
  have "\<forall>q \<in> set (map fst rs). (m ++ Commands r) k \<noteq> None \<longrightarrow> Help q k = None"
    using later dom Cons.prems(3) by (auto simp: map_add_def split: option.splits)
  note IH = Cons.IH [where m = "m ++ Commands r", OF _ _ this]
  have "m k \<noteq> None \<longrightarrow> Commands r k = None" using Cons.prems(3) x dom by simp
  then show ?case using IH Cons.prems(1,2) x by (auto simp: map_add_def split: option.splits)
qed (simp split: option.split)

text \<open>
  C26. The tables of a program are combined as sets of commands: whatever the order in which the maps are
  traversed, tables that share no trigger give one in which every line is dispatched as by the one table
  that knows its trigger, and tables that share one are refused.
\<close>

theorem combine_repls:
  assumes "list_all ordered_table rs"
  shows "if tables_disjoint (map fst rs)
    then \<exists>c. CombineRepls rs = Some c \<and> (\<forall>input. command_for c input =
      (case find (\<lambda>(r, _). command_for r input \<noteq> None) rs of None \<Rightarrow> None | Some (r, _) \<Rightarrow> command_for r input))
    else CombineRepls rs = None"
  using CombineRepls_spec [OF assms] fold_tables [OF assms, of Map.empty]
  by (simp add: command_for_def split: option.split)

lemma combine_repls_witness:
  "\<exists>c. CombineRepls [(AddCommand ''ln'' (1 :: nat) ''l'' NewRepl, [''ln'']), (AddCommand ''ls'' 2 ''s'' NewRepl, [''ls''])] = Some c \<and>
     command_for c '' ls '' = Some (Some 2) \<and> command_for c ''cl 1'' = None"
proof -
  let ?rs = "[(AddCommand ''ln'' (1 :: nat) ''l'' NewRepl, [''ln'']), (AddCommand ''ls'' 2 ''s'' NewRepl, [''ls''])]"
  have o: "list_all ordered_table ?rs" by (simp add: ordered_table_def AddCommand_def NewRepl_def repl_wf_def)
  have d: "tables_disjoint (map fst ?rs)" by (simp add: AddCommand_def NewRepl_def)
  obtain c where c: "CombineRepls ?rs = Some c" "\<forall>input. command_for c input =
      (case find (\<lambda>(r, _). command_for r input \<noteq> None) ?rs of None \<Rightarrow> None | Some (r, _) \<Rightarrow> command_for r input)"
    using combine_repls [OF o] d by auto
  have t: "TrimSpace '' ls '' = ''ls''" "TrimSpace ''cl 1'' = ''cl 1''" by (simp_all add: TrimSpace_def isSpace_def)
  have "command_for c '' ls '' = Some (Some 2)" "command_for c ''cl 1'' = None"
    unfolding c(2) [rule_format] by (simp_all add: command_for_def t words_def AddCommand_def NewRepl_def)
  then show ?thesis using c(1) by blast
qed

section \<open>What every handler keeps\<close>

text \<open>
  The interface between the loop and a set of handlers: a relation between the states before and after a line
  that every handler respects, and that holds along a whole session then.
\<close>

locale console =
  fixes exec :: "nat \<Rightarrow> 'h \<Rightarrow> string \<Rightarrow> 's \<Rightarrow> ('e option \<times> 'o list \<times> 's) go"
    and keeps :: "'s \<Rightarrow> 's \<Rightarrow> bool"
  assumes exec_keeps: "exec i h input s = ok (err, out, s') \<Longrightarrow> keeps s s'"
    and keeps_refl: "keeps s s"
    and keeps_trans: "keeps s s' \<Longrightarrow> keeps s' s'' \<Longrightarrow> keeps s s''"
begin

lemma session_keeps: "Run exec horder r i ls s = ok (out, s') \<Longrightarrow> keeps s s'"
proof (induction ls arbitrary: i s out)
  case Nil
  then show ?case by (auto intro: keeps_refl)
next
  case (Cons l ls)
  show ?case
  proof (cases l)
    case (Line input)
    show ?thesis
    proof (cases "command_for r input")
      case None
      then show ?thesis using Cons Line by (auto simp: bindG_eq_ok_iff)
    next
      case (Some h)
      then show ?thesis using Cons Line
        by (cases h) (auto simp: bindG_eq_ok_iff dest!: exec_keeps intro: keeps_trans)
    qed
  qed (use Cons.prems in \<open>auto intro: keeps_refl\<close>)
qed

end

end
