(* ===== verification/Netip_Text.thy ===== *)
theory Netip_Text imports Go_Text begin

text \<open>
  The textual forms of \<^verbatim>\<open>net/netip\<close>: \<^verbatim>\<open>ParseAddr\<close>, \<^verbatim>\<open>ParsePrefix\<close>, \<^verbatim>\<open>ParseAddrPort\<close> and the texts they read, with
  the round trips for IPv4. The parser and the printer of IPv6 addresses are arguments.
\<close>

section \<open>Parsing\<close>

text \<open>
  \<^verbatim>\<open>parseIPv4Fields\<close>: the value and the number of digits of the current field, and the fields before it.
\<close>

fun parseIPv4Fields :: "string \<Rightarrow> int \<Rightarrow> nat \<Rightarrow> bytes \<Rightarrow> bytes option" where
  "parseIPv4Fields [] v digLen fs = (if length fs < 3 then None else Some (fs @ [word_of_int v]))"
| "parseIPv4Fields (c # cs) v digLen fs =
     (case digit_val c of
        Some d \<Rightarrow>
          if digLen = 1 \<and> v = 0 then None
          else if 255 < 10 * v + d then None
          else parseIPv4Fields cs (10 * v + d) (digLen + 1) fs
      | None \<Rightarrow>
          if c = CHR ''.'' then
            (if digLen = 0 \<or> cs = [] then None
             else if length fs = 3 then None
             else parseIPv4Fields cs 0 0 (fs @ [word_of_int v]))
          else None)"

definition parseIPv4 :: "string \<Rightarrow> Addr option" where
  "parseIPv4 s = (case parseIPv4Fields s 0 0 [] of
       None \<Rightarrow> None
     | Some f \<Rightarrow> (case Uint32 f of Inl e \<Rightarrow> None | Inr u \<Rightarrow> Some (V4 u)))"

definition ParseAddr :: "(string \<Rightarrow> Addr option) \<Rightarrow> string \<Rightarrow> Addr option" where
  "ParseAddr parseIPv6 s =
     (case dropWhile (\<lambda>c. c \<noteq> CHR ''.'' \<and> c \<noteq> CHR '':'' \<and> c \<noteq> CHR ''%'') s of
        [] \<Rightarrow> None
      | c # _ \<Rightarrow> if c = CHR ''.'' then parseIPv4 s else if c = CHR '':'' then parseIPv6 s else None)"

fun Is6 :: "Addr \<Rightarrow> bool" where
  "Is6 (V6 a z) = True"
| "Is6 _ = False"

definition ParsePrefix :: "(string \<Rightarrow> Addr option) \<Rightarrow> string \<Rightarrow> Prefix option" where
  "ParsePrefix parseIPv6 s =
     (case split_last CHR ''/'' s of
        None \<Rightarrow> None
      | Some (ipStr, bitsStr) \<Rightarrow> (case ParseAddr parseIPv6 ipStr of
          None \<Rightarrow> None
        | Some ip \<Rightarrow>
            if hasZone ip then None
            else if 1 < length bitsStr \<and> hd bitsStr \<notin> set ''123456789'' then None
            else (case Atoi bitsStr of
                None \<Rightarrow> None
              | Some b \<Rightarrow> if b < 0 \<or> (if Is6 ip then 128 else 32) < b then None else Some (PrefixFrom ip b))))"

definition ParseAddrPort :: "(string \<Rightarrow> Addr option) \<Rightarrow> string \<Rightarrow> (Addr \<times> u16) option" where
  "ParseAddrPort parseIPv6 s =
     (case split_last CHR '':'' s of
        None \<Rightarrow> None
      | Some (ip, port) \<Rightarrow>
          if ip = [] \<or> port = [] then None
          else
            let v6 = (hd ip = CHR ''['')
            in if v6 \<and> (length ip < 2 \<or> last ip \<noteq> CHR '']'') then None
               else (case ParseUint16 port of
                   None \<Rightarrow> None
                 | Some p \<Rightarrow> (case ParseAddr parseIPv6 (if v6 then butlast (tl ip) else ip) of
                     None \<Rightarrow> None
                   | Some a \<Rightarrow> if v6 \<noteq> Is6 a then None else Some (a, p))))"

section \<open>Printing\<close>

text \<open>\<^verbatim>\<open>Addr.String\<close>, \<^verbatim>\<open>Prefix.String\<close> and \<^verbatim>\<open>AddrPort.String\<close>\<close>

definition IPv4_text :: "u32 \<Rightarrow> string" where
  "IPv4_text a = join CHR ''.'' (map (\<lambda>b. show_nat (unat b)) (PutUint32 a))"

fun Addr_text :: "(Addr \<Rightarrow> string) \<Rightarrow> Addr \<Rightarrow> string" where
  "Addr_text text6 NoAddr = ''invalid IP''"
| "Addr_text text6 (V4 a) = IPv4_text a"
| "Addr_text text6 (V6 a z) = text6 (V6 a z)"

definition Prefix_text :: "(Addr \<Rightarrow> string) \<Rightarrow> Prefix \<Rightarrow> string" where
  "Prefix_text text6 p =
     (if \<not> PrefixValid p then ''invalid Prefix'' else Addr_text text6 (p_addr p) @ ''/'' @ show_int (p_bits p))"

definition AddrPort_text :: "(Addr \<Rightarrow> string) \<Rightarrow> Addr \<times> u16 \<Rightarrow> string" where
  "AddrPort_text text6 ap = (case ap of
       (NoAddr, p) \<Rightarrow> ''invalid AddrPort''
     | (V4 a, p) \<Rightarrow> IPv4_text a @ '':'' @ show_nat (unat p)
     | (V6 a z, p) \<Rightarrow> ''['' @ text6 (V6 a z) @ '']:'' @ show_nat (unat p))"

section \<open>Round trips\<close>

text \<open>A field of an address is read digit by digit.\<close>

lemma div_mod_10: "z < 10 \<Longrightarrow> (10 * m + z) div 10 = (m :: nat)" "z < 10 \<Longrightarrow> (10 * m + z) mod 10 = z"
  by simp_all

lemma parse_field:
  assumes "n < 256"
  shows "parseIPv4Fields (show_nat n @ rest) 0 0 fs = parseIPv4Fields rest (int n) (length (show_nat n)) fs"
proof -
  consider "n < 10" | "10 \<le> n" "n < 100" | "100 \<le> n" by linarith
  then show ?thesis
  proof cases
    case 1
    then show ?thesis by (simp add: show_nat.simps [of n])
  next
    case 2
    obtain x y where n: "n = 10 * x + y" "0 < x" "x < 10" "y < 10"
      using 2 that [of "n div 10" "n mod 10"] by auto
    have s: "show_nat n = [digit_char x, digit_char y]"
      using n by (simp add: show_nat.simps [of "10 * x + y"] show_nat.simps [of x])
    show ?thesis using n unfolding s by simp
  next
    case 3
    obtain x y z where n: "n = 10 * (10 * x + y) + z" "0 < x" "x < 10" "y < 10" "z < 10"
      using 3 assms that [of "n div 10 div 10" "n div 10 mod 10" "n mod 10"] by auto
    have d: "n div 10 = 10 * x + y" "n mod 10 = z" "\<not> n < 10"
      using 3 n(5) unfolding n(1) by (simp_all only: div_mod_10)
    have s2: "show_nat (10 * x + y) = [digit_char x, digit_char y]"
      using n by (simp add: show_nat.simps [of "10 * x + y"] show_nat.simps [of x])
    have s: "show_nat n = [digit_char x, digit_char y, digit_char z]"
      by (simp add: show_nat.simps [of n] d s2)
    show ?thesis using n assms unfolding s by simp
  qed
qed

lemma show_nat_head: "show_nat n @ s = hd (show_nat n) # tl (show_nat n) @ s"
  by (cases "show_nat n") simp_all

lemma digit_val_dot: "digit_val CHR ''.'' = None"
  by code_simp

lemma parse_dot: "parseIPv4Fields (CHR ''.'' # cs) v digLen fs =
    (if digLen = 0 \<or> cs = [] then None else if length fs = 3 then None else parseIPv4Fields cs 0 0 (fs @ [word_of_int v]))"
  by (simp add: digit_val_dot)

lemma parse_IPv4_text [simp]: "parseIPv4 (IPv4_text a) = Some (V4 a)"
proof -
  obtain b0 b1 b2 b3 where b: "PutUint32 a = [b0, b1, b2, b3]" by (simp add: PutUint32_def)
  have lt: "unat (x :: u8) < 256" for x using unsigned_less [of x] by simp
  have w: "word_of_int (int (unat x)) = (x :: u8)" for x by simp
  have "parseIPv4Fields (IPv4_text a) 0 0 [] = Some (PutUint32 a)"
    unfolding IPv4_text_def b
    by (simp add: parse_field [OF lt] parse_dot parse_field [OF lt, of _ "[]", simplified] del: parseIPv4Fields.simps(2))
  then show ?thesis using Uint32_Put [of a] by (simp add: parseIPv4_def ok_def)
qed

definition address_char :: "char \<Rightarrow> bool" where
  "address_char c \<longleftrightarrow> is_digit c \<or> c = CHR ''.''"

lemma IPv4_text_chars: "c \<in> set (IPv4_text a) \<Longrightarrow> address_char c"
  unfolding IPv4_text_def PutUint32_def by (auto dest: show_nat_digits simp: address_char_def)

lemma IPv4_text_plain: "c \<in> set (IPv4_text a) \<Longrightarrow> \<not> isSpace c \<and> c \<noteq> CHR '':'' \<and> c \<noteq> CHR ''/'' \<and> c \<noteq> CHR ''['' \<and> c \<noteq> CHR ''%'' \<and> c \<noteq> CHR ''#''"
proof -
  assume "c \<in> set (IPv4_text a)"
  then have "is_digit c \<or> c = CHR ''.''" using IPv4_text_chars unfolding address_char_def by blast
  then show ?thesis using is_digit_plain [of c] by (elim disjE) (simp_all add: isSpace_def)
qed

lemma IPv4_text_not_Nil [simp]: "IPv4_text a \<noteq> []"
  by (simp add: IPv4_text_def PutUint32_def)

lemma ParseAddr_text [simp]: "ParseAddr p6 (IPv4_text a) = Some (V4 a)"
proof -
  obtain w s where "IPv4_text a = show_nat w @ CHR ''.'' # s" by (auto simp: IPv4_text_def PutUint32_def)
  moreover have "\<forall>c \<in> set (show_nat w). c \<noteq> CHR ''.'' \<and> c \<noteq> CHR '':'' \<and> c \<noteq> CHR ''%''" using show_nat_plain by blast
  ultimately have "dropWhile (\<lambda>c. c \<noteq> CHR ''.'' \<and> c \<noteq> CHR '':'' \<and> c \<noteq> CHR ''%'') (IPv4_text a) = CHR ''.'' # s"
    by (simp add: dropWhile_append2)
  then show ?thesis by (simp add: ParseAddr_def)
qed

lemma ParsePrefix_text:
  assumes "0 \<le> b" and "b \<le> 32"
  shows "ParsePrefix p6 (IPv4_text a @ CHR ''/'' # show_int b) = Some (PrefixFrom (V4 a) b)"
proof -
  have sh: "show_int b = show_nat (nat b)" using assms by (simp add: show_int_def)
  have "CHR ''/'' \<notin> set (show_int b)" unfolding sh by (auto dest: show_nat_plain)
  moreover have "Atoi (show_int b) = Some b" unfolding sh using assms Atoi_show_nat [of "nat b"] by simp
  moreover have "length (show_int b) \<le> 1 \<or> hd (show_int b) \<in> set ''123456789''"
  proof (cases "nat b = 0")
    case True
    then show ?thesis unfolding sh by (simp add: show_nat.simps)
  next
    case False
    then show ?thesis
      using show_nat_lead [of "nat b"] hd_show_nat [of "nat b"] unfolding sh by (auto simp: is_digit_def)
  qed
  ultimately show ?thesis using assms by (auto simp: ParsePrefix_def)
qed

lemma hd_address: "hd (IPv4_text a) \<noteq> CHR ''[''"
  using IPv4_text_plain [OF hd_in_set [OF IPv4_text_not_Nil]] by blast

lemma ParseAddrPort_text: "ParseAddrPort p6 (IPv4_text a @ CHR '':'' # show_nat (unat p)) = Some (V4 a, p)"
proof -
  have "CHR '':'' \<notin> set (show_nat (unat p))" by (auto dest: show_nat_plain)
  then show ?thesis by (simp add: ParseAddrPort_def hd_address ParseUint16_show)
qed

text \<open>What the parsers return: valid, and IPv4 exactly for the texts with a dot before any colon.\<close>

lemma ParseAddr_V4_or_6: "ParseAddr p6 s = Some a \<Longrightarrow> (\<exists>u. a = V4 u) \<or> p6 s = Some a"
  by (auto simp: ParseAddr_def parseIPv4_def split: list.splits if_splits option.splits sum.splits)

lemma ParsePrefix_Some:
  assumes "ParsePrefix p6 s = Some p"
  shows "\<exists>t ip b. ParseAddr p6 t = Some ip \<and> \<not> hasZone ip \<and> 0 \<le> b \<and> b \<le> (if Is6 ip then 128 else 32) \<and> p = PrefixFrom ip b"
proof -
  obtain t bs where t: "split_last CHR ''/'' s = Some (t, bs)"
    using assms by (cases "split_last CHR ''/'' s") (auto simp: ParsePrefix_def)
  obtain ip where ip: "ParseAddr p6 t = Some ip"
    using assms t by (cases "ParseAddr p6 t") (auto simp: ParsePrefix_def)
  obtain b where b: "Atoi bs = Some b"
    using assms t ip by (cases "Atoi bs") (simp_all add: ParsePrefix_def split: if_splits)
  show ?thesis
    using assms t ip b by (intro exI [of _ t] exI [of _ ip] exI [of _ b]) (simp add: ParsePrefix_def del: set_simps split: if_splits)
qed

lemma ParsePrefix_valid:
  assumes "ParsePrefix p6 s = Some p" and "\<And>t. p6 t \<noteq> Some NoAddr"
  shows "PrefixValid p" "p_addr p \<noteq> NoAddr" "withoutZone (p_addr p) = p_addr p" "\<not> hasZone (p_addr p)" "p_bits p \<le> BitLen (p_addr p)"
proof -
  obtain t ip b where p: "ParseAddr p6 t = Some ip" "\<not> hasZone ip" "0 \<le> b" "b \<le> (if Is6 ip then 128 else 32)" "p = PrefixFrom ip b"
    using ParsePrefix_Some [OF assms(1)] by blast
  have "ip \<noteq> NoAddr" using ParseAddr_V4_or_6 [OF p(1)] assms(2) by auto
  then show "PrefixValid p" "p_addr p \<noteq> NoAddr" "withoutZone (p_addr p) = p_addr p" "\<not> hasZone (p_addr p)" "p_bits p \<le> BitLen (p_addr p)"
    using p(2-) by (cases ip; auto simp: PrefixFrom_def PrefixValid_def)+
qed

text \<open>\<^verbatim>\<open>netip.MustParseAddr\<close> panics on what is no address.\<close>

definition MustParseAddr :: "(string \<Rightarrow> Addr option) \<Rightarrow> string \<Rightarrow> Addr go" where
  "MustParseAddr p6 s = (case ParseAddr p6 s of None \<Rightarrow> panic Panicked | Some a \<Rightarrow> ok a)"

end
