(* ===== verification/Ip_Repl.thy ===== *)
theory Ip_Repl imports Repl Netip_Text Ip_Stack begin

text \<open>
  The console of the IP layer (\<^verbatim>\<open>ip_repl.go\<close>, \<^verbatim>\<open>ip_print.go\<close>): the rows that it prints, its handlers, and its table of
  commands.
\<close>

section \<open>Rows (\<^verbatim>\<open>ip_print.go\<close>)\<close>

abbreviation tab :: char where "tab \<equiv> CHR 0x09"
abbreviation nl :: char where "nl \<equiv> CHR 0x0A"

definition getIsDownString :: "Interface \<Rightarrow> string" where
  "getIsDownString i = (if isDown i then ''down'' else ''up'')"

definition getAddrPrefixString :: "(Addr \<Rightarrow> string) \<Rightarrow> Interface \<Rightarrow> string" where
  "getAddrPrefixString text6 i = Addr_text text6 (AssignedIP i) @ ''/'' @ show_int (Bits (AssignedPrefix i))"

definition getVIPString :: "(Addr \<Rightarrow> string) \<Rightarrow> Neighbor \<Rightarrow> string" where
  "getVIPString text6 n = Addr_text text6 (VIP n)"

definition getUDPString :: "(Addr \<Rightarrow> string) \<Rightarrow> Neighbor \<Rightarrow> string" where
  "getUDPString text6 n = AddrPort_text text6 (nUDPAddr n)"

definition getNextHopString :: "(Addr \<Rightarrow> string) \<Rightarrow> RoutingEntry \<Rightarrow> string" where
  "getNextHopString text6 rt = (if LocalNextHop rt \<noteq> [] then ''LOCAL:'' @ LocalNextHop rt else Addr_text text6 (NextHop rt))"

definition getCostString :: "RoutingEntry \<Rightarrow> string" where
  "getCostString rt = show_nat (unat (RCost rt))"

fun RouteType_text :: "RouteType \<Rightarrow> string" where
  "RouteType_text RouteTypeLocal = ''L''"
| "RouteType_text RouteTypeStatic = ''S''"
| "RouteType_text RouteTypeRIP = ''R''"

text \<open>The lists of rows, in the order in which the maps are traversed.\<close>

definition GetInterfacesString :: "(Addr \<Rightarrow> string) \<Rightarrow> string list \<Rightarrow> IPGlobalInfo \<Rightarrow> string list" where
  "GetInterfacesString text6 order s =
     map (\<lambda>ifname. let i = the (Interfaces s ifname)
       in ifname @ [tab] @ getAddrPrefixString text6 i @ [tab] @ getIsDownString i @ [nl]) order"

definition GetNeighborsString :: "(Addr \<Rightarrow> string) \<Rightarrow> string list \<Rightarrow> IPGlobalInfo \<Rightarrow> string list" where
  "GetNeighborsString text6 order s =
     concat (map (\<lambda>ifname. map (\<lambda>n. ifname @ [tab] @ getVIPString text6 n @ [tab] @ getUDPString text6 n @ [nl])
       (the (IFNeighbors s ifname))) order)"

definition GetRoutingTableString :: "(Addr \<Rightarrow> string) \<Rightarrow> Prefix list \<Rightarrow> IPGlobalInfo \<Rightarrow> string list" where
  "GetRoutingTableString text6 order s =
     map (\<lambda>prefix. let rt = the (RoutingTable s prefix)
       in RouteType_text (RouteTypeOf rt) @ [tab] @ Prefix_text text6 prefix @ [tab] @ getNextHopString text6 rt @ [tab] @
          getCostString rt @ [nl]) order"

section \<open>Handlers (\<^verbatim>\<open>ip_repl.go\<close>)\<close>

text \<open>
  What a call of a handler meets: whether its \<open>i\<close>-th write succeeds, the orders in which the maps are traversed, and
  the environment of the IP layer with the textual form of IPv6 addresses.
\<close>

record ip_call =
  writes :: "nat \<Rightarrow> bool"
  ifOrder :: "string list"
  rtOrder :: "Prefix list"
  lookups :: "nat \<Rightarrow> Prefix list"
  lib :: netlib
  parse6 :: "string \<Rightarrow> Addr option"
  text6 :: "Addr \<Rightarrow> string"

datatype ip_console_error = IpUsage | HeaderNotWritten | RowNotWritten | IpError ip_error

datatype console_output = Text string | Datagram datagram

text \<open>A header and rows; a failed write of the header has its own error.\<close>

definition list_handler ::
    "ip_call \<Rightarrow> string list \<Rightarrow> IPGlobalInfo \<Rightarrow> string \<Rightarrow> (ip_console_error option \<times> console_output list \<times> IPGlobalInfo) go" where
  "list_handler C rows s input =
     (if length (words input) \<noteq> 1 then ok (Some IpUsage, [], s)
      else let (done_all, out) = write_all (writes C) 0 rows
           in ok (if done_all then None else Some (if out = [] then HeaderNotWritten else RowNotWritten), map Text out, s))"

definition lnHandler :: "ip_call \<Rightarrow> IPGlobalInfo \<Rightarrow> string \<Rightarrow> (ip_console_error option \<times> console_output list \<times> IPGlobalInfo) go" where
  "lnHandler C s input = list_handler C
     ((''Iface'' @ [tab] @ ''VIP'' @ [tab, tab] @ ''UDPAddr'' @ [nl]) # GetNeighborsString (text6 C) (ifOrder C) s) s input"

definition liHandler :: "ip_call \<Rightarrow> IPGlobalInfo \<Rightarrow> string \<Rightarrow> (ip_console_error option \<times> console_output list \<times> IPGlobalInfo) go" where
  "liHandler C s input = list_handler C
     ((''Name'' @ [tab] @ ''Addr/Prefix'' @ [tab] @ ''State'' @ [nl]) # GetInterfacesString (text6 C) (ifOrder C) s) s input"

definition lrHandler :: "ip_call \<Rightarrow> IPGlobalInfo \<Rightarrow> string \<Rightarrow> (ip_console_error option \<times> console_output list \<times> IPGlobalInfo) go" where
  "lrHandler C s input = list_handler C
     ((''T'' @ [tab] @ ''Prefix'' @ [tab, tab] @ ''Next hop'' @ [tab] @ ''Cost'' @ [nl]) # GetRoutingTableString (text6 C) (rtOrder C) s) s input"

definition upHandler :: "IPGlobalInfo \<Rightarrow> string \<Rightarrow> (ip_console_error option \<times> console_output list \<times> IPGlobalInfo) go" where
  "upHandler s input =
     (let args = words input
      in if length args \<noteq> 2 then ok (Some IpUsage, [], s)
         else let (e, s') = SetInterfaceIsDown s (args ! 1) False in ok (map_option IpError e, [], s'))"

definition downHandler :: "IPGlobalInfo \<Rightarrow> string \<Rightarrow> (ip_console_error option \<times> console_output list \<times> IPGlobalInfo) go" where
  "downHandler s input =
     (let args = words input
      in if length args \<noteq> 2 then ok (Some IpUsage, [], s)
         else let (e, s') = SetInterfaceIsDown s (args ! 1) True in ok (map_option IpError e, [], s'))"

definition sendHandler :: "ip_call \<Rightarrow> IPGlobalInfo \<Rightarrow> string \<Rightarrow> (ip_console_error option \<times> console_output list \<times> IPGlobalInfo) go" where
  "sendHandler C s input =
     (let args = words input
      in if length args < 3 then ok (Some IpUsage, [], s)
         else
           let msg = join CHR '' '' (drop 2 args)
           in bindG (MustParseAddr (parse6 C) (args ! 1)) (\<lambda>addr.
              bindG (IPSend (lib C) (lookups C) s addr (map of_char msg) ProtoNumTest) (\<lambda>(e, out, s').
                ok (map_option IpError e, map Datagram out, s'))))"

section \<open>The table of commands\<close>

datatype ip_command = Ln | Li | Lr | Up | Down | SendMsg

definition ip_exec ::
    "(nat \<Rightarrow> ip_call) \<Rightarrow> nat \<Rightarrow> ip_command \<Rightarrow> string \<Rightarrow> IPGlobalInfo
      \<Rightarrow> (ip_console_error option \<times> console_output list \<times> IPGlobalInfo) go" where
  "ip_exec C i h input s = (case h of
       Ln \<Rightarrow> lnHandler (C i) s input
     | Li \<Rightarrow> liHandler (C i) s input
     | Lr \<Rightarrow> lrHandler (C i) s input
     | Up \<Rightarrow> upHandler s input
     | Down \<Rightarrow> downHandler s input
     | SendMsg \<Rightarrow> sendHandler (C i) s input)"

text \<open>\<open>wrap\<close> places the handlers among those of a program.\<close>

definition IpRepl :: "(ip_command \<Rightarrow> 'h) \<Rightarrow> 'h REPL" where
  "IpRepl wrap =
     (AddCommand ''send'' (wrap SendMsg) ''Sends the messgae to the dest ip address. usage: send <dest IP> <msg>'' \<circ>
      AddCommand ''down'' (wrap Down) ''Sets the interface's state to down. usage: down <interface name>'' \<circ>
      AddCommand ''up'' (wrap Up) ''Sets the interface's state to up. usage: up <interface name>'' \<circ>
      AddCommand ''lr'' (wrap Lr) ''Prints the routing table of the current s. usage: lr'' \<circ>
      AddCommand ''li'' (wrap Li) ''Prints all interfaces of the current s. usage: li'' \<circ>
      AddCommand ''ln'' (wrap Ln) ''Prints neighbors of the current s. usage: ln'') NewRepl"

lemma IpRepl_wf: "repl_wf (IpRepl wrap)"
  by (simp add: IpRepl_def)

lemma IpRepl_commands: "Commands (IpRepl wrap) =
    [''ln'' \<mapsto> Some (wrap Ln), ''li'' \<mapsto> Some (wrap Li), ''lr'' \<mapsto> Some (wrap Lr), ''up'' \<mapsto> Some (wrap Up),
     ''down'' \<mapsto> Some (wrap Down), ''send'' \<mapsto> Some (wrap SendMsg)]"
  by (simp add: IpRepl_def AddCommand_def NewRepl_def)

lemma IpRepl_help: "dom (Help (IpRepl wrap)) = {''ln'', ''li'', ''lr'', ''up'', ''down'', ''send''}"
  by (auto simp: IpRepl_def AddCommand_def NewRepl_def split: if_splits)

section \<open>A session at the console\<close>

text \<open>What no command changes: routes, neighbours, handlers, and everything of an interface but its state.\<close>

definition names_ok :: "IPGlobalInfo \<Rightarrow> bool" where
  "names_ok s \<longleftrightarrow> (\<forall>n i. Interfaces s n = Some i \<longrightarrow> Name i = n)"

definition console_keeps :: "IPGlobalInfo \<Rightarrow> IPGlobalInfo \<Rightarrow> bool" where
  "console_keeps s s' \<longleftrightarrow> RoutingTable s' = RoutingTable s \<and> IFNeighbors s' = IFNeighbors s \<and>
     recvHandlers s' = recvHandlers s \<and> RipNeighbors s' = RipNeighbors s \<and> (names_ok s \<longrightarrow> names_ok s' \<and>
     (\<forall>n. map_option AssignedIP (Interfaces s' n) = map_option AssignedIP (Interfaces s n)))"

lemma FindLinkLayer_interface:
  assumes "FindLinkLayerSrcDst orders s ip = ok (Inr (srcIF, dst))"
  shows "\<exists>n. Interfaces s n = Some srcIF"
  using assms by (auto simp: FindLinkLayerSrcDst_def Let_def split: option.splits if_splits elim!: bindG_okE)

lemma ForwardPacket_interface: "ForwardPacket L i dst p = (err, out, i', p') \<Longrightarrow>
    Name i' = Name i \<and> AssignedIP i' = AssignedIP i \<and> isDown i' = isDown i"
  by (auto simp: ForwardPacket_def Let_def split: if_split_asm option.split_asm)

lemma IPSend_sends:
  assumes "IPSend L orders s ip msg p = ok (err, out, s')" and "s' \<noteq> s"
  obtains i dst packet i' p' where "FindLinkLayerSrcDst orders s ip = ok (Inr (i, dst))"
    "ForwardPacket L i dst packet = (err, out, i', p')" "s' = s\<lparr>Interfaces := (Interfaces s)(Name i \<mapsto> i')\<rparr>"
proof -
  have "p = ProtoNumRIP \<or> p = ProtoNumTest \<or> p = ProtoNumTCP" using assms by (auto simp: IPSend_def split: if_splits)
  then have p: "\<not> (p \<noteq> ProtoNumRIP \<and> p \<noteq> ProtoNumTest \<and> p \<noteq> ProtoNumTCP)" by blast
  note send = assms(1) [unfolded IPSend_def if_not_P [OF p]]
  obtain r where r: "FindLinkLayerSrcDst orders s ip = ok r" using send by (rule bindG_okE)
  obtain i dst where i: "r = Inr (i, dst)" using send assms(2) unfolding r by (cases r) auto
  obtain e o' i' p' where f: "ForwardPacket L i dst \<lparr>Header = newHeader (AssignedIP i) ip msg p, Payload = take (MTU - DefaultIpHeaderLen) msg\<rparr> = (e, o', i', p')"
    by (rule prod_cases4)
  show ?thesis
    using that [OF r(1) [unfolded i]] send f unfolding r i by (simp add: NewPacket_ok)
qed

lemma IPSend_interfaces:
  assumes "IPSend L orders s ip msg p = ok (err, out, s')" and "names_ok s"
  shows "names_ok s' \<and> map_option AssignedIP (Interfaces s' n) = map_option AssignedIP (Interfaces s n) \<and>
    map_option isDown (Interfaces s' n) = map_option isDown (Interfaces s n)"
proof (cases "s' = s")
  case False
  with assms(1) obtain i dst packet i' p' where f: "FindLinkLayerSrcDst orders s ip = ok (Inr (i, dst))"
    "ForwardPacket L i dst packet = (err, out, i', p')" "s' = s\<lparr>Interfaces := (Interfaces s)(Name i \<mapsto> i')\<rparr>"
    by (rule IPSend_sends)
  obtain k where k: "Interfaces s k = Some i" using FindLinkLayer_interface [OF f(1)] by blast
  then have "Interfaces s (Name i) = Some i" using assms(2) by (auto simp: names_ok_def)
  moreover have "names_ok s'"
    using assms(2) ForwardPacket_interface [OF f(2)] unfolding names_ok_def f(3) by (auto split: if_split_asm)
  ultimately show ?thesis using ForwardPacket_interface [OF f(2)] unfolding f(3) by (cases "n = Name i") simp_all
qed (use assms in simp)

lemma list_handler_state: "list_handler C rows s input = ok (err, out, s') \<Longrightarrow> s' = s"
  by (auto simp: list_handler_def Let_def split: if_split_asm prod.split_asm)

lemma SetInterfaceIsDown_state: "SetInterfaceIsDown s n d = (e, s') \<Longrightarrow> console_keeps s s'"
  by (auto simp: SetInterfaceIsDown_def console_keeps_def names_ok_def split: option.split_asm if_splits)

lemma console_keeps_refl: "console_keeps s s"
  by (simp add: console_keeps_def)

lemma sendHandler_state:
  assumes "sendHandler C s input = ok (err, out, s')"
  shows "s' = s \<or> (\<exists>L orders addr msg p e o'. IPSend L orders s addr msg p = ok (e, o', s'))"
proof (cases "length (words input) < 3")
  case True
  then show ?thesis using assms by (simp add: sendHandler_def)
next
  case False
  with assms obtain addr where "bindG (IPSend (lib C) (lookups C) s addr (map of_char (join CHR '' '' (drop 2 (words input)))) ProtoNumTest)
      (\<lambda>(e, out, s'). ok (map_option IpError e, map Datagram out, s')) = ok (err, out, s')"
    by (auto simp: sendHandler_def Let_def elim: bindG_okE)
  then obtain r where "IPSend (lib C) (lookups C) s addr (map of_char (join CHR '' '' (drop 2 (words input)))) ProtoNumTest = ok r"
      "snd (snd r) = s'" by (auto elim!: bindG_okE)
  then show ?thesis by (metis prod.collapse)
qed

lemma ip_exec_keeps:
  assumes "ip_exec C i h input s = ok (err, out, s')"
  shows "console_keeps s s'"
proof -
  have l: "console_keeps s s'" if "list_handler c rows s input = ok (err, out, s')" for c rows
    using list_handler_state [OF that] by (simp add: console_keeps_refl)
  have send: "console_keeps s s'" if "sendHandler (C i) s input = ok (err, out, s')"
    using sendHandler_state [OF that] IPSend_keeps IPSend_interfaces unfolding console_keeps_def by blast
  have updown: "console_keeps s s'" if "(let args = words input
      in if length args \<noteq> 2 then ok (Some IpUsage, [], s)
         else let (e, s') = SetInterfaceIsDown s (args ! 1) d in ok (map_option IpError e, [], s')) = ok (err, out, s')" for d
    using that SetInterfaceIsDown_state by (auto simp: Let_def console_keeps_refl split: if_split_asm prod.split_asm)
  show ?thesis
    using assms send l updown
    by (cases h) (auto simp: ip_exec_def lnHandler_def liHandler_def lrHandler_def upHandler_def downHandler_def)
qed

interpretation ip_console: console "ip_exec C" console_keeps for C
proof
  show "console_keeps s s'" if "ip_exec C i h input s = ok (err, out, s')" for i h input s err out s'
    by (rule ip_exec_keeps [OF that])
  show "console_keeps s s" for s by (rule console_keeps_refl)
  show "console_keeps s s''" if "console_keeps s s'" "console_keeps s' s''" for s s' s''
    using that by (auto simp: console_keeps_def)
qed

text \<open>What a line asks of an interface.\<close>

definition asked :: "string \<Rightarrow> string \<Rightarrow> bool option" where
  "asked n input =
     (if words (TrimSpace input) = [''up'', n] then Some False
      else if words (TrimSpace input) = [''down'', n] then Some True else None)"

fun last_asked :: "string \<Rightarrow> read_line list \<Rightarrow> bool \<Rightarrow> bool" where
  "last_asked n (Line input # ls) d = last_asked n ls (case asked n input of None \<Rightarrow> d | Some d' \<Rightarrow> d')"
| "last_asked n _ d = d"

lemma ip_exec_isDown:
  assumes "Commands (IpRepl (\<lambda>h. h)) (hd (words input)) = Some (Some h)" and "ip_exec C i h input s = ok (err, out, s')" and "names_ok s"
  shows "map_option isDown (Interfaces s' n) = map_option (\<lambda>i. case (if words input = [''up'', n] then Some False
      else if words input = [''down'', n] then Some True else None) of None \<Rightarrow> isDown i | Some d \<Rightarrow> d) (Interfaces s n)"
proof -
  have two: "\<exists>a b. words input = [a, b]" if "length (words input) = 2" using that by (auto simp: length_Suc_conv numeral_2_eq_2)
  have "sendHandler (C i) s input = ok (err, out, s') \<Longrightarrow> map_option isDown (Interfaces s' n) = map_option isDown (Interfaces s n)"
    using sendHandler_state IPSend_interfaces assms(3) by blast
  then show ?thesis
    using assms(1,2) two list_handler_state
    by (cases h) (fastforce simp: IpRepl_commands ip_exec_def lnHandler_def liHandler_def lrHandler_def upHandler_def downHandler_def
        SetInterfaceIsDown_def Let_def split: if_split_asm option.split_asm option.split)+
qed

section \<open>Properties\<close>

lemma session_isDown:
  assumes "Run (ip_exec C) horder (IpRepl (\<lambda>h. h)) k ls s = ok (out, s')" and "names_ok s"
  shows "map_option isDown (Interfaces s' n) = map_option (\<lambda>i. last_asked n ls (isDown i)) (Interfaces s n)"
  using assms
proof (induction ls arbitrary: k s out)
  case (Cons l ls)
  show ?case
  proof (cases l)
    case (Line input)
    let ?w = "words (TrimSpace input)"
    show ?thesis
    proof (cases "command_for (IpRepl (\<lambda>h. h)) input")
      case None
      then have "asked n input = None" by (auto simp: asked_def command_for_def IpRepl_commands)
      then show ?thesis using Cons None Line by (auto simp: bindG_eq_ok_iff)
    next
      case (Some h)
      then obtain c where c: "Commands (IpRepl (\<lambda>h. h)) (hd ?w) = Some (Some c)" "h = Some c"
        using IpRepl_wf [of "\<lambda>h. h"] by (cases h) (auto simp: repl_wf_def command_for_def)
      then obtain err o1 s1 out' where s1: "ip_exec C k c (TrimSpace input) s = ok (err, o1, s1)"
          "Run (ip_exec C) horder (IpRepl (\<lambda>h. h)) (k + 1) ls s1 = ok (out', s')"
        using Cons.prems(1) Some Line by (auto elim!: bindG_okE)
      have "names_ok s1" using ip_exec_keeps [OF s1(1)] Cons.prems(2) by (simp add: console_keeps_def)
      then show ?thesis using Cons.IH [OF s1(2)] ip_exec_isDown [OF c(1) s1(1) Cons.prems(2), of n] Line
        by (cases "Interfaces s n"; cases "Interfaces s1 n") (simp_all add: asked_def)
    qed
  qed (use Cons.prems in \<open>auto simp: option.map_ident\<close>)
qed (simp add: option.map_ident)

text \<open>
  C25. A session at a router's console, whatever is typed: routes, neighbours, receive handlers and
  the addresses of the interfaces stay as they are, and an interface is up or down as the last command
  that named it asked, among the lines read before an interrupt or the end of the input.
\<close>

theorem console_session:
  assumes "Run (ip_exec C) horder (IpRepl (\<lambda>h. h)) 0 ls s = ok (out, s')" and "names_ok s"
  shows "RoutingTable s' = RoutingTable s \<and> IFNeighbors s' = IFNeighbors s \<and> recvHandlers s' = recvHandlers s \<and>
    (\<forall>n. map_option AssignedIP (Interfaces s' n) = map_option AssignedIP (Interfaces s n) \<and>
         map_option isDown (Interfaces s' n) = map_option (\<lambda>i. last_asked n ls (isDown i)) (Interfaces s n))"
  using ip_console.session_keeps [OF assms(1)] session_isDown [OF assms] assms(2) by (simp add: console_keeps_def)

lemma nextHopLoop_not_panicked: "nextHopLoop orders s i e alt = Some r \<Longrightarrow> r \<noteq> panic Panicked"
  by (rule nextHopLoop.raw_induct [where P = "\<lambda>orders s i e alt r. r \<noteq> panic Panicked"])
    (auto simp: Let_def split: if_splits option.splits)

lemma findNextHop_not_panicked: "findNextHopEntry orders s ip \<noteq> panic Panicked"
  using nextHopLoop_not_panicked [of orders s 1 _ NoAddr] by (auto simp: findNextHopEntry_def Let_def split: option.split)

lemma FindLinkLayer_not_panicked: "FindLinkLayerSrcDst orders s ip \<noteq> panic Panicked"
  using findNextHop_not_panicked [of orders s ip]
  by (auto simp: FindLinkLayerSrcDst_def bindG_panic_iff Let_def split: option.split_asm if_split_asm)

lemma IPSend_not_panicked: "IPSend L orders s ip msg p \<noteq> panic Panicked"
  using FindLinkLayer_not_panicked [of orders s ip]
  by (auto simp: IPSend_def bindG_panic_iff NewPacket_ok Let_def split: sum.split_asm prod.split_asm if_split_asm)

lemma console_session_witness:
  "\<exists>out s'. Run (ip_exec (\<lambda>i. \<lparr>writes = \<lambda>j. True, ifOrder = [''if0''], rtOrder = [], lookups = \<lambda>j. [], lib = undefined,
        parse6 = \<lambda>t. None, text6 = \<lambda>a. []\<rparr>)) (\<lambda>i. []) (IpRepl (\<lambda>h. h)) 0
      [Line ''down if0'', Line ''li'', Line ''up  if0'', ErrInterrupt, Line ''up if0''] (Init (demo_config (V4 0x0a01000a))) = ok (out, s') \<and>
    map_option isDown (Interfaces s' ''if0'') = Some True"
proof -
  let ?C = "\<lambda>i :: nat. \<lparr>writes = \<lambda>j. True, ifOrder = [''if0''], rtOrder = [], lookups = \<lambda>j. [], lib = undefined,
      parse6 = \<lambda>t. None, text6 = \<lambda>a. []\<rparr>"
  let ?ls = "[Line ''down if0'', Line ''li'', Line ''up  if0'', ErrInterrupt, Line ''up if0'']"
  let ?s = "Init (demo_config (V4 0x0a01000a))"
  have i: "Interfaces ?s = [''if0'' \<mapsto> \<lparr>Name = ''if0'', AssignedIP = V4 0x0a010001, AssignedPrefix = demo_subnet,
      UDPAddr = (V4 0x7f000001, 5000), isDown = False, bound = False\<rparr>]"
    by (simp add: Init_def demo_config_def initInterface_def initNeighbor_def initRoutes_def emptyConfig_def Let_def)
  have t: "TrimSpace ''down if0'' = ''down if0''" "TrimSpace ''li'' = ''li''" "TrimSpace ''up  if0'' = ''up  if0''" "TrimSpace ''up if0'' = ''up if0''"
    by (simp_all add: TrimSpace_def isSpace_def)
  have "\<exists>out s'. Run (ip_exec ?C) (\<lambda>i. []) (IpRepl (\<lambda>h. h)) 0 ?ls ?s = ok (out, s')"
    using i by (auto simp: command_for_def t words_def IpRepl_commands ip_exec_def downHandler_def upHandler_def liHandler_def
        list_handler_def SetInterfaceIsDown_def Let_def split_beta)
  then obtain out s' where r: "Run (ip_exec ?C) (\<lambda>i. []) (IpRepl (\<lambda>h. h)) 0 ?ls ?s = ok (out, s')" by blast
  have "names_ok ?s" using i by (auto simp: names_ok_def split: if_split_asm)
  from console_session [OF r this]
  have "map_option isDown (Interfaces s' ''if0'') = map_option (\<lambda>i. last_asked ''if0'' ?ls (isDown i)) (Interfaces ?s ''if0'')" by blast
  also have "\<dots> = Some True" using i by (auto simp: asked_def t words_def)
  finally show ?thesis using r by blast
qed

text \<open>
  A mistyped address at the console takes the whole node down: \<^verbatim>\<open>send\<close> panics exactly when it has an address and
  a message and the address does not parse.
\<close>

theorem send_command_panics:
  "sendHandler C s input = panic Panicked \<longleftrightarrow> 3 \<le> length (words input) \<and> ParseAddr (parse6 C) (words input ! 1) = None"
  using IPSend_not_panicked
  by (auto simp: sendHandler_def Let_def bindG_panic_iff MustParseAddr_def split: option.split)

end
