(* ===== verification/Config_Parser.thy ===== *)
theory Config_Parser imports Netip_Text Ip_Stack begin

text \<open>
  The parser of configuration files (\<^verbatim>\<open>pkg/lnxconfig/lnxconfig.go\<close>): one function per directive, and the loop
  over the lines of the file. What a file of well-formed directives means is stated apart from the
  text, and the parser is shown to compute it.
\<close>

section \<open>The directives\<close>

text \<open>\<open>OnLine\<close> is the line number that \<^verbatim>\<open>newErrString\<close> and \<^verbatim>\<open>newErr\<close> put before a message.\<close>

datatype cfg_error =
    UnableToOpen | ScanError | UsageError | InvalidPrefix | InvalidAddr | InvalidAddrPort
  | UnrecognizedRip string | InvalidRoutingType string | NoMatchingPrefix Prefix | NotANeighborIP Addr
  | UnrecognizedToken string | OnLine nat cfg_error

definition newErrString :: "nat \<Rightarrow> cfg_error \<Rightarrow> cfg_error" where
  "newErrString ln msg = OnLine ln msg"

definition newErr :: "nat \<Rightarrow> cfg_error \<Rightarrow> cfg_error" where
  "newErr ln err = OnLine ln err"

type_synonym ParseFunc = "nat \<Rightarrow> string \<Rightarrow> IPConfig \<Rightarrow> (cfg_error + IPConfig) go"

text \<open>
  \<^verbatim>\<open>rip originate prefix <prefix>\<close> and \<^verbatim>\<open>rip advertise-to <addr>\<close>. The test of the number of words joins its two
  halves with \<^verbatim>\<open>&&\<close>: with no word at all its second half indexes an empty slice, and a single word
  \<^verbatim>\<open>prefix\<close> gets past it to the index \<open>1\<close>.
\<close>

definition rip_originate :: "(string \<Rightarrow> Addr option) \<Rightarrow> nat \<Rightarrow> string list \<Rightarrow> IPConfig \<Rightarrow> (cfg_error + IPConfig) go" where
  "rip_originate p6 ln ripTokens config =
     (if length ripTokens < 2 \<and> ripTokens = [] then panic IndexRange
      else if length ripTokens < 2 \<and> ripTokens ! 0 \<noteq> ''prefix'' then ok (Inl (newErrString ln UsageError))
      else if length ripTokens < 2 then panic IndexRange
      else (case ParsePrefix p6 (ripTokens ! 1) of
          None \<Rightarrow> ok (Inl (newErr ln InvalidPrefix))
        | Some ripPrefix \<Rightarrow> (case addOriginatingPrefix config (Masked ripPrefix) of
            None \<Rightarrow> ok (Inl (NoMatchingPrefix (Masked ripPrefix)))
          | Some config' \<Rightarrow> ok (Inr config'))))"

definition rip_advertise_to :: "(string \<Rightarrow> Addr option) \<Rightarrow> nat \<Rightarrow> string list \<Rightarrow> IPConfig \<Rightarrow> (cfg_error + IPConfig) go" where
  "rip_advertise_to p6 ln ripTokens config =
     (if ripTokens = [] then ok (Inl (newErrString ln UsageError))
      else (case ParseAddr p6 (ripTokens ! 0) of
          None \<Rightarrow> ok (Inl (newErr ln InvalidAddr))
        | Some addr \<Rightarrow> (case addRipNeighbor config addr of
            None \<Rightarrow> ok (Inl (NotANeighborIP addr))
          | Some config' \<Rightarrow> ok (Inr config'))))"

definition parseRip :: "(string \<Rightarrow> Addr option) \<Rightarrow> ParseFunc" where
  "parseRip p6 ln line config =
     (let tokens = words line
      in if length tokens < 2 then ok (Inl (newErrString ln UsageError))
         else if tokens ! 1 = ''originate'' then rip_originate p6 ln (drop 2 tokens) config
         else if tokens ! 1 = ''advertise-to'' then rip_advertise_to p6 ln (drop 2 tokens) config
         else ok (Inl (newErrString ln (UnrecognizedRip (tokens ! 1)))))"

definition parseRouting :: ParseFunc where
  "parseRouting ln line config =
     (let tokens = words line
      in if length tokens < 2 then ok (Inl (newErrString ln UsageError))
         else if tokens ! 1 = ''static'' then ok (Inr (config\<lparr>cfgRoutingMode := RoutingTypeStatic\<rparr>))
         else if tokens ! 1 = ''rip'' then ok (Inr (config\<lparr>cfgRoutingMode := RoutingTypeRIP\<rparr>))
         else ok (Inl (newErrString ln (InvalidRoutingType (tokens ! 1)))))"

text \<open>
  The prefix of a static route keeps its host bits: it is not masked.
\<close>

definition parseRoute :: "(string \<Rightarrow> Addr option) \<Rightarrow> ParseFunc" where
  "parseRoute p6 ln line config =
     (case Fscanf ''route %s via %s'' line of
        None \<Rightarrow> ok (Inl ScanError)
      | Some args \<Rightarrow>
          if length args \<noteq> 2 then ok (Inl (newErrString ln UsageError))
          else (case ParsePrefix p6 (args ! 0) of
              None \<Rightarrow> ok (Inl InvalidPrefix)
            | Some prefix \<Rightarrow> (case ParseAddr p6 (args ! 1) of
                None \<Rightarrow> ok (Inl InvalidAddr)
              | Some addr \<Rightarrow> ok (Inr (config\<lparr>cfgStaticRoutes := (cfgStaticRoutes config)(prefix \<mapsto> addr)\<rparr>)))))"

definition parseInterface :: "(string \<Rightarrow> Addr option) \<Rightarrow> ParseFunc" where
  "parseInterface p6 ln line config =
     (case Fscanf ''interface %s %s %s'' line of
        None \<Rightarrow> ok (Inl ScanError)
      | Some args \<Rightarrow>
          if length args \<noteq> 3 then ok (Inl (newErrString ln UsageError))
          else (case ParsePrefix p6 (args ! 1) of
              None \<Rightarrow> ok (Inl InvalidPrefix)
            | Some prefix \<Rightarrow> (case ParseAddrPort p6 (args ! 2) of
                None \<Rightarrow> ok (Inl InvalidAddrPort)
              | Some addrPort \<Rightarrow>
                  ok (Inr (config\<lparr>cfgInterfaces := cfgInterfaces config @
                    [\<lparr>cfgName = args ! 0, cfgAssignedIP = p_addr prefix, cfgAssignedPrefix = Masked prefix, cfgUDPAddr = addrPort\<rparr>]\<rparr>)))))"

text \<open>The error of a wrong number of words is made and not returned here; the number is always three.\<close>

definition parseNeighbor :: "(string \<Rightarrow> Addr option) \<Rightarrow> ParseFunc" where
  "parseNeighbor p6 ln line config =
     (case Fscanf ''neighbor %s at %s via %s'' line of
        None \<Rightarrow> ok (Inl ScanError)
      | Some args \<Rightarrow> (case ParseAddr p6 (args ! 0) of
          None \<Rightarrow> ok (Inl InvalidAddr)
        | Some destAddr \<Rightarrow> (case ParseAddrPort p6 (args ! 1) of
            None \<Rightarrow> ok (Inl InvalidAddrPort)
          | Some udpAddr \<Rightarrow>
              ok (Inr (config\<lparr>cfgNeighbors := cfgNeighbors config @
                [\<lparr>cfgDestAddr = destAddr, cfgNUDPAddr = udpAddr, cfgInterfaceName = args ! 2\<rparr>]\<rparr>)))))"

definition parseCommands :: "(string \<Rightarrow> Addr option) \<Rightarrow> string \<Rightarrow> ParseFunc option" where
  "parseCommands p6 = map_of
     [(''interface'', parseInterface p6), (''neighbor'', parseNeighbor p6), (''routing'', parseRouting),
      (''route'', parseRoute p6), (''rip'', parseRip p6)]"

section \<open>The file\<close>

definition parseLine :: "(string \<Rightarrow> Addr option) \<Rightarrow> ParseFunc" where
  "parseLine p6 ln line config =
     (let head = hd (words line)
      in if head = [] \<or> hd head = CHR ''#'' then ok (Inr config)
         else (case parseCommands p6 head of
             None \<Rightarrow> ok (Inl (newErrString ln (UnrecognizedToken head)))
           | Some pf \<Rightarrow> bindG (pf ln line config) (\<lambda>r. ok (case r of Inl err \<Rightarrow> Inl (newErr ln err) | Inr c \<Rightarrow> Inr c))))"

fun parseLines :: "(string \<Rightarrow> Addr option) \<Rightarrow> nat \<Rightarrow> string list \<Rightarrow> IPConfig \<Rightarrow> (cfg_error + IPConfig) go" where
  "parseLines p6 ln [] config = ok (Inr config)"
| "parseLines p6 ln (line # lines) config =
     bindG (parseLine p6 (ln + 1) line config) (\<lambda>r. case r of
         Inl err \<Rightarrow> ok (Inl err)
       | Inr config' \<Rightarrow> parseLines p6 (ln + 1) lines config')"

text \<open>The file is its contents, or \<open>None\<close> when it cannot be opened.\<close>

definition ParseConfig :: "(string \<Rightarrow> Addr option) \<Rightarrow> string option \<Rightarrow> (cfg_error + IPConfig) go" where
  "ParseConfig p6 configFile =
     (case configFile of
        None \<Rightarrow> ok (Inl UnableToOpen)
      | Some contents \<Rightarrow> parseLines p6 0 (scan_lines contents) emptyConfig)"

section \<open>What the directives mean\<close>

datatype directive =
    Interface_dir string u32 int u32 u16
  | Neighbor_dir u32 u32 u16 string
  | Routing_static | Routing_rip
  | Route_dir u32 int u32
  | Originate_dir u32 int
  | Advertise_dir u32
  | Comment_dir string

definition prefix_text :: "u32 \<Rightarrow> int \<Rightarrow> string" where
  "prefix_text a b = IPv4_text a @ CHR ''/'' # show_int b"

definition udp_text :: "u32 \<Rightarrow> u16 \<Rightarrow> string" where
  "udp_text a p = IPv4_text a @ CHR '':'' # show_nat (unat p)"

fun directive_text :: "directive \<Rightarrow> string" where
  "directive_text (Interface_dir name a b ua up) = ''interface '' @ name @ '' '' @ prefix_text a b @ '' '' @ udp_text ua up"
| "directive_text (Neighbor_dir a ua up name) = ''neighbor '' @ IPv4_text a @ '' at '' @ udp_text ua up @ '' via '' @ name"
| "directive_text Routing_static = ''routing static''"
| "directive_text Routing_rip = ''routing rip''"
| "directive_text (Route_dir a b via) = ''route '' @ prefix_text a b @ '' via '' @ IPv4_text via"
| "directive_text (Originate_dir a b) = ''rip originate prefix '' @ prefix_text a b"
| "directive_text (Advertise_dir a) = ''rip advertise-to '' @ IPv4_text a"
| "directive_text (Comment_dir t) = ''#'' @ t"

fun directive_ok :: "directive \<Rightarrow> bool" where
  "directive_ok (Interface_dir name a b ua up) = (no_space name \<and> 0 \<le> b \<and> b \<le> 32)"
| "directive_ok (Neighbor_dir a ua up name) = no_space name"
| "directive_ok (Route_dir a b via) = (0 \<le> b \<and> b \<le> 32)"
| "directive_ok (Originate_dir a b) = (0 \<le> b \<and> b \<le> 32)"
| "directive_ok (Comment_dir t) = (CHR 0x0A \<notin> set t \<and> CHR 0x0D \<notin> set t)"
| "directive_ok _ = True"

fun directive_effect :: "directive \<Rightarrow> IPConfig \<Rightarrow> cfg_error + IPConfig" where
  "directive_effect (Interface_dir name a b ua up) config = Inr (config\<lparr>cfgInterfaces := cfgInterfaces config @
     [\<lparr>cfgName = name, cfgAssignedIP = V4 a, cfgAssignedPrefix = Masked (PrefixFrom (V4 a) b), cfgUDPAddr = (V4 ua, up)\<rparr>]\<rparr>)"
| "directive_effect (Neighbor_dir a ua up name) config = Inr (config\<lparr>cfgNeighbors := cfgNeighbors config @
     [\<lparr>cfgDestAddr = V4 a, cfgNUDPAddr = (V4 ua, up), cfgInterfaceName = name\<rparr>]\<rparr>)"
| "directive_effect Routing_static config = Inr (config\<lparr>cfgRoutingMode := RoutingTypeStatic\<rparr>)"
| "directive_effect Routing_rip config = Inr (config\<lparr>cfgRoutingMode := RoutingTypeRIP\<rparr>)"
| "directive_effect (Route_dir a b via) config =
     Inr (config\<lparr>cfgStaticRoutes := (cfgStaticRoutes config)(PrefixFrom (V4 a) b \<mapsto> V4 via)\<rparr>)"
| "directive_effect (Originate_dir a b) config =
     (let p = Masked (PrefixFrom (V4 a) b)
      in if p \<in> cfgAssignedPrefix ` set (cfgInterfaces config)
         then Inr (config\<lparr>cfgOriginatingPrefixes := cfgOriginatingPrefixes config @ [p]\<rparr>)
         else Inl (NoMatchingPrefix p))"
| "directive_effect (Advertise_dir a) config =
     (if V4 a \<in> cfgDestAddr ` set (cfgNeighbors config)
      then Inr (config\<lparr>cfgRipNeighbors := cfgRipNeighbors config @ [V4 a]\<rparr>)
      else Inl (NotANeighborIP (V4 a)))"
| "directive_effect (Comment_dir t) config = Inr config"

fun directives_effect :: "nat \<Rightarrow> directive list \<Rightarrow> IPConfig \<Rightarrow> cfg_error + IPConfig" where
  "directives_effect ln [] config = Inr config"
| "directives_effect ln (d # ds) config = (case directive_effect d config of
       Inl err \<Rightarrow> Inl (OnLine (ln + 1) err)
     | Inr config' \<Rightarrow> directives_effect (ln + 1) ds config')"

section \<open>The parser computes the meaning\<close>

lemma no_space_texts [simp]: "no_space (IPv4_text a)" "0 \<le> b \<Longrightarrow> no_space (prefix_text a b)" "no_space (udp_text a p)"
proof -
  have n: "\<not> isSpace c" if "c \<in> set (show_nat k)" for c k using show_nat_plain [OF that] by simp
  have s: "\<not> isSpace CHR ''/''" "\<not> isSpace CHR '':''" by (simp_all add: isSpace_def)
  show "no_space (IPv4_text a)" using IPv4_text_plain [of _ a] by (auto simp: no_space_def list_all_iff)
  show "no_space (udp_text a p)"
    using IPv4_text_plain [of _ a] n s by (auto simp: no_space_def list_all_iff udp_text_def)
  show "no_space (prefix_text a b)" if "0 \<le> b"
    using IPv4_text_plain [of _ a] n s that by (auto simp: no_space_def list_all_iff prefix_text_def show_int_def)
qed

lemma parse_texts [simp]: "0 \<le> b \<Longrightarrow> b \<le> 32 \<Longrightarrow> ParsePrefix p6 (prefix_text a b) = Some (PrefixFrom (V4 a) b)"
    "ParseAddrPort p6 (udp_text a p) = Some (V4 a, p)"
  by (simp_all add: prefix_text_def udp_text_def ParsePrefix_text ParseAddrPort_text)

lemma isSpace_blank [simp]: "isSpace CHR '' ''"
  by (simp add: isSpace_def)

lemma Fscanf_verb_end: "no_space w \<Longrightarrow> Fscanf ''%s'' w = Some [w]"
  using Fscanf_verb [of w "[]" "[]"] by simp

lemma Fscanf_words:
  assumes "no_space u" and "no_space v" and "no_space w"
  shows "Fscanf ''interface %s %s %s'' (''interface '' @ u @ '' '' @ v @ '' '' @ w) = Some [u, v, w]"
    and "Fscanf ''neighbor %s at %s via %s'' (''neighbor '' @ u @ '' at '' @ v @ '' via '' @ w) = Some [u, v, w]"
    and "Fscanf ''route %s via %s'' (''route '' @ u @ '' via '' @ v) = Some [u, v]"
proof -
  have lit: "no_space ''at''" "no_space ''via''" by (simp_all add: no_space_def isSpace_def)
  have b1: "Fscanf (CHR '' '' # CHR ''%'' # fs) (CHR '' '' # x @ inp) = Fscanf (CHR ''%'' # fs) (x @ inp)" if "no_space x" for x fs inp
    by (rule Fscanf_blank) (simp_all add: that isSpace_def)
  have b2: "Fscanf '' %s'' (CHR '' '' # x) = Some [x]" if "no_space x" for x
    using b1 [OF that, of "''s''" "[]"] Fscanf_verb_end [OF that] by simp
  have v: "Fscanf (CHR ''%'' # CHR ''s'' # fs) (x @ CHR '' '' # inp) = map_option ((#) x) (Fscanf fs (CHR '' '' # inp))" if "no_space x" for x fs inp
    by (rule Fscanf_verb [OF that]) simp
  have a: "Fscanf (CHR '' '' # CHR ''a'' # fs) (CHR '' '' # CHR ''a'' # inp) = Fscanf (CHR ''a'' # fs) (CHR ''a'' # inp)"
      "Fscanf (CHR '' '' # CHR ''v'' # fs) (CHR '' '' # CHR ''v'' # inp) = Fscanf (CHR ''v'' # fs) (CHR ''v'' # inp)" for fs inp
    using Fscanf_blank [of "CHR '' ''" "''a''" "CHR ''a'' # fs" inp] Fscanf_blank [of "CHR '' ''" "''v''" "CHR ''v'' # fs" inp]
    by (simp_all add: isSpace_def no_space_def)
  have l: "Fscanf (c # fs) (c # inp) = Fscanf fs inp" if "c \<in> set ''interfacghbovu''" for c fs inp
    using that by (intro Fscanf_literal) (auto simp: isSpace_def)
  show "Fscanf ''interface %s %s %s'' (''interface '' @ u @ '' '' @ v @ '' '' @ w) = Some [u, v, w]"
    by (simp add: l b1 [OF assms(1)] b1 [OF assms(2)] b2 [OF assms(3)] v [OF assms(1)] v [OF assms(2)])
  show "Fscanf ''neighbor %s at %s via %s'' (''neighbor '' @ u @ '' at '' @ v @ '' via '' @ w) = Some [u, v, w]"
    by (simp add: l a b1 [OF assms(1)] b1 [OF assms(2)] b2 [OF assms(3)] v [OF assms(1)] v [OF assms(2)])
  show "Fscanf ''route %s via %s'' (''route '' @ u @ '' via '' @ v) = Some [u, v]"
    by (simp add: l a b1 [OF assms(1)] b2 [OF assms(2)] v [OF assms(1)])
qed

lemma words_Cons: "CHR '' '' \<notin> set w \<Longrightarrow> words (w @ CHR '' '' # s) = w # words s" "CHR '' '' \<notin> set w \<Longrightarrow> words w = [w]"
  by (simp_all add: words_def)

lemma addOriginatingPrefix_eq: "addOriginatingPrefix c p = (if p \<in> cfgAssignedPrefix ` set (cfgInterfaces c)
    then Some (c\<lparr>cfgOriginatingPrefixes := cfgOriginatingPrefixes c @ [p]\<rparr>) else None)"
  by (auto simp: addOriginatingPrefix_def)

lemma addRipNeighbor_eq: "addRipNeighbor c a = (if a \<in> cfgDestAddr ` set (cfgNeighbors c)
    then Some (c\<lparr>cfgRipNeighbors := cfgRipNeighbors c @ [a]\<rparr>) else None)"
  by (auto simp: addRipNeighbor_def)

lemma parseLine_directive:
  assumes "directive_ok d"
  shows "parseLine p6 ln (directive_text d) config = ok (case directive_effect d config of
      Inl err \<Rightarrow> Inl (OnLine ln err) | Inr c \<Rightarrow> Inr c)"
proof -
  have cmd: "words (''interface'' @ CHR '' '' # s) = ''interface'' # words s" "words (''neighbor'' @ CHR '' '' # s) = ''neighbor'' # words s"
      "words (''route'' @ CHR '' '' # s) = ''route'' # words s" for s
    by (rule words_Cons; simp)+
  have rip: "words (''rip originate prefix '' @ t) = [''rip'', ''originate'', ''prefix'', t]" "words (''rip advertise-to '' @ t) = [''rip'', ''advertise-to'', t]"
    if "no_space t" for t
    using words_Cons(1) [of "''rip''"] words_Cons(1) [of "''originate''"] words_Cons(1) [of "''prefix''"] words_Cons(1) [of "''advertise-to''"]
      words_Cons(2) [OF no_space_blank [OF that]] by simp_all
  have head: "hd (words (''interface'' @ CHR '' '' # s)) = ''interface''" "hd (words (''neighbor'' @ CHR '' '' # s)) = ''neighbor''"
      "hd (words (''route'' @ CHR '' '' # s)) = ''route''" for s
    by (simp_all only: cmd list.sel)
  show ?thesis
  proof (cases d)
    case (Interface_dir name a b ua up)
    then show ?thesis
      using assms head(1) Fscanf_words(1) [of name "prefix_text a b" "udp_text ua up"]
      by (simp add: parseLine_def Let_def parseCommands_def parseInterface_def PrefixFrom_def)
  next
    case (Neighbor_dir a ua up name)
    then show ?thesis
      using assms head(2) Fscanf_words(2) [of "IPv4_text a" "udp_text ua up" name]
      by (simp add: parseLine_def Let_def parseCommands_def parseNeighbor_def)
  next
    case Routing_static
    have "words ''routing static'' = [''routing'', ''static'']" by (simp add: words_def)
    then show ?thesis unfolding Routing_static by (simp add: parseLine_def Let_def parseCommands_def parseRouting_def)
  next
    case Routing_rip
    have "words ''routing rip'' = [''routing'', ''rip'']" by (simp add: words_def)
    then show ?thesis unfolding Routing_rip by (simp add: parseLine_def Let_def parseCommands_def parseRouting_def)
  next
    case (Route_dir a b via)
    then show ?thesis
      using assms head(3) Fscanf_words(3) [of "prefix_text a b" "IPv4_text via" "IPv4_text via"]
      by (simp add: parseLine_def Let_def parseCommands_def parseRoute_def)
  next
    case (Originate_dir a b)
    then show ?thesis
      using assms rip(1) [of "prefix_text a b"]
      by (simp add: parseLine_def Let_def parseCommands_def parseRip_def rip_originate_def addOriginatingPrefix_eq newErr_def)
  next
    case (Advertise_dir a)
    then show ?thesis
      using rip(2) [of "IPv4_text a"]
      by (simp add: parseLine_def Let_def parseCommands_def parseRip_def rip_advertise_to_def addRipNeighbor_eq newErr_def)
  next
    case (Comment_dir t)
    have "hd (words (CHR ''#'' # t)) = [] \<or> hd (hd (words (CHR ''#'' # t))) = CHR ''#''"
      by (cases "split_on CHR '' '' t") (simp_all add: words_def)
    then show ?thesis unfolding Comment_dir by (auto simp: parseLine_def Let_def)
  qed
qed

section \<open>Properties\<close>

lemma directive_text_line:
  assumes "directive_ok d" shows "CHR 0x0A \<notin> set (directive_text d)" "CHR 0x0D \<notin> set (directive_text d)"
proof -
  have ns: "CHR 0x0A \<notin> set w \<and> CHR 0x0D \<notin> set w" if "no_space w" for w
    using that by (auto simp: no_space_def list_all_iff isSpace_def)
  have t: "CHR 0x0A \<notin> set (IPv4_text a)" "CHR 0x0D \<notin> set (IPv4_text a)" "CHR 0x0A \<notin> set (udp_text a p)" "CHR 0x0D \<notin> set (udp_text a p)" for a p
    using ns by simp_all
  have u: "CHR 0x0A \<notin> set (prefix_text a b)" "CHR 0x0D \<notin> set (prefix_text a b)" if "0 \<le> b" for a b
    using ns that by simp_all
  show "CHR 0x0A \<notin> set (directive_text d)" "CHR 0x0D \<notin> set (directive_text d)"
    using assms by (cases d; simp add: t u ns)+
qed

lemma parseLines_directives:
  "list_all directive_ok ds \<Longrightarrow> parseLines p6 ln (map directive_text ds) config = ok (directives_effect ln ds config)"
  by (induction ds arbitrary: ln config) (auto simp: parseLine_directive split: sum.splits)

lemma parse_file:
  assumes "list_all directive_ok ds" and "\<forall>d \<in> set ds. length (directive_text d) < 65536"
  shows "ParseConfig p6 (Some (unlines (map directive_text ds))) = ok (directives_effect 0 ds emptyConfig)"
proof -
  have "scan_lines (unlines (map directive_text ds)) = map directive_text ds"
    using assms by (intro scan_unlines) (auto simp: list_all_iff dest: directive_text_line)
  then show ?thesis by (simp add: ParseConfig_def parseLines_directives [OF assms(1)])
qed

text \<open>
  C19. The parser computes the meaning of a file. For every list of directives written out one on a line (comments
  among them, no line over the scanner's 65535 bytes), \<^verbatim>\<open>ParseConfig\<close> returns the configuration that the directives
  describe, applied in order, or the error of the first that contradicts what comes before it
  (a prefix that is no interface's, a RIP neighbour that is no neighbour), with its line number.
\<close>

theorem config_text:
  assumes "list_all directive_ok ds" and "\<forall>d \<in> set ds. length (directive_text d) < 65536"
  shows "ParseConfig p6 (Some (unlines (map directive_text ds))) = ok (directives_effect 0 ds emptyConfig)"
  using assms by (rule parse_file)

definition demo_directives :: "directive list" where
  "demo_directives = [Comment_dir '' a host'', Interface_dir ''if0'' 0x0a010001 24 0x7f000001 5000,
     Neighbor_dir 0x0a01000a 0x7f000001 6001 ''if0'', Routing_static, Route_dir 0 0 0x0a01000a, Advertise_dir 0x0a010001]"

lemma demo_directives_ok: "list_all directive_ok demo_directives" "\<forall>d \<in> set demo_directives. length (directive_text d) < 65536"
    "list_all directive_ok (take 5 demo_directives)" "\<forall>d \<in> set (take 5 demo_directives). length (directive_text d) < 65536"
proof -
  show k: "list_all directive_ok demo_directives" by (simp add: demo_directives_def no_space_def isSpace_def)
  show l: "\<forall>d \<in> set demo_directives. length (directive_text d) < 65536"
    by (simp add: demo_directives_def prefix_text_def udp_text_def IPv4_text_def PutUint32_def show_int_def show_nat.simps)
  show "list_all directive_ok (take 5 demo_directives)" "\<forall>d \<in> set (take 5 demo_directives). length (directive_text d) < 65536"
    using k l by (auto simp: list_all_iff dest: in_set_takeD)
qed

lemma config_text_witness:
  "ParseConfig (\<lambda>s. None) (Some (unlines (map directive_text (take 5 demo_directives)))) = ok (Inr (emptyConfig
     \<lparr>cfgInterfaces := [\<lparr>cfgName = ''if0'', cfgAssignedIP = V4 0x0a010001, cfgAssignedPrefix = \<lparr>p_addr = V4 0x0a010000, p_bits = 24\<rparr>,
        cfgUDPAddr = (V4 0x7f000001, 5000)\<rparr>],
      cfgNeighbors := [\<lparr>cfgDestAddr = V4 0x0a01000a, cfgNUDPAddr = (V4 0x7f000001, 6001), cfgInterfaceName = ''if0''\<rparr>],
      cfgRoutingMode := RoutingTypeStatic,
      cfgStaticRoutes := [\<lparr>p_addr = V4 0, p_bits = 0\<rparr> \<mapsto> V4 0x0a01000a]\<rparr>)) \<and>
   ParseConfig (\<lambda>s. None) (Some (unlines (map directive_text demo_directives))) = ok (Inl (OnLine 6 (NotANeighborIP (V4 0x0a010001))))"
  unfolding config_text [OF demo_directives_ok(1,2)] config_text [OF demo_directives_ok(3,4)]
  by (simp add: demo_directives_def Masked_def PrefixFrom_def PrefixValid_def emptyConfig_def)

text \<open>
  A well-formed configuration: interface addresses are valid and lie in their prefix, which is
  masked; what RIP originates is the prefix of an interface, and the routers it advertises to
  are neighbours; static routes have valid prefixes and gateways.
\<close>

definition interface_ok :: "InterfaceConfig \<Rightarrow> bool" where
  "interface_ok i \<longleftrightarrow> IsValid (cfgAssignedIP i) \<and> canonical (cfgAssignedPrefix i) \<and> Contains (cfgAssignedPrefix i) (cfgAssignedIP i)"

definition config_ok :: "IPConfig \<Rightarrow> bool" where
  "config_ok c \<longleftrightarrow> list_all interface_ok (cfgInterfaces c) \<and>
     set (cfgOriginatingPrefixes c) \<subseteq> cfgAssignedPrefix ` set (cfgInterfaces c) \<and>
     set (cfgRipNeighbors c) \<subseteq> cfgDestAddr ` set (cfgNeighbors c) \<and>
     (\<forall>n \<in> set (cfgNeighbors c). IsValid (cfgDestAddr n)) \<and>
     (\<forall>p a. cfgStaticRoutes c p = Some a \<longrightarrow> PrefixValid p \<and> IsValid a)"

lemma drop_push_drop: "drop_bit k (push_bit k (drop_bit k a)) = drop_bit k (a :: 'a :: len word)"
  by (rule bit_word_eqI) (auto simp: bit_simps dest: bit_imp_le_length)

lemma Masked_contains:
  assumes "PrefixValid p" and "p_addr p \<noteq> NoAddr" and "\<not> hasZone (p_addr p)" and "withoutZone (p_addr p) = p_addr p"
  shows "Contains (Masked p) (p_addr p)" and "canonical (Masked p)"
proof -
  have v: "PrefixValid (Masked p)" "p_bits (Masked p) = p_bits p" using assms(1) by (simp_all add: Masked_def PrefixValid_def)
  show "Contains (Masked p) (p_addr p)" using assms v
    by (cases "p_addr p") (simp_all add: Contains_def, simp_all add: Masked_def drop_push_drop)
  show "canonical (Masked p)" using assms
    by (cases "p_addr p") (simp_all add: canonical_def Masked_def PrefixValid_def drop_push_drop)
qed

text \<open>The IPv6 parser returns no zero address (that of \<^verbatim>\<open>netip\<close> returns an IPv6 address or an error).\<close>

definition proper6 :: "(string \<Rightarrow> Addr option) \<Rightarrow> bool" where
  "proper6 p6 \<longleftrightarrow> (\<forall>t. p6 t \<noteq> Some NoAddr)"

lemma ParseAddr_valid: "proper6 p6 \<Longrightarrow> ParseAddr p6 s = Some a \<Longrightarrow> IsValid a"
  using ParseAddr_V4_or_6 [of p6 s a] by (cases a) (auto simp: proper6_def)

lemma valid_iff: "IsValid a \<longleftrightarrow> a \<noteq> NoAddr"
  by (cases a) simp_all

lemma bindG_err: "bindG m (\<lambda>r. ok (case r of Inl e \<Rightarrow> Inl (g e) | Inr c \<Rightarrow> Inr c)) = ok (Inr c') \<longleftrightarrow> m = ok (Inr c')"
  by (cases m) (auto simp: ok_def split: sum.split)

lemma parseLines_accept: "parseLines p6 ln (l # ls) c = ok (Inr c') \<longleftrightarrow>
    (\<exists>c1. parseLine p6 (ln + 1) l c = ok (Inr c1) \<and> parseLines p6 (ln + 1) ls c1 = ok (Inr c'))"
proof (cases "parseLine p6 (ln + 1) l c")
  case (Inr r)
  then show ?thesis by (cases r) (auto simp: ok_def)
qed (simp add: ok_def)

lemma parseLine_keeps_ok:
  assumes "parseLine p6 ln line c = ok (Inr c')" and "config_ok c" and p6: "proper6 p6"
  shows "config_ok c'"
proof -
  have pre: "PrefixValid p \<and> IsValid (p_addr p) \<and> canonical (Masked p) \<and> Contains (Masked p) (p_addr p)" if "ParsePrefix p6 s = Some p" for s p
    using ParsePrefix_valid [OF that] p6 Masked_contains [of p] by (simp add: valid_iff proper6_def)
  have ifc: "config_ok c'" if "parseInterface p6 ln line c = ok (Inr c')"
    using that assms(2) pre by (auto simp: parseInterface_def config_ok_def interface_ok_def split: option.split_asm if_split_asm)
  have nbr: "config_ok c'" if "parseNeighbor p6 ln line c = ok (Inr c')"
    using that assms(2) by (auto simp: parseNeighbor_def config_ok_def dest!: ParseAddr_valid [OF p6] split: option.split_asm)
  have route: "config_ok c'" if "parseRoute p6 ln line c = ok (Inr c')"
    using that assms(2) pre by (auto simp: parseRoute_def config_ok_def dest!: ParseAddr_valid [OF p6] split: option.split_asm if_split_asm)
  have mode: "config_ok c'" if "parseRouting ln line c = ok (Inr c')"
    using that assms(2) by (auto simp: parseRouting_def Let_def config_ok_def split: if_split_asm)
  have orig: "config_ok c'" if "rip_originate p6 ln ts c = ok (Inr c')" for ts
    using that assms(2) by (auto simp: rip_originate_def addOriginatingPrefix_eq config_ok_def split: option.split_asm if_split_asm)
  have adv: "config_ok c'" if "rip_advertise_to p6 ln ts c = ok (Inr c')" for ts
    using that assms(2) by (auto simp: rip_advertise_to_def addRipNeighbor_eq config_ok_def split: option.split_asm if_split_asm)
  have rip: "config_ok c'" if "parseRip p6 ln line c = ok (Inr c')"
    using that orig adv by (auto simp: parseRip_def Let_def split: if_split_asm)
  show ?thesis
    using assms(1,2) ifc nbr route mode rip
    by (auto simp: parseLine_def Let_def parseCommands_def bindG_err split: if_split_asm option.split_asm)
qed

lemma parseLines_keeps_ok:
  assumes "proper6 p6"
  shows "parseLines p6 ln ls c = ok (Inr c') \<Longrightarrow> config_ok c \<Longrightarrow> config_ok c'"
proof (induction ls arbitrary: ln c)
  case (Cons l ls)
  from Cons.prems(1) obtain c1 where "parseLine p6 (ln + 1) l c = ok (Inr c1)" "parseLines p6 (ln + 1) ls c1 = ok (Inr c')"
    unfolding parseLines_accept by blast
  then show ?case using Cons parseLine_keeps_ok [OF _ _ assms] by blast
qed simp

lemma config_ok_parsed:
  assumes "ParseConfig p6 file = ok (Inr config)" and "proper6 p6"
  shows "config_ok config"
proof -
  obtain t where "parseLines p6 0 (scan_lines t) emptyConfig = ok (Inr config)"
    using assms(1) by (auto simp: ParseConfig_def split: option.split_asm)
  moreover have "config_ok emptyConfig" by (simp add: config_ok_def emptyConfig_def)
  ultimately show ?thesis using parseLines_keeps_ok [OF assms(2)] by blast
qed

text \<open>
  C21. Whatever file the parser accepts, the configuration it returns is well-formed.
\<close>

theorem parsed_config_ok:
  assumes "ParseConfig p6 file = ok (Inr config)" and "proper6 p6"
  shows "config_ok config"
  using assms by (rule config_ok_parsed)

lemma parsed_config_ok_witness:
  "\<exists>config. ParseConfig (\<lambda>s. None) (Some (unlines (map directive_text (take 5 demo_directives)))) = ok (Inr config) \<and>
     length (cfgInterfaces config) = 1 \<and> length (cfgNeighbors config) = 1 \<and> config_ok config"
proof -
  obtain config where c: "directives_effect 0 (take 5 demo_directives) emptyConfig = Inr config"
      "length (cfgInterfaces config) = 1" "length (cfgNeighbors config) = 1"
    by (simp add: demo_directives_def emptyConfig_def)
  note f = parse_file [OF demo_directives_ok(3,4), of "\<lambda>s. None", unfolded c(1)]
  show ?thesis using f c(2,3) parsed_config_ok [OF f] by (auto simp: proper6_def)
qed

text \<open>The lines that make the parser panic.\<close>

definition bad_rip :: "string \<Rightarrow> bool" where
  "bad_rip line \<longleftrightarrow> take 2 (words line) = [''rip'', ''originate''] \<and> (drop 2 (words line) = [] \<or> drop 2 (words line) = [''prefix''])"

lemma directives_no_panic:
  "parseInterface p6 ln line c \<noteq> panic f" "parseNeighbor p6 ln line c \<noteq> panic f" "parseRouting ln line c \<noteq> panic f"
  "parseRoute p6 ln line c \<noteq> panic f" "rip_advertise_to p6 ln ts c \<noteq> panic f"
  by (auto simp: parseInterface_def parseNeighbor_def parseRouting_def parseRoute_def rip_advertise_to_def Let_def split: option.split)

lemma rip_originate_panics: "rip_originate p6 ln ts c = panic f \<longleftrightarrow> (ts = [] \<or> ts = [''prefix'']) \<and> f = IndexRange"
proof (cases ts)
  case (Cons a us)
  then show ?thesis by (cases us) (auto simp: rip_originate_def split: option.split)
qed (auto simp: rip_originate_def)

lemma parseRip_panics: "parseRip p6 ln line c = panic f \<longleftrightarrow> (\<exists>h. take 2 (words line) = [h, ''originate'']) \<and>
    (drop 2 (words line) = [] \<or> drop 2 (words line) = [''prefix'']) \<and> f = IndexRange"
proof (cases "words line")
  case (Cons h ws)
  then show ?thesis
    by (cases ws) (auto simp: parseRip_def Let_def rip_originate_panics directives_no_panic)
qed (auto simp: parseRip_def)

lemma parseLine_panics: "parseLine p6 ln line c = panic f \<longleftrightarrow> bad_rip line \<and> f = IndexRange"
proof (cases "words line")
  case Nil
  then show ?thesis by (simp add: words_def)
next
  case (Cons h ws)
  then show ?thesis
    by (cases ws) (auto simp: parseLine_def Let_def parseCommands_def bad_rip_def bindG_panic_iff directives_no_panic parseRip_panics
      split: if_split_asm)
qed

lemma parseLines_panics:
  "parseLines p6 ln ls c = panic f \<longleftrightarrow> f = IndexRange \<and>
     (\<exists>pre line post c'. ls = pre @ line # post \<and> parseLines p6 ln pre c = ok (Inr c') \<and> bad_rip line)"
  (is "_ \<longleftrightarrow> _ \<and> ?R ln ls c")
proof (induction ls arbitrary: ln c)
  case (Cons l ls)
  have split: "?R ln (l # ls) c \<longleftrightarrow> bad_rip l \<or> (\<exists>c1. parseLine p6 (ln + 1) l c = ok (Inr c1) \<and> ?R (ln + 1) ls c1)"
  proof
    assume "?R ln (l # ls) c"
    then obtain pre line post c' where p: "l # ls = pre @ line # post" "parseLines p6 ln pre c = ok (Inr c')" "bad_rip line" by blast
    show "bad_rip l \<or> (\<exists>c1. parseLine p6 (ln + 1) l c = ok (Inr c1) \<and> ?R (ln + 1) ls c1)"
    proof (cases pre)
      case Nil
      then show ?thesis using p by simp
    next
      case (Cons x xs)
      with p(2) obtain c1 where "parseLine p6 (ln + 1) x c = ok (Inr c1)" "parseLines p6 (ln + 1) xs c1 = ok (Inr c')"
        unfolding Cons parseLines_accept by blast
      then show ?thesis using p(1,3) Cons by auto
    qed
  next
    assume "bad_rip l \<or> (\<exists>c1. parseLine p6 (ln + 1) l c = ok (Inr c1) \<and> ?R (ln + 1) ls c1)"
    then show "?R ln (l # ls) c"
    proof (elim disjE exE conjE)
      assume "bad_rip l"
      then show ?thesis by - (rule exI [of _ "[]"], rule exI [of _ l], simp)
    next
      fix c1 pre line post c'
      assume h: "parseLine p6 (ln + 1) l c = ok (Inr c1)" "ls = pre @ line # post" "parseLines p6 (ln + 1) pre c1 = ok (Inr c')" "bad_rip line"
      then have "parseLines p6 ln (l # pre) c = ok (Inr c')" unfolding parseLines_accept by blast
      then show ?thesis using h(2,4) by (metis append_Cons)
    qed
  qed
  have "parseLines p6 ln (l # ls) c = panic f \<longleftrightarrow>
      parseLine p6 (ln + 1) l c = panic f \<or> (\<exists>c1. parseLine p6 (ln + 1) l c = ok (Inr c1) \<and> parseLines p6 (ln + 1) ls c1 = panic f)"
    by (auto simp: bindG_panic_iff split: sum.split_asm) 
  then show ?case unfolding split parseLine_panics Cons.IH by blast
qed auto

text \<open>
  C39. The parser panics exactly at a line \<^verbatim>\<open>rip originate\<close> or \<^verbatim>\<open>rip originate prefix\<close> with nothing behind it, when all
  lines before it are accepted: the usage error it means to return is never reached.
\<close>

theorem config_parser_panics:
  "ParseConfig p6 (Some t) = panic f \<longleftrightarrow> f = IndexRange \<and>
     (\<exists>pre line post c. scan_lines t = pre @ line # post \<and> parseLines p6 0 pre emptyConfig = ok (Inr c) \<and> bad_rip line)"
  by (simp add: ParseConfig_def parseLines_panics)

end
