(* ===== verification/Router.thy ===== *)
theory Router imports Rip_Recovery Ip_Repl Config_Parser begin

text \<open>
  The router program (\<^verbatim>\<open>cmd/vrouter/vrouter.go\<close>): from its file to the console, and its life under the two tickers.
\<close>

text \<open>
  \<^verbatim>\<open>main\<close> up to its goroutines: \<open>names\<close> is the order in which the sockets are bound and \<open>orders\<close> those in which
  the start-up requests are routed. \<open>None\<close> is the return after a usage message. The two tickers are
  in \<open>router_life\<close> below.
\<close>

definition start_router ::
    "(string \<Rightarrow> Addr option) \<Rightarrow> netlib \<Rightarrow> string list \<Rightarrow> (nat \<Rightarrow> nat \<Rightarrow> Prefix list) \<Rightarrow> string option
      \<Rightarrow> (datagram list \<times> IPGlobalInfo \<times> ip_command REPL) option go" where
  "start_router p6 L names orders file =
     bindG (ParseConfig p6 file) (\<lambda>res. case res of
         Inl err \<Rightarrow> ok None
       | Inr config \<Rightarrow>
           let router = bindUDP L names (newRouter config)
           in bindG (SendRipRequest L orders router) (\<lambda>(out, router').
                ok (Some (out, router', IpRepl (\<lambda>c. c)))))"

text \<open>
  A router that has started is a reachable state of the machine in \<open>Vrouter\<close>, so its table is well-formed and
  holds the configured routes; it announces routes and forwards test packets, and its console knows the six
  commands of the IP layer.
\<close>

lemma router_started:
  assumes cfg: "ParseConfig p6 file = ok (Inr config)" and run: "start_router p6 L names orders file = ok (Some (out, s, r))"
  shows "router_reachable L config s \<and> table_wf (RoutingTable s) \<and> RoutingTable s = RoutingTable (Init config) \<and>
    repl_wf r \<and> dom (Commands r) = {''ln'', ''li'', ''lr'', ''up'', ''down'', ''send''}"
proof -
  have req: "SendRipRequest L orders (bindUDP L names (newRouter config)) = ok (out, s)" and r: "r = IpRepl (\<lambda>c. c)"
    using run cfg by (auto simp: start_router_def Let_def elim!: bindG_okE)
  have "router_reachable L config (bindUDP L names (newRouter config))"
    by (rule router_reachable.step [OF router_reachable.start router_step.bind])
  then have reach: "router_reachable L config s" by (rule router_reachable.step) (rule router_step.request [OF req])
  have "RoutingTable s = RoutingTable (Init config)"
    using sendRequests_table [OF req [unfolded SendRipRequest_def]] by (simp add: bindUDP_table newRouter_table)
  moreover have "table_wf (RoutingTable s)" using calculation Init_table by simp
  moreover have "dom (Commands r) = {''ln'', ''li'', ''lr'', ''up'', ''down'', ''send''}" unfolding r IpRepl_commands by auto
  ultimately show ?thesis using reach IpRepl_wf by (simp add: r)
qed

section \<open>The two tickers\<close>

text \<open>
  The life of a router after \<^verbatim>\<open>main\<close> has started it at \<open>t0\<close>: the time, those of the last periodic update and of the last sweep,
  and the router. The tickers fire every 5 and every 10 seconds from \<open>t0\<close> on; no tick is missed, and
  nothing happens later than the ticks that are due. Between them responses arrive, and anything else that leaves the table alone.
\<close>

inductive router_life :: "netlib \<Rightarrow> int \<Rightarrow> IPGlobalInfo \<Rightarrow> int \<times> int \<times> int \<times> IPGlobalInfo \<Rightarrow> bool" for L t0 s0 where
  starts: "router_life L t0 s0 (t0, t0, t0, s0)"
| receives: "router_life L t0 s0 (t, u, g, s) \<Longrightarrow> t \<le> now \<Longrightarrow> now \<le> u + 5000000000 \<Longrightarrow> now \<le> g + 10000000000 \<Longrightarrow>
    ripRecvHandler L orders order logZero now s packet = ok (out, s') \<Longrightarrow> router_life L t0 s0 (now, u, g, s')"
| updates: "router_life L t0 s0 (t, u, g, s) \<Longrightarrow> now = u + 5000000000 \<Longrightarrow> now \<le> g + 10000000000 \<Longrightarrow>
    SendPeriodicRipUpdate L orders order s = ok (out, s') \<Longrightarrow> router_life L t0 s0 (now, now, g, s')"
| sweeps: "router_life L t0 s0 (t, u, g, s) \<Longrightarrow> now = g + 10000000000 \<Longrightarrow> now \<le> u + 5000000000 \<Longrightarrow> dom (RoutingTable s) \<subseteq> set order \<Longrightarrow>
    RemoveExpiredEntries L orders order now s = ok (out, s') \<Longrightarrow> router_life L t0 s0 (now, u, now, s')"
| other: "router_life L t0 s0 (t, u, g, s) \<Longrightarrow> t \<le> now \<Longrightarrow> now \<le> u + 5000000000 \<Longrightarrow> now \<le> g + 10000000000 \<Longrightarrow>
    router_step L s s' \<Longrightarrow> RoutingTable s' = RoutingTable s \<Longrightarrow> router_life L t0 s0 (now, u, g, s')"

text \<open>No route is older than 12 seconds before the last sweep, which is at most 10 seconds ago.\<close>

lemma router_life_fresh:
  "router_life L t0 s0 x \<Longrightarrow> configured (RoutingTable s0) \<Longrightarrow>
   case x of (t, u, g, s) \<Rightarrow> u \<le> t \<and> g \<le> t \<and> t \<le> u + 5000000000 \<and> t \<le> g + 10000000000 \<and>
     updated_since (g - 12000000000) (RoutingTable s)"
proof (induction rule: router_life.induct)
  case starts
  then show ?case by (auto simp: configured_def updated_since_def)
next
  case (receives t u g s now orders order logZero packet out s')
  then have "updated_since (g - 12000000000) (RoutingTable s')"
    using updated_since_rip_table [OF ripRecvHandler_rip_table [OF receives(5)]] by simp
  then show ?case using receives by simp
next
  case (updates t u g s now orders order out s')
  then have "RoutingTable s' = RoutingTable s" using sendRipUpdate_table unfolding SendPeriodicRipUpdate_def by blast
  then show ?case using updates by simp
next
  case (sweeps t u g s now order orders out s')
  then have "updated_since (now - 12000000000) (RoutingTable s')"
    using RemoveExpired_table [OF sweeps(5)] swept [OF sweeps(4)] by simp
  then show ?case using sweeps by simp
next
  case (other t u g s now s')
  then show ?case by simp
qed

lemma router_life_reachable: "router_life L t0 s0 x \<Longrightarrow> router_reachable L config s0 \<Longrightarrow> router_reachable L config (snd (snd (snd x)))"
proof (induction rule: router_life.induct)
  case (receives t u g s now orders order logZero packet out s')
  then show ?case using router_reachable.step router_step.rip by fastforce
next
  case (updates t u g s now orders order out s')
  then show ?case using router_reachable.step router_step.periodic by fastforce
next
  case (sweeps t u g s now order orders out s')
  then show ?case using router_reachable.step router_step.expiry by fastforce
next
  case (other t u g s now s')
  then show ?case using router_reachable.step by fastforce
qed simp



end
