(* ===== verification/Tcp_Packet.thy ===== *)
theory Tcp_Packet imports Ip_Packet begin

text \<open>
  TCP segments (\<^verbatim>\<open>pkg/proto/tcppacket.go\<close>). The wire format of the header is that of the third-party
  package netstack: its encoder and its field accessors are fields of \<open>tcplib\<close>, which extends the
  libraries of the IP layer.
\<close>

unbundle bit_operations_syntax

section \<open>Headers and the library behind them\<close>

record TCPFields =
  SrcPort :: u16
  DstPort :: u16
  SeqNum :: u32
  AckNum :: u32
  DataOffset :: nat
  Flags :: u8
  TcpWindowSize :: u16
  TcpChecksum :: u16
  UrgentPointer :: u16

record tcplib = netlib +
  Encode :: "TCPFields \<Rightarrow> bytes"
  td_SourcePort :: "bytes \<Rightarrow> u16 go"
  td_DestinationPort :: "bytes \<Rightarrow> u16 go"
  td_SequenceNumber :: "bytes \<Rightarrow> u32 go"
  td_AckNumber :: "bytes \<Rightarrow> u32 go"
  td_DataOffset :: "bytes \<Rightarrow> nat go"
  td_Flags :: "bytes \<Rightarrow> u8 go"
  td_WindowSize :: "bytes \<Rightarrow> u16 go"
  td_Checksum :: "bytes \<Rightarrow> u16 go"

definition TCPFlagFin :: u8 where "TCPFlagFin = 1"
definition TCPFlagSyn :: u8 where "TCPFlagSyn = 2"
definition TCPFlagRst :: u8 where "TCPFlagRst = 4"
definition TCPFlagPsh :: u8 where "TCPFlagPsh = 8"
definition TCPFlagAck :: u8 where "TCPFlagAck = 16"
definition TCPFlagUrg :: u8 where "TCPFlagUrg = 32"

section \<open>The code\<close>

definition DefaultTcpHeaderLen :: nat where
  "DefaultTcpHeaderLen = 20"

definition TcpPseudoHeaderLen :: nat where
  "TcpPseudoHeaderLen = 12"

definition MSS :: nat where
  "MSS = MTU - DefaultTcpHeaderLen - DefaultIpHeaderLen"

record TCPPacket =
  TcpHeader :: TCPFields
  TPayload :: bytes

definition NewTCPacket :: "u16 \<Rightarrow> u16 \<Rightarrow> u32 \<Rightarrow> u32 \<Rightarrow> u8 \<Rightarrow> bytes \<Rightarrow> u16 \<Rightarrow> TCPPacket" where
  "NewTCPacket localPort destPort seqNum ackNum flags payload winSize =
     \<lparr>TcpHeader = \<lparr>SrcPort = localPort, DstPort = destPort, SeqNum = seqNum, AckNum = ackNum,
        DataOffset = DefaultTcpHeaderLen, Flags = flags, TcpWindowSize = winSize, TcpChecksum = 0, UrgentPointer = 0\<rparr>,
      TPayload = payload\<rparr>"

definition ParseTCPHeader :: "'a tcplib_scheme \<Rightarrow> bytes \<Rightarrow> TCPFields go" where
  "ParseTCPHeader L b =
     bindG (td_SourcePort L b) (\<lambda>sp. bindG (td_DestinationPort L b) (\<lambda>dp.
     bindG (td_SequenceNumber L b) (\<lambda>seq. bindG (td_AckNumber L b) (\<lambda>ack.
     bindG (td_DataOffset L b) (\<lambda>off. bindG (td_Flags L b) (\<lambda>fl.
     bindG (td_WindowSize L b) (\<lambda>wnd. bindG (td_Checksum L b) (\<lambda>ck.
       ok \<lparr>SrcPort = sp, DstPort = dp, SeqNum = seq, AckNum = ack, DataOffset = off, Flags = fl,
           TcpWindowSize = wnd, TcpChecksum = ck, UrgentPointer = 0\<rparr>))))))))"

definition UnmarshalTCP :: "'a tcplib_scheme \<Rightarrow> bytes \<Rightarrow> TCPPacket go" where
  "UnmarshalTCP L data =
     bindG (ParseTCPHeader L data) (\<lambda>hdr.
     bindG (go_slice data (DataOffset hdr) (length data)) (\<lambda>payload.
       ok \<lparr>TcpHeader = hdr, TPayload = payload\<rparr>))"

definition ComputeTCPChecksum :: "'a tcplib_scheme \<Rightarrow> TCPFields \<Rightarrow> Addr \<Rightarrow> Addr \<Rightarrow> bytes \<Rightarrow> u16 go" where
  "ComputeTCPChecksum L tcpHdr sourceIP destIP payload =
     bindG (go_copy (replicate TcpPseudoHeaderLen 0) 0 4 (AsSlice sourceIP)) (\<lambda>p1.
     bindG (go_copy p1 4 8 (AsSlice destIP)) (\<lambda>p2.
       let p3 = p2[8 := 0, 9 := ProtoNumTCP];
           totalLength = DefaultTcpHeaderLen + length payload
       in bindG (go_copy p3 10 12 (PutUint16 (of_nat totalLength))) (\<lambda>pseudoHeaderBytes.
            let pseudoHeaderChecksum = Checksum L pseudoHeaderBytes 0;
                headerChecksum = Checksum L (Encode L tcpHdr) pseudoHeaderChecksum;
                fullChecksum = Checksum L payload headerChecksum
            in ok (fullChecksum XOR 0xffff))))"

text \<open>The packet's checksum field is cleared on the way.\<close>

definition ValidTCPChecksum :: "'a tcplib_scheme \<Rightarrow> TCPPacket \<Rightarrow> Addr \<Rightarrow> Addr \<Rightarrow> (bool \<times> TCPPacket) go" where
  "ValidTCPChecksum L p srcIp dstIp =
     (let tcpChecksumFromHeader = TcpChecksum (TcpHeader p);
          p' = p\<lparr>TcpHeader := (TcpHeader p)\<lparr>TcpChecksum := 0\<rparr>\<rparr>
      in bindG (ComputeTCPChecksum L (TcpHeader p') srcIp dstIp (TPayload p')) (\<lambda>c.
           ok (c = tcpChecksumFromHeader, p')))"

definition IsAck :: "TCPPacket \<Rightarrow> bool" where
  "IsAck p \<longleftrightarrow> Flags (TcpHeader p) AND TCPFlagAck \<noteq> 0"

definition IsSyn :: "TCPPacket \<Rightarrow> bool" where
  "IsSyn p \<longleftrightarrow> Flags (TcpHeader p) AND TCPFlagSyn \<noteq> 0"

definition IsFin :: "TCPPacket \<Rightarrow> bool" where
  "IsFin p \<longleftrightarrow> Flags (TcpHeader p) AND TCPFlagFin \<noteq> 0"

definition IsRst :: "TCPPacket \<Rightarrow> bool" where
  "IsRst p \<longleftrightarrow> Flags (TcpHeader p) AND TCPFlagRst \<noteq> 0"

section \<open>Lemmas\<close>

lemma NewTCPacket_fields [simp]:
  "SeqNum (TcpHeader (NewTCPacket lp dp seq ack fl pay w)) = seq"
  "AckNum (TcpHeader (NewTCPacket lp dp seq ack fl pay w)) = ack"
  "Flags (TcpHeader (NewTCPacket lp dp seq ack fl pay w)) = fl"
  "TcpWindowSize (TcpHeader (NewTCPacket lp dp seq ack fl pay w)) = w"
  "TPayload (NewTCPacket lp dp seq ack fl pay w) = pay"
  by (simp_all add: NewTCPacket_def)

text \<open>The checksum is always defined: the pseudo header has room for what is copied into it.\<close>

lemma ComputeTCPChecksum_ok: "\<exists>c. ComputeTCPChecksum L h s d payload = ok c"
proof -
  have copy: "\<exists>p'. go_copy p lo hi src = ok p' \<and> length p' = length p" if "lo \<le> hi" "hi \<le> length p"
    for p src :: bytes and lo hi
  proof -
    note c = go_copy_ok [OF that, of src]
    then show ?thesis using length_go_copy [OF c] by blast
  qed
  obtain p1 where p1: "go_copy (replicate TcpPseudoHeaderLen 0) 0 4 (AsSlice s) = ok p1" "length p1 = 12"
    using copy [of 0 4 "replicate TcpPseudoHeaderLen 0" "AsSlice s"] by (auto simp: TcpPseudoHeaderLen_def)
  obtain p2 where p2: "go_copy p1 4 8 (AsSlice d) = ok p2" "length p2 = 12"
    using copy [of 4 8 p1 "AsSlice d"] p1 by auto
  obtain p3 where "go_copy (p2[8 := 0, 9 := ProtoNumTCP]) 10 12
      (PutUint16 (of_nat (DefaultTcpHeaderLen + length payload))) = ok p3"
    using copy [of 10 12 "p2[8 := 0, 9 := ProtoNumTCP]" "PutUint16 (of_nat (DefaultTcpHeaderLen + length payload))"] p2
    by auto
  with p1 p2 show ?thesis by (simp add: ComputeTCPChecksum_def Let_def)
qed

end
