(* ===== verification/Byte_Fifo.thy ===== *)
theory Byte_Fifo imports Prelude begin

text \<open>
  The contract of a bounded byte queue, as the socket layer uses it: bytes go in at one end as
  far as there is room, and come out at the other end in the same order. The receive buffer
  provides it (theory \<open>Recv_Buf\<close>: \<^verbatim>\<open>Write\<close> and \<^verbatim>\<open>Read\<close>), and so does the send buffer
  (theory \<open>Send_Buf\<close>: the application's write and the peer's acknowledgement). The clients'
  lemmas are proved here once.
\<close>

datatype fifo_op = Put bytes | Get nat

text \<open>
  \<open>limit s\<close> is how many more bytes the queue can take before its 32-bit sequence numbers wrap
  around: the laws of \<open>put\<close> are promised below it.
\<close>

locale byte_fifo =
  fixes wf :: "'s \<Rightarrow> bool"
    and stored :: "'s \<Rightarrow> bytes"
    and room :: "'s \<Rightarrow> nat"
    and limit :: "'s \<Rightarrow> nat"
    and put :: "'s \<Rightarrow> bytes \<Rightarrow> (nat \<times> 's) go"
    and get :: "'s \<Rightarrow> nat \<Rightarrow> (bytes \<times> 's) go"
  assumes put_law: "wf s \<Longrightarrow> length d < limit s \<Longrightarrow>
      \<exists>s'. put s d = ok (min (length d) (room s), s') \<and> wf s' \<and>
           stored s' = stored s @ take (room s) d \<and>
           room s' = room s - min (length d) (room s) \<and>
           limit s' = limit s - min (length d) (room s)"
    and get_law: "wf s \<Longrightarrow> k < 2 ^ 31 \<Longrightarrow>
      \<exists>s'. get s k = ok (take k (stored s), s') \<and> wf s' \<and>
           stored s' = drop k (stored s) \<and>
           room s' = room s + min k (length (stored s)) \<and>
           limit s' = limit s"
begin

text \<open>A run of operations collects what was accepted and what was delivered.\<close>

fun run :: "'s \<Rightarrow> fifo_op list \<Rightarrow> (bytes \<times> bytes \<times> 's) go" where
  "run s [] = ok ([], [], s)"
| "run s (Put d # os) =
     bindG (put s d) (\<lambda>(n, s'). bindG (run s' os) (\<lambda>(i, j, t). ok (take n d @ i, j, t)))"
| "run s (Get k # os) =
     bindG (get s k) (\<lambda>(d, s'). bindG (run s' os) (\<lambda>(i, j, t). ok (i, d @ j, t)))"

fun put_total :: "fifo_op list \<Rightarrow> nat" where
  "put_total [] = 0"
| "put_total (Put d # os) = length d + put_total os"
| "put_total (Get k # os) = put_total os"

fun get_small :: "fifo_op \<Rightarrow> bool" where
  "get_small (Put d) = True"
| "get_small (Get k) = (k < 2 ^ 31)"

lemma run_stream:
  assumes "wf s" and "put_total os < limit s" and "list_all get_small os"
  shows "\<exists>i j t. run s os = ok (i, j, t) \<and> wf t \<and> stored s @ i = j @ stored t"
  using assms
proof (induction os arbitrary: s)
  case Nil
  then show ?case by simp
next
  case (Cons p os)
  show ?case
  proof (cases p)
    case (Put d)
    let ?n = "min (length d) (room s)"
    obtain s' where s': "put s d = ok (?n, s')" "wf s'" "stored s' = stored s @ take (room s) d"
        "limit s' = limit s - ?n"
      using put_law [of s d] Cons.prems Put by fastforce
    then obtain i j t where "run s' os = ok (i, j, t)" "wf t" "stored s' @ i = j @ stored t"
      using Cons.IH [of s'] Cons.prems Put by fastforce
    moreover have "take ?n d = take (room s) d" by (simp add: min_def)
    ultimately show ?thesis using s' Put by simp
  next
    case (Get k)
    obtain s' where s': "get s k = ok (take k (stored s), s')" "wf s'" "stored s' = drop k (stored s)"
        "limit s' = limit s"
      using get_law [of s k] Cons.prems Get by fastforce
    then obtain i j t where r: "run s' os = ok (i, j, t)" "wf t" "stored s' @ i = j @ stored t"
      using Cons.IH [of s'] Cons.prems Get by fastforce
    have "stored s @ i = take k (stored s) @ stored s' @ i"
      using s'(3) by simp
    also have "\<dots> = (take k (stored s) @ j) @ stored t" using r(3) by simp
    finally show ?thesis using s' r Get by simp
  qed
qed

end

end
