(* ===== verification/Recv_Buf.thy ===== *)
theory Recv_Buf imports Byte_Fifo begin

text \<open>
  The circular receive buffer of a connection (\<^verbatim>\<open>pkg/tcpstack/recvbuf.go\<close>). Positions in the
  buffer are sequence numbers: \<open>lbr\<close> is the last byte the application read, \<open>nxt\<close> the next
  byte expected from the peer, and byte \<open>n\<close> of the stream sits at index \<open>n mod capacity\<close>
  (shifted by one). Every operation takes the buffer's lock for its whole body, so each is one
  state transformer; \<^verbatim>\<open>Read\<close> gives the lock up at one point only, where it waits for data.
\<close>

section \<open>The code\<close>

definition BUFFER_CAPACITY :: nat where
  "BUFFER_CAPACITY = 2 ^ 16 - 1"

text \<open>\<open>canRead\<close> is the number of tokens queued in the channel of that name.\<close>

record recvBuf =
  buff :: bytes
  capacity :: u32
  lbr :: u32
  nxt :: u32
  isFull :: bool
  finRecvd :: bool
  canRead :: nat

datatype buf_error = EOF | BufferFull

definition NewRecvBuf :: "u32 \<Rightarrow> u32 \<Rightarrow> recvBuf" where
  "NewRecvBuf cap start =
     \<lparr>buff = replicate (unat cap) 0, capacity = cap, lbr = start, nxt = start + 1,
      isFull = False, finRecvd = False, canRead = 0\<rparr>"

text \<open>
  \<^verbatim>\<open>Read\<close> from line 59 on, after the wait: \<open>buf\<close> is the caller's slice; the result is the count,
  the error, the caller's slice and the buffer.
\<close>

definition Read_copy :: "recvBuf \<Rightarrow> bytes \<Rightarrow> (u32 \<times> buf_error option \<times> bytes \<times> recvBuf) go" where
  "Read_copy cb buf =
     (let head = lbr cb mod capacity cb;
          tail = (nxt cb - 1) mod capacity cb;
          want = of_nat (length buf);
          finish = (\<lambda>n buf'. ok (n, None, buf',
                     cb\<lparr>isFull := False, lbr := lbr cb + n, canRead := 0\<rparr>))
      in if tail > head then
           (let bytesRead = (if tail - head > want then want else tail - head)
            in bindG (go_slice (buff cb) (unat head) (unat (head + bytesRead))) (\<lambda>src.
               bindG (go_copy buf 0 (length buf) src) (finish bytesRead)))
         else
           (let avail = capacity cb - head + tail;
                bytesRead = (if avail > want then want else avail);
                end = head + bytesRead
            in if end \<le> capacity cb then
                 bindG (go_slice (buff cb) (unat head) (unat end)) (\<lambda>src.
                 bindG (go_copy buf 0 (length buf) src) (finish bytesRead))
               else
                 bindG (go_slice (buff cb) (unat head) (unat (capacity cb))) (\<lambda>src.
                 bindG (go_copy buf 0 (length buf) src) (\<lambda>buf1.
                 bindG (go_slice (buff cb) 0 (unat (end mod capacity cb))) (\<lambda>src2.
                 bindG (go_copy buf1 (unat (capacity cb - head)) (length buf1) src2)
                   (finish bytesRead))))))"

text \<open>
  \<open>ReadBlocks\<close>: the call has released the lock and waits on \<^verbatim>\<open>canRead\<close>. When a token arrives it
  goes on with \<open>Read_copy\<close> on the buffer as it is then.
\<close>

datatype read_outcome =
    ReadDone u32 "buf_error option" bytes recvBuf
  | ReadBlocks

definition Read :: "recvBuf \<Rightarrow> bytes \<Rightarrow> read_outcome go" where
  "Read cb buf =
     (let resume = (\<lambda>cb'. bindG (Read_copy cb' buf) (\<lambda>(n, e, buf', cb''). ok (ReadDone n e buf' cb'')))
      in if length buf = 0 then ok (ReadDone 0 None buf cb)
         else if finRecvd cb \<and> nxt cb - 1 = lbr cb then ok (ReadDone 0 (Some EOF) buf cb)
         else if capacity cb = 0 then panic DivideByZero
         else if (nxt cb - 1) mod capacity cb = lbr cb mod capacity cb \<and> \<not> isFull cb then
           (if canRead cb = 0 then ok ReadBlocks
            else resume (cb\<lparr>canRead := canRead cb - 1\<rparr>))
         else resume cb)"

text \<open>
  \<^verbatim>\<open>Write\<close>. The token is sent on a channel with room for \<^verbatim>\<open>capacity\<close> tokens while the lock is
  held: with no room left the send would never return.
\<close>

definition Write :: "recvBuf \<Rightarrow> bytes \<Rightarrow> (u32 \<times> buf_error option \<times> recvBuf) go" where
  "Write cb buf0 =
     (if length buf0 = 0 then ok (0, None, cb)
      else if capacity cb = 0 then panic DivideByZero
      else
        let head = lbr cb mod capacity cb;
            tail = (nxt cb - 1) mod capacity cb
        in if isFull cb then ok (0, Some BufferFull, cb)
           else
             let avail = (if tail \<ge> head then capacity cb - tail + head else head - tail);
                 buf = (if length buf0 > unat avail then take (unat avail) buf0 else buf0);
                 bytesWritten = of_nat (length buf);
                 tailSpace = capacity cb - tail
             in bindG
                  (if tail \<ge> head \<and> \<not> tailSpace \<ge> bytesWritten then
                     bindG (go_slice buf 0 (unat tailSpace)) (\<lambda>src.
                     bindG (go_copy (buff cb) (unat tail) (length (buff cb)) src) (\<lambda>b1.
                     bindG (go_slice buf (unat tailSpace) (length buf)) (\<lambda>src2.
                     go_copy b1 0 (length b1) src2)))
                   else go_copy (buff cb) (unat tail) (length (buff cb)) buf)
                  (\<lambda>b.
                    let nxt' = nxt cb + bytesWritten
                    in if canRead cb \<ge> unat (capacity cb) then panic NeverReturns
                       else ok (bytesWritten, None,
                              cb\<lparr>buff := b, nxt := nxt', canRead := canRead cb + 1,
                                 isFull := isFull cb \<or> (nxt' - 1 - lbr cb) mod capacity cb = 0\<rparr>)))"

definition WindowSize :: "recvBuf \<Rightarrow> u32 go" where
  "WindowSize cb =
     (if capacity cb = 0 then panic DivideByZero else
      let head = lbr cb mod capacity cb;
          tail = (nxt cb - 1) mod capacity cb
      in ok (if head = tail then (if isFull cb then capacity cb else 0)
             else if head > tail then capacity cb - head + tail
             else tail - head))"

definition FreeSpace :: "recvBuf \<Rightarrow> u32 go" where
  "FreeSpace cb =
     (if capacity cb = 0 then panic DivideByZero else
      let head = lbr cb mod capacity cb;
          tail = (nxt cb - 1) mod capacity cb
      in ok (if head = tail then (if isFull cb then 0 else capacity cb)
             else if tail < head then head - tail
             else capacity cb - tail + head))"

definition IsEmpty :: "recvBuf \<Rightarrow> bool go" where
  "IsEmpty cb =
     (if capacity cb = 0 then panic DivideByZero else
      let head = lbr cb mod capacity cb;
          tail = nxt cb mod capacity cb - 1
      in ok (head = tail \<and> \<not> isFull cb))"

definition IsFull :: "recvBuf \<Rightarrow> bool" where
  "IsFull cb = isFull cb"

text \<open>\<open>None\<close> is the \<^verbatim>\<open>nil\<close> slice.\<close>

definition Bytes :: "recvBuf \<Rightarrow> bytes option go" where
  "Bytes cb =
     (if capacity cb = 0 then panic DivideByZero else
      let head = lbr cb mod capacity cb;
          tail = (nxt cb - 1) mod capacity cb;
          hd_n = unat (capacity cb - head)
      in if head = tail then
           (if isFull cb then
              (let buf = replicate (unat (capacity cb)) 0
               in bindG (go_slice (buff cb) (unat head) (length (buff cb))) (\<lambda>src.
                  bindG (go_copy buf 0 (length buf) src) (\<lambda>buf1.
                  bindG (go_slice (buff cb) 0 (unat tail)) (\<lambda>src2.
                  bindG (go_copy buf1 hd_n (length buf1) src2) (\<lambda>buf2. ok (Some buf2))))))
            else ok None)
         else if tail > head then
           (let buf = replicate (unat (tail - head)) 0
            in bindG (go_slice (buff cb) (unat head) (unat tail)) (\<lambda>src.
               bindG (go_copy buf 0 (length buf) src) (\<lambda>buf1. ok (Some buf1))))
         else
           (let n = capacity cb - head + tail;
                buf = replicate (unat n) 0
            in if head + n < capacity cb then
                 bindG (go_slice (buff cb) (unat head) (unat (head + n))) (\<lambda>src.
                 bindG (go_copy buf 0 (length buf) src) (\<lambda>buf1. ok (Some buf1)))
               else
                 (let tailBytes = n - (capacity cb - head)
                  in bindG (go_slice (buff cb) (unat head) (unat (capacity cb))) (\<lambda>src.
                     bindG (go_copy buf 0 (length buf) src) (\<lambda>buf1.
                     bindG (go_slice (buff cb) 0 (unat tailBytes)) (\<lambda>src2.
                     bindG (go_copy buf1 hd_n (length buf1) src2) (\<lambda>buf2. ok (Some buf2))))))))"

definition NextExpectedByte :: "recvBuf \<Rightarrow> u32" where
  "NextExpectedByte cb = nxt cb"

definition LastByteRead :: "recvBuf \<Rightarrow> u32" where
  "LastByteRead cb = lbr cb"

definition AdvanceNxt :: "recvBuf \<Rightarrow> u32 \<Rightarrow> bool \<Rightarrow> recvBuf" where
  "AdvanceNxt cb seq isFin = cb\<lparr>finRecvd := isFin, nxt := seq + 1\<rparr>"

definition SetLBR :: "recvBuf \<Rightarrow> u32 \<Rightarrow> recvBuf" where
  "SetLBR cb seq = cb\<lparr>lbr := seq\<rparr>"


section \<open>Abstraction and invariant\<close>

text \<open>
  The buffer stands for the list of the bytes that arrived and were not read: \<open>unread\<close> of them,
  found around the array from index \<open>lbr mod capacity\<close> on. The invariant says that the sequence
  numbers have not wrapped between \<open>lbr\<close> and \<open>nxt\<close>, that at most a buffer's worth is unread,
  that \<open>isFull\<close> tells the two cases of \<open>head = tail\<close> apart, and that there are no more wake-up
  tokens than unread bytes.
\<close>

definition unread :: "recvBuf \<Rightarrow> nat" where
  "unread cb = unat (nxt cb - 1) - unat (lbr cb)"

definition contents :: "recvBuf \<Rightarrow> bytes" where
  "contents cb = ring (buff cb) (unat (lbr cb)) (unread cb)"

definition rb_wf :: "recvBuf \<Rightarrow> bool" where
  "rb_wf cb \<longleftrightarrow>
     0 < unat (capacity cb) \<and> unat (capacity cb) < 2 ^ 31 \<and>
     length (buff cb) = unat (capacity cb) \<and>
     unat (lbr cb) \<le> unat (nxt cb - 1) \<and>
     unread cb \<le> unat (capacity cb) \<and>
     (isFull cb \<longleftrightarrow> unread cb = unat (capacity cb)) \<and>
     canRead cb \<le> unread cb"

text \<open>How many more bytes fit before \<open>nxt - 1\<close> reaches the largest 32-bit number.\<close>

definition rb_limit :: "recvBuf \<Rightarrow> nat" where
  "rb_limit cb = 2 ^ 32 - unat (nxt cb - 1)"

definition free :: "recvBuf \<Rightarrow> nat" where
  "free cb = unat (capacity cb) - unread cb"

lemma length_contents [simp]: "length (contents cb) = unread cb"
  by (simp add: contents_def)

lemma contents_Nil_iff: "contents cb = [] \<longleftrightarrow> unread cb = 0"
  by (metis length_0_conv length_contents)

lemma rb_wf_capacity: "rb_wf cb \<Longrightarrow> capacity cb \<noteq> 0"
  by (auto simp: rb_wf_def)

text \<open>
  The picture every operation works from: with \<open>h\<close> the index of the first unread byte, \<open>n\<close> the
  number of unread bytes and \<open>L\<close> the capacity, \<open>tail\<close> is \<open>h + n\<close> taken around the array.
\<close>

definition rb_pic :: "recvBuf \<Rightarrow> nat \<Rightarrow> nat \<Rightarrow> nat \<Rightarrow> bool" where
  "rb_pic cb L h n \<longleftrightarrow>
     L = unat (capacity cb) \<and> 0 < L \<and> L < 2 ^ 31 \<and> length (buff cb) = L \<and>
     unat (lbr cb mod capacity cb) = h \<and> h < L \<and>
     n = unread cb \<and> n \<le> L \<and> unat (nxt cb - 1) = unat (lbr cb) + n \<and>
     unat ((nxt cb - 1) mod capacity cb) = (if h + n < L then h + n else h + n - L) \<and>
     (isFull cb \<longleftrightarrow> n = L) \<and> canRead cb \<le> n \<and>
     contents cb = ring (buff cb) h n"

lemma rb_picE:
  assumes "rb_wf cb"
  obtains L h n where "rb_pic cb L h n"
proof -
  let ?L = "unat (capacity cb)" and ?h = "unat (lbr cb mod capacity cb)" and ?n = "unread cb"
  have wf: "0 < ?L" "?L < 2 ^ 31" "length (buff cb) = ?L" "?n \<le> ?L"
      "unat (nxt cb - 1) = unat (lbr cb) + ?n" "isFull cb \<longleftrightarrow> ?n = ?L" "canRead cb \<le> ?n"
    using assms by (auto simp: rb_wf_def unread_def)
  have h: "?h = unat (lbr cb) mod ?L" "?h < ?L"
    using wf(1) by (simp_all add: unat_mod_u32)
  have "unat ((nxt cb - 1) mod capacity cb) = (?h + ?n) mod ?L"
    using wf(5) h(1) by (simp add: unat_mod_u32 mod_add_left_eq)
  also have "\<dots> = (if ?h + ?n < ?L then ?h + ?n else ?h + ?n - ?L)"
    using h(2) wf(4) by (rule mod_one_turn)
  finally have tail: "unat ((nxt cb - 1) mod capacity cb) = (if ?h + ?n < ?L then ?h + ?n else ?h + ?n - ?L)" .
  have "contents cb = ring (buff cb) ?h ?n"
    using ring_mod [of "buff cb" "unat (lbr cb)" ?n] wf(3) h(1) by (simp only: contents_def)
  then have "rb_pic cb ?L ?h ?n"
    unfolding rb_pic_def using wf h(2) tail by blast
  then show ?thesis by (rule that)
qed

lemmas word_to_nat = word_less_nat_alt word_le_nat_alt word_unat_eq_iff

section \<open>What the observers return\<close>

lemma WindowSize_unread:
  assumes "rb_wf cb"
  shows "WindowSize cb = ok (of_nat (unread cb))"
proof -
  obtain L h n where pic: "rb_pic cb L h n" using assms by (rule rb_picE)
  have cap: "capacity cb \<noteq> 0" using assms by (rule rb_wf_capacity)
  let ?head = "lbr cb mod capacity cb" and ?tail = "(nxt cb - 1) mod capacity cb"
  have u: "unat ?head = h" "unat ?tail = (if h + n < L then h + n else h + n - L)"
      "unat (capacity cb) = L" "h < L" "n \<le> L" "L < 2 ^ 31" "isFull cb \<longleftrightarrow> n = L" "n = unread cb"
    using pic by (auto simp: rb_pic_def)
  have diff: "unat (capacity cb - ?head) = L - h"
    using u by (simp add: unat_sub_small word_le_nat_alt)
  have "unat (if ?head = ?tail then (if isFull cb then capacity cb else 0)
             else if ?head > ?tail then capacity cb - ?head + ?tail
             else ?tail - ?head) = n"
    using u diff by (auto simp: word_to_nat unat_add_small unat_sub_small split: if_splits)
  then show ?thesis using cap using u(8) by (simp add: WindowSize_def Let_def unat_is_of_nat)
qed


lemma FreeSpace_free:
  assumes "rb_wf cb"
  shows "FreeSpace cb = ok (of_nat (free cb))"
proof -
  obtain L h n where pic: "rb_pic cb L h n" using assms by (rule rb_picE)
  have cap: "capacity cb \<noteq> 0" using assms by (rule rb_wf_capacity)
  let ?head = "lbr cb mod capacity cb" and ?tail = "(nxt cb - 1) mod capacity cb"
  have u: "unat ?head = h" "unat ?tail = (if h + n < L then h + n else h + n - L)"
      "unat (capacity cb) = L" "h < L" "n \<le> L" "L < 2 ^ 31" "isFull cb \<longleftrightarrow> n = L" "free cb = L - n"
    using pic by (auto simp: rb_pic_def free_def)
  have diff: "unat (capacity cb - ?tail) = L - unat ?tail"
    using u by (auto simp: unat_sub_small word_le_nat_alt)
  have "unat (if ?head = ?tail then (if isFull cb then 0 else capacity cb)
             else if ?tail < ?head then ?head - ?tail
             else capacity cb - ?tail + ?head) = L - n"
    using u diff by (auto simp: word_to_nat unat_add_small unat_sub_small split: if_splits)
  then show ?thesis using cap u(8) by (simp add: FreeSpace_def Let_def unat_is_of_nat)
qed

text \<open>
  \<^verbatim>\<open>IsEmpty\<close> computes its tail as \<^verbatim>\<open>nxt%capacity - 1\<close>, unlike every other operation: exactly when
  \<^verbatim>\<open>nxt\<close> is a multiple of the capacity, an empty buffer is reported as not empty.
\<close>

lemma IsEmpty_exact:
  assumes "rb_wf cb"
  shows "IsEmpty cb = ok (contents cb = [] \<and> unat (nxt cb) mod unat (capacity cb) \<noteq> 0)"
proof -
  obtain L h n where pic: "rb_pic cb L h n" using assms by (rule rb_picE)
  have cap: "capacity cb \<noteq> 0" using assms by (rule rb_wf_capacity)
  have u: "unat (lbr cb mod capacity cb) = h" "unat (capacity cb) = L" "h < L" "n \<le> L" "0 < L"
      "unat ((nxt cb - 1) mod capacity cb) = (if h + n < L then h + n else h + n - L)"
      "L < 2 ^ 31" "isFull cb \<longleftrightarrow> n = L" "n = unread cb"
    using pic by (auto simp: rb_pic_def)
  let ?q = "unat (nxt cb) mod L"
  have q: "unat (nxt cb mod capacity cb) = ?q"
    using u by (simp add: unat_mod_u32)
  have empty: "contents cb = [] \<longleftrightarrow> n = 0"
    using u(9) by (simp add: contents_Nil_iff)
  have "lbr cb mod capacity cb = nxt cb mod capacity cb - 1 \<and> \<not> isFull cb \<longleftrightarrow> n = 0 \<and> ?q \<noteq> 0"
  proof (cases "?q = 0")
    case True
    then have "nxt cb mod capacity cb = 0" using q by (simp add: word_unat_eq_iff)
    then have "unat (nxt cb mod capacity cb - 1) = 2 ^ 32 - 1"
      by (simp add: unsigned_minus_1_eq_mask mask_eq_exp_minus_1)
    moreover have "unat (lbr cb mod capacity cb) < 2 ^ 31" using u(1,3,7) by simp
    ultimately have "lbr cb mod capacity cb \<noteq> nxt cb mod capacity cb - 1" by auto
    then show ?thesis using True by simp
  next
    case False
    then have nz: "nxt cb \<noteq> 0" "nxt cb mod capacity cb \<noteq> 0"
      using q by (metis mod_0 unat_0)+
    have "unat (nxt cb - 1) = unat (nxt cb) - 1"
      using nz(1) by (simp add: unat_minus_one)
    then have "unat ((nxt cb - 1) mod capacity cb) = (unat (nxt cb) - 1) mod L"
      using u(2) by (simp add: unat_mod_u32)
    also have "\<dots> = ?q - 1"
      using False by (metis (no_types) mod_Suc diff_Suc_1 Suc_pred mod_0 not_gr_zero)
    also have "\<dots> = unat (nxt cb mod capacity cb - 1)"
      using q nz(2) by (simp add: unat_minus_one)
    finally have tail: "nxt cb mod capacity cb - 1 = (nxt cb - 1) mod capacity cb"
      by (simp add: word_unat_eq_iff)
    show ?thesis
      unfolding tail using False u by (auto simp: word_unat_eq_iff split: if_splits)
  qed
  then show ?thesis using cap u(2) empty by (simp add: IsEmpty_def Let_def)
qed

section \<open>Reading\<close>

text \<open>The bytes \<^verbatim>\<open>Read_copy\<close> delivers are the front of the unread bytes.\<close>

lemma rb_pic_slices:
  assumes "rb_pic cb L h n" and "k \<le> n"
  shows "take k (contents cb) = (if h + k \<le> L then take k (drop h (buff cb))
           else drop h (buff cb) @ take (h + k - L) (buff cb))"
  using assms ring_straight [of h "buff cb" k] ring_wrapped [of h "buff cb" k]
  by (auto simp: rb_pic_def take_ring diff_diff_right add.commute)

lemma Read_copy_contents:
  assumes wf: "rb_wf cb" and ne: "contents cb \<noteq> []" and len: "length buf < 2 ^ 31" and "buf \<noteq> []"
  defines "k \<equiv> min (length buf) (unread cb)"
  shows "Read_copy cb buf =
           ok (of_nat k, None, take k (contents cb) @ drop k buf,
               cb\<lparr>isFull := False, lbr := lbr cb + of_nat k, canRead := 0\<rparr>)"
proof -
  obtain L h n where pic: "rb_pic cb L h n" using wf by (rule rb_picE)
  let ?head = "lbr cb mod capacity cb" and ?tail = "(nxt cb - 1) mod capacity cb"
  have u: "unat ?head = h" "unat ?tail = (if h + n < L then h + n else h + n - L)"
      "unat (capacity cb) = L" "h < L" "n \<le> L" "L < 2 ^ 31" "n = unread cb" "length (buff cb) = L"
    using pic by (auto simp: rb_pic_def)
  have n: "0 < n" using ne u(7) by (simp add: contents_Nil_iff)
  let ?want = "of_nat (length buf) :: u32"
  have want: "unat ?want = length buf" using len by (simp add: unat_of_nat_small)
  have k: "k = min (length buf) n" "k \<le> length buf" "k \<le> n" using u(7) by (simp_all add: k_def)
  show ?thesis
  proof (cases "h + n < L")
    case True
    have gt: "?tail > ?head" using True u n by (simp add: word_less_nat_alt)
    let ?b = "if ?tail - ?head > ?want then ?want else ?tail - ?head"
    have "unat (?tail - ?head) = n" using gt u True by (simp add: unat_sub_small)
    then have b: "unat ?b = k" using want k(1) by (auto simp: word_less_nat_alt min_def)
    then have bk: "?b = of_nat k" by (rule unat_is_of_nat)
    have hb: "unat (?head + ?b) = h + k" using b u True k(3) by (simp add: unat_add_small)
    have tk: "take k (contents cb) = take k (drop h (buff cb))"
      using rb_pic_slices [OF pic k(3)] True k(3) by simp
    have lk: "length (take k (drop h (buff cb))) = k" using u True k(3) by simp
    show ?thesis
      unfolding Read_copy_def Let_def if_P [OF gt] bk
      using u(1,3,8) True k(2,3) lk hb bk by (simp add: tk go_copy_ok)
  next
    case False
    have ngt: "\<not> ?tail > ?head" using False u by (simp add: word_less_nat_alt)
    let ?a = "capacity cb - ?head + ?tail"
    let ?b = "if ?a > ?want then ?want else ?a"
    have hk: "unat (capacity cb - ?head) = L - h" using u by (simp add: unat_sub_small word_le_nat_alt)
    have "unat ?a = n" using hk u False by (simp add: unat_add_small)
    then have b: "unat ?b = k" using want k(1) by (auto simp: word_less_nat_alt min_def)
    then have bk: "?b = of_nat k" by (rule unat_is_of_nat)
    have hb: "unat (?head + ?b) = h + k" using b u k(3) by (simp add: unat_add_small)
    show ?thesis
    proof (cases "h + k \<le> L")
      case True
      have le: "?head + of_nat k \<le> capacity cb" using True hb bk u by (simp add: word_le_nat_alt)
      have tk: "take k (contents cb) = take k (drop h (buff cb))"
        using rb_pic_slices [OF pic k(3)] True by simp
      have lk: "length (take k (drop h (buff cb))) = k" using u True by simp
      show ?thesis
        unfolding Read_copy_def Let_def if_not_P [OF ngt] bk if_P [OF le]
        using u(1,3,8) True k(2,3) lk hb bk by (simp add: tk go_copy_ok)
    next
      case False2: False
      have gt: "\<not> ?head + of_nat k \<le> capacity cb" using False2 hb bk u by (simp add: word_le_nat_alt)
      have em: "unat ((?head + of_nat k) mod capacity cb) = h + k - L"
        using hb bk u False2 k(3) by (simp add: unat_mod_u32 mod_if)
      have tk: "take k (contents cb) = drop h (buff cb) @ take (h + k - L) (buff cb)"
        using rb_pic_slices [OF pic k(3)] False2 by simp
      show ?thesis
        unfolding Read_copy_def Let_def if_not_P [OF ngt] bk if_not_P [OF gt]
        using u(1,3,4,5,8) False2 k(2,3) em hk by (simp add: tk go_copy_ok)
    qed
  qed
qed


text \<open>The buffer after \<open>k\<close> bytes were read.\<close>

definition after_read :: "recvBuf \<Rightarrow> nat \<Rightarrow> recvBuf" where
  "after_read cb k = cb\<lparr>isFull := False, lbr := lbr cb + of_nat k, canRead := 0\<rparr>"

lemma after_read_wf:
  assumes wf: "rb_wf cb" and k: "k \<le> unread cb" "0 < k"
  shows "rb_wf (after_read cb k)" and "contents (after_read cb k) = drop k (contents cb)"
    and "unread (after_read cb k) = unread cb - k" and "free (after_read cb k) = free cb + k"
    and "rb_limit (after_read cb k) = rb_limit cb"
proof -
  have f: "unat (nxt cb - 1) = unat (lbr cb) + unread cb" "unread cb \<le> unat (capacity cb)"
      "length (buff cb) = unat (capacity cb)"
    using wf by (auto simp: rb_wf_def unread_def)
  have "unat (nxt cb - 1) < 2 ^ 32" by simp
  then have lk: "unat (lbr cb + of_nat k) = unat (lbr cb) + k"
    using k f(1) by (simp add: unat_add_small unat_of_nat_small)
  show un: "unread (after_read cb k) = unread cb - k"
    using f(1) lk by (simp add: unread_def after_read_def)
  have fs: "capacity (after_read cb k) = capacity cb" "buff (after_read cb k) = buff cb"
      "lbr (after_read cb k) = lbr cb + of_nat k" "nxt (after_read cb k) = nxt cb"
      "\<not> isFull (after_read cb k)" "canRead (after_read cb k) = 0"
    by (simp_all add: after_read_def)
  show "rb_wf (after_read cb k)"
    using wf k f un lk by (auto simp: rb_wf_def fs)
  show "contents (after_read cb k) = drop k (contents cb)"
    using k un lk by (simp add: contents_def drop_ring) (simp add: after_read_def)
  show "free (after_read cb k) = free cb + k"
    using k f un by (simp add: free_def) (simp add: after_read_def)
  show "rb_limit (after_read cb k) = rb_limit cb"
    by (simp add: rb_limit_def after_read_def)
qed

lemma Read_contents:
  assumes "rb_wf cb" and "contents cb \<noteq> []" and "length buf < 2 ^ 31" and "buf \<noteq> []"
  defines "k \<equiv> min (length buf) (unread cb)"
  shows "Read cb buf = ok (ReadDone (of_nat k) None (take k (contents cb) @ drop k buf) (after_read cb k))"
proof -
  obtain L h n where pic: "rb_pic cb L h n" using assms(1) by (rule rb_picE)
  have u: "unat (lbr cb mod capacity cb) = h" "h < L" "n \<le> L" "isFull cb \<longleftrightarrow> n = L" "n = unread cb"
      "unat ((nxt cb - 1) mod capacity cb) = (if h + n < L then h + n else h + n - L)"
      "unat (nxt cb - 1) = unat (lbr cb) + n"
    using pic by (auto simp: rb_pic_def)
  have n: "0 < n" using assms(2) u(5) by (simp add: contents_Nil_iff)
  have "nxt cb - 1 \<noteq> lbr cb" using u(7) n by auto
  moreover have "\<not> ((nxt cb - 1) mod capacity cb = lbr cb mod capacity cb \<and> \<not> isFull cb)"
    using u n by (auto simp: word_unat_eq_iff split: if_splits)
  ultimately have "Read cb buf = bindG (Read_copy cb buf)
      (\<lambda>(n, e, buf', cb''). ok (ReadDone n e buf' cb''))"
    using assms(4) rb_wf_capacity [OF assms(1)] by (simp only: Read_def Let_def) auto
  then show ?thesis
    using Read_copy_contents [OF assms(1-4)] by (simp add: after_read_def k_def)
qed

lemma Read_empty:
  assumes "rb_wf cb" and "contents cb = []" and "buf \<noteq> []"
  shows "Read cb buf = ok (if finRecvd cb then ReadDone 0 (Some EOF) buf cb else ReadBlocks)"
proof -
  have un: "unread cb = 0" using assms(2) by (simp add: contents_Nil_iff)
  have eq: "nxt cb - 1 = lbr cb"
    using assms(1) un by (auto simp: rb_wf_def unread_def word_unat_eq_iff)
  have "canRead cb = 0" "\<not> isFull cb" using assms(1) un by (auto simp: rb_wf_def)
  then show ?thesis
    using assms(3) eq rb_wf_capacity [OF assms(1)] by (simp add: Read_def)
qed

section \<open>Writing\<close>

definition after_write :: "recvBuf \<Rightarrow> bytes \<Rightarrow> recvBuf" where
  "after_write cb d =
     cb\<lparr>buff := ring_put (buff cb) (unat (nxt cb - 1)) d, nxt := nxt cb + of_nat (length d),
        canRead := canRead cb + 1, isFull := length d = free cb\<rparr>"

lemma after_write_wf:
  assumes wf: "rb_wf cb" and d: "length d \<le> free cb" "d \<noteq> []" and lim: "length d < rb_limit cb"
  shows "unread (after_write cb d) = unread cb + length d" and "rb_wf (after_write cb d)"
    and "contents (after_write cb d) = contents cb @ d"
    and "free (after_write cb d) = free cb - length d"
    and "rb_limit (after_write cb d) = rb_limit cb - length d"
    and "nxt (after_write cb d) - 1 - lbr cb = of_nat (unread cb + length d)"
proof -
  let ?m = "length d"
  have f: "unat (nxt cb - 1) = unat (lbr cb) + unread cb" "unread cb \<le> unat (capacity cb)"
      "length (buff cb) = unat (capacity cb)" "0 < unat (capacity cb)" "?m < 2 ^ 32"
      "unat (nxt cb - 1) + ?m < 2 ^ 32" "unread cb + ?m \<le> unat (capacity cb)" "0 < ?m"
    using wf d lim by (auto simp: rb_wf_def unread_def rb_limit_def free_def)
  have "unat ((nxt cb - 1) + of_nat ?m) = unat (nxt cb - 1) + ?m"
    using f(5,6) by (subst unat_add_small) (simp_all only: unat_of_nat_small)
  moreover have "nxt (after_write cb d) - 1 = (nxt cb - 1) + of_nat ?m"
    by (simp add: after_write_def)
  ultimately have nx: "unat (nxt (after_write cb d) - 1) = unat (nxt cb - 1) + ?m"
    by (simp only:)
  have fs: "capacity (after_write cb d) = capacity cb" "lbr (after_write cb d) = lbr cb"
      "buff (after_write cb d) = ring_put (buff cb) (unat (lbr cb) + unread cb) d"
      "isFull (after_write cb d) \<longleftrightarrow> ?m = free cb" "canRead (after_write cb d) = canRead cb + 1"
    using f(1) by (simp_all add: after_write_def)
  show un: "unread (after_write cb d) = unread cb + ?m"
    unfolding unread_def [of "after_write cb d"] nx fs(2) using f(1) by linarith
  have cr: "canRead cb \<le> unread cb" "unat (capacity cb) < 2 ^ 31" using wf by (simp_all add: rb_wf_def)
  have full: "?m = free cb \<longleftrightarrow> unread cb + ?m = unat (capacity cb)"
    using f(2,7) by (auto simp: free_def)
  show "rb_wf (after_write cb d)"
    unfolding rb_wf_def fs un full length_ring_put nx using f cr by linarith
  have "ring (ring_put (buff cb) (unat (lbr cb) + unread cb) d) (unat (lbr cb)) (unread cb + ?m)
          = contents cb @ d"
    unfolding contents_def using f by (intro ring_put_append) auto
  then show "contents (after_write cb d) = contents cb @ d"
    unfolding contents_def [of "after_write cb d"] fs un .
  show "free (after_write cb d) = free cb - ?m"
    unfolding free_def fs un by simp
  show "rb_limit (after_write cb d) = rb_limit cb - ?m"
    unfolding rb_limit_def nx by simp
  have "unat (nxt (after_write cb d) - 1 - lbr cb) = unread cb + ?m"
    using nx f(1) unat_sub_small [of "lbr cb" "nxt (after_write cb d) - 1"]
    by (simp only: word_le_nat_alt)
  then show "nxt (after_write cb d) - 1 - lbr cb = of_nat (unread cb + ?m)"
    by (rule unat_is_of_nat)
qed

lemma Write_full:
  assumes "rb_wf cb" and "free cb = 0" and "d \<noteq> []"
  shows "Write cb d = ok (0, Some BufferFull, cb)"
  using assms by (auto simp: Write_def Let_def rb_wf_def free_def)

text \<open>The copy of \<^verbatim>\<open>Write\<close>, in one piece or in two, is \<open>ring_put\<close>.\<close>

lemma Write_copy:
  assumes t: "t < length b" and d: "length d \<le> length b"
  shows "t + length d \<le> length b \<Longrightarrow> go_copy b t (length b) d = ok (ring_put b t d)"
    and "length b < t + length d \<Longrightarrow>
      bindG (go_copy b t (length b) (take (length b - t) d))
        (\<lambda>b1. go_copy b1 0 (length b1) (drop (length b - t) d)) = ok (ring_put b t d)"
proof -
  show "go_copy b t (length b) d = ok (ring_put b t d)" if "t + length d \<le> length b"
    using that t ring_put_straight [of t b d] by (simp add: go_copy_ok)
  assume w: "length b < t + length d"
  then have "min (length b - t) (length d) = length b - t" by simp
  then have "go_copy b t (length b) (take (length b - t) d) = ok (take t b @ take (length b - t) d)"
    using t by (simp add: go_copy_ok)
  then show "bindG (go_copy b t (length b) (take (length b - t) d))
        (\<lambda>b1. go_copy b1 0 (length b1) (drop (length b - t) d)) = ok (ring_put b t d)"
    using t d w ring_put_wrapped [of t b d] by (simp add: go_copy_ok)
qed


text \<open>The two-part copy of \<^verbatim>\<open>Write\<close> puts the data into the ring at its tail.\<close>

lemma Write_ring:
  assumes pic: "rb_pic cb L h n" and fits: "length d \<le> L - n"
  defines "head \<equiv> lbr cb mod capacity cb" and "tail \<equiv> (nxt cb - 1) mod capacity cb"
  shows "(if tail \<ge> head \<and> \<not> capacity cb - tail \<ge> of_nat (length d) then
            bindG (go_slice d 0 (unat (capacity cb - tail))) (\<lambda>src.
            bindG (go_copy (buff cb) (unat tail) (length (buff cb)) src) (\<lambda>b1.
            bindG (go_slice d (unat (capacity cb - tail)) (length d)) (\<lambda>src2.
            go_copy b1 0 (length b1) src2)))
          else go_copy (buff cb) (unat tail) (length (buff cb)) d) = ok (ring_put (buff cb) (unat (nxt cb - 1)) d)"
proof -
  have u: "unat head = h" "unat tail = (if h + n < L then h + n else h + n - L)"
      "unat (capacity cb) = L" "h < L" "n \<le> L" "L < 2 ^ 31" "length (buff cb) = L"
    using pic by (auto simp: rb_pic_def head_def tail_def)
  have ct: "unat (capacity cb - tail) = L - unat tail" using u by (auto simp: unat_sub_small word_le_nat_alt)
  have tm: "unat tail = unat (nxt cb - 1) mod length (buff cb)" using u(3,7) by (simp add: unat_mod_u32 tail_def)
  have tL: "unat tail < length (buff cb)" using u by auto
  have dL: "length d \<le> length (buff cb)" using fits u(7) by simp
  have wn: "unat (of_nat (length d) :: u32) = length d" using fits u(6) by (simp add: unat_of_nat_small)
  show ?thesis
  proof (cases "unat tail + length d \<le> L")
    case True
    then have "capacity cb - tail \<ge> of_nat (length d)" using ct wn by (simp add: word_le_nat_alt)
    then show ?thesis using Write_copy(1) [OF tL dL] True u(7) ring_put_mod [of "buff cb" "unat (nxt cb - 1)" d] tm by simp
  next
    case False
    have "h + n < L"
    proof (rule ccontr)
      assume "\<not> h + n < L"
      then have "unat tail = h + n - L" using u(2) by simp
      then show False using False u(4,5) fits by linarith
    qed
    then have c: "tail \<ge> head \<and> \<not> capacity cb - tail \<ge> of_nat (length d)"
      using False ct wn u(1,2) by (simp add: word_le_nat_alt)
    have k: "unat (capacity cb - tail) = length (buff cb) - unat tail" "length (buff cb) - unat tail \<le> length d"
      using False ct u(7) by auto
    show ?thesis
      using Write_copy(2) [OF tL dL] False u(7) k ring_put_mod [of "buff cb" "unat (nxt cb - 1)" d] tm unfolding if_P [OF c] by simp
  qed
qed

text \<open>After a write the buffer counts as full exactly when the write filled it.\<close>

lemma Write_fills:
  assumes wf: "rb_wf cb" and d: "(d :: bytes) \<noteq> []" "length d \<le> free cb" "length d < rb_limit cb"
  shows "(nxt cb + of_nat (length (d :: bytes)) - 1 - lbr cb) mod capacity cb = 0 \<longleftrightarrow> length d = free cb"
proof -
  obtain L h n where pic: "rb_pic cb L h n" using wf by (rule rb_picE)
  have u: "unat (capacity cb) = L" "n \<le> L" "L < 2 ^ 31" "n = unread cb" "free cb = L - n" using pic by (auto simp: rb_pic_def free_def)
  have len: "0 < length d" using d(1) by simp
  have nx: "nxt (after_write cb d) - 1 - lbr cb = of_nat (n + length d)" using after_write_wf(6) [OF wf d(2,1,3)] u(4) by simp
  have "n + length d < 2 ^ 32" using u d(2) by simp
  then have "unat ((nxt (after_write cb d) - 1 - lbr cb) mod capacity cb) = (n + length d) mod L"
    unfolding nx unat_mod_u32 u(1) by (simp only: unat_of_nat_small)
  then have "unat ((nxt cb + of_nat (length d) - 1 - lbr cb) mod capacity cb) = (n + length d) mod L"
    by (simp add: after_write_def)
  moreover have "(n + length d) mod L = 0 \<longleftrightarrow> n + length d = L" using u d(2) len by (cases "n + length d = L") auto
  ultimately show ?thesis using u d(2) len by (auto simp: word_unat_eq_iff)
qed

lemma Write_room:
  assumes wf: "rb_wf cb" and room: "0 < free cb" and ne: "d0 \<noteq> []"
    and lim: "min (length d0) (free cb) < rb_limit cb"
  defines "d \<equiv> take (free cb) d0"
  shows "Write cb d0 = ok (of_nat (length d), None, after_write cb d)"
proof -
  obtain L h n where pic: "rb_pic cb L h n" using wf by (rule rb_picE)
  let ?head = "lbr cb mod capacity cb" and ?tail = "(nxt cb - 1) mod capacity cb"
  have u: "unat ?head = h" "unat ?tail = (if h + n < L then h + n else h + n - L)"
      "unat (capacity cb) = L" "h < L" "n \<le> L" "L < 2 ^ 31" "isFull cb \<longleftrightarrow> n = L" "canRead cb \<le> n" "free cb = L - n"
    using pic by (auto simp: rb_pic_def free_def)
  have n: "n < L" "\<not> isFull cb" "canRead cb < L" using room u by auto
  have d: "d \<noteq> []" "length d \<le> free cb" "length d < rb_limit cb" using ne room lim by (auto simp: d_def)
  let ?avail = "if ?tail \<ge> ?head then capacity cb - ?tail + ?head else ?head - ?tail"
  have ct: "unat (capacity cb - ?tail) = L - unat ?tail" using u by (auto simp: unat_sub_small word_le_nat_alt)
  have "unat ?avail = L - n" using u n ct by (auto simp: word_to_nat unat_add_small unat_sub_small split: if_splits)
  then have cut: "(if length d0 > unat ?avail then take (unat ?avail) d0 else d0) = d" using u(9) by (simp add: d_def)
  note copy = Write_ring [OF pic d(2) [unfolded u(9)]] and full = Write_fills [OF wf d]
  show ?thesis
    unfolding Write_def Let_def cut copy using ne n u(3) rb_wf_capacity [OF wf] full by (simp add: after_write_def)
qed


section \<open>The buffer as a byte queue\<close>

lemma NewRecvBuf_wf:
  assumes "0 < unat c" and "unat c < 2 ^ 31"
  shows "rb_wf (NewRecvBuf c start)" and "contents (NewRecvBuf c start) = []"
    and "free (NewRecvBuf c start) = unat c"
    and "rb_limit (NewRecvBuf c start) = 2 ^ 32 - unat start"
  using assms
  by (auto simp: rb_wf_def NewRecvBuf_def unread_def contents_def free_def rb_limit_def)

definition rb_put :: "recvBuf \<Rightarrow> bytes \<Rightarrow> (nat \<times> recvBuf) go" where
  "rb_put cb d = bindG (Write cb d) (\<lambda>(n, e, cb'). ok (unat n, cb'))"

text \<open>A read that finds nothing (blocked, or end of file) delivers nothing.\<close>

definition rb_get :: "recvBuf \<Rightarrow> nat \<Rightarrow> (bytes \<times> recvBuf) go" where
  "rb_get cb k =
     bindG (Read cb (replicate k 0)) (\<lambda>r. ok (case r of
         ReadDone n e buf cb' \<Rightarrow> (take (unat n) buf, cb')
       | ReadBlocks \<Rightarrow> ([], cb)))"

lemma rb_put_queue:
  assumes wf: "rb_wf cb" and lim: "length d < rb_limit cb"
  shows "\<exists>cb'. rb_put cb d = ok (min (length d) (free cb), cb') \<and> rb_wf cb' \<and>
           contents cb' = contents cb @ take (free cb) d \<and>
           free cb' = free cb - min (length d) (free cb) \<and>
           rb_limit cb' = rb_limit cb - min (length d) (free cb)"
proof (cases "d = [] \<or> free cb = 0")
  case True
  then have "rb_put cb d = ok (0, cb)"
    using Write_full [OF wf, of d] by (cases "d = []") (auto simp: rb_put_def Write_def)
  then show ?thesis using True wf by auto
next
  case False
  let ?d = "take (free cb) d"
  have l: "length ?d = min (length d) (free cb)" by (simp add: min.commute)
  have "Write cb d = ok (of_nat (length ?d), None, after_write cb ?d)"
    using False lim wf by (intro Write_room) auto
  moreover have "unat (of_nat (length ?d) :: u32) = length ?d"
    using wf by (intro unat_of_nat_small) (auto simp: l free_def rb_wf_def min_def)
  ultimately have "rb_put cb d = ok (length ?d, after_write cb ?d)"
    by (simp add: rb_put_def del: length_take)
  then show ?thesis
    using after_write_wf [OF wf, of ?d] False lim l by auto
qed

lemma rb_get_queue:
  assumes wf: "rb_wf cb" and k: "k < 2 ^ 31"
  shows "\<exists>cb'. rb_get cb k = ok (take k (contents cb), cb') \<and> rb_wf cb' \<and>
           contents cb' = drop k (contents cb) \<and>
           free cb' = free cb + min k (length (contents cb)) \<and>
           rb_limit cb' = rb_limit cb"
proof (cases "k = 0 \<or> contents cb = []")
  case True
  then have "rb_get cb k = ok ([], cb)"
    using Read_empty [OF wf, of "replicate k 0"] by (cases "k = 0") (auto simp: rb_get_def Read_def)
  then show ?thesis using True wf by (auto simp: contents_Nil_iff)
next
  case False
  let ?m = "min k (unread cb)"
  have un: "unread cb \<noteq> 0" using False by (simp add: contents_Nil_iff)
  have "unat (of_nat ?m :: u32) = ?m" using k by (intro unat_of_nat_small) (simp add: min_def)
  moreover have "take ?m (contents cb) = take k (contents cb)"
    by (simp add: min_def)
  moreover have "length (take k (contents cb)) = ?m" by (simp add: min.commute)
  ultimately have "rb_get cb k = ok (take k (contents cb), after_read cb ?m)"
    using Read_contents [OF wf, of "replicate k 0"] False k by (simp add: rb_get_def)
  moreover have "drop ?m (contents cb) = drop k (contents cb)"
    by (simp add: min_def)
  ultimately show ?thesis
    using after_read_wf [OF wf, of ?m] un False by (auto simp: min_def)
qed

interpretation recvq: byte_fifo rb_wf contents free rb_limit rb_put rb_get
  by unfold_locales (fact rb_put_queue, fact rb_get_queue)


lemma Bytes_contents:
  assumes wf: "rb_wf cb"
  shows "Bytes cb = ok (if contents cb = [] then None else Some (contents cb))"
proof -
  obtain L h n where pic: "rb_pic cb L h n" using wf by (rule rb_picE)
  have cap: "capacity cb \<noteq> 0" using wf by (rule rb_wf_capacity)
  let ?head = "lbr cb mod capacity cb" and ?tail = "(nxt cb - 1) mod capacity cb"
  have u: "unat ?head = h" "unat ?tail = (if h + n < L then h + n else h + n - L)"
      "unat (capacity cb) = L" "h < L" "n \<le> L" "L < 2 ^ 31" "n = unread cb" "length (buff cb) = L"
      "isFull cb \<longleftrightarrow> n = L" "contents cb = ring (buff cb) h n"
    using pic by (auto simp: rb_pic_def)
  have hk: "unat (capacity cb - ?head) = L - h" using u by (simp add: unat_sub_small word_le_nat_alt)
  have nil: "contents cb = [] \<longleftrightarrow> n = 0" using u(7) by (simp add: contents_Nil_iff)
  consider (empty) "n = 0" | (straight) "0 < n" "h + n < L" | (wrapped) "L \<le> h + n" "n < L" | (full) "n = L"
    using u(5) by linarith
  then show ?thesis
  proof cases
    case empty
    then have "?head = ?tail" "\<not> isFull cb" using u by (auto simp: word_unat_eq_iff)
    then show ?thesis using empty nil cap by (simp add: Bytes_def)
  next
    case straight
    then have gt: "?head \<noteq> ?tail" "?tail > ?head"
      using u by (auto simp: word_less_nat_alt word_unat_eq_iff)
    then have d: "unat (?tail - ?head) = n" using straight u by (simp add: unat_sub_small)
    have "contents cb = take n (drop h (buff cb))"
      unfolding u(10) using straight u by (intro ring_straight) auto
    then show ?thesis
      unfolding Bytes_def Let_def using gt d straight nil cap u(1,2,3,8) by (simp add: go_copy_ok)
  next
    case wrapped
    then have ngt: "?head \<noteq> ?tail" "\<not> ?tail > ?head"
      using u by (auto simp: word_less_nat_alt word_unat_eq_iff)
    let ?n = "capacity cb - ?head + ?tail"
    have n: "unat ?n = n" using hk wrapped u by (simp add: unat_add_small)
    have "unat (?head + ?n) = h + n" using n u wrapped by (simp add: unat_add_small)
    then have nlt: "\<not> ?head + ?n < capacity cb" using u(3) wrapped by (simp add: word_less_nat_alt)
    have "capacity cb - ?head \<le> ?n" using hk n wrapped by (simp add: word_le_nat_alt)
    then have tb: "unat (?n - (capacity cb - ?head)) = n - (L - h)"
      using hk n by (simp only: unat_sub_small)
    have "contents cb = drop h (buff cb) @ take (n - (L - h)) (buff cb)"
      unfolding u(10) using wrapped u(4,5,8) ring_wrapped [of h "buff cb" n] by simp
    then show ?thesis
      unfolding Bytes_def Let_def if_not_P [OF nlt] if_not_P [OF ngt(1)] if_not_P [OF ngt(2)] tb hk n
      using wrapped nil cap u(1,3,4,8) by (auto simp: go_copy_ok)
  next
    case full
    then have eq: "?head = ?tail" "isFull cb" using u by (auto simp: word_unat_eq_iff)
    then have "unat ?tail = h" using u(1) by simp
    moreover have "contents cb = drop h (buff cb) @ take h (buff cb)"
      unfolding u(10) using full u(4,5,8) ring_wrapped [of h "buff cb" n] by simp
    ultimately show ?thesis
      unfolding Bytes_def Let_def if_P [OF eq(1)] if_P [OF eq(2)] hk
      using full nil cap u(1,3,4,8) by (auto simp: go_copy_ok)
  qed
qed


section \<open>The end of the stream\<close>

text \<open>
  A FIN moves \<open>nxt\<close> one past itself and leaves the array, the flag \<open>isFull\<close> and the tokens alone.
  With at least two free bytes the result is again a well-formed buffer: it holds one byte more
  than the peer sent, whatever the array has at the FIN's place.
\<close>

lemma AdvanceNxt_fin_fields [simp]:
  "capacity (AdvanceNxt cb q f) = capacity cb" "buff (AdvanceNxt cb q f) = buff cb"
  "lbr (AdvanceNxt cb q f) = lbr cb" "isFull (AdvanceNxt cb q f) = isFull cb"
  "canRead (AdvanceNxt cb q f) = canRead cb" "nxt (AdvanceNxt cb q f) = q + 1"
  "finRecvd (AdvanceNxt cb q f) = f"
  by (simp_all add: AdvanceNxt_def)

lemma nxt_no_wrap:
  assumes "1 < rb_limit cb"
  shows "unat (nxt cb) = unat (nxt cb - 1) + 1"
proof -
  have "unat ((nxt cb - 1) + 1) = unat (nxt cb - 1) + unat (1 :: u32)"
    using assms by (intro unat_add_small) (simp add: rb_limit_def)
  then show ?thesis by simp
qed

lemma fin_with_room:
  assumes wf: "rb_wf cb" and room: "2 \<le> free cb" and lim: "1 < rb_limit cb"
  defines "cb' \<equiv> AdvanceNxt cb (nxt cb) True"
  shows "rb_wf cb'" and "\<exists>x. contents cb' = contents cb @ [x]"
proof -
  have nx: "unat (nxt cb' - 1) = unat (nxt cb - 1) + 1"
    using nxt_no_wrap [OF lim] by (simp add: cb'_def)
  have un: "unread cb' = unread cb + 1"
    using wf nx by (auto simp: unread_def rb_wf_def cb'_def)
  show "rb_wf cb'"
    using wf nx un room unfolding rb_wf_def free_def by (auto simp: cb'_def)
  have "contents cb' = ring (buff cb) (unat (lbr cb)) (unread cb + 1)"
    unfolding contents_def un by (simp add: cb'_def)
  also have "\<dots> = contents cb @ ring (buff cb) (unat (lbr cb) + unread cb) 1"
    by (simp only: ring_append contents_def)
  finally show "\<exists>x. contents cb' = contents cb @ [x]" by (simp add: ring_def)
qed

text \<open>
  With one free byte or none the reader loses the stream: the tail meets or passes the head while
  \<open>isFull\<close> says otherwise.
\<close>

lemma fin_last_free_byte:
  assumes wf: "rb_wf cb" and room: "free cb = 1" and lim: "1 < rb_limit cb" and tok: "canRead cb = 0"
    and ne: "buf \<noteq> []"
  shows "Read (AdvanceNxt cb (nxt cb) True) buf = ok ReadBlocks"
proof -
  obtain L h n where pic: "rb_pic cb L h n" using wf by (rule rb_picE)
  have u: "unat (lbr cb mod capacity cb) = h" "unat (capacity cb) = L" "h < L" "n + 1 = L" "\<not> isFull cb"
      "unat (nxt cb - 1) = unat (lbr cb) + n"
    using pic room by (auto simp: rb_pic_def free_def)
  have nx: "unat (nxt cb) = unat (lbr cb) + L" using nxt_no_wrap [OF lim] u by simp
  then have "unat (nxt cb mod capacity cb) = unat (lbr cb mod capacity cb)"
    using u(2) by (simp add: unat_mod_u32)
  then have "nxt cb mod capacity cb = lbr cb mod capacity cb" by (simp add: word_unat_eq_iff)
  moreover have "nxt cb \<noteq> lbr cb" using nx u(3) by auto
  ultimately show ?thesis using ne tok u(5) rb_wf_capacity [OF wf] by (simp add: Read_def)
qed

text \<open>A FIN counted into a full buffer: the tail is one beyond the head, and a read takes one byte.\<close>

lemma fin_tail:
  assumes pic: "rb_pic cb L h n" and full: "n = L" and lim: "1 < rb_limit cb"
  shows "unat (nxt cb) = unat (lbr cb) + L + 1" and "unat (nxt cb mod capacity cb) = (if h + 1 < L then h + 1 else 0)"
proof -
  have u: "unat (lbr cb mod capacity cb) = h" "unat (capacity cb) = L" "h < L" "unat (nxt cb - 1) = unat (lbr cb) + L"
    using pic full by (auto simp: rb_pic_def)
  show nx: "unat (nxt cb) = unat (lbr cb) + L + 1" using nxt_no_wrap [OF lim] u by simp
  have "unat (nxt cb mod capacity cb) = (h + 1) mod L"
    using nx u(1,2) mod_add_left_eq [of "unat (lbr cb)" L 1] mod_add_self2 [of "unat (lbr cb) + 1" L]
    by (simp add: unat_mod_u32 ac_simps)
  then show "unat (nxt cb mod capacity cb) = (if h + 1 < L then h + 1 else 0)" using u(3) by (auto simp: mod_Suc)
qed

lemma Read_copy_fin:
  assumes pic: "rb_pic cb L h n" and full: "n = L" and lim: "1 < rb_limit cb" and ne: "buf \<noteq> []" and len: "length buf < 2 ^ 31"
  defines "cb' \<equiv> AdvanceNxt cb (nxt cb) True"
  shows "Read_copy cb' buf = ok (1, None, hd (contents cb) # tl buf, after_read cb' 1)"
proof -
  have u: "unat (lbr cb mod capacity cb) = h" "unat (capacity cb) = L" "h < L" "L < 2 ^ 31" "length (buff cb) = L"
      "contents cb = ring (buff cb) h n"
    using pic by (auto simp: rb_pic_def)
  note tail = fin_tail(2) [OF pic full lim]
  have want: "unat (of_nat (length buf) :: u32) = length buf" using len by (simp add: unat_of_nat_small)
  have hd1: "hd (contents cb) = buff cb ! h" using u full by (simp add: hd_conv_nth nth_ring flip: length_0_conv)
  have one: "take (Suc 0) (drop h (buff cb)) = [buff cb ! h]" using u(3,5) by (simp add: take_Suc hd_drop_conv_nth)
  have b1: "1 \<le> length buf" using ne by (cases buf) auto
  have enough: "\<not> (1 :: u32) > of_nat (length buf)" using want b1 ne by (simp add: word_less_nat_alt)
  have put1: "take (length buf) [x] @ drop (min (length buf) (Suc 0)) buf = x # tl buf" for x using ne by (cases buf) auto
  show ?thesis
  proof (cases "h + 1 < L")
    case True
    then have gt: "nxt cb mod capacity cb > lbr cb mod capacity cb" using tail u(1) by (simp add: word_less_nat_alt)
    then have "unat (nxt cb mod capacity cb - lbr cb mod capacity cb) = 1" using tail u(1) True by (simp add: unat_sub_small)
    then have d: "nxt cb mod capacity cb - lbr cb mod capacity cb = 1" using unat_is_of_nat [of _ 1] by simp
    have "unat (lbr cb mod capacity cb + 1) = h + 1" using u(1,4) True by (simp add: unat_add_small)
    then show ?thesis
      using gt d u(1,2,3,5) one hd1 ne True enough by (simp add: Read_copy_def Let_def cb'_def go_copy_ok after_read_def put1)
  next
    case False
    then have hL: "h + 1 = L" using u(3) by simp
    have t0: "nxt cb mod capacity cb = 0" using tail False by (simp add: word_unat_eq_iff)
    have "unat (capacity cb - lbr cb mod capacity cb) = 1" using u(1,2,3) hL by (simp add: unat_sub_small word_le_nat_alt)
    then have d: "capacity cb - lbr cb mod capacity cb = 1" using unat_is_of_nat [of _ 1] by simp
    have e: "unat (lbr cb mod capacity cb + 1) = L" using u(1,4) hL by (simp add: unat_add_small)
    then have "lbr cb mod capacity cb + 1 \<le> capacity cb" using u(2) by (simp add: word_le_nat_alt)
    then show ?thesis
      using t0 d e u(1,2,3,5) one hd1 ne hL enough by (simp add: Read_copy_def Let_def cb'_def go_copy_ok after_read_def put1)
  qed
qed

lemma fin_on_full:
  assumes wf: "rb_wf cb" and full: "free cb = 0" and L1: "1 < unat (capacity cb)"
    and lim: "1 < rb_limit cb" and ne: "buf \<noteq> []" and len: "length buf < 2 ^ 31"
  defines "cb' \<equiv> AdvanceNxt cb (nxt cb) True"
  shows "Read cb' buf = ok (ReadDone 1 None (hd (contents cb) # tl buf) (after_read cb' 1))"
    and "Read (after_read cb' 1) buf = ok ReadBlocks"
proof -
  obtain L h n where pic: "rb_pic cb L h n" using wf by (rule rb_picE)
  have u: "unat (lbr cb mod capacity cb) = h" "unat (capacity cb) = L" "h < L" "isFull cb" and nL: "n = L"
    using pic full by (auto simp: rb_pic_def free_def)
  note nx = fin_tail(1) [OF pic nL lim] and tail = fin_tail(2) [OF pic nL lim]
  have cap: "capacity cb \<noteq> 0" using wf by (rule rb_wf_capacity)
  have ne': "nxt cb \<noteq> lbr cb" using nx by auto
  have "nxt cb mod capacity cb \<noteq> lbr cb mod capacity cb" using tail u(1) L1 u(2) by (auto split: if_splits)
  then show "Read cb' buf = ok (ReadDone 1 None (hd (contents cb) # tl buf) (after_read cb' 1))"
    using Read_copy_fin [OF pic nL lim ne len] ne cap ne' u(4) by (simp add: Read_def cb'_def)
  have "unat (lbr cb + 1) = unat (lbr cb) + 1"
    using nx unat_less_2_32 [of "nxt cb"] by (intro trans [OF unat_add_small]) auto
  then have "unat (nxt cb mod capacity cb) = unat ((lbr cb + 1) mod capacity cb)" "nxt cb \<noteq> lbr cb + 1"
    using nx u(2,3) mod_add_self2 [of "unat (lbr cb) + 1" L] by (auto simp: unat_mod_u32)
  then show "Read (after_read cb' 1) buf = ok ReadBlocks"
    using ne cap by (simp add: Read_def cb'_def after_read_def word_unat_eq_iff)
qed


section \<open>Properties\<close>

text \<open>
  C14. A receive buffer is a first-in first-out byte stream: from a fresh buffer of any capacity, a
  run of writes and reads in any order, as long as the sequence numbers do not reach \<open>2 ^ 32\<close>,
  returns without panic or deadlock, and the bytes delivered, followed by the bytes still in the
  buffer, are exactly the bytes accepted, in order.
\<close>

theorem recvbuf_stream:
  assumes "0 < unat c" and "unat c < 2 ^ 31"
    and "recvq.put_total ops < 2 ^ 32 - unat start" and "list_all recvq.get_small ops"
  shows "\<exists>accepted delivered cb. recvq.run (NewRecvBuf c start) ops = ok (accepted, delivered, cb) \<and>
           accepted = delivered @ contents cb"
  using recvq.run_stream [of "NewRecvBuf c start" ops] NewRecvBuf_wf [OF assms(1,2), of start] assms(3,4)
  by fastforce

theorem recvbuf_stream_witness:
  "\<exists>accepted delivered cb. recvq.run (NewRecvBuf 3 9) [Put [1, 2], Get 1, Put [3, 4, 5], Get 5]
      = ok (accepted, delivered, cb) \<and> accepted = delivered @ contents cb"
  by (rule recvbuf_stream) simp_all

text \<open>
  \<^verbatim>\<open>Write\<close>, on every branch: it stores as much of the data as there is room for behind the
  unread bytes, returns that count, reports \<^verbatim>\<open>buffer is full\<close> exactly when there is no room, keeps
  the invariant, and never panics or blocks on the wake-up channel.
\<close>

theorem recvbuf_write:
  assumes wf: "rb_wf cb" and lim: "length d < rb_limit cb"
  shows "\<exists>cb'. Write cb d = ok (of_nat (min (length d) (free cb)),
             (if d \<noteq> [] \<and> free cb = 0 then Some BufferFull else None), cb') \<and>
           rb_wf cb' \<and> contents cb' = contents cb @ take (free cb) d"
proof (cases "d = [] \<or> free cb = 0")
  case True
  then show ?thesis using wf Write_full [OF wf, of d] by (cases "d = []") (auto simp: Write_def)
next
  case False
  then have "Write cb d = ok (of_nat (length (take (free cb) d)), None, after_write cb (take (free cb) d))"
    using lim by (intro Write_room [OF wf]) auto
  then show ?thesis
    using False lim after_write_wf(2,3) [OF wf, of "take (free cb) d"] by (auto simp: min.commute)
qed

theorem recvbuf_write_witness:
  "\<exists>cb'. Write (NewRecvBuf 3 9) [7, 8, 9, 10] =
       ok (of_nat (min (length [7, 8, 9, 10 :: u8]) (free (NewRecvBuf 3 9))),
           (if [7, 8, 9, 10 :: u8] \<noteq> [] \<and> free (NewRecvBuf 3 9) = 0 then Some BufferFull else None), cb') \<and>
     rb_wf cb' \<and> contents cb' = contents (NewRecvBuf 3 9) @ take (free (NewRecvBuf 3 9)) [7, 8, 9, 10]"
  by (rule recvbuf_write) (simp_all add: NewRecvBuf_wf)

text \<open>
  \<^verbatim>\<open>Read\<close>, on every branch: nothing for an empty slice; on an empty buffer end-of-file after a
  FIN and otherwise a wait; else it delivers the first \<open>min (len buf) unread\<close> unread bytes into
  the front of the caller's slice and removes exactly those.
\<close>

theorem recvbuf_read:
  assumes wf: "rb_wf cb" and len: "length buf < 2 ^ 31"
  shows "\<exists>cb'. Read cb buf =
      ok (if buf = [] then ReadDone 0 None buf cb
          else if contents cb = [] then (if finRecvd cb then ReadDone 0 (Some EOF) buf cb else ReadBlocks)
          else ReadDone (of_nat (min (length buf) (unread cb))) None
                 (take (length buf) (contents cb) @ drop (unread cb) buf) cb') \<and>
      rb_wf cb' \<and> contents cb' = drop (length buf) (contents cb)"
proof (cases "buf = [] \<or> contents cb = []")
  case True
  then show ?thesis
    using wf Read_empty [OF wf, of buf] by (cases "buf = []") (auto simp: Read_def)
next
  case False
  let ?k = "min (length buf) (unread cb)"
  have un: "0 < unread cb" using False by (simp add: contents_Nil_iff)
  have "take ?k (contents cb) @ drop ?k buf = take (length buf) (contents cb) @ drop (unread cb) buf"
    by (simp add: min_def)
  then have "Read cb buf = ok (ReadDone (of_nat ?k) None
      (take (length buf) (contents cb) @ drop (unread cb) buf) (after_read cb ?k))"
    using Read_contents [OF wf] False len by metis
  moreover have "drop ?k (contents cb) = drop (length buf) (contents cb)"
    by (simp add: min_def)
  ultimately show ?thesis
    using False un after_read_wf(1,2) [OF wf, of ?k] by auto
qed

theorem recvbuf_read_witness:
  "\<exists>cb'. Read (NewRecvBuf 3 9) [0, 0] =
      ok (if [0, 0 :: u8] = [] then ReadDone 0 None [0, 0] (NewRecvBuf 3 9)
          else if contents (NewRecvBuf 3 9) = []
               then (if finRecvd (NewRecvBuf 3 9) then ReadDone 0 (Some EOF) [0, 0] (NewRecvBuf 3 9) else ReadBlocks)
          else ReadDone (of_nat (min (length [0, 0 :: u8]) (unread (NewRecvBuf 3 9)))) None
                 (take (length [0, 0 :: u8]) (contents (NewRecvBuf 3 9)) @ drop (unread (NewRecvBuf 3 9)) [0, 0]) cb') \<and>
      rb_wf cb' \<and> contents cb' = drop (length [0, 0 :: u8]) (contents (NewRecvBuf 3 9))"
  by (rule recvbuf_read) (simp_all add: NewRecvBuf_wf)

text \<open>
  The observers agree with the abstraction: \<^verbatim>\<open>WindowSize\<close> is the number of unread bytes,
  \<^verbatim>\<open>FreeSpace\<close> the rest of the capacity, and \<^verbatim>\<open>Bytes\<close> the unread bytes in order (the nil slice when
  there are none).
\<close>

theorem recvbuf_observers:
  assumes "rb_wf cb"
  shows "WindowSize cb = ok (of_nat (length (contents cb))) \<and>
         FreeSpace cb = ok (of_nat (unat (capacity cb) - length (contents cb))) \<and>
         Bytes cb = ok (if contents cb = [] then None else Some (contents cb))"
  using assms by (simp add: WindowSize_unread FreeSpace_free Bytes_contents free_def)

theorem recvbuf_observers_witness:
  "WindowSize (NewRecvBuf 3 9) = ok (of_nat (length (contents (NewRecvBuf 3 9)))) \<and>
   FreeSpace (NewRecvBuf 3 9) = ok (of_nat (unat (capacity (NewRecvBuf 3 9)) - length (contents (NewRecvBuf 3 9)))) \<and>
   Bytes (NewRecvBuf 3 9) = ok (if contents (NewRecvBuf 3 9) = [] then None else Some (contents (NewRecvBuf 3 9)))"
  by (rule recvbuf_observers) (simp add: NewRecvBuf_wf)

text \<open>
  \<^verbatim>\<open>IsEmpty\<close> is right except at one place: when \<^verbatim>\<open>nxt\<close> is a multiple of the capacity it says that
  an empty buffer is not empty.
\<close>

theorem recvbuf_isempty:
  assumes "rb_wf cb"
  shows "IsEmpty cb = ok (contents cb = []) \<longleftrightarrow> \<not> (contents cb = [] \<and> unat (capacity cb) dvd unat (nxt cb))"
  using IsEmpty_exact [OF assms] by (auto simp: dvd_eq_mod_eq_0)

theorem recvbuf_isempty_witness:
  "(IsEmpty (NewRecvBuf 64 63) = ok (contents (NewRecvBuf 64 63) = []) \<longleftrightarrow>
      \<not> (contents (NewRecvBuf 64 63) = [] \<and> unat (capacity (NewRecvBuf 64 63)) dvd unat (nxt (NewRecvBuf 64 63)))) \<and>
   contents (NewRecvBuf 64 63) = [] \<and> IsEmpty (NewRecvBuf 64 63) = ok False"
  by (intro conjI recvbuf_isempty) (simp_all add: NewRecvBuf_wf, simp add: IsEmpty_def NewRecvBuf_def)

text \<open>
  A FIN that arrives while the buffer is full (which the segment check admits) loses the stream:
  the next read delivers one byte, and every read after it blocks although the rest of the buffer
  was never delivered. With a single free byte the very first read blocks.
\<close>

theorem recvbuf_fin_loses_stream:
  assumes "rb_wf cb" and "1 < rb_limit cb" and "1 < unat (capacity cb)"
    and "buf \<noteq> []" and "length buf < 2 ^ 31"
  shows "(free cb = 0 \<longrightarrow> (\<exists>cb'. Read (AdvanceNxt cb (nxt cb) True) buf
              = ok (ReadDone 1 None (hd (contents cb) # tl buf) cb') \<and> Read cb' buf = ok ReadBlocks)) \<and>
         (free cb = 1 \<and> canRead cb = 0 \<longrightarrow> Read (AdvanceNxt cb (nxt cb) True) buf = ok ReadBlocks)"
  using fin_on_full [OF assms(1) _ assms(3,2,4,5)] fin_last_free_byte [OF assms(1) _ assms(2) _ assms(4)]
  by blast

theorem recvbuf_fin_loses_stream_witness:
  "\<exists>cb cb' buf. Write (NewRecvBuf 3 9) [7, 8, 9] = ok (3, None, cb) \<and> free cb = 0 \<and>
     Read (AdvanceNxt cb (nxt cb) True) buf = ok (ReadDone 1 None (hd (contents cb) # tl buf) cb') \<and>
     Read cb' buf = ok ReadBlocks"
proof -
  let ?cb = "after_write (NewRecvBuf 3 9) [7, 8, 9]"
  have w: "Write (NewRecvBuf 3 9) [7, 8, 9] = ok (3, None, ?cb)"
    using Write_room [of "NewRecvBuf 3 9" "[7, 8, 9]"] by (simp add: NewRecvBuf_wf)
  have wf: "rb_wf ?cb" "free ?cb = 0" "rb_limit ?cb = 2 ^ 32 - 12"
    using after_write_wf [of "NewRecvBuf 3 9" "[7, 8, 9]"] by (simp_all add: NewRecvBuf_wf)
  have "unat (capacity ?cb) = 3" by (simp add: after_write_def NewRecvBuf_def)
  then obtain cb' where "Read (AdvanceNxt ?cb (nxt ?cb) True) [0] =
      ok (ReadDone 1 None (hd (contents ?cb) # tl [0]) cb')" "Read cb' [0] = ok ReadBlocks"
    using recvbuf_fin_loses_stream [of ?cb "[0]"] wf by auto
  then show ?thesis using w wf(2) by blast
qed

text \<open>
  The capacity the program uses does not divide \<open>2 ^ 32\<close>, so a stream that passes sequence number
  \<open>2 ^ 32\<close> is damaged: three bytes are accepted and only two are there to be read.
\<close>

theorem recvbuf_wraparound_loses_byte:
  "\<exists>cb. Write (NewRecvBuf (of_nat BUFFER_CAPACITY) (- 2)) [a, b, c] = ok (3, None, cb) \<and> WindowSize cb = ok 2"
  by (simp add: Write_def NewRecvBuf_def BUFFER_CAPACITY_def WindowSize_def go_copy_def Let_def)

end
