(* ===== verification/Tcp_Types.thy ===== *)
theory Tcp_Types imports Complex_Main Tcp_Packet Recv_Buf begin

text \<open>
  The data of the TCP layer (\<^verbatim>\<open>tcpstack.go\<close>, \<^verbatim>\<open>state.go\<close>, \<^verbatim>\<open>sendbuf.go\<close>, \<^verbatim>\<open>priorityqueue.go\<close>,
  \<^verbatim>\<open>retransmission.go\<close>): the states, the send buffer, the queues and the connection. Channels are
  counters of queued tokens, floating-point numbers are rationals.
\<close>

datatype State =
    CLOSED | LISTEN | SYN_RECEIVED | SYN_SENT | ESTABLISHED | FIN_WAIT_1 | FIN_WAIT_2
  | CLOSING | TIME_WAIT | CLOSE_WAIT | LAST_ACK

record TCPEndpointID =
  LocalAddr :: Addr
  LocalPort :: u16
  RemoteAddr :: Addr
  RemotePort :: u16

text \<open>\<^verbatim>\<open>uint\<close> quantities (64 bits) are natural numbers: none of them exceeds the capacity twice over.\<close>

record sendBuf =
  sbuf :: bytes
  scapacity :: nat
  biss :: u32
  lbw :: u32
  hasUnsentC :: nat
  freespaceC :: nat

record Item =
  ivalue :: TCPPacket
  priority :: u32
  index :: int

record packetMetadata =
  timeSent :: int
  plength :: u32
  counter :: nat
  packet :: TCPPacket

text \<open>
  A Go timer: running or not, and a tick waiting in its channel or not. \<open>timerFor\<close> is the duration
  it was last set to, in milliseconds.
\<close>

record gotimer =
  running :: bool
  tick :: bool
  timerFor :: rat

record VTCPConn =
  endpoint :: TCPEndpointID
  socketId :: i32
  state :: State
  iss :: u32
  irs :: u32
  sndNxt :: u32
  sndUna :: u32
  sndWnd :: i32
  expectedSeqNum :: u32
  windowSize :: i32
  sendBuf :: sendBuf
  recvBuf :: recvBuf
  earlyArrivalQ :: "Item list"
  inflightQ :: "packetMetadata list"
  retransTimer :: gotimer
  rtoIsRunning :: bool
  rto :: rat
  firstRTT :: bool
  sRTT :: rat

text \<open>
  What a step of a connection sees besides the connection itself: what the table of connections
  has under its endpoint, and a trace of the segments handed to the IP layer and of the
  goroutines started. \<open>Other\<close> is an entry that is a different connection.
\<close>

datatype table_entry = NoEntry | Mine | Other

datatype goroutine = SendBufferedData | TimeWaitTimer | HandleRTO

record tcb =
  conn :: VTCPConn
  entry :: table_entry
  outs :: "TCPPacket list"
  spawned :: "goroutine list"

text \<open>The libraries, and what \<^verbatim>\<open>IP.Send\<close> answers: whether the error is nil.\<close>

record env = tcplib +
  ip_send :: "Addr \<Rightarrow> bytes \<Rightarrow> u8 \<Rightarrow> bool go"

section \<open>Initial values\<close>

definition newSendBuf :: "nat \<Rightarrow> u32 \<Rightarrow> sendBuf" where
  "newSendBuf cap i =
     \<lparr>sbuf = replicate cap 0, scapacity = cap, biss = i, lbw = i + 1, hasUnsentC = 0, freespaceC = 0\<rparr>"

text \<open>
  \<^verbatim>\<open>NewSocket\<close> (\<^verbatim>\<open>conn.go\<close>): the socket id and the initial sequence number, which the code draws at
  random, are arguments. The timer starts with 100 nanoseconds.
\<close>

definition NewSocket :: "i32 \<Rightarrow> u32 \<Rightarrow> State \<Rightarrow> TCPEndpointID \<Rightarrow> u32 \<Rightarrow> VTCPConn" where
  "NewSocket sid startSeq st ep remoteInitSeqNum =
     \<lparr>endpoint = ep, socketId = sid, state = st, iss = startSeq, irs = remoteInitSeqNum,
      sndNxt = startSeq, sndUna = startSeq, sndWnd = 0, expectedSeqNum = remoteInitSeqNum + 1,
      windowSize = of_nat BUFFER_CAPACITY,
      sendBuf = newSendBuf BUFFER_CAPACITY startSeq, recvBuf = NewRecvBuf (of_nat BUFFER_CAPACITY) remoteInitSeqNum,
      earlyArrivalQ = [], inflightQ = [],
      retransTimer = \<lparr>running = True, tick = False, timerFor = 1 / 10000\<rparr>,
      rtoIsRunning = False, rto = 1000, firstRTT = True, sRTT = 0\<rparr>"

end
