(* ===== verification/Send_Buf.thy ===== *)
theory Send_Buf imports Tcp_Types begin

text \<open>
  The circular send buffer (\<^verbatim>\<open>pkg/tcpstack/sendbuf.go\<close>). The byte with sequence number \<open>n\<close> sits at
  index \<open>(n - iss) mod capacity\<close>; the bytes from \<open>SND.UNA\<close> to \<open>lbw\<close> are kept until they are
  acknowledged, those from \<open>SND.NXT\<close> on have not been sent.
\<close>

section \<open>The code\<close>

definition sindex :: "sendBuf \<Rightarrow> u32 \<Rightarrow> nat go" where
  "sindex b num = (if scapacity b = 0 then panic DivideByZero else ok (unat (num - biss b) mod scapacity b))"

definition sendBufFreeSpace :: "VTCPConn \<Rightarrow> nat" where
  "sendBufFreeSpace c =
     (if unat (lbw (sendBuf c) - sndUna c) \<le> scapacity (sendBuf c)
      then scapacity (sendBuf c) - unat (lbw (sendBuf c) - sndUna c) else 0)"

definition numBytesNotSent :: "VTCPConn \<Rightarrow> u32" where
  "numBytesNotSent c = lbw (sendBuf c) - sndNxt c"

definition usableSendWindow :: "VTCPConn \<Rightarrow> u32" where
  "usableSendWindow c =
     (if sndUna c + sndWnd c > sndNxt c then sndUna c + sndWnd c - sndNxt c else 0)"

text \<open>With no free space the call waits, holding nothing, until an acknowledgement makes room.\<close>

definition writeToSendBuf :: "VTCPConn \<Rightarrow> bytes \<Rightarrow> (nat \<times> VTCPConn) go" where
  "writeToSendBuf c data =
     (let b = sendBuf c
      in if sendBufFreeSpace c = 0 then panic Blocked
         else
           let numBytes = min (sendBufFreeSpace c) (length data)
           in bindG (sindex b (lbw b)) (\<lambda>lbwIdx.
              bindG
                (if lbwIdx + numBytes \<le> scapacity b then
                   bindG (go_slice data 0 numBytes) (\<lambda>src. go_copy (sbuf b) lbwIdx (length (sbuf b)) src)
                 else
                   let firstHalf = scapacity b - lbwIdx
                   in bindG (go_slice data 0 firstHalf) (\<lambda>src.
                      bindG (go_copy (sbuf b) lbwIdx (length (sbuf b)) src) (\<lambda>b1.
                      bindG (go_slice data firstHalf numBytes) (\<lambda>src2.
                      go_copy b1 0 (length b1) src2))))
                (\<lambda>buf'.
                  if hasUnsentC b \<ge> scapacity b then panic Blocked
                  else ok (numBytes, c\<lparr>sendBuf := b\<lparr>sbuf := buf', lbw := lbw b + of_nat numBytes,
                         hasUnsentC := hasUnsentC b + 1, freespaceC := 0\<rparr>\<rparr>))))"

definition bytesNotSent :: "VTCPConn \<Rightarrow> nat \<Rightarrow> (nat \<times> bytes) go" where
  "bytesNotSent c maxBytes =
     (let b = sendBuf c;
          numBytes = min maxBytes (min (unat (numBytesNotSent c)) (unat (usableSendWindow c)))
      in if numBytes = 0 then ok (0, [])
         else
           let ret = replicate numBytes 0
           in bindG (sindex b (sndNxt c)) (\<lambda>nxtIdx.
              bindG
                (if nxtIdx + numBytes \<le> scapacity b then
                   bindG (go_slice (sbuf b) nxtIdx (nxtIdx + numBytes)) (\<lambda>src. go_copy ret 0 (length ret) src)
                 else
                   let firstHalf = scapacity b - nxtIdx
                   in bindG (go_slice (sbuf b) nxtIdx (length (sbuf b))) (\<lambda>src.
                      bindG (go_copy ret 0 firstHalf src) (\<lambda>r1.
                      bindG (go_slice (sbuf b) 0 (numBytes - firstHalf)) (\<lambda>src2.
                      go_copy r1 firstHalf (length r1) src2))))
                (\<lambda>r. ok (numBytes, r))))"

section \<open>Abstraction and invariant\<close>

text \<open>
  The buffer stands for the bytes from \<open>SND.UNA\<close> to \<open>lbw\<close>. The invariant orders the sequence
  numbers, none of which has wrapped since the initial one, and bounds what is kept by the capacity
  and the queued wake-ups by what is kept.
\<close>

definition kept :: "VTCPConn \<Rightarrow> nat" where
  "kept c = unat (lbw (sendBuf c)) - unat (sndUna c)"

definition stored :: "VTCPConn \<Rightarrow> bytes" where
  "stored c = ring (sbuf (sendBuf c)) (unat (sndUna c) - unat (biss (sendBuf c))) (kept c)"

definition sb_wf :: "VTCPConn \<Rightarrow> bool" where
  "sb_wf c \<longleftrightarrow>
     0 < scapacity (sendBuf c) \<and> scapacity (sendBuf c) < 2 ^ 31 \<and>
     length (sbuf (sendBuf c)) = scapacity (sendBuf c) \<and>
     biss (sendBuf c) \<le> sndUna c \<and> sndUna c \<le> sndNxt c \<and> sndNxt c \<le> lbw (sendBuf c) \<and>
     kept c \<le> scapacity (sendBuf c) \<and> hasUnsentC (sendBuf c) \<le> kept c"

definition sb_room :: "VTCPConn \<Rightarrow> nat" where
  "sb_room c = scapacity (sendBuf c) - kept c"

definition sb_limit :: "VTCPConn \<Rightarrow> nat" where
  "sb_limit c = 2 ^ 32 - unat (lbw (sendBuf c))"

lemma length_stored [simp]: "length (stored c) = kept c"
  by (simp add: stored_def)

lemma sb_wf_order:
  assumes "sb_wf c"
  shows "unat (biss (sendBuf c)) \<le> unat (sndUna c)" "unat (sndUna c) \<le> unat (sndNxt c)"
    "unat (sndNxt c) \<le> unat (lbw (sendBuf c))"
  using assms by (simp_all add: sb_wf_def word_le_nat_alt)

lemma unat_minus: "(b :: u32) \<le> a \<Longrightarrow> unat (a - b) = unat a - unat b"
  by (rule unat_sub)

lemma sb_differences:
  assumes "sb_wf c"
  shows "unat (lbw (sendBuf c) - sndUna c) = kept c"
    "unat (lbw (sendBuf c) - biss (sendBuf c)) = unat (lbw (sendBuf c)) - unat (biss (sendBuf c))"
    "unat (sndNxt c - biss (sendBuf c)) = unat (sndNxt c) - unat (biss (sendBuf c))"
    "unat (numBytesNotSent c) = unat (lbw (sendBuf c)) - unat (sndNxt c)"
  using assms by (auto simp: sb_wf_def kept_def numBytesNotSent_def intro!: unat_minus)

lemma FreeSpace_room: "sb_wf c \<Longrightarrow> sendBufFreeSpace c = sb_room c"
  by (simp add: sendBufFreeSpace_def sb_room_def sb_differences(1))

section \<open>Writing\<close>

text \<open>The two ways the code copies a run into the array agree with \<open>ring_put\<close>.\<close>

lemma copy_in:
  assumes "length xs = L" and "idx < L" and "length d \<le> L"
  shows "(if idx + length d \<le> L then go_copy xs idx (length xs) d
          else bindG (go_copy xs idx (length xs) (take (L - idx) d)) (\<lambda>b1.
               go_copy b1 0 (length b1) (drop (L - idx) d))) = ok (ring_put xs idx d)"
proof (cases "idx + length d \<le> L")
  case True
  then have "min (L - idx) (length d) = length d" by simp
  then show ?thesis
    using True assms ring_put_straight [of idx xs d] by (simp add: go_copy_ok)
next
  case False
  have first: "go_copy xs idx (length xs) (take (L - idx) d) = ok (take idx xs @ take (L - idx) d)"
    using False assms by (simp add: go_copy_ok)
  have "go_copy (take idx xs @ take (L - idx) d) 0 L (drop (L - idx) d) =
      ok (drop (L - idx) d @ drop (length d - (L - idx)) (take idx xs) @ take (L - idx) d)"
  proof -
    have m: "min L (length d - (L - idx)) = length d - (L - idx)" "length d - (L - idx) \<le> idx"
      using False assms by simp_all
    show ?thesis using False assms(1,2) m by (simp add: go_copy_ok)
  qed
  also have "drop (L - idx) d @ drop (length d - (L - idx)) (take idx xs) @ take (L - idx) d = ring_put xs idx d"
    using ring_put_wrapped [of idx xs d] False assms by simp
  finally show ?thesis using False first assms by simp
qed

definition after_put :: "VTCPConn \<Rightarrow> bytes \<Rightarrow> VTCPConn" where
  "after_put c d = c\<lparr>sendBuf := (sendBuf c)
     \<lparr>sbuf := ring_put (sbuf (sendBuf c)) (unat (lbw (sendBuf c)) - unat (biss (sendBuf c))) d,
      lbw := lbw (sendBuf c) + of_nat (length d),
      hasUnsentC := hasUnsentC (sendBuf c) + 1, freespaceC := 0\<rparr>\<rparr>"

lemma writeToSendBuf_room:
  assumes wf: "sb_wf c" and room: "0 < sb_room c"
  shows "writeToSendBuf c data =
     ok (min (sb_room c) (length data), after_put c (take (sb_room c) data))"
proof -
  let ?b = "sendBuf c" and ?L = "scapacity (sendBuf c)" and ?n = "min (sb_room c) (length data)"
  let ?t = "unat (lbw ?b) - unat (biss ?b)"
  let ?idx = "?t mod ?L" and ?d = "take ?n data"
  have L: "0 < ?L" "length (sbuf ?b) = ?L" using wf by (simp_all add: sb_wf_def)
  have idx: "sindex ?b (lbw ?b) = ok ?idx"
    using L sb_differences(2) [OF wf] by (simp add: sindex_def)
  have n: "?n \<le> ?L" "length ?d = ?n" by (auto simp: sb_room_def)
  have tokens: "hasUnsentC ?b < ?L" using wf room by (simp add: sb_wf_def sb_room_def)
  have copied: "(if ?idx + ?n \<le> ?L then go_copy (sbuf ?b) ?idx (length (sbuf ?b)) ?d
      else bindG (go_copy (sbuf ?b) ?idx (length (sbuf ?b)) (take (?L - ?idx) ?d)) (\<lambda>b1.
           go_copy b1 0 (length b1) (drop (?L - ?idx) ?d))) = ok (ring_put (sbuf ?b) ?t ?d)"
    using copy_in [of "sbuf ?b" ?L ?idx ?d] L n ring_put_mod [of "sbuf ?b" ?t ?d]
    by (simp only: mod_less_divisor L(2))
  have inner: "(if ?idx + ?n \<le> ?L then
        bindG (go_slice data 0 ?n) (\<lambda>src. go_copy (sbuf ?b) ?idx (length (sbuf ?b)) src)
      else bindG (go_slice data 0 (?L - ?idx)) (\<lambda>src.
           bindG (go_copy (sbuf ?b) ?idx (length (sbuf ?b)) src) (\<lambda>b1.
           bindG (go_slice data (?L - ?idx) ?n) (\<lambda>src2. go_copy b1 0 (length b1) src2)))) =
      ok (ring_put (sbuf ?b) ?t ?d)"
  proof (cases "?idx + ?n \<le> ?L")
    case True
    then show ?thesis using copied by simp
  next
    case False
    then have k: "?L - ?idx \<le> ?n" by linarith
    then have "go_slice data 0 (?L - ?idx) = ok (take (?L - ?idx) ?d)"
      "go_slice data (?L - ?idx) ?n = ok (drop (?L - ?idx) ?d)"
      by (simp_all add: drop_take min_absorb1)
    then show ?thesis using False copied by simp
  qed
  have d: "take (sb_room c) data = ?d" by (simp add: min_def)
  show ?thesis
    unfolding writeToSendBuf_def Let_def FreeSpace_room [OF wf] d
    using room tokens by (simp only: idx inner bindG_ok) (simp add: after_put_def n)
qed

lemma after_put_wf:
  assumes wf: "sb_wf c" and d: "d \<noteq> []" "length d \<le> sb_room c" and lim: "length d < sb_limit c"
  shows "sb_wf (after_put c d)" and "stored (after_put c d) = stored c @ d"
    and "sb_room (after_put c d) = sb_room c - length d" and "sb_limit (after_put c d) = sb_limit c - length d"
    and "lbw (sendBuf (after_put c d)) = lbw (sendBuf c) + of_nat (length d)"
proof -
  let ?b = "sendBuf c" and ?c = "after_put c d"
  have ord: "unat (biss ?b) \<le> unat (sndUna c)" "unat (sndUna c) \<le> unat (sndNxt c)" "unat (sndNxt c) \<le> unat (lbw ?b)"
    using sb_wf_order [OF wf] .
  have "unat (of_nat (length d) :: u32) = length d"
    using lim by (intro unat_of_nat_small) (simp add: sb_limit_def)
  then have lbw': "unat (lbw (sendBuf ?c)) = unat (lbw ?b) + length d"
    using lim by (simp add: after_put_def sb_limit_def unat_add_small)
  have same: "sndUna ?c = sndUna c" "sndNxt ?c = sndNxt c" "biss (sendBuf ?c) = biss ?b"
    "scapacity (sendBuf ?c) = scapacity ?b" "hasUnsentC (sendBuf ?c) = hasUnsentC ?b + 1"
    "length (sbuf (sendBuf ?c)) = length (sbuf ?b)"
    by (simp_all add: after_put_def)
  have kept': "kept ?c = kept c + length d"
    using ord by (simp add: kept_def lbw' same)
  have len: "1 \<le> length d" using d(1) by (cases d) auto
  show "sb_wf ?c"
    using wf d len by (simp add: sb_wf_def same kept' sb_room_def word_le_nat_alt lbw')
  have "ring (ring_put (sbuf ?b) (unat (sndUna c) - unat (biss ?b) + kept c) d)
      (unat (sndUna c) - unat (biss ?b)) (kept c + length d) = stored c @ d"
    unfolding stored_def using wf d by (intro ring_put_append) (auto simp: sb_wf_def sb_room_def)
  moreover have "unat (sndUna c) - unat (biss ?b) + kept c = unat (lbw ?b) - unat (biss ?b)"
    using ord by (simp add: kept_def)
  ultimately show "stored ?c = stored c @ d"
    unfolding stored_def [of ?c] kept' by (simp add: same) (simp add: after_put_def)
  show "sb_room ?c = sb_room c - length d" by (simp add: sb_room_def same kept')
  show "sb_limit ?c = sb_limit c - length d" by (simp add: sb_limit_def lbw')
  show "lbw (sendBuf ?c) = lbw ?b + of_nat (length d)" by (simp add: after_put_def)
qed

section \<open>Reading for transmission\<close>

lemma copy_out:
  assumes "length xs = L" and "idx < L" and "0 < n" and "n \<le> L" and r: "length r = n"
  shows "(if idx + n \<le> L then bindG (go_slice xs idx (idx + n)) (\<lambda>src. go_copy r 0 (length r) src)
          else bindG (go_slice xs idx (length xs)) (\<lambda>src. bindG (go_copy r 0 (L - idx) src) (\<lambda>r1.
               bindG (go_slice xs 0 (n - (L - idx))) (\<lambda>src2. go_copy r1 (L - idx) (length r1) src2)))) =
         ok (ring xs idx n)"
proof (cases "idx + n \<le> L")
  case True
  then show ?thesis using assms ring_straight [of idx xs n] by (simp add: go_copy_ok)
next
  case False
  then show ?thesis
    using assms ring_wrapped [of idx xs n] by (simp add: go_copy_ok min_def)
qed

text \<open>The number of bytes the code sends next: what is asked for, unsent and inside the peer's window.\<close>

definition sendable_now :: "VTCPConn \<Rightarrow> nat \<Rightarrow> nat" where
  "sendable_now c m = min m (min (unat (lbw (sendBuf c)) - unat (sndNxt c))
     (unat (sndUna c) + unat (sndWnd c) - unat (sndNxt c)))"

lemma usable_window:
  assumes "unat (sndUna c) + unat (sndWnd c) < 2 ^ 32"
  shows "unat (usableSendWindow c) = unat (sndUna c) + unat (sndWnd c) - unat (sndNxt c)"
  using assms
  by (auto simp: usableSendWindow_def word_less_nat_alt unat_add_small unat_minus word_le_nat_alt)

lemma bytesNotSent_exact:
  assumes wf: "sb_wf c" and wnd: "unat (sndUna c) + unat (sndWnd c) < 2 ^ 32"
  shows "bytesNotSent c m = ok (sendable_now c m,
     take (sendable_now c m) (drop (unat (sndNxt c) - unat (sndUna c)) (stored c)))"
proof -
  let ?b = "sendBuf c" and ?L = "scapacity (sendBuf c)" and ?n = "sendable_now c m"
  let ?t = "unat (sndNxt c) - unat (biss ?b)" and ?o = "unat (sndNxt c) - unat (sndUna c)"
  have ord: "unat (biss ?b) \<le> unat (sndUna c)" "unat (sndUna c) \<le> unat (sndNxt c)" "unat (sndNxt c) \<le> unat (lbw ?b)"
    using sb_wf_order [OF wf] .
  have L: "0 < ?L" "length (sbuf ?b) = ?L" using wf by (simp_all add: sb_wf_def)
  have n: "min m (min (unat (numBytesNotSent c)) (unat (usableSendWindow c))) = ?n"
    by (simp add: sendable_now_def sb_differences(4) [OF wf] usable_window [OF wnd])
  have le: "?o + ?n \<le> kept c" using ord by (auto simp: sendable_now_def kept_def)
  have cap: "?n \<le> ?L" using le wf by (simp add: sb_wf_def)
  have "take ?n (drop ?o (stored c)) = ring (sbuf ?b) (unat (sndUna c) - unat (biss ?b) + ?o) ?n"
    using le by (simp add: stored_def drop_ring take_ring)
  also have "unat (sndUna c) - unat (biss ?b) + ?o = ?t" using ord by simp
  finally have out: "take ?n (drop ?o (stored c)) = ring (sbuf ?b) (?t mod ?L) ?n"
    using L ring_mod [of "sbuf ?b" ?t ?n] by simp
  show ?thesis
  proof (cases "?n = 0")
    case True
    then show ?thesis by (simp add: bytesNotSent_def Let_def n)
  next
    case False
    have idx: "sindex ?b (sndNxt c) = ok (?t mod ?L)"
      using L sb_differences(3) [OF wf] by (simp add: sindex_def)
    have "?t mod ?L < ?L" using L by simp
    then have copied: "(if ?t mod ?L + ?n \<le> ?L
          then bindG (go_slice (sbuf ?b) (?t mod ?L) (?t mod ?L + ?n)) (\<lambda>src.
               go_copy (replicate ?n 0) 0 (length (replicate ?n (0 :: u8))) src)
          else bindG (go_slice (sbuf ?b) (?t mod ?L) (length (sbuf ?b))) (\<lambda>src.
               bindG (go_copy (replicate ?n 0) 0 (?L - ?t mod ?L) src) (\<lambda>r1.
               bindG (go_slice (sbuf ?b) 0 (?n - (?L - ?t mod ?L))) (\<lambda>src2.
               go_copy r1 (?L - ?t mod ?L) (length r1) src2)))) = ok (ring (sbuf ?b) (?t mod ?L) ?n)"
      using False cap L by (intro copy_out) auto
    show ?thesis
      unfolding bytesNotSent_def Let_def n out
      by (simp only: idx bindG_ok copied False if_False)
  qed
qed

section \<open>The queue between the application and the peer\<close>

text \<open>\<^verbatim>\<open>VWrite\<close> offers what is left of the data while there is some; with no room it waits.\<close>

definition sb_put :: "VTCPConn \<Rightarrow> bytes \<Rightarrow> (nat \<times> VTCPConn) go" where
  "sb_put c d = (if d = [] \<or> sendBufFreeSpace c = 0 then ok (0, c) else writeToSendBuf c d)"

text \<open>
  The peer takes \<open>k\<close> bytes: everything is sent at least once, and the first \<open>k\<close> kept bytes, read
  out of the array by the sender's own routine, are acknowledged.
\<close>

definition sb_get :: "VTCPConn \<Rightarrow> nat \<Rightarrow> (bytes \<times> VTCPConn) go" where
  "sb_get c k =
     bindG (bytesNotSent (c\<lparr>sndNxt := sndUna c, sndWnd := of_nat (min k (kept c))\<rparr>) k) (\<lambda>(m, d).
       ok (d, c\<lparr>sndUna := sndUna c + of_nat m, sndNxt := lbw (sendBuf c),
                sendBuf := (sendBuf c)\<lparr>hasUnsentC := 0\<rparr>\<rparr>))"

lemma sb_put_queue:
  assumes wf: "sb_wf c" and lim: "length d < sb_limit c"
  shows "\<exists>c'. sb_put c d = ok (min (length d) (sb_room c), c') \<and> sb_wf c' \<and>
           stored c' = stored c @ take (sb_room c) d \<and>
           sb_room c' = sb_room c - min (length d) (sb_room c) \<and>
           sb_limit c' = sb_limit c - min (length d) (sb_room c)"
proof (cases "d = [] \<or> sb_room c = 0")
  case True
  then have "sb_put c d = ok (0, c)" by (simp add: sb_put_def FreeSpace_room [OF wf])
  then show ?thesis using True wf by auto
next
  case False
  let ?d = "take (sb_room c) d"
  have d: "?d \<noteq> []" "length ?d \<le> sb_room c" "length ?d < sb_limit c" using False lim by auto
  have len: "length ?d = min (length d) (sb_room c)" by (simp add: min.commute)
  have "sb_put c d = ok (min (length d) (sb_room c), after_put c ?d)"
    using False writeToSendBuf_room [OF wf, of d]
    by (simp add: sb_put_def FreeSpace_room [OF wf] min.commute)
  then show ?thesis using after_put_wf [OF wf d] len by auto
qed

lemma sb_get_queue:
  assumes wf: "sb_wf c"
  shows "\<exists>c'. sb_get c k = ok (take k (stored c), c') \<and> sb_wf c' \<and>
           stored c' = drop k (stored c) \<and>
           sb_room c' = sb_room c + min k (length (stored c)) \<and>
           sb_limit c' = sb_limit c"
proof -
  let ?b = "sendBuf c" and ?n = "min k (kept c)"
  let ?r = "c\<lparr>sndNxt := sndUna c, sndWnd := of_nat ?n\<rparr>"
  let ?c = "c\<lparr>sndUna := sndUna c + of_nat ?n, sndNxt := lbw ?b, sendBuf := ?b\<lparr>hasUnsentC := 0\<rparr>\<rparr>"
  have ord: "unat (biss ?b) \<le> unat (sndUna c)" "unat (sndUna c) \<le> unat (lbw ?b)"
    using sb_wf_order [OF wf] by auto
  have sum: "unat (sndUna c) + kept c = unat (lbw ?b)" using ord by (simp add: kept_def)
  then have small: "unat (sndUna c) + ?n < 2 ^ 32"
    using unat_less_2_32 [of "lbw ?b"] by (simp del: unat_less_2_32)
  then have n: "unat (of_nat ?n :: u32) = ?n" by (intro unat_of_nat_small) simp
  have wfr: "sb_wf ?r" using wf ord by (simp add: sb_wf_def kept_def word_le_nat_alt)
  have "sendable_now ?r k = ?n" using n sum by (simp add: sendable_now_def)
  moreover have "stored ?r = stored c" by (simp add: stored_def kept_def)
  ultimately have "bytesNotSent ?r k = ok (?n, take ?n (stored c))"
    using bytesNotSent_exact [OF wfr, of k] small n by simp
  moreover have "take ?n (stored c) = take k (stored c)" by (simp add: min_def)
  ultimately have get: "sb_get c k = ok (take k (stored c), ?c)" by (simp add: sb_get_def)
  have una: "unat (sndUna ?c) = unat (sndUna c) + ?n"
    using small n by (simp add: unat_add_small)
  have kept': "kept ?c = kept c - ?n" using una by (simp add: kept_def)
  have "unat (sndUna c) + ?n \<le> unat (lbw ?b)" using sum by linarith
  then have "sb_wf ?c"
    using wf ord una kept' by (auto simp: sb_wf_def word_le_nat_alt)
  moreover have "stored ?c = drop ?n (stored c)"
    using ord by (simp only: stored_def kept' una) (simp add: drop_ring)
  moreover have "drop ?n (stored c) = drop k (stored c)" by (simp add: min_def)
  moreover have "sb_room ?c = sb_room c + ?n" using wf kept' by (simp add: sb_room_def sb_wf_def)
  ultimately show ?thesis using get by (simp add: sb_limit_def)
qed

interpretation sendq: byte_fifo sb_wf stored sb_room sb_limit sb_put sb_get
  by unfold_locales (fact sb_put_queue, rule sb_get_queue)

section \<open>Properties\<close>


text \<open>
  \<^verbatim>\<open>writeToSendBuf\<close>: with room it stores as much of the data as fits behind what it keeps, and
  returns that count; with none it waits. The invariant is kept.
\<close>

theorem sendbuf_write:
  assumes "sb_wf c" and "data \<noteq> []" and "length data < sb_limit c"
  shows "(if sb_room c = 0 then writeToSendBuf c data = panic Blocked
          else \<exists>c'. writeToSendBuf c data = ok (min (sb_room c) (length data), c') \<and> sb_wf c' \<and>
                 stored c' = stored c @ take (sb_room c) data \<and> sndNxt c' = sndNxt c \<and> sndUna c' = sndUna c)"
proof (cases "sb_room c = 0")
  case True
  then show ?thesis using FreeSpace_room [OF assms(1)] by (simp add: writeToSendBuf_def Let_def)
next
  case False
  let ?d = "take (sb_room c) data"
  have "?d \<noteq> []" "length ?d \<le> sb_room c" "length ?d < sb_limit c" using False assms by auto
  from after_put_wf [OF assms(1) this] False writeToSendBuf_room [OF assms(1), of data] show ?thesis
    by (auto simp: after_put_def)
qed

text \<open>
  What the sending loop takes: from \<open>SND.NXT\<close> on, as many bytes as are asked for, unsent and
  inside the peer's window, and exactly those bytes of the stream. The sequence numbers it uses
  never pass \<open>SND.UNA + SND.WND\<close>.
\<close>

theorem sendbuf_next_bytes:
  assumes "sb_wf c" and "unat (sndUna c) + unat (sndWnd c) < 2 ^ 32"
  shows "bytesNotSent c m = ok (sendable_now c m,
           take (sendable_now c m) (drop (unat (sndNxt c) - unat (sndUna c)) (stored c))) \<and>
         (sendable_now c m = 0 \<or> unat (sndNxt c) + sendable_now c m \<le> unat (sndUna c) + unat (sndWnd c))"
  using bytesNotSent_exact [OF assms] by (auto simp: sendable_now_def)

text \<open>
  Near the end of the sequence space the sender stalls: once everything sent is acknowledged
  and \<open>SND.UNA + SND.WND\<close> wraps around, nothing is ever sendable, whatever the window and however
  much is unsent.
\<close>

theorem sendbuf_stalls_at_wrap:
  assumes "sndNxt c = sndUna c" and "unat (sndWnd c) < 2 ^ 31" and "2 ^ 32 \<le> unat (sndUna c) + unat (sndWnd c)"
  shows "bytesNotSent c m = ok (0, [])"
proof -
  have "unat (sndUna c + sndWnd c) = (unat (sndUna c) + unat (sndWnd c)) mod 2 ^ 32"
    by (simp add: unat_word_ariths)
  also have "\<dots> = unat (sndUna c) + unat (sndWnd c) - 2 ^ 32"
    using assms(2,3) unat_less_2_32 [of "sndUna c"] le_mod_geq [of "2 ^ 32" "unat (sndUna c) + unat (sndWnd c)"]
    by (simp del: unat_less_2_32)
  finally have "unat (sndUna c + sndWnd c) \<le> unat (sndUna c)" using assms(2) by simp
  then have "usableSendWindow c = 0"
    by (simp add: usableSendWindow_def assms(1) word_less_nat_alt)
  then show ?thesis by (simp add: bytesNotSent_def)
qed

section \<open>Witnesses\<close>

text \<open>A connection with a four-byte send buffer whose three-way handshake is over.\<close>

definition demo_sender :: "u32 \<Rightarrow> VTCPConn" where
  "demo_sender i =
     (NewSocket 0 i ESTABLISHED \<lparr>LocalAddr = V4 1, LocalPort = 20000, RemoteAddr = V4 2, RemotePort = 80\<rparr> 7)
       \<lparr>sendBuf := newSendBuf 4 i, sndNxt := i + 1, sndUna := i + 1, sndWnd := 100\<rparr>"

lemma demo_sender_sel:
  "sndNxt (demo_sender i) = i + 1" "sndUna (demo_sender i) = i + 1" "sndWnd (demo_sender i) = 100"
  "sendBuf (demo_sender i) = \<lparr>sbuf = [0, 0, 0, 0], scapacity = 4, biss = i, lbw = i + 1, hasUnsentC = 0, freespaceC = 0\<rparr>"
  by (simp_all add: demo_sender_def newSendBuf_def numeral_eq_Suc)

lemma demo_sender_wf: "sb_wf (demo_sender 9)" "stored (demo_sender 9) = []" "sb_room (demo_sender 9) = 4"
  "sb_limit (demo_sender 9) = 4294967286"
  by (simp_all add: demo_sender_sel sb_wf_def stored_def kept_def sb_room_def sb_limit_def)


lemma sendbuf_write_witness:
  "\<exists>c'. writeToSendBuf (demo_sender 9) [1, 2, 3, 4, 5] = ok (4, c') \<and> sb_wf c' \<and> stored c' = [1, 2, 3, 4]"
  using sendbuf_write [of "demo_sender 9" "[1, 2, 3, 4, 5]"] by (auto simp: demo_sender_wf)

lemma sendbuf_next_bytes_witness:
  "bytesNotSent ((demo_sender 9)\<lparr>sendBuf := (sendBuf (demo_sender 9))\<lparr>sbuf := [0, 5, 6, 7], lbw := 13\<rparr>, sndWnd := 2\<rparr>) 100 = ok (2, [5, 6])"
proof -
  let ?c = "(demo_sender 9)\<lparr>sendBuf := (sendBuf (demo_sender 9))\<lparr>sbuf := [0, 5, 6, 7], lbw := 13\<rparr>, sndWnd := 2\<rparr>"
  have "sb_wf ?c" "unat (sndUna ?c) + unat (sndWnd ?c) < 2 ^ 32"
    by (simp_all add: demo_sender_sel sb_wf_def kept_def)
  note exact = sendbuf_next_bytes [OF this, of 100]
  have n: "sendable_now ?c 100 = 2" by (simp add: sendable_now_def demo_sender_sel)
  have "stored ?c = [5, 6, 7]" by (simp add: stored_def kept_def demo_sender_sel ring_def upt_rec)
  with exact n show ?thesis by (simp add: demo_sender_sel)
qed

lemma sendbuf_stalls_at_wrap_witness:
  "bytesNotSent ((demo_sender 0xfffffff0)\<lparr>sendBuf := (sendBuf (demo_sender 0xfffffff0))\<lparr>lbw := 0xfffffff4\<rparr>, sndWnd := 65535\<rparr>) 1360 = ok (0, [])"
  by (rule sendbuf_stalls_at_wrap) (simp_all add: demo_sender_sel)

end
