(* ===== verification/Priority_Queue.thy ===== *)
theory Priority_Queue imports Tcp_Types "HOL-Library.Multiset" begin

text \<open>
  The queue of early segments (\<^verbatim>\<open>pkg/tcpstack/priorityqueue.go\<close>) and the operations of Go's
  \<^verbatim>\<open>container/heap\<close> that the program applies to it. The program adds items with the type's own
  \<^verbatim>\<open>Push\<close>, which appends, and removes them with \<^verbatim>\<open>heap.Pop\<close>.
\<close>

section \<open>The code\<close>

type_synonym PriorityQueue = "Item list"

definition Less :: "PriorityQueue \<Rightarrow> nat \<Rightarrow> nat \<Rightarrow> bool" where
  "Less pq i j \<longleftrightarrow> priority (pq ! i) > priority (pq ! j)"

definition Swap :: "PriorityQueue \<Rightarrow> nat \<Rightarrow> nat \<Rightarrow> PriorityQueue" where
  "Swap pq i j = pq[i := (pq ! j)\<lparr>index := int i\<rparr>, j := (pq ! i)\<lparr>index := int j\<rparr>]"

definition Push :: "PriorityQueue \<Rightarrow> Item \<Rightarrow> PriorityQueue" where
  "Push pq item = pq @ [item\<lparr>index := int (length pq)\<rparr>]"

definition Pop :: "PriorityQueue \<Rightarrow> (Item \<times> PriorityQueue) go" where
  "Pop pq = (if pq = [] then panic IndexRange else ok ((last pq)\<lparr>index := -1\<rparr>, butlast pq))"

section \<open>\<^verbatim>\<open>container/heap\<close>\<close>

lemma length_Swap [simp]: "length (Swap pq i j) = length pq"
  by (simp add: Swap_def)

text \<open>\<open>heap_down pq i n\<close>: the queue, and the index the item that was at \<open>i\<close> sank to.\<close>

function heap_down :: "PriorityQueue \<Rightarrow> nat \<Rightarrow> nat \<Rightarrow> PriorityQueue \<times> nat" where
  "heap_down pq i n =
     (let j1 = 2 * i + 1
      in if j1 \<ge> n then (pq, i)
         else let j = (if j1 + 1 < n \<and> Less pq (j1 + 1) j1 then j1 + 1 else j1)
              in if \<not> Less pq j i then (pq, i) else heap_down (Swap pq i j) j n)"
  by auto
termination by (relation "measure (\<lambda>(pq, i, n). n - i)") (auto simp: Let_def split: if_splits)

declare heap_down.simps [simp del]

function heap_up :: "PriorityQueue \<Rightarrow> nat \<Rightarrow> PriorityQueue" where
  "heap_up pq j =
     (let i = (j - 1) div 2
      in if i = j \<or> \<not> Less pq j i then pq else heap_up (Swap pq i j) i)"
  by auto
termination by (relation "measure snd") (auto simp: Let_def Less_def)

declare heap_up.simps [simp del]

definition HeapPop :: "PriorityQueue \<Rightarrow> (Item \<times> PriorityQueue) go" where
  "HeapPop pq =
     (if pq = [] then panic IndexRange
      else let n = length pq - 1 in Pop (fst (heap_down (Swap pq 0 n) 0 n)))"

definition HeapFix :: "PriorityQueue \<Rightarrow> nat \<Rightarrow> PriorityQueue" where
  "HeapFix pq i =
     (let (pq', i') = heap_down pq i (length pq)
      in if i' > i then pq' else heap_up pq' i)"

text \<open>\<^verbatim>\<open>update\<close>, on the item at index \<open>i\<close>.\<close>

definition update_item :: "PriorityQueue \<Rightarrow> nat \<Rightarrow> TCPPacket \<Rightarrow> u32 \<Rightarrow> PriorityQueue" where
  "update_item pq i p pri = HeapFix (pq[i := (pq ! i)\<lparr>ivalue := p, priority := pri\<rparr>]) i"

section \<open>What the operations do to the items\<close>

text \<open>An item without its index.\<close>

definition load :: "Item \<Rightarrow> TCPPacket \<times> u32" where
  "load x = (ivalue x, priority x)"

lemma load_index [simp]: "load (x\<lparr>index := k\<rparr>) = load x"
  by (simp add: load_def)

lemma mset_Swap:
  assumes "i < length pq" and "j < length pq"
  shows "mset (map load (Swap pq i j)) = mset (map load pq)"
proof -
  have "map load (Swap pq i j) = (map load pq)[i := map load pq ! j, j := map load pq ! i]"
    using assms by (simp add: Swap_def map_update)
  also have "mset \<dots> = mset (map load pq)"
    using assms by (intro mset_swap) simp_all
  finally show ?thesis .
qed

lemma nth_Swap: "j < length pq \<Longrightarrow> Swap pq i j ! j = (pq ! i)\<lparr>index := int j\<rparr>"
  by (simp add: Swap_def)

text \<open>The child that \<^verbatim>\<open>down\<close> compares with, and one step of it.\<close>

definition child :: "PriorityQueue \<Rightarrow> nat \<Rightarrow> nat \<Rightarrow> nat" where
  "child pq i n = (if 2 * i + 1 + 1 < n \<and> Less pq (2 * i + 1 + 1) (2 * i + 1) then 2 * i + 1 + 1 else 2 * i + 1)"

lemma child_bounds: "2 * i + 1 < n \<Longrightarrow> i < child pq i n \<and> child pq i n < n"
  by (simp add: child_def)

lemma heap_down_unfold:
  "heap_down pq i n =
     (if n \<le> 2 * i + 1 \<or> \<not> Less pq (child pq i n) i then (pq, i)
      else heap_down (Swap pq i (child pq i n)) (child pq i n) n)"
proof -
  have "heap_down pq i n =
     (if 2 * i + 1 \<ge> n then (pq, i)
      else if \<not> Less pq (child pq i n) i then (pq, i) else heap_down (Swap pq i (child pq i n)) (child pq i n) n)"
    unfolding child_def by (subst heap_down.simps) (simp only: Let_def)
  then show ?thesis by simp
qed

lemma heap_down_induct [case_names down]:
  assumes "\<And>pq i. (\<not> (n \<le> 2 * i + 1 \<or> \<not> Less pq (child pq i n) i) \<Longrightarrow>
      P (Swap pq i (child pq i n)) (child pq i n)) \<Longrightarrow> P pq i"
  shows "P pq i"
proof (induction "n - i" arbitrary: pq i rule: less_induct)
  case less
  show ?case
    by (rule assms, rule less.hyps) (use child_bounds in \<open>auto simp: diff_less_mono2\<close>)
qed

lemma heap_down_mset:
  "n \<le> length pq \<Longrightarrow> length (fst (heap_down pq i n)) = length pq \<and>
     mset (map load (fst (heap_down pq i n))) = mset (map load pq)"
proof (induction pq i rule: heap_down_induct [where n = n])
  case (down pq i)
  show ?case
  proof (cases "n \<le> 2 * i + 1 \<or> \<not> Less pq (child pq i n) i")
    case True
    then show ?thesis by (subst (1 2) heap_down_unfold) simp
  next
    case False
    then have "i < length pq" "child pq i n < length pq" using child_bounds [of i n pq] down.prems by auto
    then have "mset (map load (Swap pq i (child pq i n))) = mset (map load pq)" by (rule mset_Swap)
    then show ?thesis
      using down.IH [OF False] down.prems False by (subst (1 2) heap_down_unfold) simp
  qed
qed

text \<open>Nothing moves at or beyond the bound \<open>n\<close>.\<close>

lemma heap_down_beyond: "n \<le> k \<Longrightarrow> i < n \<Longrightarrow> fst (heap_down pq i n) ! k = pq ! k"
proof (induction pq i rule: heap_down_induct [where n = n])
  case (down pq i)
  show ?case
  proof (cases "n \<le> 2 * i + 1 \<or> \<not> Less pq (child pq i n) i")
    case True
    then show ?thesis by (subst heap_down_unfold) simp
  next
    case False
    then have "child pq i n < n" using child_bounds [of i n pq] by auto
    moreover from this have "Swap pq i (child pq i n) ! k = pq ! k" using down.prems by (simp add: Swap_def)
    ultimately show ?thesis
      using down.IH [OF False] down.prems False by (subst heap_down_unfold) simp
  qed
qed

text \<open>
  \<^verbatim>\<open>heap.Pop\<close> on any non-empty queue, ordered or not: it hands back the item at the front, and
  keeps the others.
\<close>

lemma HeapPop_front:
  "\<exists>x' q'. HeapPop (x # q) = ok (x', q') \<and> load x' = load x \<and> length q' = length q \<and>
     mset (map load q') = mset (map load q)"
proof -
  let ?n = "length q"
  let ?s = "Swap (x # q) 0 ?n"
  let ?d = "fst (heap_down ?s 0 ?n)"
  have m: "length ?d = Suc ?n" "mset (map load ?d) = mset (map load (x # q))"
    using heap_down_mset [of ?n ?s 0] mset_Swap [of 0 "x # q" ?n] by simp_all
  have last: "load (?d ! ?n) = load x"
  proof (cases q)
    case Nil
    then show ?thesis by (subst heap_down_unfold) (simp add: Swap_def)
  next
    case (Cons y ys)
    then have "?d ! ?n = ?s ! ?n" by (intro heap_down_beyond) simp_all
    also have "\<dots> = ((x # q) ! 0)\<lparr>index := int ?n\<rparr>" by (rule nth_Swap) simp
    finally show ?thesis by simp
  qed
  have ne: "?d \<noteq> []" using m(1) by force
  then have split: "?d = butlast ?d @ [last ?d]" by simp
  have "last ?d = ?d ! ?n" using ne m(1) by (simp add: last_conv_nth)
  with last have l: "load (last ?d) = load x" by simp
  have "mset (map load (butlast ?d)) + {#load (last ?d)#} = mset (map load ?d)"
    by (subst (3) split) simp
  then have "mset (map load (butlast ?d)) = mset (map load q)"
    using m(2) l by simp
  moreover have "HeapPop (x # q) = ok ((last ?d)\<lparr>index := -1\<rparr>, butlast ?d)"
    using ne by (simp add: HeapPop_def Pop_def Let_def)
  ultimately show ?thesis using l m(1) by simp
qed

section \<open>Properties\<close>

text \<open>
  \<^verbatim>\<open>heap.Pop\<close> on the queue as the program builds it, by appending, in heap order or not: it never
  panics on a non-empty queue, hands back the item that was at the front, and keeps exactly the
  other items.
\<close>

theorem heap_pop_front:
  "(case pq of
      [] \<Rightarrow> HeapPop pq = panic IndexRange
    | x # q \<Rightarrow> \<exists>x' q'. HeapPop pq = ok (x', q') \<and> ivalue x' = ivalue x \<and> priority x' = priority x \<and>
                mset (map (\<lambda>i. (ivalue i, priority i)) q') = mset (map (\<lambda>i. (ivalue i, priority i)) q))"
proof (cases pq)
  case Nil
  then show ?thesis by (simp add: HeapPop_def)
next
  case (Cons x q)
  have "load = (\<lambda>i. (ivalue i, priority i))" by (simp add: load_def fun_eq_iff)
  then show ?thesis using HeapPop_front [of x q] Cons by (auto simp: load_def)
qed

end
