(* ===== verification/Tcp_Conn.thy ===== *)
theory Tcp_Conn imports Send_Buf Priority_Queue begin

text \<open>
  A connection's own operations: sending segments (\<^verbatim>\<open>tcp_internal.go\<close>, \<^verbatim>\<open>conn.go\<close>), the
  retransmission queue and its timer (\<^verbatim>\<open>retransmission.go\<close>), the user calls and the sending loop
  (\<^verbatim>\<open>conn.go\<close>). A step maps the \<open>tcb\<close> it starts in to a result and the \<open>tcb\<close> after it; the
  locks of the code make each step atomic.
\<close>

unbundle bit_operations_syntax

section \<open>Sending\<close>

datatype tcp_error = SendFailed | Unacceptable | InvalidAck | RecvBufError buf_error | NotPermitted | Closing

definition set_conn :: "tcb \<Rightarrow> VTCPConn \<Rightarrow> tcb" where
  "set_conn s c = s\<lparr>conn := c\<rparr>"

text \<open>
  \<^verbatim>\<open>send\<close> of \<^verbatim>\<open>tcp_internal.go\<close>: fills in the checksum, encodes the header and hands the bytes to the
  IP layer. The result says whether the error is nil.
\<close>

definition send_packet :: "env \<Rightarrow> TCPPacket \<Rightarrow> Addr \<Rightarrow> Addr \<Rightarrow> (bool \<times> TCPPacket) go" where
  "send_packet E p srcIP destIP =
     (let p0 = p\<lparr>TcpHeader := (TcpHeader p)\<lparr>TcpChecksum := 0\<rparr>\<rparr>
      in bindG (ComputeTCPChecksum E (TcpHeader p0) srcIP destIP (TPayload p0)) (\<lambda>c.
         let p1 = p0\<lparr>TcpHeader := (TcpHeader p0)\<lparr>TcpChecksum := c\<rparr>\<rparr>;
             tcpHeaderBytes = Encode E (TcpHeader p1)
         in bindG (ip_send E destIP (tcpHeaderBytes @ TPayload p1) ProtoNumTCP) (\<lambda>nil_err.
            ok (nil_err, p1))))"

text \<open>On behalf of a connection; a segment that went out is added to the trace.\<close>

definition send_from :: "env \<Rightarrow> tcb \<Rightarrow> TCPPacket \<Rightarrow> (bool \<times> TCPPacket \<times> tcb) go" where
  "send_from E s p =
     bindG (send_packet E p (LocalAddr (endpoint (conn s))) (RemoteAddr (endpoint (conn s)))) (\<lambda>(nil_err, p1).
       ok (nil_err, p1, (if nil_err then s\<lparr>outs := outs s @ [p1]\<rparr> else s)))"

definition newPacket :: "tcb \<Rightarrow> u32 \<Rightarrow> u32 \<Rightarrow> u8 \<Rightarrow> bytes \<Rightarrow> TCPPacket" where
  "newPacket s seq ack flag payload =
     NewTCPacket (LocalPort (endpoint (conn s))) (RemotePort (endpoint (conn s))) seq ack flag payload
       (ucast (windowSize (conn s)))"

definition sendCTL :: "env \<Rightarrow> tcb \<Rightarrow> u32 \<Rightarrow> u32 \<Rightarrow> u8 \<Rightarrow> (TCPPacket option \<times> tcb) go" where
  "sendCTL E s seq ack flag =
     bindG (send_from E s (newPacket s seq ack flag [])) (\<lambda>(nil_err, p, s').
       ok (if nil_err then Some p else None, s'))"

text \<open>The acknowledgement that most handlers send: \<^verbatim>\<open>SND.NXT\<close>, \<^verbatim>\<open>RCV.NXT\<close>, ACK.\<close>

definition sendAck :: "env \<Rightarrow> tcb \<Rightarrow> (TCPPacket option \<times> tcb) go" where
  "sendAck E s = sendCTL E s (sndNxt (conn s)) (expectedSeqNum (conn s)) TCPFlagAck"

section \<open>The retransmission timer\<close>

definition MIN_RTO :: rat where "MIN_RTO = 100"
definition MAX_RTO :: rat where "MAX_RTO = 5000"
definition ALPHA :: rat where "ALPHA = 8 / 10"
definition BETA :: rat where "BETA = 16 / 10"
definition MAX_RETRANSMISSIONS :: nat where "MAX_RETRANSMISSIONS = 3"

text \<open>\<^verbatim>\<open>Timer.Stop\<close>, and the receive from the timer's channel that waits for a tick.\<close>

definition timer_stop :: "gotimer \<Rightarrow> bool \<times> gotimer" where
  "timer_stop t = (running t, t\<lparr>running := False\<rparr>)"

definition timer_drain :: "gotimer \<Rightarrow> gotimer go" where
  "timer_drain t = (if tick t then ok (t\<lparr>tick := False\<rparr>) else panic Blocked)"

definition getRTODuration :: "VTCPConn \<Rightarrow> rat \<times> VTCPConn" where
  "getRTODuration c = (rto c, c\<lparr>rtoIsRunning := True\<rparr>)"

definition timer_reset :: "VTCPConn \<Rightarrow> VTCPConn" where
  "timer_reset c =
     (let (d, c') = getRTODuration c
      in c'\<lparr>retransTimer := (retransTimer c')\<lparr>running := True, timerFor := d\<rparr>\<rparr>)"

text \<open>\<^verbatim>\<open>if rtoIsRunning && !Stop() { <-C }\<close>\<close>

definition stop_and_drain :: "VTCPConn \<Rightarrow> VTCPConn go" where
  "stop_and_drain c =
     (if rtoIsRunning c then
        (let (was_running, t) = timer_stop (retransTimer c)
         in if \<not> was_running then bindG (timer_drain t) (\<lambda>t'. ok (c\<lparr>retransTimer := t'\<rparr>))
            else ok (c\<lparr>retransTimer := t\<rparr>))
      else ok c)"

definition resetRetransTimer :: "VTCPConn \<Rightarrow> bool \<Rightarrow> VTCPConn go" where
  "resetRetransTimer c forced =
     (if \<not> forced \<and> rtoIsRunning c then ok c
      else bindG (stop_and_drain c) (\<lambda>c'. ok (timer_reset c')))"

definition stopRetransTimer :: "VTCPConn \<Rightarrow> VTCPConn go" where
  "stopRetransTimer c = bindG (stop_and_drain c) (\<lambda>c'. ok (c'\<lparr>rtoIsRunning := False\<rparr>))"

text \<open>\<open>rnd\<close> rounds a rational to the nearest 64-bit float.\<close>

definition computeRTT :: "(rat \<Rightarrow> rat) \<Rightarrow> VTCPConn \<Rightarrow> rat \<Rightarrow> VTCPConn" where
  "computeRTT rnd c r =
     (let s = (if firstRTT c then r
               else rnd (rnd (rnd ALPHA * sRTT c) + rnd (rnd (1 - ALPHA) * r)))
      in c\<lparr>sRTT := s, firstRTT := False, rto := max MIN_RTO (min (rnd (rnd BETA * s)) MAX_RTO)\<rparr>)"

section \<open>The retransmission queue\<close>

text \<open>The loop of \<^verbatim>\<open>ackInflight\<close>; times are in nanoseconds, a duration's milliseconds are truncated.\<close>

definition milliseconds :: "int \<Rightarrow> rat" where
  "milliseconds d = of_int (if 0 \<le> d then d div 1000000 else - ((- d) div 1000000))"

fun ackLoop :: "(rat \<Rightarrow> rat) \<Rightarrow> int \<Rightarrow> u32 \<Rightarrow> bool \<Rightarrow> packetMetadata list \<Rightarrow> VTCPConn \<Rightarrow> VTCPConn" where
  "ackLoop rnd acktime ackNum ackRetransmit [] c = c\<lparr>inflightQ := []\<rparr>"
| "ackLoop rnd acktime ackNum ackRetransmit (meta # q) c =
     (if SeqNum (TcpHeader (packet meta)) + plength meta > ackNum then c\<lparr>inflightQ := meta # q\<rparr>
      else if ackRetransmit then ackLoop rnd acktime ackNum True q c
      else if counter meta \<noteq> 0 then ackLoop rnd acktime ackNum True q c
      else ackLoop rnd acktime ackNum False q (computeRTT rnd c (milliseconds (acktime - timeSent meta))))"

definition ackInflight :: "(rat \<Rightarrow> rat) \<Rightarrow> int \<Rightarrow> VTCPConn \<Rightarrow> u32 \<Rightarrow> VTCPConn go" where
  "ackInflight rnd now c ackNum =
     (let c' = ackLoop rnd now ackNum False (inflightQ c) c
      in if inflightQ c' = [] then stopRetransTimer c' else ok c')"

section \<open>The table of connections, seen from one of them\<close>

text \<open>
  \<^verbatim>\<open>deleteSocket\<close> on the connection's own endpoint: it closes the connection the table has there
  and removes the entry; with none there it follows a nil pointer.
\<close>

definition deleteSocket :: "tcb \<Rightarrow> tcb go" where
  "deleteSocket s =
     (case entry s of
        NoEntry \<Rightarrow> panic NilDereference
      | Mine \<Rightarrow> ok (s\<lparr>conn := (conn s)\<lparr>state := CLOSED\<rparr>, entry := NoEntry\<rparr>)
      | Other \<Rightarrow> ok (s\<lparr>entry := NoEntry\<rparr>))"

definition setState :: "tcb \<Rightarrow> State \<Rightarrow> tcb" where
  "setState s st = s\<lparr>conn := (conn s)\<lparr>state := st\<rparr>\<rparr>"

definition spawn :: "tcb \<Rightarrow> goroutine \<Rightarrow> tcb" where
  "spawn s g = s\<lparr>spawned := spawned s @ [g]\<rparr>"

definition send_timed :: "env \<Rightarrow> tcb \<Rightarrow> TCPPacket \<Rightarrow> (bool \<times> TCPPacket \<times> tcb) go" where
  "send_timed E s p =
     bindG (send_from E s p) (\<lambda>(nil_err, p1, s1).
     bindG (resetRetransTimer (conn s1) False) (\<lambda>c. ok (nil_err, p1, set_conn s1 c)))"

text \<open>
  \<^verbatim>\<open>handleRTO\<close>, one tick of the timer. The result says whether the goroutine goes on.
\<close>

definition handleRTO_tick :: "env \<Rightarrow> int \<Rightarrow> tcb \<Rightarrow> (bool \<times> tcb) go" where
  "handleRTO_tick E now s =
     (let c = (conn s)\<lparr>retransTimer := (retransTimer (conn s))\<lparr>tick := False\<rparr>\<rparr>
      in case inflightQ c of
           [] \<Rightarrow> ok (True, set_conn s (c\<lparr>rtoIsRunning := False\<rparr>))
         | inflight # q \<Rightarrow>
             if counter inflight \<ge> MAX_RETRANSMISSIONS then
               (let c1 = c\<lparr>inflightQ := [], sendBuf := (sendBuf c)\<lparr>lbw := sndNxt c\<rparr>, sndUna := sndNxt c\<rparr>
                in bindG (deleteSocket (set_conn s c1)) (\<lambda>s'. ok (False, s')))
             else
               (let c1 = timer_reset (c\<lparr>rto := min (rto c * 2) MAX_RTO\<rparr>);
                    p = (packet inflight)\<lparr>TcpHeader := (TcpHeader (packet inflight))
                          \<lparr>AckNum := expectedSeqNum c1, TcpWindowSize := ucast (windowSize c1)\<rparr>\<rparr>
                in bindG (send_timed E (set_conn s c1) p) (\<lambda>(nil_err, p1, s1).
                   let q' = (\<lambda>m. s1\<lparr>conn := (conn s1)\<lparr>inflightQ := m # q\<rparr>\<rparr>)
                   in if \<not> nil_err then ok (False, q' (inflight\<lparr>packet := p1\<rparr>))
                      else ok (True, q' (inflight\<lparr>packet := p1, timeSent := now, counter := counter inflight + 1\<rparr>)))))"

section \<open>The user calls\<close>

text \<open>
  \<^verbatim>\<open>VRead\<close>: the count, the error, the caller's slice and the connection; \<open>VReadBlocks\<close> when the
  receive buffer makes the caller wait.
\<close>

datatype vread_outcome =
    VReadDone int "tcp_error option" bytes VTCPConn
  | VReadBlocks

definition VRead :: "VTCPConn \<Rightarrow> bytes \<Rightarrow> vread_outcome go" where
  "VRead c buf =
     (if state c = CLOSE_WAIT \<or> state c = LAST_ACK then
        bindG (WindowSize (recvBuf c)) (\<lambda>w.
          if w = 0 then ok (VReadDone 0 (Some (RecvBufError EOF)) buf c)
          else bindG (Read (recvBuf c) buf) (\<lambda>r. case r of
                 ReadBlocks \<Rightarrow> ok VReadBlocks
               | ReadDone n err buf' rb \<Rightarrow>
                   ok (case err of
                         Some e \<Rightarrow> VReadDone 0 (Some (RecvBufError e)) buf' (c\<lparr>recvBuf := rb\<rparr>)
                       | None \<Rightarrow> VReadDone (uint n) (Some (RecvBufError EOF)) buf' (c\<lparr>recvBuf := rb\<rparr>))))
      else if state c = FIN_WAIT_2 \<or> state c = FIN_WAIT_1 \<or> state c = CLOSING
      then ok (VReadDone 0 (Some NotPermitted) buf c)
      else bindG (Read (recvBuf c) buf) (\<lambda>r. case r of
             ReadBlocks \<Rightarrow> ok VReadBlocks
           | ReadDone n err buf' rb \<Rightarrow>
               ok (case err of
                     Some e \<Rightarrow> VReadDone 0 (Some (RecvBufError e)) buf' (c\<lparr>recvBuf := rb\<rparr>)
                   | None \<Rightarrow> VReadDone (uint n) None buf' (c\<lparr>recvBuf := rb, windowSize := windowSize c + n\<rparr>))))"

text \<open>
  \<^verbatim>\<open>VWrite\<close>: \<open>VWriteWaits\<close> gives the bytes written so far when the call waits for free space; it goes
  on with the rest of the data when there is some.
\<close>

datatype vwrite_outcome =
    VWriteDone nat "tcp_error option" VTCPConn
  | VWriteWaits nat VTCPConn

lemma writeToSendBuf_progress:
  assumes "writeToSendBuf c data = ok (n, c')" and "data \<noteq> []"
  shows "0 < n"
  using assms by (auto simp: writeToSendBuf_def Let_def split: if_splits elim!: bindG_okE)

function VWriteLoop :: "VTCPConn \<Rightarrow> bytes \<Rightarrow> nat \<Rightarrow> vwrite_outcome go" where
  "VWriteLoop c data bytesWritten =
     (if bytesWritten < length data then
        (if state c \<in> {FIN_WAIT_1, FIN_WAIT_2, CLOSING, TIME_WAIT}
         then ok (VWriteDone bytesWritten (Some Closing) c)
         else if sendBufFreeSpace c = 0 then ok (VWriteWaits bytesWritten c)
         else (case writeToSendBuf c (drop bytesWritten data) of
                 Inl e \<Rightarrow> Inl e
               | Inr (w, c') \<Rightarrow> VWriteLoop c' data (bytesWritten + w)))
      else ok (VWriteDone bytesWritten None c))"
  by auto
termination
  by (relation "measure (\<lambda>(c, data, k). length data - k)")
    (auto dest!: writeToSendBuf_progress [unfolded ok_def])

declare VWriteLoop.simps [simp del]

definition VWrite :: "VTCPConn \<Rightarrow> bytes \<Rightarrow> vwrite_outcome go" where
  "VWrite c data = VWriteLoop c data 0"

section \<open>The sending loop\<close>

text \<open>
  One turn of \<^verbatim>\<open>sendBufferedData\<close>. \<open>Waiting\<close>: nothing to send and no token. \<open>Probe\<close>: the peer's window
  is zero, and the loop will send one byte every two seconds while neither the window nor \<open>SND.UNA\<close>
  changes; \<open>probe_round\<close> is one of these rounds.
\<close>

datatype loop_result =
    Waiting tcb
  | Again tcb
  | Probe TCPPacket u32 u32 tcb
  | LoopEnds tcb

definition sendBufferedData_turn :: "env \<Rightarrow> int \<Rightarrow> tcb \<Rightarrow> loop_result go" where
  "sendBufferedData_turn E now s =
     (let c = conn s; b = sendBuf c
      in if numBytesNotSent c = 0 then
           (if hasUnsentC b = 0 then ok (Waiting s)
            else ok (Again (set_conn s (c\<lparr>sendBuf := b\<lparr>hasUnsentC := hasUnsentC b - 1\<rparr>\<rparr>))))
         else
           let c1 = c\<lparr>sendBuf := b\<lparr>hasUnsentC := 0\<rparr>\<rparr>; s1 = set_conn s c1
           in if sndWnd c1 = 0 then
                bindG (sindex b (sndNxt c1)) (\<lambda>i.
                  if i \<ge> length (sbuf b) then panic IndexRange
                  else ok (Probe (newPacket s1 (sndNxt c1) (expectedSeqNum c1) TCPFlagAck [sbuf b ! i])
                             (sndUna c1) (sndNxt c1 + 1) s1))
              else
                bindG (bytesNotSent c1 MSS) (\<lambda>(numBytes, bytesToSend).
                  if numBytes = 0 then ok (Again s1)
                  else
                    bindG (send_timed E s1 (newPacket s1 (sndNxt c1) (expectedSeqNum c1) TCPFlagAck bytesToSend))
                      (\<lambda>(nil_err, p, s2).
                        if \<not> nil_err then ok (LoopEnds s2)
                        else ok (Again (set_conn s2 ((conn s2)
                          \<lparr>inflightQ := inflightQ (conn s2) @
                             [\<lparr>timeSent = now, plength = of_nat numBytes, counter = 0, packet = p\<rparr>],
                           sndNxt := sndNxt (conn s2) + of_nat numBytes\<rparr>))))))"

definition probe_round :: "env \<Rightarrow> TCPPacket \<Rightarrow> u32 \<Rightarrow> u32 \<Rightarrow> tcb \<Rightarrow> loop_result go" where
  "probe_round E p oldUna newNxt s =
     (if sndWnd (conn s) = 0 \<and> sndUna (conn s) = oldUna then
        bindG (send_from E s p) (\<lambda>(nil_err, p1, s1).
          if \<not> nil_err then ok (LoopEnds s1)
          else ok (Probe p1 oldUna newNxt (set_conn s1 ((conn s1)\<lparr>sndNxt := newNxt\<rparr>))))
      else ok (Again s))"

section \<open>Lemmas on sending\<close>

text \<open>The IP layer takes every segment for the peer.\<close>

definition net_up :: "env \<Rightarrow> Addr \<Rightarrow> bool" where
  "net_up E dst \<longleftrightarrow> (\<forall>b. ip_send E dst b ProtoNumTCP = ok True)"

text \<open>A segment of the connection with its checksum filled in.\<close>

definition sealed :: "env \<Rightarrow> tcb \<Rightarrow> TCPPacket \<Rightarrow> TCPPacket" where
  "sealed E s p = p\<lparr>TcpHeader := (TcpHeader p)\<lparr>TcpChecksum :=
     (case ComputeTCPChecksum E ((TcpHeader p)\<lparr>TcpChecksum := 0\<rparr>) (LocalAddr (endpoint (conn s)))
             (RemoteAddr (endpoint (conn s))) (TPayload p) of Inr c \<Rightarrow> c | Inl e \<Rightarrow> 0)\<rparr>\<rparr>"

lemma sealed_fields [simp]:
  "SeqNum (TcpHeader (sealed E s p)) = SeqNum (TcpHeader p)"
  "AckNum (TcpHeader (sealed E s p)) = AckNum (TcpHeader p)"
  "Flags (TcpHeader (sealed E s p)) = Flags (TcpHeader p)"
  "TcpWindowSize (TcpHeader (sealed E s p)) = TcpWindowSize (TcpHeader p)"
  "TPayload (sealed E s p) = TPayload p"
  by (simp_all add: sealed_def)

definition emit :: "tcb \<Rightarrow> TCPPacket \<Rightarrow> tcb" where
  "emit s p = s\<lparr>outs := outs s @ [p]\<rparr>"

lemma emit_fields [simp]:
  "conn (emit s p) = conn s" "entry (emit s p) = entry s" "outs (emit s p) = outs s @ [p]" "spawned (emit s p) = spawned s"
  by (simp_all add: emit_def)

lemma set_conn_fields [simp]:
  "conn (set_conn s c) = c" "entry (set_conn s c) = entry s" "outs (set_conn s c) = outs s" "spawned (set_conn s c) = spawned s"
  by (simp_all add: set_conn_def)

lemma send_from_cases:
  "(\<exists>e. send_from E s p = Inl e) \<or> send_from E s p = ok (True, sealed E s p, emit s (sealed E s p)) \<or>
   send_from E s p = ok (False, sealed E s p, s)"
proof -
  obtain c where c: "ComputeTCPChecksum E ((TcpHeader p)\<lparr>TcpChecksum := 0\<rparr>) (LocalAddr (endpoint (conn s)))
      (RemoteAddr (endpoint (conn s))) (TPayload p) = ok c"
    using ComputeTCPChecksum_ok by blast
  then have p1: "sealed E s p = p\<lparr>TcpHeader := (TcpHeader p)\<lparr>TcpChecksum := c\<rparr>\<rparr>"
    by (simp add: sealed_def ok_def)
  show ?thesis
  proof (cases "ip_send E (RemoteAddr (endpoint (conn s))) (Encode E ((TcpHeader p)\<lparr>TcpChecksum := c\<rparr>) @ TPayload p) ProtoNumTCP")
    case (Inl e)
    then show ?thesis using c by (simp add: send_from_def send_packet_def Let_def)
  next
    case (Inr b)
    then show ?thesis using c by (cases b) (simp_all add: send_from_def send_packet_def Let_def p1 emit_def)
  qed
qed

lemma send_from_up:
  assumes "net_up E (RemoteAddr (endpoint (conn s)))"
  shows "send_from E s p = ok (True, sealed E s p, emit s (sealed E s p))"
proof -
  obtain c where c: "ComputeTCPChecksum E ((TcpHeader p)\<lparr>TcpChecksum := 0\<rparr>) (LocalAddr (endpoint (conn s)))
      (RemoteAddr (endpoint (conn s))) (TPayload p) = ok c"
    using ComputeTCPChecksum_ok by blast
  then have "sealed E s p = p\<lparr>TcpHeader := (TcpHeader p)\<lparr>TcpChecksum := c\<rparr>\<rparr>"
    by (simp add: sealed_def ok_def)
  with c show ?thesis
    using assms by (simp add: send_from_def send_packet_def net_up_def Let_def emit_def)
qed

lemma sendCTL_up:
  assumes "net_up E (RemoteAddr (endpoint (conn s)))"
  shows "sendCTL E s seq ack flag =
    ok (Some (sealed E s (newPacket s seq ack flag [])), emit s (sealed E s (newPacket s seq ack flag [])))"
  by (simp add: sendCTL_def send_from_up [OF assms])

text \<open>The acknowledgement as a segment.\<close>

definition ack_segment :: "env \<Rightarrow> tcb \<Rightarrow> TCPPacket" where
  "ack_segment E s = sealed E s (newPacket s (sndNxt (conn s)) (expectedSeqNum (conn s)) TCPFlagAck [])"

lemma ack_segment_fields [simp]:
  "SeqNum (TcpHeader (ack_segment E s)) = sndNxt (conn s)"
  "AckNum (TcpHeader (ack_segment E s)) = expectedSeqNum (conn s)"
  "Flags (TcpHeader (ack_segment E s)) = TCPFlagAck"
  "TcpWindowSize (TcpHeader (ack_segment E s)) = ucast (windowSize (conn s))"
  "TPayload (ack_segment E s) = []"
  by (simp_all add: ack_segment_def newPacket_def)

lemma sendAck_up:
  "net_up E (RemoteAddr (endpoint (conn s))) \<Longrightarrow> sendAck E s = ok (Some (ack_segment E s), emit s (ack_segment E s))"
  by (simp add: sendAck_def sendCTL_up ack_segment_def)

text \<open>Whatever the IP layer answers, sending leaves the connection and its table entry alone.\<close>

lemma sendCTL_keeps:
  assumes "sendCTL E s seq ack flag = ok (q, s')"
  shows "conn s' = conn s \<and> entry s' = entry s \<and> spawned s' = spawned s"
  using assms send_from_cases [of E s "newPacket s seq ack flag []"]
  by (auto simp: sendCTL_def ok_def emit_def)

lemma sendAck_keeps:
  "sendAck E s = ok (q, s') \<Longrightarrow> conn s' = conn s \<and> entry s' = entry s \<and> spawned s' = spawned s"
  unfolding sendAck_def by (rule sendCTL_keeps)

section \<open>The timer and the retransmission queue\<close>

text \<open>The round-trip estimate keeps the timeout within its bounds.\<close>

lemma computeRTT_bounds: "MIN_RTO \<le> rto (computeRTT rnd c r) \<and> rto (computeRTT rnd c r) \<le> MAX_RTO"
  by (simp add: computeRTT_def Let_def MIN_RTO_def MAX_RTO_def min_def max_def)

text \<open>A segment is acknowledged when its last sequence number is at most \<open>SEG.ACK\<close>.\<close>

definition acked_by :: "u32 \<Rightarrow> packetMetadata \<Rightarrow> bool" where
  "acked_by ackNum m \<longleftrightarrow> SeqNum (TcpHeader (packet m)) + plength m \<le> ackNum"

lemma ackLoop_queue:
  "inflightQ (ackLoop rnd t a b q c) = dropWhile (acked_by a) q"
  by (induction rnd t a b q c rule: ackLoop.induct) (auto simp: acked_by_def not_less [symmetric])

text \<open>A connection without its retransmission state: what timers and acknowledged segments leave alone.\<close>

definition core :: "VTCPConn \<Rightarrow> VTCPConn" where
  "core c = c\<lparr>inflightQ := [], retransTimer := \<lparr>running = False, tick = False, timerFor = 0\<rparr>,
     rtoIsRunning := False, rto := 0, firstRTT := False, sRTT := 0\<rparr>"

lemma core_fields:
  assumes "core c' = core c"
  shows "endpoint c' = endpoint c" "state c' = state c" "iss c' = iss c" "irs c' = irs c"
    "sndNxt c' = sndNxt c" "sndUna c' = sndUna c" "sndWnd c' = sndWnd c" "expectedSeqNum c' = expectedSeqNum c"
    "windowSize c' = windowSize c" "sendBuf c' = sendBuf c" "recvBuf c' = recvBuf c"
    "earlyArrivalQ c' = earlyArrivalQ c"
  using assms by (cases c; cases c'; simp add: core_def)+

lemma core_computeRTT [simp]: "core (computeRTT rnd c r) = core c"
  by (simp add: core_def computeRTT_def Let_def)

lemma core_inflightQ [simp]: "core (c\<lparr>inflightQ := q\<rparr>) = core c"
  by (simp add: core_def)

lemma core_ackLoop [simp]: "core (ackLoop rnd t n e q c) = core c"
  by (induction rnd t n e q c rule: ackLoop.induct) simp_all

lemma core_timer_reset [simp]: "core (timer_reset c) = core c"
  by (simp add: core_def timer_reset_def getRTODuration_def)

lemma core_stop_and_drain: "stop_and_drain c = ok c' \<Longrightarrow> core c' = core c"
  by (auto simp: stop_and_drain_def timer_stop_def core_def split: if_splits elim!: bindG_okE)

lemma core_resetRetransTimer:
  assumes "resetRetransTimer c f = ok c'"
  shows "core c' = core c"
proof (cases "\<not> f \<and> rtoIsRunning c")
  case True
  then show ?thesis using assms by (simp add: resetRetransTimer_def)
next
  case False
  then obtain x where "stop_and_drain c = ok x" and "c' = timer_reset x"
    using assms by (auto simp: resetRetransTimer_def bindG_eq_ok_iff split: if_splits)
  then show ?thesis by (simp add: core_stop_and_drain)
qed

lemma core_stopRetransTimer:
  assumes "stopRetransTimer c = ok c'"
  shows "core c' = core c"
proof -
  obtain x where x: "stop_and_drain c = ok x" and "c' = x\<lparr>rtoIsRunning := False\<rparr>"
    using assms by (auto simp: stopRetransTimer_def bindG_eq_ok_iff)
  then have "core c' = core x" by (simp add: core_def)
  then show ?thesis using core_stop_and_drain [OF x] by simp
qed

lemma core_ackInflight: "ackInflight rnd now c a = ok c' \<Longrightarrow> core c' = core c"
  by (auto simp: ackInflight_def Let_def dest: core_stopRetransTimer split: if_splits)

text \<open>
  A timer that counts as running really is, or has a tick to take: then stopping and resetting
  never wait.
\<close>

definition timer_wf :: "VTCPConn \<Rightarrow> bool" where
  "timer_wf c \<longleftrightarrow> (rtoIsRunning c \<longrightarrow> running (retransTimer c) \<or> tick (retransTimer c))"

lemma stop_and_drain_wf:
  assumes "timer_wf c"
  shows "\<exists>c'. stop_and_drain c = ok c' \<and> inflightQ c' = inflightQ c \<and> rto c' = rto c"
  using assms by (auto simp: timer_wf_def stop_and_drain_def timer_stop_def timer_drain_def)

lemma resetRetransTimer_wf:
  assumes "timer_wf c"
  shows "\<exists>c'. resetRetransTimer c f = ok c' \<and> timer_wf c' \<and> rtoIsRunning c' \<and>
    inflightQ c' = inflightQ c \<and> rto c' = rto c"
proof (cases "\<not> f \<and> rtoIsRunning c")
  case True
  then show ?thesis using assms by (simp add: resetRetransTimer_def)
next
  case False
  then show ?thesis
    using stop_and_drain_wf [OF assms]
    by (auto simp: resetRetransTimer_def timer_reset_def getRTODuration_def timer_wf_def)
qed

lemma stopRetransTimer_wf:
  assumes "timer_wf c"
  shows "\<exists>c'. stopRetransTimer c = ok c' \<and> timer_wf c' \<and> \<not> rtoIsRunning c' \<and> inflightQ c' = inflightQ c"
  using stop_and_drain_wf [OF assms] by (auto simp: stopRetransTimer_def timer_wf_def)

lemma ackLoop_timer: "retransTimer (ackLoop rnd t n e q c) = retransTimer c \<and> rtoIsRunning (ackLoop rnd t n e q c) = rtoIsRunning c"
  by (induction rnd t n e q c rule: ackLoop.induct) (simp_all add: computeRTT_def Let_def)

lemma ackInflight_wf:
  assumes "timer_wf c"
  shows "\<exists>c'. ackInflight rnd now c a = ok c' \<and> timer_wf c' \<and> inflightQ c' = dropWhile (acked_by a) (inflightQ c) \<and>
    (inflightQ c' = [] \<longrightarrow> \<not> rtoIsRunning c') \<and> (inflightQ c' \<noteq> [] \<longrightarrow> rtoIsRunning c' = rtoIsRunning c)"
proof -
  let ?c = "ackLoop rnd now a False (inflightQ c) c"
  have q: "inflightQ ?c = dropWhile (acked_by a) (inflightQ c)" by (rule ackLoop_queue)
  have wf: "timer_wf ?c" using assms ackLoop_timer [of rnd now a False "inflightQ c" c] by (simp add: timer_wf_def)
  show ?thesis
  proof (cases "inflightQ ?c = []")
    case True
    then show ?thesis using stopRetransTimer_wf [OF wf] q by (auto simp: ackInflight_def Let_def)
  next
    case False
    then have "ackInflight rnd now c a = ok ?c" by (simp add: ackInflight_def)
    then show ?thesis using False wf q ackLoop_timer [of rnd now a False "inflightQ c" c] by auto
  qed
qed

section \<open>Properties\<close>

text \<open>An environment for the witnesses: every segment is taken, and every sum is zero.\<close>

definition demo_env :: env where
  "demo_env = \<lparr>Checksum = (\<lambda>b c. 0), hdr_Marshal = (\<lambda>h. None), hdr_Parse = (\<lambda>b. None), ListenUDP = (\<lambda>a. True),
     WriteToUDP = (\<lambda>b a. True), Encode = (\<lambda>h. replicate 20 0), td_SourcePort = (\<lambda>b. ok 0),
     td_DestinationPort = (\<lambda>b. ok 0), td_SequenceNumber = (\<lambda>b. ok 0), td_AckNumber = (\<lambda>b. ok 0),
     td_DataOffset = (\<lambda>b. ok 20), td_Flags = (\<lambda>b. ok 0), td_WindowSize = (\<lambda>b. ok 0), td_Checksum = (\<lambda>b. ok 0),
     ip_send = (\<lambda>d b p. ok True)\<rparr>"

lemma demo_net_up: "net_up demo_env a"
  by (simp add: net_up_def demo_env_def)

definition demo_tcb :: "VTCPConn \<Rightarrow> tcb" where
  "demo_tcb c = \<lparr>conn = c, entry = Mine, outs = [], spawned = []\<rparr>"

definition demo_meta :: "u32 \<Rightarrow> bytes \<Rightarrow> u8 \<Rightarrow> packetMetadata" where
  "demo_meta seq d fl = \<lparr>timeSent = 0, plength = of_nat (length d), counter = 0, packet = NewTCPacket 20000 80 seq 8 fl d 65535\<rparr>"

lemma send_timed_up:
  assumes "net_up E (RemoteAddr (endpoint (conn s)))" and "rtoIsRunning (conn s)"
  shows "send_timed E s p = ok (True, sealed E s p, emit s (sealed E s p))"
  using assms by (simp add: send_timed_def send_from_up resetRetransTimer_def set_conn_def emit_def)

text \<open>What the timer does not change.\<close>

lemma rto_stop_and_drain: "stop_and_drain c = ok c' \<Longrightarrow> rto c' = rto c"
  by (auto simp: stop_and_drain_def timer_stop_def bindG_eq_ok_iff split: if_splits)

lemma rto_stopRetransTimer: "stopRetransTimer c = ok c' \<Longrightarrow> rto c' = rto c"
  using rto_stop_and_drain by (auto simp: stopRetransTimer_def bindG_eq_ok_iff)

lemma rto_resetRetransTimer: "resetRetransTimer c f = ok c' \<Longrightarrow> rto c' = rto c"
  using rto_stop_and_drain
  by (auto simp: resetRetransTimer_def timer_reset_def getRTODuration_def bindG_eq_ok_iff split: if_splits)

lemma rto_send_timed:
  assumes "send_timed E s p = ok (e, p1, s')"
  shows "rto (conn s') = rto (conn s)"
proof -
  obtain s1 c where s1: "send_from E s p = ok (e, p1, s1)" "resetRetransTimer (conn s1) False = ok c" "s' = set_conn s1 c"
    using assms by (auto simp: send_timed_def bindG_eq_ok_iff)
  moreover have "conn s1 = conn s" using s1(1) send_from_cases [of E s p] by (auto simp: ok_def)
  ultimately show ?thesis using rto_resetRetransTimer by simp
qed

lemma rto_ackLoop: "rto (ackLoop rnd t n e q c) = rto c \<or>
    (MIN_RTO \<le> rto (ackLoop rnd t n e q c) \<and> rto (ackLoop rnd t n e q c) \<le> MAX_RTO)"
proof (induction rnd t n e q c rule: ackLoop.induct)
  case (2 rnd t n e m q c)
  then show ?case using computeRTT_bounds [of rnd c] by auto
qed simp

lemma rto_tick:
  assumes "handleRTO_tick E now s = ok (b, s')"
  shows "rto (conn s') = rto (conn s) \<or> rto (conn s') = min (rto (conn s) * 2) MAX_RTO"
  using assms
  by (auto simp: handleRTO_tick_def Let_def deleteSocket_def timer_reset_def getRTODuration_def bindG_eq_ok_iff
      split: list.splits if_splits table_entry.splits dest!: rto_send_timed)

text \<open>
  C33. The retransmission timeout stays between 100 ms and 5 s: after every round-trip measurement,
  whatever the rounding, after every acknowledgement and after every tick of the timer.
\<close>

theorem rto_bounds:
  assumes "100 \<le> rto (conn s)" and "rto (conn s) \<le> 5000"
  shows "(100 \<le> rto (computeRTT rnd (conn s) r) \<and> rto (computeRTT rnd (conn s) r) \<le> 5000) \<and>
    (\<forall>c'. ackInflight rnd now (conn s) a = ok c' \<longrightarrow> 100 \<le> rto c' \<and> rto c' \<le> 5000) \<and>
    (\<forall>b s'. handleRTO_tick E now s = ok (b, s') \<longrightarrow> 100 \<le> rto (conn s') \<and> rto (conn s') \<le> 5000)"
proof (intro conjI allI impI)
  show "100 \<le> rto (computeRTT rnd (conn s) r)" "rto (computeRTT rnd (conn s) r) \<le> 5000"
    using computeRTT_bounds [of rnd "conn s" r] by (auto simp: MIN_RTO_def MAX_RTO_def)
next
  fix c' assume "ackInflight rnd now (conn s) a = ok c'"
  then have "rto c' = rto (ackLoop rnd now a False (inflightQ (conn s)) (conn s))"
    using rto_stopRetransTimer by (auto simp: ackInflight_def Let_def split: if_splits)
  then show "100 \<le> rto c'" "rto c' \<le> 5000"
    using assms rto_ackLoop [of rnd now a False "inflightQ (conn s)" "conn s"] by (auto simp: MIN_RTO_def MAX_RTO_def)
next
  fix b s' assume "handleRTO_tick E now s = ok (b, s')"
  from rto_tick [OF this] show "100 \<le> rto (conn s')" "rto (conn s') \<le> 5000"
    using assms by (auto simp: MAX_RTO_def)
qed

lemma rto_bounds_witness:
  "100 \<le> rto (computeRTT (\<lambda>x. x) (demo_sender 9) 7) \<and> rto (computeRTT (\<lambda>x. x) (demo_sender 9) 7) \<le> 5000"
  using rto_bounds [of "demo_tcb (demo_sender 9)" "\<lambda>x. x" 7] by (simp add: demo_tcb_def demo_sender_def NewSocket_def)

text \<open>
  C32. A tick of the retransmission timer, on every branch, when the IP layer takes the segment. With
  nothing in flight the timer counts as stopped; after three retransmissions of the oldest segment
  the connection is closed, its table entry removed and everything unsent or unacknowledged given
  up; otherwise the oldest segment goes out again with the same sequence number, flags and payload,
  the current acknowledgement and window, and the timeout doubles up to 5 s.
\<close>

theorem retransmission_tick:
  assumes up: "net_up E (RemoteAddr (endpoint (conn s)))" and mine: "entry s = Mine"
  shows "(case inflightQ (conn s) of
      [] \<Rightarrow> \<exists>s'. handleRTO_tick E now s = ok (True, s') \<and> outs s' = outs s \<and> \<not> rtoIsRunning (conn s') \<and>
             state (conn s') = state (conn s)
    | m # q \<Rightarrow>
        if counter m < 3 then
          \<exists>s' p. handleRTO_tick E now s = ok (True, s') \<and> outs s' = outs s @ [p] \<and>
             SeqNum (TcpHeader p) = SeqNum (TcpHeader (packet m)) \<and> TPayload p = TPayload (packet m) \<and>
             Flags (TcpHeader p) = Flags (TcpHeader (packet m)) \<and>
             AckNum (TcpHeader p) = expectedSeqNum (conn s) \<and>
             TcpWindowSize (TcpHeader p) = ucast (windowSize (conn s)) \<and>
             inflightQ (conn s') = m\<lparr>packet := p, timeSent := now, counter := counter m + 1\<rparr> # q \<and>
             rto (conn s') = min (rto (conn s) * 2) 5000 \<and> rtoIsRunning (conn s') \<and> running (retransTimer (conn s'))
        else
          \<exists>s'. handleRTO_tick E now s = ok (False, s') \<and> outs s' = outs s \<and> entry s' = NoEntry \<and>
             state (conn s') = CLOSED \<and> inflightQ (conn s') = [] \<and> numBytesNotSent (conn s') = 0 \<and>
             sndUna (conn s') = sndNxt (conn s'))"
proof (cases "inflightQ (conn s)")
  case Nil
  then show ?thesis by (simp add: handleRTO_tick_def)
next
  case (Cons m q)
  show ?thesis
  proof (cases "counter m < 3")
    case True
    let ?c = "timer_reset ((conn s)\<lparr>retransTimer := (retransTimer (conn s))\<lparr>tick := False\<rparr>, rto := min (rto (conn s) * 2) MAX_RTO\<rparr>)"
    let ?p = "(packet m)\<lparr>TcpHeader := (TcpHeader (packet m))\<lparr>AckNum := expectedSeqNum ?c, TcpWindowSize := ucast (windowSize ?c)\<rparr>\<rparr>"
    have same: "endpoint ?c = endpoint (conn s)" "rtoIsRunning ?c" "expectedSeqNum ?c = expectedSeqNum (conn s)"
      "windowSize ?c = windowSize (conn s)" "rto ?c = min (rto (conn s) * 2) 5000" "running (retransTimer ?c)"
      by (simp_all add: timer_reset_def getRTODuration_def MAX_RTO_def)
    have "send_timed E (set_conn s ?c) ?p = ok (True, sealed E (set_conn s ?c) ?p, emit (set_conn s ?c) (sealed E (set_conn s ?c) ?p))"
      using up same by (intro send_timed_up) simp_all
    then show ?thesis
      using Cons True same by (simp add: handleRTO_tick_def MAX_RETRANSMISSIONS_def Let_def)
  next
    case False
    then show ?thesis
      using Cons mine by (simp add: handleRTO_tick_def MAX_RETRANSMISSIONS_def deleteSocket_def numBytesNotSent_def Let_def)
  qed
qed

lemma retransmission_tick_witness:
  "\<exists>s'. handleRTO_tick demo_env 5 (demo_tcb ((demo_sender 9)\<lparr>inflightQ := [(demo_meta 10 [1] 16)\<lparr>counter := 3\<rparr>]\<rparr>)) = ok (False, s') \<and>
     state (conn s') = CLOSED \<and> entry s' = NoEntry"
  using retransmission_tick [of demo_env "demo_tcb ((demo_sender 9)\<lparr>inflightQ := [(demo_meta 10 [1] 16)\<lparr>counter := 3\<rparr>]\<rparr>)" 5]
  by (auto simp: demo_net_up demo_tcb_def)

text \<open>
  An acknowledgement takes exactly the leading segments that end at or below it off the
  retransmission queue, stops the timer exactly when none is left, changes nothing else of the
  connection but the round-trip estimate, and never waits on the timer's channel.
\<close>

theorem ack_inflight:
  assumes "timer_wf c"
  shows "\<exists>c'. ackInflight rnd now c a = ok c' \<and> timer_wf c' \<and> core c' = core c \<and>
    inflightQ c' = dropWhile (\<lambda>m. SeqNum (TcpHeader (packet m)) + plength m \<le> a) (inflightQ c) \<and>
    rtoIsRunning c' = (inflightQ c' \<noteq> [] \<and> rtoIsRunning c)"
proof -
  have "acked_by a = (\<lambda>m. SeqNum (TcpHeader (packet m)) + plength m \<le> a)" by (simp add: acked_by_def fun_eq_iff)
  then show ?thesis using ackInflight_wf [OF assms, of rnd now a] core_ackInflight by metis
qed

lemma ack_inflight_witness:
  "\<exists>c'. ackInflight (\<lambda>x. x) 7 ((demo_sender 9)\<lparr>inflightQ := [demo_meta 10 [1, 2] 16, demo_meta 12 [3] 16]\<rparr>) 12 = ok c' \<and>
     inflightQ c' = [demo_meta 12 [3] 16]"
proof -
  have "timer_wf ((demo_sender 9)\<lparr>inflightQ := [demo_meta 10 [1, 2] 16, demo_meta 12 [3] 16]\<rparr>)"
    by (simp add: timer_wf_def demo_sender_def NewSocket_def)
  from ack_inflight [OF this, of "\<lambda>x. x" 7 12] show ?thesis
    by (auto simp: demo_meta_def NewTCPacket_def)
qed

text \<open>
  A FIN is queued for retransmission with length 0, although it takes a sequence number. So an
  acknowledgement of all the data before it, but not of the FIN itself, empties the queue and stops
  the timer, and from then on ticks send nothing: a lost FIN is never sent again.
\<close>

theorem fin_not_retransmitted:
  assumes "timer_wf c" and "inflightQ c = data @ [fin]" and "\<forall>m \<in> set data. acked_by a m"
    and "plength fin = 0" and "SeqNum (TcpHeader (packet fin)) = a"
  shows "\<exists>c'. ackInflight rnd now c a = ok c' \<and> inflightQ c' = [] \<and> \<not> rtoIsRunning c' \<and> sndNxt c' = sndNxt c \<and>
    (\<forall>E t out. \<exists>s'. handleRTO_tick E t \<lparr>conn = c', entry = Mine, outs = out, spawned = []\<rparr> = ok (True, s') \<and>
       outs s' = out \<and> inflightQ (conn s') = [])"
proof -
  have "acked_by a fin" using assms(4,5) by (simp add: acked_by_def)
  then have "dropWhile (acked_by a) (inflightQ c) = []" using assms(2,3) by simp
  then obtain c' where c': "ackInflight rnd now c a = ok c'" "inflightQ c' = []" "\<not> rtoIsRunning c'"
    using ackInflight_wf [OF assms(1), of rnd now a] by auto
  moreover have "sndNxt c' = sndNxt c" using core_fields(5) [OF core_ackInflight [OF c'(1)]] .
  ultimately show ?thesis by (auto simp: handleRTO_tick_def)
qed

lemma fin_not_retransmitted_witness:
  "\<exists>c'. ackInflight (\<lambda>x. x) 7 ((demo_sender 9)\<lparr>inflightQ := [demo_meta 10 [1, 2] 16] @ [demo_meta 12 [] 17], sndNxt := 13\<rparr>) 12 = ok c' \<and>
     inflightQ c' = [] \<and> \<not> rtoIsRunning c' \<and> sndNxt c' = 13"
proof -
  let ?c = "(demo_sender 9)\<lparr>inflightQ := [demo_meta 10 [1, 2] 16] @ [demo_meta 12 [] 17], sndNxt := 13\<rparr>"
  have "\<exists>c'. ackInflight (\<lambda>x. x) 7 ?c 12 = ok c' \<and> inflightQ c' = [] \<and> \<not> rtoIsRunning c' \<and> sndNxt c' = sndNxt ?c \<and>
    (\<forall>E t out. \<exists>s'. handleRTO_tick E t \<lparr>conn = c', entry = Mine, outs = out, spawned = []\<rparr> = ok (True, s') \<and>
       outs s' = out \<and> inflightQ (conn s') = [])"
    by (rule fin_not_retransmitted [of ?c "[demo_meta 10 [1, 2] 16]" "demo_meta 12 [] 17"])
      (simp_all add: timer_wf_def demo_sender_def NewSocket_def acked_by_def demo_meta_def NewTCPacket_def)
  then show ?thesis by auto
qed

end
