(* ===== verification/Tcp_Segment.thy ===== *)
theory Tcp_Segment imports Tcp_Conn begin

text \<open>
  The parts of segment processing that the states share (\<^verbatim>\<open>state_internal.go\<close> and
  \<^verbatim>\<open>aggregateEarlyArrivals\<close> of \<^verbatim>\<open>tcp_internal.go\<close>): the acceptance test, the sequence number, the
  acknowledgement, the text and the FIN bit.
\<close>

section \<open>The code\<close>

definition isValidSeg :: "TCPPacket \<Rightarrow> VTCPConn \<Rightarrow> bool" where
  "isValidSeg segment c =
     (let segLen = length (TPayload segment);
          segSeq = SeqNum (TcpHeader segment);
          rcvWnd = windowSize c;
          rcvNxt = expectedSeqNum c
      in if segLen = 0 \<and> rcvWnd = 0 then segSeq = rcvNxt
         else if segLen = 0 \<and> sint rcvWnd > 0 then segSeq \<ge> rcvNxt \<and> segSeq < rcvNxt + rcvWnd
         else if segLen > 0 \<and> rcvWnd = 0 then False
         else
           (segSeq \<ge> rcvNxt \<and> segSeq < rcvNxt + rcvWnd) \<or>
           (segSeq + of_nat segLen - 1 \<ge> rcvNxt \<and> segSeq + of_nat segLen - 1 < rcvNxt + rcvWnd))"

text \<open>A slice expression whose upper bound is an \<^verbatim>\<open>int32\<close>.\<close>

definition slice_signed :: "bytes \<Rightarrow> nat \<Rightarrow> int \<Rightarrow> bytes go" where
  "slice_signed xs lo hi = (if hi < 0 then panic SliceBounds else go_slice xs lo (nat hi))"

text \<open>
  The loop of \<^verbatim>\<open>aggregateEarlyArrivals\<close>, on the queue, the data so far, \<^verbatim>\<open>startSeq\<close> and \<^verbatim>\<open>avaiWnd\<close>. It
  need not end: \<open>None\<close> is "does not return".
\<close>

partial_function (option) aggLoop ::
    "Item list \<Rightarrow> bytes \<Rightarrow> u32 \<Rightarrow> i32 \<Rightarrow> (bytes \<times> Item list) go option" where
  "aggLoop q data startSeq avaiWnd =
     (case q of
        [] \<Rightarrow> Some (ok (data, []))
      | item # rest \<Rightarrow>
          let seg = ivalue item;
              segSeq = SeqNum (TcpHeader seg);
              segEnd = segSeq + of_nat (length (TPayload seg))
          in if segEnd < startSeq then
               (case HeapPop q of
                  Inl e \<Rightarrow> Some (Inl e)
                | Inr (x, q') \<Rightarrow> aggLoop q' data startSeq avaiWnd)
             else if segSeq > startSeq then Some (ok (data, q))
             else
               let start = (if segSeq < startSeq then startSeq - segSeq else 0);
                   end = min (int (length (TPayload seg))) (sint avaiWnd)
               in (case slice_signed (TPayload seg) (unat start) end of
                     Inl e \<Rightarrow> Some (Inl e)
                   | Inr trim \<Rightarrow>
                       let avaiWnd' = avaiWnd - of_nat (length trim);
                           startSeq' = startSeq + of_nat (length trim);
                           data' = data @ trim
                       in (case (if segEnd \<le> startSeq' then HeapPop q else ok (item, q)) of
                             Inl e \<Rightarrow> Some (Inl e)
                           | Inr (x, q') \<Rightarrow>
                               if avaiWnd' = 0 then Some (ok (data', q'))
                               else aggLoop q' data' startSeq' avaiWnd')))"

definition aggregateEarlyArrivals :: "VTCPConn \<Rightarrow> bytes \<Rightarrow> u32 \<Rightarrow> (bytes \<times> VTCPConn) go" where
  "aggregateEarlyArrivals c data startSeq =
     (let avaiWnd = windowSize c - of_nat (length data)
      in if avaiWnd = 0 then ok (data, c)
         else (case aggLoop (earlyArrivalQ c) data startSeq avaiWnd of
                 None \<Rightarrow> panic NeverReturns
               | Some r \<Rightarrow> bindG r (\<lambda>(data', q'). ok (data', c\<lparr>earlyArrivalQ := q'\<rparr>))))"

text \<open>\<open>Inl\<close> is the error value; the length that the code returns with the data is the data's.\<close>

definition handleSeqNum :: "env \<Rightarrow> TCPPacket \<Rightarrow> tcb \<Rightarrow> ((tcp_error + bytes) \<times> tcb) go" where
  "handleSeqNum E segment s =
     (let c = conn s
      in if \<not> isValidSeg segment c then
           bindG (sendAck E s) (\<lambda>(p, s'). ok (Inl Unacceptable, s'))
         else
           let segSeq = SeqNum (TcpHeader segment); rcvNxt = expectedSeqNum c
           in if segSeq > rcvNxt then
                let c' = c\<lparr>earlyArrivalQ := Push (earlyArrivalQ c)
                             \<lparr>ivalue = segment, priority = segSeq, index = 0\<rparr>\<rparr>
                in bindG (sendAck E (set_conn s c')) (\<lambda>(p, s'). ok (Inr [], s'))
              else
                let aggSeqLen = length (TPayload segment);
                    start = (if segSeq < rcvNxt then rcvNxt - segSeq else 0);
                    end = min (int aggSeqLen) (sint (windowSize c))
                in bindG (slice_signed (TPayload segment) (unat start) end) (\<lambda>aggData.
                   bindG (aggregateEarlyArrivals c aggData (segSeq + of_nat (length aggData))) (\<lambda>(aggData', c').
                     ok (Inr aggData', set_conn s c'))))"

definition handleAck :: "env \<Rightarrow> (rat \<Rightarrow> rat) \<Rightarrow> int \<Rightarrow> TCPPacket \<Rightarrow> tcb \<Rightarrow> (tcp_error option \<times> tcb) go" where
  "handleAck E rnd now segment s =
     (let c = conn s; segAck = AckNum (TcpHeader segment);
          wnd = (ucast (TcpWindowSize (TcpHeader segment)) :: i32)
      in if sndUna c - of_nat BUFFER_CAPACITY > segAck \<or> sndNxt c < segAck then
           bindG (sendAck E s) (\<lambda>(p, s'). ok (Some InvalidAck, s'))
         else if sndUna c < segAck \<and> segAck \<le> sndNxt c then
           (if freespaceC (sendBuf c) \<ge> scapacity (sendBuf c) then panic Blocked
            else
              let c1 = c\<lparr>sndUna := segAck, sndWnd := wnd,
                          sendBuf := (sendBuf c)\<lparr>freespaceC := freespaceC (sendBuf c) + 1\<rparr>\<rparr>
              in bindG (resetRetransTimer c1 True) (\<lambda>c2.
                 bindG (ackInflight rnd now c2 segAck) (\<lambda>c3. ok (None, set_conn s c3))))
         else if sndUna c = segAck then
           bindG (resetRetransTimer (c\<lparr>sndWnd := wnd\<rparr>) True) (\<lambda>c1. ok (None, set_conn s c1))
         else if segAck > sndNxt c then
           bindG (sendAck E s) (\<lambda>(p, s'). ok (Some InvalidAck, s'))
         else ok (None, s))"

definition handleSegText :: "env \<Rightarrow> bytes \<Rightarrow> tcb \<Rightarrow> (tcp_error option \<times> tcb) go" where
  "handleSegText E aggData s =
     bindG (Write (recvBuf (conn s)) aggData) (\<lambda>(n, err, rb).
       let c1 = (conn s)\<lparr>recvBuf := rb\<rparr>
       in case err of
            Some e \<Rightarrow> ok (Some (RecvBufError e), set_conn s c1)
          | None \<Rightarrow>
              bindG (FreeSpace rb) (\<lambda>newWindowSize.
                let c2 = c1\<lparr>expectedSeqNum := expectedSeqNum c1 + n,
                             windowSize := min (of_nat BUFFER_CAPACITY) newWindowSize\<rparr>
                in bindG (sendAck E (set_conn s c2)) (\<lambda>(p, s').
                     ok (if p = None then Some SendFailed else None, s'))))"

definition handleFin :: "env \<Rightarrow> TCPPacket \<Rightarrow> tcb \<Rightarrow> (tcp_error option \<times> tcb) go" where
  "handleFin E segment s =
     (let c = conn s;
          c' = c\<lparr>recvBuf := AdvanceNxt (recvBuf c) (SeqNum (TcpHeader segment)) True,
                 expectedSeqNum := expectedSeqNum c + 1\<rparr>
      in bindG (sendAck E (set_conn s c')) (\<lambda>(p, s'). ok (if p = None then Some SendFailed else None, s')))"

section \<open>Lemmas on sequence numbers\<close>

lemma unat_plus_nat: "unat (a :: u32) + n < 2 ^ 32 \<Longrightarrow> unat (a + of_nat n) = unat a + n"
  by (simp add: unat_add_small unat_of_nat_small)

lemma unat_plus_wnd: "unat (a :: u32) + unat (w :: u32) < 2 ^ 32 \<Longrightarrow> unat (a + w) = unat a + unat w"
  by (rule unat_add_small)

lemma unat_last:
  assumes "0 < n" and "unat (a :: u32) + n < 2 ^ 32"
  shows "unat (a + of_nat n - 1) = unat a + n - 1"
proof -
  have "1 \<le> a + of_nat n" using assms unat_plus_nat [of a n] by (simp add: word_le_nat_alt)
  then show ?thesis using assms by (simp add: unat_minus unat_plus_nat)
qed

text \<open>An \<^verbatim>\<open>int32\<close> window that is not negative.\<close>

definition window_ok :: "VTCPConn \<Rightarrow> bool" where
  "window_ok c \<longleftrightarrow> unat (windowSize c) < 2 ^ 31 \<and> unat (expectedSeqNum c) + unat (windowSize c) < 2 ^ 32"

lemma sint_small: "unat (w :: u32) < 2 ^ 31 \<Longrightarrow> sint w = int (unat w)"
proof -
  assume small: "unat w < 2 ^ 31"
  then have "unat w < 2147483648" by simp
  then have "int (unat w) < 2147483648" by linarith
  then have "uint w < 2 ^ 31" by simp
  moreover have "- 2147483648 \<le> uint w" using uint_ge_0 [of w] by linarith
  then have "- (2 ^ 31) \<le> uint w" by simp
  ultimately show ?thesis by (simp add: sint_uint signed_take_bit_int_eq_self)
qed

text \<open>The acceptance test of RFC 9293 (3.10.7.4), on sequence numbers that do not wrap.\<close>

definition rfc_acceptable :: "nat \<Rightarrow> nat \<Rightarrow> nat \<Rightarrow> nat \<Rightarrow> bool" where
  "rfc_acceptable len wnd seq rcv =
     (if len = 0 then (if wnd = 0 then seq = rcv else rcv \<le> seq \<and> seq < rcv + wnd)
      else wnd \<noteq> 0 \<and> ((rcv \<le> seq \<and> seq < rcv + wnd) \<or> (rcv \<le> seq + len - 1 \<and> seq + len - 1 < rcv + wnd)))"

lemma isValidSeg_rfc:
  assumes w: "window_ok c" and len: "unat (SeqNum (TcpHeader p)) + length (TPayload p) < 2 ^ 32"
  shows "isValidSeg p c = rfc_acceptable (length (TPayload p)) (unat (windowSize c))
           (unat (SeqNum (TcpHeader p))) (unat (expectedSeqNum c))"
proof -
  let ?s = "SeqNum (TcpHeader p)" and ?n = "length (TPayload p)"
  have wnd: "unat (expectedSeqNum c + windowSize c) = unat (expectedSeqNum c) + unat (windowSize c)"
    using w by (intro unat_plus_wnd) (simp add: window_ok_def)
  have sgn: "sint (windowSize c) = int (unat (windowSize c))"
    using w by (intro sint_small) (simp add: window_ok_def)
  show ?thesis
  proof (cases "?n = 0")
    case empty: True
    show ?thesis
    proof (cases "windowSize c = 0")
      case True
      then show ?thesis using empty by (simp add: isValidSeg_def rfc_acceptable_def word_unat_eq_iff)
    next
      case False
      then have "0 < unat (windowSize c)" by (simp add: unat_gt_0)
      then have pos: "sint (windowSize c) > 0" using sgn by linarith
      show ?thesis using False empty
        by (simp add: isValidSeg_def rfc_acceptable_def Let_def pos wnd word_le_nat_alt word_less_nat_alt
            word_unat_eq_iff)
    qed
  next
    case False
    then have "unat (?s + of_nat ?n - 1) = unat ?s + ?n - 1" using len by (intro unat_last) auto
    then show ?thesis using False
      by (auto simp: isValidSeg_def rfc_acceptable_def Let_def sgn wnd word_le_nat_alt word_less_nat_alt
          word_unat_eq_iff)
  qed
qed

text \<open>Once \<^verbatim>\<open>RCV.NXT + RCV.WND\<close> wraps around, no sequence number is inside the window.\<close>

lemma wrapped_window_empty:
  assumes "2 ^ 32 \<le> unat (n :: u32) + unat (w :: u32)"
  shows "\<not> (x \<ge> n \<and> x < n + w)"
proof -
  have "unat (n + w) = (unat n + unat w) mod 2 ^ 32" by (simp add: unat_word_ariths)
  also have "\<dots> = unat n + unat w - 2 ^ 32"
    using assms unat_less_2_32 [of n] unat_less_2_32 [of w] le_mod_geq [of "2 ^ 32" "unat n + unat w"]
    by (simp del: unat_less_2_32)
  also have "unat n + unat w - 2 ^ 32 = unat n + unat w - 4294967296" by simp
  also have "\<dots> \<le> unat n" using unat_less_2_32 [of w] by linarith
  finally show ?thesis by (auto simp: word_le_nat_alt word_less_nat_alt)
qed

end
