(* ===== verification/Tcp_Receive.thy ===== *)
theory Tcp_Receive imports Tcp_Segment begin

text \<open>
  The receiving side of a connection: lemmas and properties of the definitions of \<open>Tcp_Segment\<close>,
  acceptance and trimming of segments, the merging of early arrivals, text and acknowledgements.
\<close>

section \<open>Slices\<close>

lemma slice_signed_nat:
  "lo \<le> hi \<Longrightarrow> hi \<le> length xs \<Longrightarrow> slice_signed xs lo (int hi) = ok (take (hi - lo) (drop lo xs))"
  by (simp add: slice_signed_def)

section \<open>Early arrivals\<close>

text \<open>
  \<open>span st a b\<close>: the bytes of the stream \<open>st\<close> from sequence number \<open>a\<close> up to \<open>b\<close>. A segment is honest
  when its payload is what the stream has at its sequence number.
\<close>

definition span :: "(nat \<Rightarrow> u8) \<Rightarrow> nat \<Rightarrow> nat \<Rightarrow> bytes" where
  "span st a b = map st [a..<b]"

lemma length_span [simp]: "length (span st a b) = b - a"
  by (simp add: span_def)

lemma span_append: "a \<le> b \<Longrightarrow> b \<le> c \<Longrightarrow> span st a b @ span st b c = span st a c"
  using upt_add_eq_append [of a b "c - b"] by (simp add: span_def flip: map_append)

lemma drop_span: "drop k (span st a b) = span st (a + k) b"
  by (simp add: span_def drop_map)

lemma take_span: "a + k \<le> b \<Longrightarrow> take k (span st a b) = span st a (a + k)"
  by (simp add: span_def take_map)

definition honest :: "(nat \<Rightarrow> u8) \<Rightarrow> TCPPacket \<Rightarrow> bool" where
  "honest st p \<longleftrightarrow> unat (SeqNum (TcpHeader p)) + length (TPayload p) < 2 ^ 32 \<and>
     TPayload p = span st (unat (SeqNum (TcpHeader p))) (unat (SeqNum (TcpHeader p)) + length (TPayload p))"

definition load_bytes :: "Item list \<Rightarrow> nat" where
  "load_bytes q = sum_list (map (\<lambda>i. length (TPayload (ivalue i))) q)"

lemma load_bytes_simps [simp]: "load_bytes [] = 0" "load_bytes (i # q) = length (TPayload (ivalue i)) + load_bytes q"
  by (simp_all add: load_bytes_def)

lemma HeapPop_segments:
  "\<exists>x' q'. HeapPop (x # q) = ok (x', q') \<and> length q' = length q \<and>
     mset (map ivalue q') = mset (map ivalue q) \<and> load_bytes q' = load_bytes q"
proof -
  obtain x' q' where p: "HeapPop (x # q) = ok (x', q')" "length q' = length q" "mset (map load q') = mset (map load q)"
    using HeapPop_front [of x q] by blast
  have "mset (map ivalue r) = image_mset fst (mset (map load r))" for r
    by (simp add: load_def multiset.map_comp comp_def flip: mset_map)
  then have m: "mset (map ivalue q') = mset (map ivalue q)" using p(3) by simp
  have "load_bytes r = sum_mset (image_mset (\<lambda>s. length (TPayload s)) (mset (map ivalue r)))" for r
    by (induction r) simp_all
  then show ?thesis using p m by simp
qed

text \<open>One turn of the merge at an honest segment that touches the stream so far: its new bytes are taken.\<close>

lemma aggLoop_takes:
  assumes hon: "honest st (ivalue x)" and len: "length (TPayload (ivalue x)) \<le> unat wnd" and w: "unat wnd < 2 ^ 31" and a: "a \<le> unat start"
    and pop: "HeapPop (x # r) = ok (x', r')"
    and seq: "unat (SeqNum (TcpHeader (ivalue x))) \<le> unat start" "unat start \<le> unat (SeqNum (TcpHeader (ivalue x))) + length (TPayload (ivalue x))"
  defines "stop \<equiv> SeqNum (TcpHeader (ivalue x)) + of_nat (length (TPayload (ivalue x)))"
  shows "aggLoop (x # r) (span st a (unat start)) start wnd =
      (if unat wnd = unat stop - unat start then Some (ok (span st a (unat stop), r'))
       else aggLoop r' (span st a (unat stop)) stop (wnd - of_nat (unat stop - unat start)))"
    and "unat (wnd - of_nat (unat stop - unat start)) = unat wnd - (unat stop - unat start)"
    and "unat stop = unat (SeqNum (TcpHeader (ivalue x))) + length (TPayload (ivalue x))"
proof -
  let ?p = "ivalue x"
  let ?seq = "SeqNum (TcpHeader ?p)" and ?len = "length (TPayload ?p)"
  let ?k = "unat start - unat ?seq" and ?m = "unat stop - unat start"
  have h: "unat ?seq + ?len < 2 ^ 32" "TPayload ?p = span st (unat ?seq) (unat ?seq + ?len)" using hon by (auto simp: honest_def)
  show fin: "unat stop = unat ?seq + ?len" unfolding stop_def using h(1) by (rule unat_plus_nat)
  have off: "unat (if ?seq < start then start - ?seq else 0) = ?k"
    using seq(1) by (auto simp: word_less_nat_alt unat_minus word_le_nat_alt)
  have "min (int ?len) (sint wnd) = int ?len" using len by (simp only: sint_small [OF w])
  then have cut: "slice_signed (TPayload ?p) ?k (min (int ?len) (sint wnd)) = ok (drop ?k (TPayload ?p))"
    using seq by (simp add: slice_signed_def)
  have trim: "drop ?k (TPayload ?p) = span st (unat start) (unat stop)"
    using h(2) seq fin drop_span [of ?k st "unat ?seq" "unat ?seq + ?len"] by simp
  have m: "?m \<le> ?len" "?m < 2 ^ 32" "unat start + ?m = unat stop" using seq fin h(1) by linarith+
  have start': "start + of_nat ?m = stop"
    using unat_plus_nat [of start ?m] m(3) unat_less_2_32 [of stop] by (simp add: word_unat_eq_iff del: unat_less_2_32)
  have "unat (of_nat ?m :: u32) = ?m" using m(2) by (rule unat_of_nat_small)
  then show wnd': "unat (wnd - of_nat ?m) = unat wnd - ?m" using m(1) len by (simp add: unat_minus word_le_nat_alt)
  have data: "span st a (unat start) @ span st (unat start) (unat stop) = span st a (unat stop)"
    using a m(3) by (intro span_append) linarith+
  have not: "\<not> stop < start" "\<not> ?seq > start" using seq fin by (simp_all add: word_less_nat_alt)
  have "wnd - of_nat ?m = 0 \<longleftrightarrow> unat wnd = ?m" using wnd' m(1) len by (auto simp: word_unat_eq_iff)
  then show "aggLoop (x # r) (span st a (unat start)) start wnd =
      (if unat wnd = ?m then Some (ok (span st a (unat stop), r')) else aggLoop r' (span st a (unat stop)) stop (wnd - of_nat ?m))"
    using not pop by (subst aggLoop.simps) (simp add: Let_def off cut [unfolded ok_def] trim start' data ok_def flip: stop_def)
qed

lemma aggLoop_honest:
  assumes "\<forall>p \<in> set (map ivalue q). honest st p" and "load_bytes q \<le> unat wnd" and "0 < unat wnd"
    and "unat wnd < 2 ^ 31" and "a \<le> unat start"
  shows "\<exists>b q'. aggLoop q (span st a (unat start)) start wnd = Some (ok (span st a b, q')) \<and>
    unat start \<le> b \<and> b \<le> unat start + load_bytes q \<and> mset (map ivalue q') \<subseteq># mset (map ivalue q)"
  using assms
proof (induction "length q" arbitrary: q start wnd)
  case 0
  then show ?case by (intro exI [of _ "unat start"] exI [of _ "[]"]) (simp add: aggLoop.simps)
next
  case (Suc n)
  obtain x r where q: "q = x # r" using Suc.hyps(2) by (cases q) auto
  let ?p = "ivalue x"
  let ?seq = "SeqNum (TcpHeader ?p)" and ?len = "length (TPayload ?p)"
  let ?stop = "?seq + of_nat ?len"
  have hon: "honest st ?p" using Suc.prems(1) q by simp
  then have fin: "unat ?stop = unat ?seq + ?len" by (intro unat_plus_nat) (simp add: honest_def)
  obtain x' r' where pop: "HeapPop q = ok (x', r')" "length r' = n" "mset (map ivalue r') = mset (map ivalue r)"
      "load_bytes r' = load_bytes r"
    using HeapPop_segments [of x r] Suc.hyps(2) q by auto
  then have set': "\<forall>p \<in> set (map ivalue r'). honest st p"
    using Suc.prems(1) q mset_eq_setD [OF pop(3)] by auto
  have sub: "mset (map ivalue r') \<subseteq># mset (map ivalue q)" using pop(3) q by simp
  consider "?stop < start" | "\<not> ?stop < start" "?seq > start" | "unat ?seq \<le> unat start" "unat start \<le> unat ?seq + ?len"
    unfolding word_less_nat_alt fin by linarith
  then show ?case
  proof cases
    case 1
    have "aggLoop q (span st a (unat start)) start wnd = aggLoop r' (span st a (unat start)) start wnd"
      using 1 pop(1) by (subst aggLoop.simps) (simp add: q ok_def Let_def)
    moreover have "load_bytes r' \<le> unat wnd" using Suc.prems(2) pop(4) q by simp
    ultimately obtain b q' where b: "aggLoop q (span st a (unat start)) start wnd = Some (ok (span st a b, q'))"
        "unat start \<le> b" "b \<le> unat start + load_bytes r'" "mset (map ivalue q') \<subseteq># mset (map ivalue r')"
      using Suc.hyps(1) [of r' wnd start] pop(2) Suc.prems(3-5) set' by auto
    have "mset (map ivalue q') \<subseteq># mset (map ivalue q)" using b(4) sub by (rule subset_mset.order_trans)
    then show ?thesis using b(1-3) pop(4) q by (intro exI [of _ b] exI [of _ q']) auto
  next
    case 2
    then have "aggLoop q (span st a (unat start)) start wnd = Some (ok (span st a (unat start), q))"
      by (subst aggLoop.simps) (simp add: q Let_def)
    then show ?thesis by (intro exI [of _ "unat start"] exI [of _ q]) simp
  next
    case 3
    have len: "?len \<le> unat wnd" using Suc.prems(2) q by simp
    note take = aggLoop_takes [OF hon len Suc.prems(4,5) pop(1) [unfolded q] 3, folded q]
    show ?thesis
    proof (cases "unat wnd = unat ?stop - unat start")
      case True
      then show ?thesis using take(1) sub 3 fin q by (intro exI [of _ "unat ?stop"] exI [of _ r']) auto
    next
      case False
      let ?w = "wnd - of_nat (unat ?stop - unat start)"
      have "load_bytes r' \<le> unat ?w" "0 < unat ?w" "unat ?w < 2 ^ 31" "a \<le> unat ?stop"
        unfolding take(2) using Suc.prems(2,4,5) pop(4) q 3 fin len False by simp_all
      then obtain b q' where b: "aggLoop r' (span st a (unat ?stop)) ?stop ?w = Some (ok (span st a b, q'))"
          "unat ?stop \<le> b" "b \<le> unat ?stop + load_bytes r'" "mset (map ivalue q') \<subseteq># mset (map ivalue r')"
        using Suc.hyps(1) [of r' ?w ?stop] pop(2) set' by auto
      have "mset (map ivalue q') \<subseteq># mset (map ivalue q)" using b(4) sub by (rule subset_mset.order_trans)
      then show ?thesis using take(1) b(1-3) False 3 fin pop(4) q by (intro exI [of _ b] exI [of _ q']) auto
    qed
  qed
qed


lemma aggregate_honest:
  assumes q: "\<forall>p \<in> set (map ivalue (earlyArrivalQ c)). honest st p"
    and load: "b - a + load_bytes (earlyArrivalQ c) \<le> unat (windowSize c)" and w: "unat (windowSize c) < 2 ^ 31"
    and start: "a \<le> b" "b < 2 ^ 32"
  shows "\<exists>e q'. aggregateEarlyArrivals c (span st a b) (of_nat b) = ok (span st a e, c\<lparr>earlyArrivalQ := q'\<rparr>) \<and>
    b \<le> e \<and> e - a \<le> unat (windowSize c) \<and> mset (map ivalue q') \<subseteq># mset (map ivalue (earlyArrivalQ c))"
proof -
  let ?wnd = "windowSize c - of_nat (b - a)"
  have b: "unat (of_nat b :: u32) = b" using start(2) by (rule unat_of_nat_small)
  have le: "b - a \<le> unat (windowSize c)" using load by linarith
  then have "unat (of_nat (b - a) :: u32) = b - a" using w by (intro unat_of_nat_small) simp
  then have wnd: "unat ?wnd = unat (windowSize c) - (b - a)"
    using le by (simp add: unat_minus word_le_nat_alt)
  show ?thesis
  proof (cases "?wnd = 0")
    case True
    then have "aggregateEarlyArrivals c (span st a b) (of_nat b) = ok (span st a b, c\<lparr>earlyArrivalQ := earlyArrivalQ c\<rparr>)"
      by (simp add: aggregateEarlyArrivals_def)
    then show ?thesis using le by (intro exI [of _ b] exI [of _ "earlyArrivalQ c"]) simp
  next
    case False
    then have "0 < unat ?wnd" by (simp add: unat_gt_0)
    moreover have "load_bytes (earlyArrivalQ c) \<le> unat ?wnd" "unat ?wnd < 2 ^ 31" using load w wnd by linarith+
    ultimately obtain e q' where e: "aggLoop (earlyArrivalQ c) (span st a b) (of_nat b) ?wnd = Some (ok (span st a e, q'))"
        "b \<le> e" "e \<le> b + load_bytes (earlyArrivalQ c)" "mset (map ivalue q') \<subseteq># mset (map ivalue (earlyArrivalQ c))"
      using aggLoop_honest [OF q, of ?wnd a "of_nat b"] b start by auto
    then have "aggregateEarlyArrivals c (span st a b) (of_nat b) = ok (span st a e, c\<lparr>earlyArrivalQ := q'\<rparr>)"
      using False by (simp add: aggregateEarlyArrivals_def)
    moreover have "e - a \<le> unat (windowSize c)" using e(2,3) load start by linarith
    ultimately show ?thesis using e by blast
  qed
qed

text \<open>A segment that does not advance the loop keeps it going for ever.\<close>

lemma aggLoop_spins:
  assumes "q = x # r" and "SeqNum (TcpHeader (ivalue x)) < start"
    and "unat wnd = unat start - unat (SeqNum (TcpHeader (ivalue x)))" and "unat wnd < 2 ^ 31"
    and "unat start < unat (SeqNum (TcpHeader (ivalue x))) + length (TPayload (ivalue x))"
    and "unat (SeqNum (TcpHeader (ivalue x))) + length (TPayload (ivalue x)) < 2 ^ 32"
  shows "aggLoop q data start wnd = None"
proof -
  let ?p = "ivalue x"
  let ?seq = "SeqNum (TcpHeader ?p)" and ?len = "length (TPayload ?p)"
  have fin: "unat (?seq + of_nat ?len) = unat ?seq + ?len" using assms(6) by (rule unat_plus_nat)
  have nz: "wnd \<noteq> 0" using assms(2,3) by (auto simp: word_less_nat_alt)
  have off: "unat (start - ?seq) = unat wnd" using assms(2,3) by (simp add: unat_minus word_less_nat_alt word_le_nat_alt)
  have sw: "sint wnd = int (unat wnd)" using assms(4) by (rule sint_small)
  have lt: "unat wnd < ?len" using assms(2,3,5) by (simp add: word_less_nat_alt)
  then have "min (int ?len) (sint wnd) = int (unat wnd)"
    unfolding sw by (intro min_absorb2) (simp only: of_nat_le_iff less_imp_le)
  then have cut: "slice_signed (TPayload ?p) (unat wnd) (min (int ?len) (sint wnd)) = ok []"
    using lt by (simp only:) (simp add: slice_signed_def)
  have order: "\<not> ?seq + of_nat ?len < start" "\<not> ?seq > start" "\<not> ?seq + of_nat ?len \<le> start"
    using assms(2,5) fin by (auto simp: word_less_nat_alt word_le_nat_alt)
  have none: "q' = q \<longrightarrow> s' = start \<longrightarrow> w' = wnd \<longrightarrow> False" if "aggLoop q' d' s' w' = Some y" for q' d' s' w' y
  proof (rule aggLoop.raw_induct [OF _ that, where P = "\<lambda>q' d' s' w' y. q' = q \<longrightarrow> s' = start \<longrightarrow> w' = wnd \<longrightarrow> False"],
      intro impI, goal_cases)
    case (1 f q' d' s' w' y)
    have "f q d' start wnd = Some y" using 1(2-) assms(1,2) off nz cut order by (simp add: Let_def ok_def)
    from 1(1) [OF this] show False by simp
  qed
  show ?thesis
  proof (cases "aggLoop q data start wnd")
    case (Some y)
    from none [OF this] show ?thesis by simp
  qed
qed

text \<open>A segment that overlaps what was received and is longer than the window.\<close>

lemma aggLoop_overlap_panics:
  assumes "q = x # r" and "SeqNum (TcpHeader (ivalue x)) \<le> start"
    and k: "unat wnd < unat start - unat (SeqNum (TcpHeader (ivalue x)))" and w: "unat wnd < 2 ^ 31"
    and "unat start \<le> unat (SeqNum (TcpHeader (ivalue x))) + length (TPayload (ivalue x))"
    and len: "unat (SeqNum (TcpHeader (ivalue x))) + length (TPayload (ivalue x)) < 2 ^ 32"
  shows "aggLoop q data start wnd = Some (panic SliceBounds)"
proof -
  let ?p = "ivalue x"
  let ?seq = "SeqNum (TcpHeader ?p)" and ?len = "length (TPayload ?p)"
  have fin: "unat (?seq + of_nat ?len) = unat ?seq + ?len" using len by (rule unat_plus_nat)
  have order: "\<not> ?seq + of_nat ?len < start" "?seq < start" "\<not> ?seq > start"
    using assms(2,3,5) fin by (auto simp: word_less_nat_alt word_le_nat_alt)
  have off: "unat (start - ?seq) = unat start - unat ?seq" using assms(2) by (rule unat_minus)
  have sw: "sint wnd = int (unat wnd)" using w by (rule sint_small)
  have "min (int ?len) (sint wnd) \<le> int (unat wnd)" unfolding sw by (rule min.cobounded2)
  then have "nat (min (int ?len) (sint wnd)) \<le> unat wnd" by (simp only: nat_le_iff)
  then have "slice_signed (TPayload ?p) (unat (start - ?seq)) (min (int ?len) (sint wnd)) = panic SliceBounds"
    using k off by (simp add: slice_signed_def go_slice_def)
  then show ?thesis
    using assms(1) order by (subst aggLoop.simps) (simp add: Let_def panic_def)
qed

lemma aggLoop_overlap:
  assumes q: "q = x # r" and "SeqNum (TcpHeader (ivalue x)) < start" and "0 < unat wnd" and w: "unat wnd < 2 ^ 31"
    and "unat start \<le> unat (SeqNum (TcpHeader (ivalue x))) + length (TPayload (ivalue x))"
    and wlen: "unat wnd < length (TPayload (ivalue x))"
    and len: "unat (SeqNum (TcpHeader (ivalue x))) + length (TPayload (ivalue x)) < 2 ^ 32"
  shows "aggLoop q data start wnd =
    (if unat start - unat (SeqNum (TcpHeader (ivalue x))) = unat wnd then None else Some (panic SliceBounds))"
proof -
  let ?p = "ivalue x"
  let ?seq = "SeqNum (TcpHeader ?p)" and ?len = "length (TPayload ?p)"
  let ?k = "unat start - unat ?seq"
  have seq: "unat ?seq < unat start" using assms(2) by (simp add: word_less_nat_alt)
  consider "?k = unat wnd" | "unat wnd < ?k" | "?k < unat wnd" by linarith
  then show ?thesis
  proof cases
    case 1
    then have "unat start < unat ?seq + ?len" using wlen seq by linarith
    then show ?thesis using 1 aggLoop_spins [OF q assms(2) 1 [symmetric] w _ len] by simp
  next
    case 2
    then show ?thesis using aggLoop_overlap_panics [OF q _ 2 w assms(5) len] assms(2) by simp
  next
    case 3
    define m where "m = unat wnd - ?k"
    then have m: "m + ?k = unat wnd" "0 < m" using 3 by simp_all
    have fin: "unat (?seq + of_nat ?len) = unat ?seq + ?len" using len by (rule unat_plus_nat)
    have off: "unat (start - ?seq) = ?k" using assms(2) by (simp add: unat_minus)
    have d: "unat wnd - ?k = m" "?k \<le> unat wnd" using m by simp_all
    have "m < 2 ^ 32" using w m by simp
    then have u: "unat (of_nat m :: u32) = m" by (rule unat_of_nat_small)
    have "unat start + m < 2 ^ 32" using seq wlen len m by linarith
    then have start': "unat (start + of_nat m) = unat start + m" by (rule unat_plus_nat)
    have wnd': "unat (wnd - of_nat m) = ?k" using m u by (simp add: unat_minus word_le_nat_alt)
    have order: "\<not> ?seq + of_nat ?len < start" "\<not> ?seq > start" "\<not> ?seq + of_nat ?len \<le> start + of_nat m"
      using assms(5) fin start' seq wlen m by (auto simp: word_less_nat_alt word_le_nat_alt)
    have sw: "sint wnd = int (unat wnd)" using w by (rule sint_small)
    have "min (int ?len) (sint wnd) = int (unat wnd)"
      unfolding sw using wlen by (intro min_absorb2) (simp only: of_nat_le_iff less_imp_le)
    then have "slice_signed (TPayload ?p) ?k (min (int ?len) (sint wnd)) = ok (take m (drop ?k (TPayload ?p)))"
      using slice_signed_nat [of ?k "unat wnd" "TPayload ?p"] wlen m d by (simp only:)
    moreover have "length (take m (drop ?k (TPayload ?p))) = m" using wlen m by simp
    ultimately have "aggLoop q data start wnd =
        (if wnd - of_nat m = 0 then Some (ok (data @ take m (drop ?k (TPayload ?p)), q))
         else aggLoop q (data @ take m (drop ?k (TPayload ?p))) (start + of_nat m) (wnd - of_nat m))"
      using q order assms(2) off by (subst aggLoop.simps) (simp only: list.case Let_def if_False if_True ok_def sum.case prod.case)
    moreover have "wnd - of_nat m \<noteq> 0" using wnd' seq by (auto simp: word_unat_eq_iff)
    moreover have "aggLoop q (data @ take m (drop ?k (TPayload ?p))) (start + of_nat m) (wnd - of_nat m) = Some (panic SliceBounds)"
    proof (rule aggLoop_overlap_panics [OF q])
      show "?seq \<le> start + of_nat m" using start' seq by (simp add: word_le_nat_alt)
      show "unat (wnd - of_nat m) < unat (start + of_nat m) - unat ?seq" using wnd' start' 3 seq m(2) by linarith
      show "unat (wnd - of_nat m) < 2 ^ 31" using wnd' 3 w by linarith
      show "unat (start + of_nat m) \<le> unat ?seq + ?len" using start' seq wlen m by linarith
    qed (rule len)
    ultimately show ?thesis using 3 by simp
  qed
qed


text \<open>
  A segment that was queued twice: the merge takes the first copy, and panics at the second when the
  window that is left is shorter than the segment.
\<close>

lemma early_duplicate_panics:
  assumes "earlyArrivalQ c = [i, j]" and "ivalue i = p" and "ivalue j = p" and "honest st p"
    and start: "a \<le> unat (SeqNum (TcpHeader p))" and len: "0 < length (TPayload p)"
    and w: "unat (windowSize c) = (unat (SeqNum (TcpHeader p)) - a) + length (TPayload p) + w" "0 < w" "w < length (TPayload p)"
      "unat (windowSize c) < 2 ^ 31"
  shows "aggregateEarlyArrivals c (span st a (unat (SeqNum (TcpHeader p)))) (SeqNum (TcpHeader p)) = panic SliceBounds"
proof -
  let ?seq = "SeqNum (TcpHeader p)" and ?len = "length (TPayload p)"
  let ?wnd = "windowSize c - of_nat (unat ?seq - a)" and ?stop = "?seq + of_nat ?len"
  have "unat (of_nat (unat ?seq - a) :: u32) = unat ?seq - a" by (rule unat_of_nat_small) (simp add: less_imp_diff_less)
  then have wnd: "unat ?wnd = ?len + w" using w(1) by (simp add: unat_minus word_le_nat_alt)
  obtain j' r where pop: "HeapPop [i, j] = ok (j', r)" "length r = 1" "mset (map ivalue r) = {#p#}"
    using HeapPop_segments [of i "[j]"] assms(3) by auto
  then obtain x where r: "r = [x]" "ivalue x = p" by (cases r) auto
  have small: "?len \<le> unat ?wnd" "unat ?wnd < 2 ^ 31" "unat ?wnd \<noteq> ?len" using wnd w by linarith+
  note take = aggLoop_takes [of st i ?wnd a ?seq "[j]" j' r, unfolded assms(2), OF assms(4) small(1,2) start pop(1) order_refl, simplified]
  have fin: "unat ?stop = unat ?seq + ?len" "unat ?seq + ?len < 2 ^ 32" using take(3) assms(4) by (auto simp: honest_def)
  have left: "unat (?wnd - of_nat ?len) = w" using take(2) wnd fin by simp
  have "aggLoop [i, j] (span st a (unat ?seq)) ?seq ?wnd = aggLoop r (span st a (unat ?stop)) ?stop (?wnd - of_nat ?len)"
    using take(1) small(3) fin by simp
  also have "\<dots> = Some (panic SliceBounds)"
  proof (rule aggLoop_overlap_panics [OF r(1)])
    show "unat (?wnd - of_nat ?len) < unat ?stop - unat (SeqNum (TcpHeader (ivalue x)))" using left w(3) fin r(2) by simp
    show "unat (?wnd - of_nat ?len) < 2 ^ 31" using left small(2) wnd by simp
  qed (use fin r(2) in \<open>simp_all add: word_le_nat_alt\<close>)
  finally have "aggLoop [i, j] (span st a (unat ?seq)) ?seq ?wnd = Some (panic SliceBounds)" .
  moreover have "?wnd \<noteq> 0" using wnd w(2) by (auto simp: word_unat_eq_iff)
  ultimately show ?thesis using assms(1) by (simp add: aggregateEarlyArrivals_def)
qed

section \<open>Acceptance and trimming\<close>

lemma queue_again: "c\<lparr>earlyArrivalQ := earlyArrivalQ c\<rparr> = c"
  by simp

lemma set_conn_again [simp]: "set_conn s (conn s) = s"
  by (simp add: set_conn_def)

lemma set_conn_inject [simp]: "set_conn s c = set_conn s d \<longleftrightarrow> c = d"
  by (metis set_conn_fields(1))

lemma aggregate_nothing: "earlyArrivalQ c = [] \<Longrightarrow> aggregateEarlyArrivals c d start = ok (d, c)"
  using queue_again [of c] by (auto simp: aggregateEarlyArrivals_def Let_def aggLoop.simps)

text \<open>The connection with a segment queued.\<close>

definition enqueue :: "TCPPacket \<Rightarrow> VTCPConn \<Rightarrow> VTCPConn" where
  "enqueue p c = c\<lparr>earlyArrivalQ := Push (earlyArrivalQ c) \<lparr>ivalue = p, priority = SeqNum (TcpHeader p), index = 0\<rparr>\<rparr>"

lemma enqueue_fields [simp]:
  "endpoint (enqueue p c) = endpoint c" "sndNxt (enqueue p c) = sndNxt c" "expectedSeqNum (enqueue p c) = expectedSeqNum c"
  "windowSize (enqueue p c) = windowSize c" "state (enqueue p c) = state c" "recvBuf (enqueue p c) = recvBuf c"
  by (simp_all add: enqueue_def)

lemma handleSeqNum_exact:
  assumes up: "net_up E (RemoteAddr (endpoint (conn s)))" and w: "window_ok (conn s)"
    and len: "unat (SeqNum (TcpHeader p)) + length (TPayload p) < 2 ^ 32"
    and early: "earlyArrivalQ (conn s) = []"
  shows "handleSeqNum E p s =
     (if \<not> rfc_acceptable (length (TPayload p)) (unat (windowSize (conn s))) (unat (SeqNum (TcpHeader p)))
            (unat (expectedSeqNum (conn s)))
      then ok (Inl Unacceptable, emit s (ack_segment E s))
      else if unat (expectedSeqNum (conn s)) < unat (SeqNum (TcpHeader p))
      then let s' = set_conn s (enqueue p (conn s)) in ok (Inr [], emit s' (ack_segment E s'))
      else let k = unat (expectedSeqNum (conn s)) - unat (SeqNum (TcpHeader p));
               n = min (length (TPayload p)) (unat (windowSize (conn s)))
           in if k \<le> n then ok (Inr (drop k (take n (TPayload p))), s) else panic SliceBounds)"
proof -
  let ?seq = "SeqNum (TcpHeader p)" and ?nxt = "expectedSeqNum (conn s)" and ?len = "length (TPayload p)"
  let ?k = "unat ?nxt - unat ?seq" and ?n = "min ?len (unat (windowSize (conn s)))"
  have valid: "isValidSeg p (conn s) = rfc_acceptable ?len (unat (windowSize (conn s))) (unat ?seq) (unat ?nxt)"
    by (rule isValidSeg_rfc [OF w len])
  consider "\<not> isValidSeg p (conn s)" | "isValidSeg p (conn s)" "unat ?nxt < unat ?seq"
    | "isValidSeg p (conn s)" "\<not> unat ?nxt < unat ?seq" by blast
  then show ?thesis
  proof cases
    case 1
    then show ?thesis using valid sendAck_up [OF up] by (simp add: handleSeqNum_def Let_def)
  next
    case 2
    have "net_up E (RemoteAddr (endpoint (conn (set_conn s (enqueue p (conn s))))))" using up by simp
    from sendAck_up [OF this] 2 valid show ?thesis
      by (simp add: handleSeqNum_def Let_def word_less_nat_alt enqueue_def)
  next
    case 3
    have off: "unat (if ?seq < ?nxt then ?nxt - ?seq else 0) = ?k"
      using 3(2) by (auto simp: word_less_nat_alt unat_minus word_le_nat_alt)
    have "sint (windowSize (conn s)) = int (unat (windowSize (conn s)))"
      using w by (intro sint_small) (simp add: window_ok_def)
    then have n: "min (int ?len) (sint (windowSize (conn s))) = int ?n" by (simp only: of_nat_min)
    have cut: "slice_signed (TPayload p) ?k (int ?n) =
        (if ?k \<le> ?n then ok (drop ?k (take ?n (TPayload p))) else panic SliceBounds)"
      by (simp add: slice_signed_def go_slice_def drop_take)
    show ?thesis
      using 3 valid
      by (simp add: handleSeqNum_def Let_def word_less_nat_alt off [simplified word_less_nat_alt] n cut
          aggregate_nothing [OF early] del: of_nat_min)
  qed
qed

section \<open>Text\<close>

text \<open>
  The receiving side of a connection in order: the buffer's next byte is \<^verbatim>\<open>RCV.NXT\<close> and the window
  offered is the free space.
\<close>

definition rcv_ok :: "VTCPConn \<Rightarrow> bool" where
  "rcv_ok c \<longleftrightarrow> rb_wf (recvBuf c) \<and> nxt (recvBuf c) = expectedSeqNum c \<and> unat (capacity (recvBuf c)) = BUFFER_CAPACITY \<and>
     windowSize c = of_nat (free (recvBuf c)) \<and> \<not> finRecvd (recvBuf c)"

lemma free_le_capacity: "rcv_ok c \<Longrightarrow> free (recvBuf c) \<le> 65535"
  by (simp add: rcv_ok_def free_def BUFFER_CAPACITY_def)

lemma rcv_ok_window:
  assumes "rcv_ok c"
  shows "unat (windowSize c) = free (recvBuf c)" "unat (windowSize c) \<le> 65535"
proof -
  have "unat (of_nat (free (recvBuf c)) :: u32) = free (recvBuf c)"
    using free_le_capacity [OF assms] by (intro unat_of_nat_small) simp
  then show "unat (windowSize c) = free (recvBuf c)" using assms by (simp add: rcv_ok_def)
  then show "unat (windowSize c) \<le> 65535" using free_le_capacity [OF assms] by simp
qed

text \<open>The connection after text that fits was taken.\<close>

definition take_text :: "bytes \<Rightarrow> VTCPConn \<Rightarrow> VTCPConn" where
  "take_text d c = c\<lparr>recvBuf := after_write (recvBuf c) d, expectedSeqNum := expectedSeqNum c + of_nat (length d),
     windowSize := of_nat (free (recvBuf c) - length d)\<rparr>"

lemma take_text_fields [simp]:
  "endpoint (take_text d c) = endpoint c" "state (take_text d c) = state c" "sndNxt (take_text d c) = sndNxt c"
  "sndUna (take_text d c) = sndUna c" "sndWnd (take_text d c) = sndWnd c" "sendBuf (take_text d c) = sendBuf c"
  "inflightQ (take_text d c) = inflightQ c" "earlyArrivalQ (take_text d c) = earlyArrivalQ c"
  "expectedSeqNum (take_text d c) = expectedSeqNum c + of_nat (length d)" "iss (take_text d c) = iss c"
  by (simp_all add: take_text_def)

lemma handleSegText_room:
  assumes rcv: "rcv_ok (conn s)" and up: "net_up E (RemoteAddr (endpoint (conn s)))"
    and d: "d \<noteq> []" "length d \<le> free (recvBuf (conn s))" "length d < rb_limit (recvBuf (conn s))"
  defines "s' \<equiv> set_conn s (take_text d (conn s))"
  shows "handleSegText E d s = ok (None, emit s' (ack_segment E s'))" and "rcv_ok (take_text d (conn s))"
    and "contents (recvBuf (take_text d (conn s))) = contents (recvBuf (conn s)) @ d"
    and "free (recvBuf (take_text d (conn s))) = free (recvBuf (conn s)) - length d"
    and "rb_limit (recvBuf (take_text d (conn s))) = rb_limit (recvBuf (conn s)) - length d"
proof -
  let ?b = "recvBuf (conn s)" and ?n = "length d"
  have wf: "rb_wf ?b" using rcv by (simp add: rcv_ok_def)
  have fit: "take (free ?b) d = d" using d(2) by simp
  have "0 < free ?b" using d(1,2) by (cases "free ?b") auto
  then have w: "Write ?b d = ok (of_nat ?n, None, after_write ?b d)"
    using Write_room [OF wf _ d(1)] d fit by simp
  note aw = after_write_wf [OF wf d(2,1,3)]
  have fs: "FreeSpace (after_write ?b d) = ok (of_nat (free ?b - ?n))"
    using FreeSpace_free [OF aw(2)] aw(4) by simp
  have small: "free ?b - ?n \<le> 65535" using free_le_capacity [OF rcv] by simp
  then have "unat (of_nat (free ?b - ?n) :: u32) = free ?b - ?n" by (intro unat_of_nat_small) simp
  then have "min (of_nat BUFFER_CAPACITY) (of_nat (free ?b - ?n)) = (of_nat (free ?b - ?n) :: u32)"
    using small by (intro min_absorb2) (simp add: word_le_nat_alt BUFFER_CAPACITY_def)
  then have "handleSegText E d s = bindG (sendAck E s') (\<lambda>(p, s'). ok (if p = None then Some SendFailed else None, s'))"
    using w fs by (simp add: handleSegText_def Let_def s'_def take_text_def set_conn_def)
  moreover have "net_up E (RemoteAddr (endpoint (conn s')))" using up by (simp add: s'_def)
  ultimately show "handleSegText E d s = ok (None, emit s' (ack_segment E s'))" by (simp add: sendAck_up)
  show "rcv_ok (take_text d (conn s))"
    using rcv aw(2,4) by (simp add: rcv_ok_def take_text_def) (simp add: after_write_def)
  show "contents (recvBuf (take_text d (conn s))) = contents ?b @ d"
    "free (recvBuf (take_text d (conn s))) = free ?b - ?n"
    "rb_limit (recvBuf (take_text d (conn s))) = rb_limit ?b - ?n"
    using aw by (simp_all add: take_text_def)
qed


section \<open>Acknowledgements\<close>

lemma unat_capacity: "unat (of_nat BUFFER_CAPACITY :: u32) = 65535"
  by (simp add: BUFFER_CAPACITY_def unat_of_nat)

text \<open>The lowest acknowledgement number that the first test lets through.\<close>

definition ack_floor :: "u32 \<Rightarrow> nat" where
  "ack_floor una = (if 65535 \<le> unat una then unat una - 65535 else unat una + 2 ^ 32 - 65535)"

lemma unat_ack_floor: "unat (una - of_nat BUFFER_CAPACITY) = ack_floor una"
proof (cases "65535 \<le> unat una")
  case True
  then show ?thesis by (simp add: ack_floor_def unat_minus word_le_nat_alt unat_capacity)
next
  case False
  then have "unat (una - of_nat BUFFER_CAPACITY) = unat una + 2 ^ 32 - 65535"
    by (simp add: unat_sub_if' unat_capacity)
  then show ?thesis using False by (simp add: ack_floor_def)
qed

lemma handleAck_cases:
  fixes p :: TCPPacket and s :: tcb
  assumes up: "net_up E (RemoteAddr (endpoint (conn s)))" and wf: "timer_wf (conn s)"
    and order: "sndUna (conn s) \<le> sndNxt (conn s)"
  defines "c \<equiv> conn s" and "a \<equiv> AckNum (TcpHeader p)" and "wnd \<equiv> ucast (TcpWindowSize (TcpHeader p)) :: u32"
  shows "unat a < ack_floor (sndUna c) \<or> sndNxt c < a \<Longrightarrow>
      handleAck E rnd now p s = ok (Some InvalidAck, emit s (ack_segment E s))"
    and "ack_floor (sndUna c) \<le> unat a \<Longrightarrow> sndUna c < a \<Longrightarrow> a \<le> sndNxt c \<Longrightarrow>
      freespaceC (sendBuf c) < scapacity (sendBuf c) \<Longrightarrow>
      \<exists>c'. handleAck E rnd now p s = ok (None, set_conn s c') \<and> timer_wf c' \<and>
        core c' = core (c\<lparr>sndUna := a, sndWnd := wnd, sendBuf := (sendBuf c)\<lparr>freespaceC := freespaceC (sendBuf c) + 1\<rparr>\<rparr>) \<and>
        inflightQ c' = dropWhile (acked_by a) (inflightQ c) \<and> (rtoIsRunning c' \<longleftrightarrow> inflightQ c' \<noteq> [])"
    and "ack_floor (sndUna c) \<le> unat a \<Longrightarrow> sndUna c = a \<Longrightarrow>
      \<exists>c'. handleAck E rnd now p s = ok (None, set_conn s c') \<and> timer_wf c' \<and>
        core c' = core (c\<lparr>sndWnd := wnd\<rparr>) \<and> inflightQ c' = inflightQ c \<and> rtoIsRunning c'"
    and "ack_floor (sndUna c) \<le> unat a \<Longrightarrow> a < sndUna c \<Longrightarrow> handleAck E rnd now p s = ok (None, s)"
proof -
  have first: "sndUna c - of_nat BUFFER_CAPACITY > a \<or> sndNxt c < a \<longleftrightarrow> unat a < ack_floor (sndUna c) \<or> sndNxt c < a"
    by (simp add: word_less_nat_alt [of a] unat_ack_floor)
  have first': "\<not> sndUna c - of_nat BUFFER_CAPACITY > a" if "ack_floor (sndUna c) \<le> unat a"
    using that by (simp add: word_less_nat_alt unat_ack_floor)
  show "handleAck E rnd now p s = ok (Some InvalidAck, emit s (ack_segment E s))"
    if "unat a < ack_floor (sndUna c) \<or> sndNxt c < a"
    using that first sendAck_up [OF up] by (simp add: handleAck_def Let_def c_def a_def)
  show "\<exists>c'. handleAck E rnd now p s = ok (None, set_conn s c') \<and> timer_wf c' \<and>
        core c' = core (c\<lparr>sndUna := a, sndWnd := wnd, sendBuf := (sendBuf c)\<lparr>freespaceC := freespaceC (sendBuf c) + 1\<rparr>\<rparr>) \<and>
        inflightQ c' = dropWhile (acked_by a) (inflightQ c) \<and> (rtoIsRunning c' \<longleftrightarrow> inflightQ c' \<noteq> [])"
    if *: "ack_floor (sndUna c) \<le> unat a" "sndUna c < a" "a \<le> sndNxt c" and room: "freespaceC (sendBuf c) < scapacity (sendBuf c)"
  proof -
    let ?c1 = "c\<lparr>sndUna := a, sndWnd := wnd, sendBuf := (sendBuf c)\<lparr>freespaceC := freespaceC (sendBuf c) + 1\<rparr>\<rparr>"
    have wf1: "timer_wf ?c1" using wf by (simp add: timer_wf_def c_def)
    obtain c2 where c2: "resetRetransTimer ?c1 True = ok c2" "timer_wf c2" "rtoIsRunning c2" "inflightQ c2 = inflightQ ?c1"
      using resetRetransTimer_wf [OF wf1] by blast
    obtain c3 where c3: "ackInflight rnd now c2 a = ok c3" "timer_wf c3" "inflightQ c3 = dropWhile (acked_by a) (inflightQ c2)"
        "inflightQ c3 = [] \<longrightarrow> \<not> rtoIsRunning c3" "inflightQ c3 \<noteq> [] \<longrightarrow> rtoIsRunning c3 = rtoIsRunning c2"
      using ackInflight_wf [OF c2(2), of rnd now a] by blast
    have "handleAck E rnd now p s = ok (None, set_conn s c3)"
      using *(2,3) room c2(1) c3(1)
      by (simp add: handleAck_def Let_def c_def a_def wnd_def first' [OF *(1), unfolded c_def a_def]
          leD [OF *(3), unfolded c_def a_def])
    moreover have "core c3 = core ?c1" using core_ackInflight [OF c3(1)] core_resetRetransTimer [OF c2(1)] by simp
    ultimately show ?thesis using c2 c3 by (intro exI [of _ c3]) auto
  qed
  show "\<exists>c'. handleAck E rnd now p s = ok (None, set_conn s c') \<and> timer_wf c' \<and>
        core c' = core (c\<lparr>sndWnd := wnd\<rparr>) \<and> inflightQ c' = inflightQ c \<and> rtoIsRunning c'"
    if *: "ack_floor (sndUna c) \<le> unat a" "sndUna c = a"
  proof -
    have wf1: "timer_wf (c\<lparr>sndWnd := wnd\<rparr>)" using wf by (simp add: timer_wf_def c_def)
    obtain c2 where c2: "resetRetransTimer (c\<lparr>sndWnd := wnd\<rparr>) True = ok c2" "timer_wf c2" "rtoIsRunning c2" "inflightQ c2 = inflightQ c"
      using resetRetransTimer_wf [OF wf1] by auto
    have "handleAck E rnd now p s = ok (None, set_conn s c2)"
      using *(2) order c2(1)
      by (simp add: handleAck_def Let_def c_def a_def wnd_def first' [OF *(1), unfolded *(2), unfolded a_def] leD)
    then show ?thesis using c2 core_resetRetransTimer [OF c2(1)] by blast
  qed
  show "handleAck E rnd now p s = ok (None, s)" if *: "ack_floor (sndUna c) \<le> unat a" "a < sndUna c"
  proof -
    have "\<not> sndUna c < a" "sndUna c \<noteq> a" "\<not> sndNxt c < a" using * order by (auto simp: c_def)
    then show ?thesis
      by (simp add: handleAck_def Let_def c_def a_def first' [OF *(1), unfolded c_def a_def])
  qed
qed

section \<open>Properties\<close>

text \<open>
  C28. What the receiver does with the sequence number of an arriving segment, on every branch, with no
  early segment queued and no wrap-around. The acceptance test is that of RFC 9293; an unacceptable
  segment is answered with an acknowledgement and changes nothing; one beyond \<^verbatim>\<open>RCV.NXT\<close> is queued and
  answered; of any other, exactly the part inside the window is handed on, unless the window is
  smaller than what was received before: then the slice bounds are out of range and the program
  panics.
\<close>

theorem segment_acceptance:
  assumes "net_up E (RemoteAddr (endpoint (conn s)))" and "window_ok (conn s)"
    and "unat (SeqNum (TcpHeader p)) + length (TPayload p) < 2 ^ 32" and "earlyArrivalQ (conn s) = []"
  shows "handleSeqNum E p s =
     (if \<not> rfc_acceptable (length (TPayload p)) (unat (windowSize (conn s))) (unat (SeqNum (TcpHeader p)))
            (unat (expectedSeqNum (conn s)))
      then ok (Inl Unacceptable, emit s (ack_segment E s))
      else if unat (expectedSeqNum (conn s)) < unat (SeqNum (TcpHeader p))
      then let s' = set_conn s (enqueue p (conn s)) in ok (Inr [], emit s' (ack_segment E s'))
      else let k = unat (expectedSeqNum (conn s)) - unat (SeqNum (TcpHeader p));
               n = min (length (TPayload p)) (unat (windowSize (conn s)))
           in if k \<le> n then ok (Inr (drop k (take n (TPayload p))), s) else panic SliceBounds)"
  by (rule handleSeqNum_exact [OF assms])

text \<open>A receiver with the given next sequence number, window and queue.\<close>

definition demo_receiver :: "u32 \<Rightarrow> i32 \<Rightarrow> Item list \<Rightarrow> VTCPConn" where
  "demo_receiver n w q = (demo_sender 0x20000)\<lparr>expectedSeqNum := n, windowSize := w, earlyArrivalQ := q\<rparr>"

definition demo_data :: "u32 \<Rightarrow> bytes \<Rightarrow> TCPPacket" where
  "demo_data seq d = NewTCPacket 80 20000 seq 0x20001 TCPFlagAck d 65535"

lemma segment_acceptance_witness:
  "handleSeqNum demo_env (demo_data 99 [1, 2, 3]) (demo_tcb (demo_receiver 100 2 [])) =
     ok (Inr [2], demo_tcb (demo_receiver 100 2 [])) \<and>
   handleSeqNum demo_env (demo_data 97 [1, 2, 3, 4]) (demo_tcb (demo_receiver 100 2 [])) = panic SliceBounds"
  using segment_acceptance [of demo_env "demo_tcb (demo_receiver 100 2 [])" "demo_data 99 [1, 2, 3]"]
    segment_acceptance [of demo_env "demo_tcb (demo_receiver 100 2 [])" "demo_data 97 [1, 2, 3, 4]"]
  by (simp add: demo_net_up demo_tcb_def demo_receiver_def demo_data_def window_ok_def rfc_acceptable_def Let_def)

text \<open>
  Early segments of one stream, in any order, duplicated or overlapping: as long as all of them
  fit the window together, \<^verbatim>\<open>aggregateEarlyArrivals\<close> returns, what it returns is a prefix of the
  stream that extends the data it was given and fits the window, and it changes nothing of the
  connection but the queue, from which it only removes.
\<close>

theorem early_arrivals_merge:
  assumes "\<forall>p \<in> set (map ivalue (earlyArrivalQ c)). honest st p"
    and "b - a + load_bytes (earlyArrivalQ c) \<le> unat (windowSize c)" and "unat (windowSize c) < 2 ^ 31"
    and "a \<le> b" and "b < 2 ^ 32"
  shows "\<exists>e q'. aggregateEarlyArrivals c (span st a b) (of_nat b) = ok (span st a e, c\<lparr>earlyArrivalQ := q'\<rparr>) \<and>
    b \<le> e \<and> e - a \<le> unat (windowSize c) \<and> mset (map ivalue q') \<subseteq># mset (map ivalue (earlyArrivalQ c))"
  by (rule aggregate_honest [OF assms])

definition demo_item :: "u32 \<Rightarrow> bytes \<Rightarrow> Item" where
  "demo_item seq d = \<lparr>ivalue = demo_data seq d, priority = seq, index = 0\<rparr>"

lemma early_arrivals_merge_witness:
  "\<exists>e q'. aggregateEarlyArrivals (demo_receiver 100 50 [demo_item 101 [101, 102, 103], demo_item 103 [103, 104]])
     (span of_nat 100 102) (of_nat 102) =
     ok (span of_nat 100 e, (demo_receiver 100 50 [demo_item 101 [101, 102, 103], demo_item 103 [103, 104]])\<lparr>earlyArrivalQ := q'\<rparr>) \<and>
     102 \<le> e"
proof -
  let ?c = "demo_receiver 100 50 [demo_item 101 [101, 102, 103], demo_item 103 [103, 104]]"
  have "\<forall>p \<in> set (map ivalue (earlyArrivalQ ?c)). honest of_nat p"
    by (simp add: demo_receiver_def demo_item_def demo_data_def honest_def span_def upt_rec)
  from early_arrivals_merge [OF this, of 102 100] show ?thesis
    by (auto simp: demo_receiver_def demo_item_def demo_data_def)
qed

text \<open>
  An early segment that overlaps what was received and is longer than the window left: the
  end of the slice is not moved with its start. If the overlap is exactly the window, the loop
  trims nothing for ever, with the receiving goroutine stuck in it; otherwise it panics.
\<close>

theorem early_overlap_spins_or_panics:
  assumes "earlyArrivalQ c = x # r" and "SeqNum (TcpHeader (ivalue x)) < start"
    and "length data < unat (windowSize c)" and "unat (windowSize c) < 2 ^ 31"
    and "unat start \<le> unat (SeqNum (TcpHeader (ivalue x))) + length (TPayload (ivalue x))"
    and "unat (windowSize c) - length data < length (TPayload (ivalue x))"
    and "unat (SeqNum (TcpHeader (ivalue x))) + length (TPayload (ivalue x)) < 2 ^ 32"
  shows "aggregateEarlyArrivals c data start =
    (if unat start - unat (SeqNum (TcpHeader (ivalue x))) = unat (windowSize c) - length data
     then panic NeverReturns else panic SliceBounds)"
proof -
  let ?wnd = "windowSize c - of_nat (length data)"
  have "unat (of_nat (length data) :: u32) = length data" using assms(3,4) by (intro unat_of_nat_small) simp
  then have wnd: "unat ?wnd = unat (windowSize c) - length data"
    using assms(3) by (simp add: unat_minus word_le_nat_alt)
  then have nz: "?wnd \<noteq> 0" using assms(3) by (auto simp: word_unat_eq_iff)
  have "0 < unat ?wnd" "unat ?wnd < 2 ^ 31" "unat ?wnd < length (TPayload (ivalue x))" using wnd assms(3,4,6) by linarith+
  from aggLoop_overlap [OF assms(1,2) this(1,2) assms(5) this(3) assms(7), of data] show ?thesis
    using nz wnd by (simp add: aggregateEarlyArrivals_def panic_def)
qed

lemma early_overlap_spins_or_panics_witness:
  "aggregateEarlyArrivals (demo_receiver 100 3 [demo_item 100 [0, 1, 2, 3]]) [0] 102 = panic NeverReturns \<and>
   aggregateEarlyArrivals (demo_receiver 100 3 [demo_item 100 [0, 1, 2, 3]]) [0, 1] 102 = panic SliceBounds"
  using early_overlap_spins_or_panics [of "demo_receiver 100 3 [demo_item 100 [0, 1, 2, 3]]" "demo_item 100 [0, 1, 2, 3]" "[]" 102 "[0]"]
    early_overlap_spins_or_panics [of "demo_receiver 100 3 [demo_item 100 [0, 1, 2, 3]]" "demo_item 100 [0, 1, 2, 3]" "[]" 102 "[0, 1]"]
  by (simp add: demo_receiver_def demo_item_def demo_data_def word_less_nat_alt)


text \<open>
  An overlapping segment makes the receiver corrupt the stream: the early segments are merged from
  the sequence number of the segment's own start plus the length of what is left of it after
  trimming, which is too low. Here bytes 95 to 114 arrive where 100 is expected and 105 to 112 are
  queued; bytes 110 to 112 are delivered a second time, after byte 114.
\<close>

theorem overlap_duplicates_bytes:
  "\<exists>c'. handleSeqNum E (demo_data 95 (span of_nat 95 115))
       (demo_tcb (demo_receiver 100 50 [demo_item 105 (span of_nat 105 113)])) =
     ok (Inr (span of_nat 100 115 @ span of_nat 110 113), demo_tcb c')"
proof -
  let ?q = "[demo_item 105 (span of_nat 105 113)]"
  have "HeapPop ?q = ok (\<lparr>ivalue = demo_data 105 (span of_nat 105 113), priority = 105, index = -1\<rparr>, [])"
    by (simp add: HeapPop_def Pop_def Swap_def heap_down.simps Let_def demo_item_def)
  then have "aggLoop ?q (span of_nat 100 115) 110 35 = Some (ok (span of_nat 100 115 @ span of_nat 110 113, []))"
    by (subst aggLoop.simps)
      (simp add: demo_item_def demo_data_def slice_signed_def drop_span take_span Let_def word_less_nat_alt word_le_nat_alt
        ok_def aggLoop.simps)
  then show ?thesis
    by (simp add: handleSeqNum_def isValidSeg_def demo_tcb_def demo_receiver_def demo_data_def slice_signed_def drop_span
        take_span Let_def aggregateEarlyArrivals_def set_conn_def)
qed

text \<open>
  Once \<^verbatim>\<open>RCV.NXT + RCV.WND\<close> passes \<open>2 ^ 32\<close> with a window that is not zero, no segment at all is
  acceptable any more: each is dropped and answered with the same acknowledgement, and the
  connection receives nothing for ever.
\<close>

theorem receiver_stuck_at_wrap:
  assumes "net_up E (RemoteAddr (endpoint (conn s)))" and "0 < unat (windowSize (conn s))"
    and "unat (windowSize (conn s)) < 2 ^ 31"
    and "2 ^ 32 \<le> unat (expectedSeqNum (conn s)) + unat (windowSize (conn s))"
  shows "handleSeqNum E p s = ok (Inl Unacceptable, emit s (ack_segment E s))"
proof -
  have empty: "\<not> (x \<ge> expectedSeqNum (conn s) \<and> x < expectedSeqNum (conn s) + windowSize (conn s))" for x
    using assms(4) by (rule wrapped_window_empty)
  have "windowSize (conn s) \<noteq> 0" using assms(2) by (simp add: unat_gt_0)
  moreover have "sint (windowSize (conn s)) = int (unat (windowSize (conn s)))" using assms(3) by (rule sint_small)
  then have "sint (windowSize (conn s)) > 0" using assms(2) by linarith
  ultimately have "\<not> isValidSeg p (conn s)"
    unfolding isValidSeg_def Let_def using empty by (cases "length (TPayload p) = 0") (simp_all only: if_True if_False simp_thms)
  then show ?thesis using sendAck_up [OF assms(1)] by (simp add: handleSeqNum_def)
qed

lemma receiver_stuck_at_wrap_witness:
  "handleSeqNum demo_env (demo_data 0xffff0001 [1]) (demo_tcb (demo_receiver 0xffff0001 65535 [])) =
     ok (Inl Unacceptable, emit (demo_tcb (demo_receiver 0xffff0001 65535 []))
       (ack_segment demo_env (demo_tcb (demo_receiver 0xffff0001 65535 []))))"
  by (rule receiver_stuck_at_wrap) (simp_all add: demo_net_up demo_tcb_def demo_receiver_def)

text \<open>
  What an acknowledgement number does, on every branch. With \<open>SND.UNA\<close> of at least 65535: one that
  is too old or acknowledges something not yet sent is answered and refused; a new one moves
  \<open>SND.UNA\<close>, takes the peer's window, wakes a waiting writer, takes exactly the acknowledged segments off
  the retransmission queue and keeps the timer running exactly while some are left; a repeated one
  only takes the window; an old one inside the last 65535 changes nothing. With a smaller \<open>SND.UNA\<close> the
  subtraction in the first test wraps around, and every acknowledgement, valid or not, below
  \<open>SND.UNA + 2 ^ 32 - 65535\<close> is refused.
\<close>

theorem handle_ack:
  assumes "net_up E (RemoteAddr (endpoint (conn s)))" and "timer_wf (conn s)"
    and "freespaceC (sendBuf (conn s)) < scapacity (sendBuf (conn s))" and "sndUna (conn s) \<le> sndNxt (conn s)"
  shows "(let c = conn s; a = AckNum (TcpHeader p);
              lowest = (if 65535 \<le> unat (sndUna c) then unat (sndUna c) - 65535 else unat (sndUna c) + 2 ^ 32 - 65535)
          in if unat a < lowest \<or> sndNxt c < a then handleAck E rnd now p s = ok (Some InvalidAck, emit s (ack_segment E s))
             else if a < sndUna c then handleAck E rnd now p s = ok (None, s)
             else \<exists>c'. handleAck E rnd now p s = ok (None, set_conn s c') \<and> timer_wf c' \<and>
                    sndUna c' = a \<and> sndWnd c' = ucast (TcpWindowSize (TcpHeader p)) \<and> sndNxt c' = sndNxt c \<and>
                    state c' = state c \<and> recvBuf c' = recvBuf c \<and>
                    (if a = sndUna c then inflightQ c' = inflightQ c \<and> rtoIsRunning c' \<and> sendBuf c' = sendBuf c
                     else inflightQ c' = dropWhile (acked_by a) (inflightQ c) \<and> (rtoIsRunning c' \<longleftrightarrow> inflightQ c' \<noteq> []) \<and>
                       freespaceC (sendBuf c') = freespaceC (sendBuf c) + 1))"
proof -
  let ?c = "conn s" and ?a = "AckNum (TcpHeader p)"
  have low: "(if 65535 \<le> unat (sndUna ?c) then unat (sndUna ?c) - 65535 else unat (sndUna ?c) + 2 ^ 32 - 65535) = ack_floor (sndUna ?c)"
    by (simp add: ack_floor_def)
  note cases = handleAck_cases [OF assms(1,2,4), of p rnd now]
  consider "unat ?a < ack_floor (sndUna ?c) \<or> sndNxt ?c < ?a" | "ack_floor (sndUna ?c) \<le> unat ?a" "?a \<le> sndNxt ?c" "?a < sndUna ?c"
    | "ack_floor (sndUna ?c) \<le> unat ?a" "?a \<le> sndNxt ?c" "sndUna ?c = ?a"
    | "ack_floor (sndUna ?c) \<le> unat ?a" "?a \<le> sndNxt ?c" "sndUna ?c < ?a"
    by (meson leI linorder_neqE)
  then show ?thesis
  proof cases
    case 1
    then show ?thesis using cases(1) unfolding Let_def low by simp
  next
    case 2
    then show ?thesis using cases(4) unfolding Let_def low by (simp add: leD not_less [symmetric])
  next
    case 3
    then obtain c' where c': "handleAck E rnd now p s = ok (None, set_conn s c')" "timer_wf c'" "inflightQ c' = inflightQ ?c"
        "rtoIsRunning c'" and core: "core c' = core (?c\<lparr>sndWnd := ucast (TcpWindowSize (TcpHeader p))\<rparr>)"
      using cases(3) by blast
    show ?thesis using 3 c' core_fields [OF core] unfolding Let_def low by (simp add: leD not_less [symmetric])
  next
    case 4
    then obtain c' where c': "handleAck E rnd now p s = ok (None, set_conn s c')" "timer_wf c'"
        "inflightQ c' = dropWhile (acked_by ?a) (inflightQ ?c)" "rtoIsRunning c' \<longleftrightarrow> inflightQ c' \<noteq> []"
      and core: "core c' = core (?c\<lparr>sndUna := ?a, sndWnd := ucast (TcpWindowSize (TcpHeader p)),
          sendBuf := (sendBuf ?c)\<lparr>freespaceC := freespaceC (sendBuf ?c) + 1\<rparr>\<rparr>)"
      using cases(2) assms(3) by blast
    show ?thesis using 4 c' core_fields [OF core] unfolding Let_def low by (auto simp: leD not_less [symmetric])
  qed
qed

lemma handle_ack_witness:
  "\<exists>c'. handleAck demo_env (\<lambda>x. x) 0 (demo_data 100 []) (demo_tcb ((demo_receiver 100 50 [])\<lparr>sndNxt := 0x20003\<rparr>)) =
     ok (None, set_conn (demo_tcb ((demo_receiver 100 50 [])\<lparr>sndNxt := 0x20003\<rparr>)) c') \<and> sndUna c' = 0x20001 \<and> sndWnd c' = 65535"
  using handle_ack [of demo_env "demo_tcb ((demo_receiver 100 50 [])\<lparr>sndNxt := 0x20003\<rparr>)" "demo_data 100 []" "\<lambda>x. x" 0]
  by (auto simp: demo_net_up demo_tcb_def demo_receiver_def demo_data_def timer_wf_def demo_sender_def newSendBuf_def NewSocket_def
      Let_def word_less_nat_alt)

end
