(* ===== verification/Tcp_State.thy ===== *)
theory Tcp_State imports Tcp_Receive begin

text \<open>
  The connection state machine (\<^verbatim>\<open>state.go\<close>): one function per state for an arriving segment, the
  user's close, the TIME-WAIT timer, and the handshake of \<^verbatim>\<open>conn.go\<close>.
\<close>

unbundle bit_operations_syntax

section \<open>The segment handlers\<close>

text \<open>What most handlers begin with: sequence number, ACK bit, acknowledgement.\<close>

definition onAccepted ::
    "env \<Rightarrow> (rat \<Rightarrow> rat) \<Rightarrow> int \<Rightarrow> TCPPacket \<Rightarrow> tcb \<Rightarrow> (bytes \<Rightarrow> tcb \<Rightarrow> tcb go) \<Rightarrow> tcb go" where
  "onAccepted E rnd now segment s k =
     bindG (handleSeqNum E segment s) (\<lambda>(r, s1).
       case r of
         Inl e \<Rightarrow> ok s1
       | Inr aggData \<Rightarrow>
           if \<not> IsAck segment then ok s1
           else bindG (handleAck E rnd now segment s1) (\<lambda>(err, s2).
                  case err of Some e \<Rightarrow> ok s2 | None \<Rightarrow> k aggData s2))"

text \<open>\<^verbatim>\<open>if aggSegLen > 0 { err = handleSegText(...); if err != nil { return } }\<close>\<close>

definition withText :: "env \<Rightarrow> bytes \<Rightarrow> tcb \<Rightarrow> (tcb \<Rightarrow> tcb go) \<Rightarrow> tcb go" where
  "withText E aggData s k =
     (if aggData = [] then k s
      else bindG (handleSegText E aggData s) (\<lambda>(err, s1). case err of Some e \<Rightarrow> ok s1 | None \<Rightarrow> k s1))"

definition finToCloseWait :: "env \<Rightarrow> TCPPacket \<Rightarrow> tcb \<Rightarrow> tcb go" where
  "finToCloseWait E segment s =
     (if IsFin segment
      then bindG (handleFin E segment s) (\<lambda>(err, s1). case err of Some e \<Rightarrow> ok s1 | None \<Rightarrow> ok (setState s1 CLOSE_WAIT))
      else ok s)"

definition stateFuncSynRcvd :: "env \<Rightarrow> TCPPacket \<Rightarrow> tcb \<Rightarrow> tcb go" where
  "stateFuncSynRcvd E segment s =
     bindG (handleSeqNum E segment s) (\<lambda>(r, s1).
       case r of
         Inl e \<Rightarrow> ok s1
       | Inr aggData \<Rightarrow>
           if \<not> IsAck segment then deleteSocket s1
           else
             let c = conn s1; segAck = AckNum (TcpHeader segment)
             in if sndUna c < segAck \<and> segAck \<le> sndNxt c then
                  withText E aggData
                    (set_conn s1 (c\<lparr>state := ESTABLISHED, sndWnd := ucast (TcpWindowSize (TcpHeader segment)), sndUna := segAck\<rparr>))
                    (\<lambda>s2. finToCloseWait E segment (spawn s2 SendBufferedData))
                else finToCloseWait E segment s1)"

definition stateFuncSynSent :: "env \<Rightarrow> TCPPacket \<Rightarrow> tcb \<Rightarrow> tcb go" where
  "stateFuncSynSent E p s =
     (let c = conn s; segSeq = SeqNum (TcpHeader p); segAck = AckNum (TcpHeader p)
      in if \<not> IsAck p \<and> \<not> IsSyn p then deleteSocket s
         else if sndUna c \<ge> segAck \<and> segAck > sndNxt c then deleteSocket s
         else
           let c1 = c\<lparr>expectedSeqNum := segSeq + 1,
                      recvBuf := SetLBR (AdvanceNxt (recvBuf c) segSeq False) segSeq,
                      irs := segSeq, sndUna := segAck\<rparr>
           in if segAck > iss c1 then
                bindG (sendAck E (set_conn s (c1\<lparr>state := ESTABLISHED, sndWnd := ucast (TcpWindowSize (TcpHeader p))\<rparr>)))
                  (\<lambda>(q, s1). if q = None then deleteSocket s1 else ok (spawn s1 SendBufferedData))
              else deleteSocket (set_conn s c1))"

definition stateFuncEstablished :: "env \<Rightarrow> (rat \<Rightarrow> rat) \<Rightarrow> int \<Rightarrow> TCPPacket \<Rightarrow> tcb \<Rightarrow> tcb go" where
  "stateFuncEstablished E rnd now segment s =
     onAccepted E rnd now segment s (\<lambda>aggData s2.
       withText E aggData s2 (\<lambda>s3. finToCloseWait E segment s3))"

definition stateFuncFinWait1 :: "env \<Rightarrow> (rat \<Rightarrow> rat) \<Rightarrow> int \<Rightarrow> TCPPacket \<Rightarrow> tcb \<Rightarrow> tcb go" where
  "stateFuncFinWait1 E rnd now segment s =
     onAccepted E rnd now segment s (\<lambda>aggData s2.
       let finAcked = (AckNum (TcpHeader segment) = sndNxt (conn s2))
       in if finAcked \<and> IsFin segment then ok (spawn (setState s2 TIME_WAIT) TimeWaitTimer)
          else
            let s3 = (if finAcked then setState s2 FIN_WAIT_2 else s2);
                s4 = (if IsFin segment then setState s3 CLOSING else s3)
            in withText E aggData s4 ok)"

definition stateFuncFinWait2 :: "env \<Rightarrow> (rat \<Rightarrow> rat) \<Rightarrow> int \<Rightarrow> TCPPacket \<Rightarrow> tcb \<Rightarrow> tcb go" where
  "stateFuncFinWait2 E rnd now segment s =
     onAccepted E rnd now segment s (\<lambda>aggData s2.
       let rest = (\<lambda>s3. withText E aggData s3 (\<lambda>s4.
                     ok (if IsFin segment then spawn (setState s4 TIME_WAIT) TimeWaitTimer else s4)))
       in if inflightQ (conn s2) = [] \<and> IsFin segment then
            bindG (sendAck E (set_conn s2 ((conn s2)\<lparr>expectedSeqNum := SeqNum (TcpHeader segment) + 1\<rparr>)))
              (\<lambda>(p, s3). if p = None then ok s3 else rest s3)
          else rest s2)"

definition stateFuncCloseWait :: "env \<Rightarrow> (rat \<Rightarrow> rat) \<Rightarrow> int \<Rightarrow> TCPPacket \<Rightarrow> tcb \<Rightarrow> tcb go" where
  "stateFuncCloseWait E rnd now segment s = onAccepted E rnd now segment s (\<lambda>aggData s2. ok s2)"

definition stateFuncClosing :: "env \<Rightarrow> (rat \<Rightarrow> rat) \<Rightarrow> int \<Rightarrow> TCPPacket \<Rightarrow> tcb \<Rightarrow> tcb go" where
  "stateFuncClosing E rnd now segment s =
     onAccepted E rnd now segment s (\<lambda>aggData s2.
       if sndNxt (conn s2) \<noteq> AckNum (TcpHeader segment) then ok s2
       else ok (spawn (setState s2 TIME_WAIT) TimeWaitTimer))"

definition stateFuncLastAck :: "env \<Rightarrow> (rat \<Rightarrow> rat) \<Rightarrow> int \<Rightarrow> TCPPacket \<Rightarrow> tcb \<Rightarrow> tcb go" where
  "stateFuncLastAck E rnd now segment s =
     onAccepted E rnd now segment s (\<lambda>aggData s2.
       if sndNxt (conn s2) \<noteq> AckNum (TcpHeader segment) then ok s2
       else deleteSocket (setState s2 CLOSED))"

text \<open>
  The token for the TIME-WAIT timer goes over a channel without a buffer: the goroutine that was
  started on entering the state takes it.
\<close>

definition stateFuncTimeWait :: "env \<Rightarrow> (rat \<Rightarrow> rat) \<Rightarrow> int \<Rightarrow> TCPPacket \<Rightarrow> tcb \<Rightarrow> tcb go" where
  "stateFuncTimeWait E rnd now segment s =
     onAccepted E rnd now segment s (\<lambda>aggData s2.
       bindG (sendAck E (set_conn s2 ((conn s2)\<lparr>expectedSeqNum := SeqNum (TcpHeader segment) + 1\<rparr>)))
         (\<lambda>(p, s3). ok s3))"

definition stateMachine :: "env \<Rightarrow> (rat \<Rightarrow> rat) \<Rightarrow> int \<Rightarrow> TCPPacket \<Rightarrow> tcb \<Rightarrow> tcb go" where
  "stateMachine E rnd now segment s =
     (case state (conn s) of
        CLOSED \<Rightarrow> ok s
      | LISTEN \<Rightarrow> ok s
      | SYN_RECEIVED \<Rightarrow> stateFuncSynRcvd E segment s
      | SYN_SENT \<Rightarrow> stateFuncSynSent E segment s
      | ESTABLISHED \<Rightarrow> stateFuncEstablished E rnd now segment s
      | FIN_WAIT_1 \<Rightarrow> stateFuncFinWait1 E rnd now segment s
      | FIN_WAIT_2 \<Rightarrow> stateFuncFinWait2 E rnd now segment s
      | CLOSING \<Rightarrow> stateFuncClosing E rnd now segment s
      | TIME_WAIT \<Rightarrow> stateFuncTimeWait E rnd now segment s
      | CLOSE_WAIT \<Rightarrow> stateFuncCloseWait E rnd now segment s
      | LAST_ACK \<Rightarrow> stateFuncLastAck E rnd now segment s)"

section \<open>Closing\<close>

text \<open>The FIN that a close sends, and what the code does with it.\<close>

definition sendFin :: "env \<Rightarrow> int \<Rightarrow> tcb \<Rightarrow> (tcb \<Rightarrow> tcb) \<Rightarrow> (tcp_error option \<times> tcb) go" where
  "sendFin E now s k =
     bindG (sendCTL E s (sndNxt (conn s)) (expectedSeqNum (conn s)) (TCPFlagFin OR TCPFlagAck)) (\<lambda>(p, s1).
       case p of
         None \<Rightarrow> ok (Some SendFailed, s1)
       | Some pk \<Rightarrow>
           let c1 = (conn s1)\<lparr>inflightQ := inflightQ (conn s1) @ [\<lparr>timeSent = now, plength = 0, counter = 0, packet = pk\<rparr>]\<rparr>
           in bindG (resetRetransTimer c1 False) (\<lambda>c2. ok (None, k (set_conn s1 c2))))"

text \<open>\<^verbatim>\<open>activeClose\<close>; where the code spins until everything is sent, the call waits.\<close>

definition activeClose :: "env \<Rightarrow> int \<Rightarrow> tcb \<Rightarrow> (tcp_error option \<times> tcb) go" where
  "activeClose E now s =
     (let c = conn s;
          advance = (\<lambda>st s'. setState (set_conn s' ((conn s')\<lparr>sndNxt := sndNxt (conn s') + 1\<rparr>)) st)
      in case state c of
           SYN_SENT \<Rightarrow> bindG (deleteSocket s) (\<lambda>s'. ok (Some Closing, s'))
         | SYN_RECEIVED \<Rightarrow>
             if sndNxt c \<noteq> iss c + 1 \<and> numBytesNotSent c = 0
             then sendFin E now s (\<lambda>s'. setState s' FIN_WAIT_1) else ok (None, s)
         | ESTABLISHED \<Rightarrow>
             if numBytesNotSent c > 0 then panic Blocked else sendFin E now s (advance FIN_WAIT_1)
         | CLOSE_WAIT \<Rightarrow>
             if numBytesNotSent c > 0 then panic Blocked else sendFin E now s (advance LAST_ACK)
         | _ \<Rightarrow> ok (Some Closing, s))"

definition VClose :: "env \<Rightarrow> int \<Rightarrow> tcb \<Rightarrow> (tcp_error option \<times> tcb) go" where
  "VClose E now s = activeClose E now s"

text \<open>\<^verbatim>\<open>timeWaitTimer\<close> when its timer expires.\<close>

definition timeWaitExpires :: "tcb \<Rightarrow> tcb go" where
  "timeWaitExpires s = deleteSocket (setState s CLOSED)"

section \<open>The handshake\<close>

text \<open>
  \<^verbatim>\<open>doHandshakes\<close>: after each (SYN or SYN+ACK) it waits for the timer or a segment. The events that
  arrive are a list; \<open>HsWaiting\<close> is the result when it ends first.
\<close>

datatype hs_event = HsTimeout | HsSegment TCPPacket

datatype hs_result = HsDone bool tcb | HsWaiting tcb

fun doHandshakes ::
    "env \<Rightarrow> (rat \<Rightarrow> rat) \<Rightarrow> int \<Rightarrow> bool \<Rightarrow> hs_event list \<Rightarrow> nat \<Rightarrow> tcb \<Rightarrow> hs_result go" where
  "doHandshakes E rnd now isActive events attempt s =
     (if attempt = MAX_RETRANSMISSIONS + 1 then ok (HsDone False s)
      else
        bindG (if isActive then sendCTL E s (iss (conn s)) 0 TCPFlagSyn
               else sendCTL E s (iss (conn s)) (expectedSeqNum (conn s)) (TCPFlagSyn OR TCPFlagAck)) (\<lambda>(p, s1).
          if p = None then ok (HsDone False s1)
          else (case events of
              [] \<Rightarrow> ok (HsWaiting s1)
            | HsTimeout # es \<Rightarrow>
                doHandshakes E rnd now isActive es (attempt + 1) (set_conn s1 ((conn s1)\<lparr>rto := 3000\<rparr>))
            | HsSegment segment # es \<Rightarrow>
                if \<not> isActive \<and> IsSyn segment then
                  doHandshakes E rnd now False es 0
                    (set_conn s1 ((conn s1)
                      \<lparr>irs := SeqNum (TcpHeader segment), expectedSeqNum := SeqNum (TcpHeader segment) + 1,
                       recvBuf := NewRecvBuf (of_nat BUFFER_CAPACITY) (SeqNum (TcpHeader segment))\<rparr>))
                else
                  bindG (stateMachine E rnd now segment
                           (set_conn s1 ((conn s1)\<lparr>sndNxt := sndNxt (conn s1) + 1\<rparr>))) (\<lambda>s2.
                    ok (HsDone True s2)))))"

declare doHandshakes.simps [simp del]

end
