(* ===== verification/Tcp_Machine.thy ===== *)
theory Tcp_Machine imports Tcp_State begin

text \<open>
  The connection as a state machine: every operation of \<open>Tcp_Conn\<close> and \<open>Tcp_State\<close> as a step, and
  the invariants of all reachable connections.
\<close>

unbundle bit_operations_syntax

section \<open>What the parts of a handler leave alone\<close>

text \<open>
  \<open>still\<close>: state, table entry and goroutines are the same before and after, and the retransmission
  timeout stays within its bounds; \<open>calm\<close>: \<^verbatim>\<open>SND.NXT\<close> is the same, too.
\<close>

definition rto_ok :: "VTCPConn \<Rightarrow> bool" where
  "rto_ok c \<longleftrightarrow> 100 \<le> rto c \<and> rto c \<le> 5000"

text \<open>The endpoint and the socket id of a connection never change.\<close>

datatype ident = Ident TCPEndpointID i32

definition who :: "VTCPConn \<Rightarrow> ident" where
  "who c = Ident (endpoint c) (socketId c)"

definition still :: "tcb \<Rightarrow> tcb \<Rightarrow> bool" where
  "still s s' \<longleftrightarrow> who (conn s') = who (conn s) \<and> state (conn s') = state (conn s) \<and> entry s' = entry s \<and> spawned s' = spawned s \<and>
     (rto_ok (conn s) \<longrightarrow> rto_ok (conn s'))"

definition calm :: "tcb \<Rightarrow> tcb \<Rightarrow> bool" where
  "calm s s' \<longleftrightarrow> still s s' \<and> sndNxt (conn s') = sndNxt (conn s)"

lemma still_refl [simp, intro]: "still s s"
  by (simp add: still_def)

lemma still_trans [trans]: "still s t \<Longrightarrow> still t u \<Longrightarrow> still s u"
  by (simp add: still_def)

lemma core_who: "core c' = core c \<Longrightarrow> who c' = who c"
  by (cases c; cases c'; simp add: core_def who_def)

lemmas calm_defs = calm_def still_def rto_ok_def who_def

lemma calm_refl [simp, intro]: "calm s s"
  by (simp add: calm_def)

lemma calm_trans [trans]: "calm s t \<Longrightarrow> calm t u \<Longrightarrow> calm s u"
  using still_trans by (auto simp: calm_def)

lemma calm_sendAck: "sendAck E s = ok (q, s') \<Longrightarrow> calm s s'"
  using sendAck_keeps [of E s q s'] by (simp add: calm_defs)

lemma calm_aggregate: "aggregateEarlyArrivals c d n = ok (d', c') \<Longrightarrow> calm s (set_conn s c) \<Longrightarrow> calm s (set_conn s c')"
  by (auto simp: aggregateEarlyArrivals_def Let_def bindG_eq_ok_iff calm_defs split: if_splits option.splits)

lemma calm_handleSeqNum:
  assumes "handleSeqNum E p s = ok (r, s')"
  shows "calm s s'"
proof (cases "isValidSeg p (conn s)")
  case False
  then obtain q where "sendAck E s = ok (q, s')" using assms by (auto simp: handleSeqNum_def bindG_eq_ok_iff)
  then show ?thesis by (rule calm_sendAck)
next
  case valid: True
  show ?thesis
  proof (cases "SeqNum (TcpHeader p) > expectedSeqNum (conn s)")
    case True
    then obtain q where "sendAck E (set_conn s (enqueue p (conn s))) = ok (q, s')"
      using assms valid by (auto simp: handleSeqNum_def bindG_eq_ok_iff enqueue_def Let_def)
    then have "calm (set_conn s (enqueue p (conn s))) s'" by (rule calm_sendAck)
    moreover have "calm s (set_conn s (enqueue p (conn s)))" by (simp add: calm_defs enqueue_def)
    ultimately show ?thesis by (rule calm_trans [rotated])
  next
    case False
    then obtain d n d' c' where "aggregateEarlyArrivals (conn s) d n = ok (d', c')" and "s' = set_conn s c'"
      using assms valid by (auto simp: handleSeqNum_def bindG_eq_ok_iff Let_def)
    then show ?thesis using calm_aggregate by simp
  qed
qed

lemma calm_reset_ack:
  assumes "resetRetransTimer c f = ok c1" and "calm s (set_conn s c)"
  shows "calm s (set_conn s c1)"
  using core_fields(2,5) [OF core_resetRetransTimer [OF assms(1)]] core_who [OF core_resetRetransTimer [OF assms(1)]] rto_resetRetransTimer [OF assms(1)] assms(2)
  by (simp add: calm_defs)

lemma calm_ackInflight:
  assumes "ackInflight rnd now c a = ok c1" and "calm s (set_conn s c)"
  shows "calm s (set_conn s c1)"
proof -
  have "rto c1 = rto c \<or> rto_ok c1"
    using assms(1) rto_ackLoop [of rnd now a False "inflightQ c" c] rto_stopRetransTimer
    by (fastforce simp: ackInflight_def Let_def rto_ok_def MIN_RTO_def MAX_RTO_def split: if_splits)
  then show ?thesis
    using core_fields(2,5) [OF core_ackInflight [OF assms(1)]] core_who [OF core_ackInflight [OF assms(1)]] assms(2) by (auto simp: calm_defs)
qed

lemma calm_handleAck:
  assumes "handleAck E rnd now p s = ok (r, s')"
  shows "calm s s'"
proof -
  have fields: "calm s (set_conn s ((conn s)\<lparr>sndUna := a, sndWnd := w, sendBuf := b\<rparr>))"
    "calm s (set_conn s ((conn s)\<lparr>sndWnd := w\<rparr>))" for a w b
    by (simp_all add: calm_defs)
  show ?thesis
    using assms fields
    by (auto simp: handleAck_def Let_def bindG_eq_ok_iff split: if_splits dest: calm_sendAck)
      (blast intro: calm_reset_ack calm_ackInflight)+
qed

lemma calm_handleSegText:
  assumes "handleSegText E d s = ok (r, s')"
  shows "calm s s'"
proof -
  obtain n e rb where w: "Write (recvBuf (conn s)) d = ok (n, e, rb)"
    using assms by (auto simp: handleSegText_def bindG_eq_ok_iff)
  show ?thesis
  proof (cases e)
    case None
    then obtain c q where "sendAck E (set_conn s c) = ok (q, s')" and "calm s (set_conn s c)"
      using assms w by (auto simp: handleSegText_def bindG_eq_ok_iff Let_def calm_defs)
    then show ?thesis using calm_sendAck calm_trans by blast
  next
    case (Some a)
    then show ?thesis using assms w by (auto simp: handleSegText_def calm_defs)
  qed
qed

lemma calm_handleFin:
  assumes "handleFin E p s = ok (r, s')"
  shows "calm s s'"
proof -
  obtain c q where "sendAck E (set_conn s c) = ok (q, s')" and "calm s (set_conn s c)"
    using assms by (auto simp: handleFin_def bindG_eq_ok_iff Let_def calm_defs)
  then show ?thesis using calm_sendAck calm_trans by blast
qed

lemma onAccepted_cases:
  assumes "onAccepted E rnd now p s k = ok s'"
  shows "calm s s' \<or> (\<exists>d s2. IsAck p \<and> calm s s2 \<and> k d s2 = ok s')"
proof -
  obtain r s1 where r: "handleSeqNum E p s = ok (r, s1)" using assms by (auto simp: onAccepted_def bindG_eq_ok_iff)
  have s1: "calm s s1" using r by (rule calm_handleSeqNum)
  show ?thesis
  proof (cases r)
    case (Inl e)
    then show ?thesis using assms r s1 by (simp add: onAccepted_def)
  next
    case (Inr d)
    show ?thesis
    proof (cases "IsAck p")
      case False
      then show ?thesis using assms r s1 Inr by (simp add: onAccepted_def)
    next
      case True
      then obtain err s2 where h: "handleAck E rnd now p s1 = ok (err, s2)"
        using assms r Inr by (auto simp: onAccepted_def bindG_eq_ok_iff)
      have s2: "calm s s2" using s1 calm_handleAck [OF h] by (rule calm_trans)
      show ?thesis using assms r Inr True h s2 by (cases err) (auto simp: onAccepted_def)
    qed
  qed
qed

lemma withText_cases:
  assumes "withText E d s k = ok s'"
  shows "calm s s' \<or> (\<exists>s1. calm s s1 \<and> k s1 = ok s')"
proof (cases "d = []")
  case True
  then show ?thesis using assms by (auto simp: withText_def)
next
  case False
  then obtain err s1 where h: "handleSegText E d s = ok (err, s1)"
    using assms by (auto simp: withText_def bindG_eq_ok_iff)
  then show ?thesis using assms False calm_handleSegText [OF h] by (cases err) (auto simp: withText_def)
qed

lemma finToCloseWait_cases:
  assumes "finToCloseWait E p s = ok s'"
  shows "calm s s' \<or> (IsFin p \<and> (\<exists>s1. calm s s1 \<and> s' = setState s1 CLOSE_WAIT))"
proof (cases "IsFin p")
  case True
  then obtain err s1 where h: "handleFin E p s = ok (err, s1)"
    using assms by (auto simp: finToCloseWait_def bindG_eq_ok_iff)
  then show ?thesis using assms True calm_handleFin [OF h] by (cases err) (auto simp: finToCloseWait_def)
next
  case False
  then show ?thesis using assms by (simp add: finToCloseWait_def)
qed

section \<open>The edges of the state machine\<close>

text \<open>What a segment with given flags and acknowledgement number may do; \<open>mine\<close>: the connection owns its table entry.\<close>

definition seg_edge :: "TCPPacket \<Rightarrow> u32 \<Rightarrow> State \<Rightarrow> State \<Rightarrow> bool" where
  "seg_edge p n st st' \<longleftrightarrow> st' = st \<or>
     (case st of
        SYN_SENT \<Rightarrow> st' = CLOSED \<or> (st' = ESTABLISHED \<and> (IsAck p \<or> IsSyn p))
      | SYN_RECEIVED \<Rightarrow> (st' = CLOSED \<and> \<not> IsAck p) \<or> (st' = ESTABLISHED \<and> IsAck p \<and> AckNum (TcpHeader p) \<le> n) \<or>
          (st' = CLOSE_WAIT \<and> IsAck p \<and> IsFin p)
      | ESTABLISHED \<Rightarrow> st' = CLOSE_WAIT \<and> IsAck p \<and> IsFin p
      | FIN_WAIT_1 \<Rightarrow> IsAck p \<and> (if AckNum (TcpHeader p) = n then st' = (if IsFin p then TIME_WAIT else FIN_WAIT_2)
                                 else st' = CLOSING \<and> IsFin p)
      | FIN_WAIT_2 \<Rightarrow> st' = TIME_WAIT \<and> IsAck p \<and> IsFin p
      | CLOSING \<Rightarrow> st' = TIME_WAIT \<and> IsAck p \<and> AckNum (TcpHeader p) = n
      | LAST_ACK \<Rightarrow> st' = CLOSED \<and> IsAck p \<and> AckNum (TcpHeader p) = n
      | _ \<Rightarrow> False)"

lemma who_updates [simp]:
  "who (c\<lparr>state := st\<rparr>) = who c" "who (c\<lparr>sndNxt := n\<rparr>) = who c" "who (c\<lparr>retransTimer := t\<rparr>) = who c"
  "who (c\<lparr>rto := r\<rparr>) = who c" "who (c\<lparr>inflightQ := q\<rparr>) = who c" "who (c\<lparr>sendBuf := b\<rparr>) = who c"
  "who (c\<lparr>rtoIsRunning := e\<rparr>) = who c" "who (c\<lparr>recvBuf := rb\<rparr>) = who c" "who (c\<lparr>windowSize := w\<rparr>) = who c"
  "who (c\<lparr>expectedSeqNum := n\<rparr>) = who c" "who (c\<lparr>sndUna := n\<rparr>) = who c" "who (c\<lparr>sndWnd := w\<rparr>) = who c"
  "who (c\<lparr>irs := n\<rparr>) = who c"
  by (simp_all add: who_def)

lemma deleteSocket_state: "deleteSocket s = ok s' \<Longrightarrow> state (conn s') = CLOSED \<or> state (conn s') = state (conn s)"
  by (auto simp: deleteSocket_def split: table_entry.splits)

lemma setState_fields [simp]:
  "state (conn (setState s st)) = st" "entry (setState s st) = entry s" "spawned (setState s st) = spawned s"
  "sndNxt (conn (setState s st)) = sndNxt (conn s)" "endpoint (conn (setState s st)) = endpoint (conn s)"
  "iss (conn (setState s st)) = iss (conn s)" "outs (setState s st) = outs s"
  by (simp_all add: setState_def)

lemma spawn_fields [simp]: "conn (spawn s g) = conn s" "entry (spawn s g) = entry s" "outs (spawn s g) = outs s"
  by (simp_all add: spawn_def)

lemma calm_state: "calm s s' \<Longrightarrow> state (conn s') = state (conn s) \<and> sndNxt (conn s') = sndNxt (conn s)"
  by (simp_all add: calm_defs)

lemma edge_Established:
  assumes "stateFuncEstablished E rnd now p s = ok s'" and st: "state (conn s) = ESTABLISHED"
  shows "seg_edge p (sndNxt (conn s)) ESTABLISHED (state (conn s'))"
  using onAccepted_cases [OF assms(1) [unfolded stateFuncEstablished_def]] st
  by (auto simp: seg_edge_def dest!: withText_cases finToCloseWait_cases calm_state)

lemma edge_FinWait1:
  assumes "stateFuncFinWait1 E rnd now p s = ok s'" and st: "state (conn s) = FIN_WAIT_1"
  shows "seg_edge p (sndNxt (conn s)) FIN_WAIT_1 (state (conn s'))"
  using onAccepted_cases [OF assms(1) [unfolded stateFuncFinWait1_def]] st
  by (auto simp: seg_edge_def Let_def dest!: withText_cases calm_state split: if_splits)

lemma edge_FinWait2:
  assumes "stateFuncFinWait2 E rnd now p s = ok s'" and st: "state (conn s) = FIN_WAIT_2"
  shows "seg_edge p (sndNxt (conn s)) FIN_WAIT_2 (state (conn s'))"
  using onAccepted_cases [OF assms(1) [unfolded stateFuncFinWait2_def]] st
  by (auto simp: seg_edge_def Let_def bindG_eq_ok_iff dest!: withText_cases calm_state calm_sendAck split: if_splits)

lemma edge_Closing:
  assumes "stateFuncClosing E rnd now p s = ok s'" and st: "state (conn s) = CLOSING"
  shows "seg_edge p (sndNxt (conn s)) CLOSING (state (conn s'))"
  using onAccepted_cases [OF assms(1) [unfolded stateFuncClosing_def]] st
  by (auto simp: seg_edge_def dest!: calm_state split: if_splits)

lemma edge_LastAck:
  assumes "stateFuncLastAck E rnd now p s = ok s'" and st: "state (conn s) = LAST_ACK"
  shows "seg_edge p (sndNxt (conn s)) LAST_ACK (state (conn s'))"
  using onAccepted_cases [OF assms(1) [unfolded stateFuncLastAck_def]] st
  by (auto simp: seg_edge_def dest!: calm_state deleteSocket_state split: if_splits)

lemma edge_CloseWait:
  assumes "stateFuncCloseWait E rnd now p s = ok s'" and st: "state (conn s) = CLOSE_WAIT"
  shows "seg_edge p (sndNxt (conn s)) CLOSE_WAIT (state (conn s'))"
  using onAccepted_cases [OF assms(1) [unfolded stateFuncCloseWait_def]] st
  by (auto simp: seg_edge_def dest!: calm_state)

lemma edge_TimeWait:
  assumes "stateFuncTimeWait E rnd now p s = ok s'" and st: "state (conn s) = TIME_WAIT"
  shows "seg_edge p (sndNxt (conn s)) TIME_WAIT (state (conn s'))"
  using onAccepted_cases [OF assms(1) [unfolded stateFuncTimeWait_def]] st
  by (auto simp: seg_edge_def bindG_eq_ok_iff dest!: calm_state calm_sendAck)

lemma edge_SynSent:
  assumes "stateFuncSynSent E p s = ok s'" and st: "state (conn s) = SYN_SENT"
  shows "seg_edge p (sndNxt (conn s)) SYN_SENT (state (conn s'))"
  using assms
  by (auto simp: stateFuncSynSent_def Let_def seg_edge_def bindG_eq_ok_iff dest!: deleteSocket_state sendAck_keeps split: if_splits)

lemma edge_SynRcvd:
  assumes "stateFuncSynRcvd E p s = ok s'" and st: "state (conn s) = SYN_RECEIVED"
  shows "seg_edge p (sndNxt (conn s)) SYN_RECEIVED (state (conn s'))"
proof -
  obtain r s1 where r: "handleSeqNum E p s = ok (r, s1)" using assms by (auto simp: stateFuncSynRcvd_def bindG_eq_ok_iff)
  note s1 = calm_state [OF calm_handleSeqNum [OF r]]
  show ?thesis
    using assms r s1
    by (auto simp: stateFuncSynRcvd_def Let_def seg_edge_def split: sum.splits if_splits
        dest!: deleteSocket_state withText_cases finToCloseWait_cases calm_state)
qed

lemma stateMachine_edge:
  assumes "stateMachine E rnd now p s = ok s'"
  shows "seg_edge p (sndNxt (conn s)) (state (conn s)) (state (conn s'))"
proof (cases "state (conn s)")
  case CLOSED
  then show ?thesis using assms by (simp add: stateMachine_def seg_edge_def)
next
  case LISTEN
  then show ?thesis using assms by (simp add: stateMachine_def seg_edge_def)
qed (use assms in \<open>simp_all add: stateMachine_def edge_SynRcvd edge_SynSent edge_Established edge_FinWait1
  edge_FinWait2 edge_Closing edge_TimeWait edge_CloseWait edge_LastAck\<close>)


section \<open>The life of a connection\<close>

text \<open>
  What holds of a connection between two steps: it is closed exactly when it has left the table of
  connections (where, with \<open>ot\<close>, another one may have taken its place), the TIME-WAIT timer runs exactly in TIME-WAIT or after it, and the timeout is
  in bounds.
\<close>

definition tidy :: "bool \<Rightarrow> ident \<Rightarrow> tcb \<Rightarrow> bool" where
  "tidy ot w s \<longleftrightarrow> who (conn s) = w \<and> (entry s = Mine \<and> state (conn s) \<noteq> CLOSED \<or> (entry s = NoEntry \<or> ot \<and> entry s = Other) \<and> state (conn s) = CLOSED) \<and>
     state (conn s) \<noteq> LISTEN \<and> rto_ok (conn s) \<and>
     (TimeWaitTimer \<in> set (spawned s) \<longrightarrow> state (conn s) \<in> {TIME_WAIT, CLOSED}) \<and>
     (state (conn s) = TIME_WAIT \<longrightarrow> TimeWaitTimer \<in> set (spawned s))"

lemma tidy_still: "still s s' \<Longrightarrow> tidy ot w s \<Longrightarrow> tidy ot w s'"
  by (auto simp: tidy_def still_def)

lemma tidy_calm: "calm s s' \<Longrightarrow> tidy ot w s \<Longrightarrow> tidy ot w s'"
  using tidy_still by (auto simp: calm_def)

lemma tidy_delete: "deleteSocket s = ok s' \<Longrightarrow> tidy ot w s \<Longrightarrow> tidy ot w s'"
  by (auto simp: tidy_def deleteSocket_def rto_ok_def)

lemma tidy_delete_closed: "deleteSocket (setState s CLOSED) = ok s' \<Longrightarrow> tidy ot w s \<Longrightarrow> tidy ot w s'"
  by (auto simp: tidy_def deleteSocket_def rto_ok_def setState_def)

text \<open>Moves between states in which the connection is in the table and has no TIME-WAIT timer.\<close>

lemma tidy_move:
  assumes "tidy ot w s" and "state (conn s) \<notin> {CLOSED, TIME_WAIT}" and "st \<notin> {CLOSED, LISTEN, TIME_WAIT}"
  shows "tidy ot w (setState s st)"
  using assms by (auto simp: tidy_def rto_ok_def setState_def)

lemma tidy_time_wait:
  assumes "tidy ot w s" and "state (conn s) \<noteq> CLOSED"
  shows "tidy ot w (spawn (setState s TIME_WAIT) TimeWaitTimer)"
  using assms by (auto simp: tidy_def rto_ok_def setState_def spawn_def)

lemma tidy_spawn: "tidy ot w s \<Longrightarrow> g \<noteq> TimeWaitTimer \<Longrightarrow> tidy ot w (spawn s g)"
  by (auto simp: tidy_def spawn_def)

lemma tidy_onAccepted:
  assumes "onAccepted E rnd now p s k = ok s'" and "tidy ot w s"
    and "\<And>d t. IsAck p \<Longrightarrow> tidy ot w t \<Longrightarrow> state (conn t) = state (conn s) \<Longrightarrow> k d t = ok s' \<Longrightarrow> tidy ot w s'"
  shows "tidy ot w s'"
  using onAccepted_cases [OF assms(1)] assms(2,3) tidy_calm calm_state by blast

lemma tidy_withText:
  assumes "withText E d s k = ok s'" and "tidy ot w s"
    and "\<And>t. tidy ot w t \<Longrightarrow> state (conn t) = state (conn s) \<Longrightarrow> k t = ok s' \<Longrightarrow> tidy ot w s'"
  shows "tidy ot w s'"
  using withText_cases [OF assms(1)] assms(2,3) tidy_calm calm_state by blast

lemma tidy_finToCloseWait:
  assumes "finToCloseWait E p s = ok s'" and "tidy ot w s" and "state (conn s) \<notin> {CLOSED, TIME_WAIT}"
  shows "tidy ot w s'"
  using finToCloseWait_cases [OF assms(1)]
proof (elim disjE conjE exE)
  assume "calm s s'"
  then show ?thesis using assms(2) by (rule tidy_calm)
next
  fix s1 assume s1: "calm s s1" "s' = setState s1 CLOSE_WAIT"
  then have "tidy ot w (setState s1 CLOSE_WAIT)"
    using assms tidy_calm [OF s1(1)] calm_state [OF s1(1)] by (intro tidy_move) auto
  then show ?thesis using s1 by simp
qed

lemma tidy_SynRcvd:
  assumes "stateFuncSynRcvd E p s = ok s'" and "tidy ot w s" and st: "state (conn s) = SYN_RECEIVED"
  shows "tidy ot w s'"
proof -
  obtain r s1 where r: "handleSeqNum E p s = ok (r, s1)" using assms by (auto simp: stateFuncSynRcvd_def bindG_eq_ok_iff)
  note c = calm_handleSeqNum [OF r]
  have s1: "tidy ot w s1" "state (conn s1) = SYN_RECEIVED" using tidy_calm [OF c assms(2)] calm_state [OF c] st by simp_all
  show ?thesis
  proof (cases r)
    case (Inl e)
    then show ?thesis using assms r s1 by (simp add: stateFuncSynRcvd_def)
  next
    case (Inr d)
    let ?c = "conn s1" and ?a = "AckNum (TcpHeader p)"
    let ?c' = "?c\<lparr>state := ESTABLISHED, sndWnd := ucast (TcpWindowSize (TcpHeader p)), sndUna := ?a\<rparr>"
    consider "\<not> IsAck p" | "IsAck p" "sndUna ?c < ?a \<and> ?a \<le> sndNxt ?c" | "IsAck p" "\<not> (sndUna ?c < ?a \<and> ?a \<le> sndNxt ?c)"
      by blast
    then show ?thesis
    proof cases
      case 1
      then show ?thesis using assms(1) r s1 Inr tidy_delete by (simp add: stateFuncSynRcvd_def)
    next
      case 2
      have t: "tidy ot w (set_conn s1 ?c')" using s1 by (auto simp: tidy_def rto_ok_def)
      have "withText E d (set_conn s1 ?c') (\<lambda>s2. finToCloseWait E p (spawn s2 SendBufferedData)) = ok s'"
        using assms(1) r Inr 2 by (simp add: stateFuncSynRcvd_def Let_def)
      then show ?thesis
      proof (rule tidy_withText [OF _ t])
        fix u assume u: "tidy ot w u" "state (conn u) = state (conn (set_conn s1 ?c'))" "finToCloseWait E p (spawn u SendBufferedData) = ok s'"
        show "tidy ot w s'" using u(2) by (intro tidy_finToCloseWait [OF u(3)] tidy_spawn u(1)) simp_all
      qed
    next
      case 3
      have "stateFuncSynRcvd E p s = (if sndUna ?c < ?a \<and> ?a \<le> sndNxt ?c
          then withText E d (set_conn s1 ?c') (\<lambda>s2. finToCloseWait E p (spawn s2 SendBufferedData))
          else finToCloseWait E p s1)"
        using r Inr 3(1) by (simp add: stateFuncSynRcvd_def Let_def)
      then have "finToCloseWait E p s1 = ok s'" using assms(1) unfolding if_not_P [OF 3(2)] by simp
      then show ?thesis by (rule tidy_finToCloseWait) (simp_all add: s1)
    qed
  qed
qed

lemma tidy_SynSent:
  assumes "stateFuncSynSent E p s = ok s'" and "tidy ot w s" and st: "state (conn s) = SYN_SENT"
  shows "tidy ot w s'"
proof -
  let ?c = "(conn s)\<lparr>expectedSeqNum := SeqNum (TcpHeader p) + 1,
      recvBuf := SetLBR (AdvanceNxt (recvBuf (conn s)) (SeqNum (TcpHeader p)) False) (SeqNum (TcpHeader p)),
      irs := SeqNum (TcpHeader p), sndUna := AckNum (TcpHeader p)\<rparr>"
  let ?e = "?c\<lparr>state := ESTABLISHED, sndWnd := ucast (TcpWindowSize (TcpHeader p))\<rparr>"
  have t: "tidy ot w (set_conn s ?c)" "tidy ot w (set_conn s ?e)" using assms(2) st by (auto simp: tidy_def rto_ok_def)
  consider "deleteSocket s = ok s'" | "deleteSocket (set_conn s ?c) = ok s'"
    | q s1 where "sendAck E (set_conn s ?e) = ok (q, s1)" "(if q = None then deleteSocket s1 else ok (spawn s1 SendBufferedData)) = ok s'"
    using assms(1) by (auto simp: stateFuncSynSent_def Let_def bindG_eq_ok_iff split: if_splits)
  then show ?thesis
  proof cases
    case 3
    have "tidy ot w s1" using tidy_calm [OF calm_sendAck [OF 3(1)] t(2)] .
    then show ?thesis using 3(2) tidy_delete tidy_spawn by (auto split: if_splits)
  qed (use assms(2) t tidy_delete in blast)+
qed

lemma tidy_FinWait2_rest:
  assumes "withText E d t (\<lambda>u. ok (if b then spawn (setState u TIME_WAIT) TimeWaitTimer else u)) = ok s'"
    and "tidy ot w t" and "state (conn t) = FIN_WAIT_2"
  shows "tidy ot w s'"
  using assms(1,2)
proof (rule tidy_withText)
  fix u assume "tidy ot w u" "state (conn u) = state (conn t)" "ok (if b then spawn (setState u TIME_WAIT) TimeWaitTimer else u) = ok s'"
  then show "tidy ot w s'" using assms(3) tidy_time_wait by (auto split: if_splits)
qed

lemma tidy_renumber_ack:
  assumes "sendAck E (set_conn t ((conn t)\<lparr>expectedSeqNum := n\<rparr>)) = ok (q, u)" and "tidy ot w t"
  shows "tidy ot w u \<and> state (conn u) = state (conn t)"
proof -
  have "calm t (set_conn t ((conn t)\<lparr>expectedSeqNum := n\<rparr>))" by (simp add: calm_defs)
  from calm_trans [OF this calm_sendAck [OF assms(1)]] show ?thesis using tidy_calm assms(2) calm_state by blast
qed

lemma tidy_FinWait2:
  assumes "stateFuncFinWait2 E rnd now p s = ok s'" and "tidy ot w s" and "state (conn s) = FIN_WAIT_2"
  shows "tidy ot w s'"
  using assms(1) unfolding stateFuncFinWait2_def
proof (rule tidy_onAccepted [OF _ assms(2)], goal_cases)
  case (1 d t)
  show ?case
  proof (cases "inflightQ (conn t) = [] \<and> IsFin p")
    case True
    then obtain q u where u: "sendAck E (set_conn t ((conn t)\<lparr>expectedSeqNum := SeqNum (TcpHeader p) + 1\<rparr>)) = ok (q, u)"
        "(if q = None then ok u else withText E d u (\<lambda>s4. ok (spawn (setState s4 TIME_WAIT) TimeWaitTimer))) = ok s'"
      using 1(4) by (auto simp: bindG_eq_ok_iff Let_def)
    have "tidy ot w u" "state (conn u) = FIN_WAIT_2" using tidy_renumber_ack [OF u(1) 1(2)] 1(3) assms(3) by simp_all
    then show ?thesis using u(2) tidy_FinWait2_rest [where b = True] by (auto split: if_splits)
  next
    case False
    then have "withText E d t (\<lambda>s4. ok (if IsFin p then spawn (setState s4 TIME_WAIT) TimeWaitTimer else s4)) = ok s'"
      using 1(4) unfolding Let_def if_not_P [OF False] by blast
    then show ?thesis by (rule tidy_FinWait2_rest) (use 1(2,3) assms(3) in simp_all)
  qed
qed

lemma stateMachine_tidy:
  assumes "stateMachine E rnd now p s = ok s'" and "tidy ot w s"
  shows "tidy ot w s'"
proof (cases "state (conn s)")
  case SYN_RECEIVED
  then show ?thesis using assms tidy_SynRcvd by (simp add: stateMachine_def)
next
  case SYN_SENT
  then show ?thesis using assms tidy_SynSent by (simp add: stateMachine_def)
next
  case ESTABLISHED
  then have "stateFuncEstablished E rnd now p s = ok s'" using assms by (simp add: stateMachine_def)
  then show ?thesis unfolding stateFuncEstablished_def
    by (rule tidy_onAccepted [OF _ assms(2)]) (auto simp: ESTABLISHED elim!: tidy_withText intro: tidy_finToCloseWait)
next
  case FIN_WAIT_1
  then have "stateFuncFinWait1 E rnd now p s = ok s'" using assms by (simp add: stateMachine_def)
  then show ?thesis unfolding stateFuncFinWait1_def
    by (rule tidy_onAccepted [OF _ assms(2)])
      (auto simp: FIN_WAIT_1 Let_def split: if_splits elim!: tidy_withText intro!: tidy_move intro: tidy_time_wait)
next
  case FIN_WAIT_2
  then show ?thesis using assms tidy_FinWait2 by (simp add: stateMachine_def)
next
  case CLOSE_WAIT
  then have "stateFuncCloseWait E rnd now p s = ok s'" using assms by (simp add: stateMachine_def)
  then show ?thesis unfolding stateFuncCloseWait_def by (rule tidy_onAccepted [OF _ assms(2)]) simp
next
  case CLOSING
  then have "stateFuncClosing E rnd now p s = ok s'" using assms by (simp add: stateMachine_def)
  then show ?thesis unfolding stateFuncClosing_def
    by (rule tidy_onAccepted [OF _ assms(2)]) (auto simp: CLOSING split: if_splits intro: tidy_time_wait)
next
  case LAST_ACK
  then have "stateFuncLastAck E rnd now p s = ok s'" using assms by (simp add: stateMachine_def)
  then show ?thesis unfolding stateFuncLastAck_def
    by (rule tidy_onAccepted [OF _ assms(2)]) (auto split: if_splits dest: tidy_delete_closed)
next
  case TIME_WAIT
  then have "stateFuncTimeWait E rnd now p s = ok s'" using assms by (simp add: stateMachine_def)
  then show ?thesis unfolding stateFuncTimeWait_def
    by (rule tidy_onAccepted [OF _ assms(2)]) (auto simp: bindG_eq_ok_iff dest: tidy_renumber_ack)
qed (use assms in \<open>simp_all add: stateMachine_def\<close>)


section \<open>The user's calls and the timers\<close>

lemma sendFin_cases:
  assumes "sendFin E now s k = ok (r, s')"
  shows "calm s s' \<or> (\<exists>t. calm s t \<and> s' = k t)"
proof -
  obtain q s1 where q: "sendCTL E s (sndNxt (conn s)) (expectedSeqNum (conn s)) (TCPFlagFin OR TCPFlagAck) = ok (q, s1)"
    using assms by (auto simp: sendFin_def bindG_eq_ok_iff)
  have s1: "calm s s1" using sendCTL_keeps [OF q] by (simp add: calm_defs)
  show ?thesis
  proof (cases q)
    case None
    then show ?thesis using assms q s1 by (simp add: sendFin_def)
  next
    case (Some pk)
    let ?c1 = "(conn s1)\<lparr>inflightQ := inflightQ (conn s1) @ [\<lparr>timeSent = now, plength = 0, counter = 0, packet = pk\<rparr>]\<rparr>"
    obtain c2 where c2: "resetRetransTimer ?c1 False = ok c2" "s' = k (set_conn s1 c2)"
      using assms q Some by (auto simp: sendFin_def bindG_eq_ok_iff)
    have "calm s1 (set_conn s1 ?c1)" by (simp add: calm_defs)
    from calm_trans [OF s1 calm_reset_ack [OF c2(1) this]] show ?thesis using c2(2) by blast
  qed
qed

text \<open>The moves of the user's close.\<close>

definition close_edge :: "State \<Rightarrow> State \<Rightarrow> bool" where
  "close_edge st st' \<longleftrightarrow> st' = st \<or>
     (st, st') \<in> {(SYN_SENT, CLOSED), (SYN_RECEIVED, FIN_WAIT_1), (ESTABLISHED, FIN_WAIT_1), (CLOSE_WAIT, LAST_ACK)}"

lemma VClose_life:
  assumes "VClose E now s = ok (r, s')" and "tidy ot w s"
  shows "tidy ot w s' \<and> close_edge (state (conn s)) (state (conn s'))"
proof -
  have advance: "tidy ot w s' \<and> close_edge (state (conn s)) (state (conn s'))"
    if "sendFin E now s (\<lambda>s'. setState (set_conn s' ((conn s')\<lparr>sndNxt := sndNxt (conn s') + n\<rparr>)) st) = ok (r, s')"
      and "close_edge (state (conn s)) st" and "state (conn s) \<notin> {CLOSED, TIME_WAIT}" "st \<notin> {CLOSED, LISTEN, TIME_WAIT}" for n st
    using sendFin_cases [OF that(1)]
  proof (elim disjE exE conjE)
    assume "calm s s'"
    then show ?thesis using tidy_calm [OF _ assms(2)] calm_state by (simp add: close_edge_def)
  next
    fix t assume t: "calm s t" "s' = setState (set_conn t ((conn t)\<lparr>sndNxt := sndNxt (conn t) + n\<rparr>)) st"
    have "still t (set_conn t ((conn t)\<lparr>sndNxt := sndNxt (conn t) + n\<rparr>))" by (simp add: calm_defs)
    then have "tidy ot w (set_conn t ((conn t)\<lparr>sndNxt := sndNxt (conn t) + n\<rparr>))"
      using tidy_still tidy_calm [OF t(1) assms(2)] by blast
    then have "tidy ot w s'" unfolding t(2) using that(3,4) calm_state [OF t(1)] by (intro tidy_move) auto
    then show ?thesis using t(2) that(2) by simp
  qed
  have same: "set_conn t ((conn t)\<lparr>sndNxt := sndNxt (conn t) + 0\<rparr>) = t" for t by (simp add: set_conn_def)
  show ?thesis
  proof (cases "state (conn s)")
    case SYN_SENT
    then show ?thesis
      using assms tidy_delete
      by (auto simp: VClose_def activeClose_def bindG_eq_ok_iff close_edge_def dest: deleteSocket_state)
  next
    case SYN_RECEIVED
    then have "s' = s \<or> sendFin E now s (\<lambda>s'. setState s' FIN_WAIT_1) = ok (r, s')"
      using assms(1) by (auto simp: VClose_def activeClose_def Let_def split: if_splits)
    then show ?thesis
    proof
      assume "s' = s"
      then show ?thesis using assms(2) by (simp add: close_edge_def)
    next
      assume "sendFin E now s (\<lambda>s'. setState s' FIN_WAIT_1) = ok (r, s')"
      then show ?thesis using advance [of 0 FIN_WAIT_1] SYN_RECEIVED unfolding same by (simp add: close_edge_def)
    qed
  next
    case ESTABLISHED
    then show ?thesis
      using assms(1) advance [of 1 FIN_WAIT_1] by (simp add: VClose_def activeClose_def Let_def close_edge_def split: if_splits)
  next
    case CLOSE_WAIT
    then show ?thesis
      using assms(1) advance [of 1 LAST_ACK] by (simp add: VClose_def activeClose_def Let_def close_edge_def split: if_splits)
  qed (use assms in \<open>auto simp: VClose_def activeClose_def Let_def close_edge_def\<close>)
qed

lemma still_send_timed:
  assumes "send_timed E s p = ok (e, p1, s')"
  shows "still s s'"
proof -
  obtain s1 c where s1: "send_from E s p = ok (e, p1, s1)" "resetRetransTimer (conn s1) False = ok c" "s' = set_conn s1 c"
    using assms by (auto simp: send_timed_def bindG_eq_ok_iff)
  have "calm s s1" using s1(1) send_from_cases [of E s p] by (auto simp: calm_defs ok_def)
  moreover have "calm s1 (set_conn s1 c)" using s1(2) by (rule calm_reset_ack) simp
  ultimately show ?thesis using s1(3) still_trans by (simp add: calm_def) blast
qed

lemma still_set_conn: "who c = who (conn s) \<Longrightarrow> state c = state (conn s) \<Longrightarrow> rto c = rto (conn s) \<Longrightarrow> still s (set_conn s c)"
  by (simp add: still_def rto_ok_def who_def)

lemma handleRTO_life:
  assumes "handleRTO_tick E now s = ok (b, s')" and "tidy ot w s"
  shows "tidy ot w s' \<and> (state (conn s') = state (conn s) \<or> state (conn s') = CLOSED)"
proof -
  let ?c = "(conn s)\<lparr>retransTimer := (retransTimer (conn s))\<lparr>tick := False\<rparr>\<rparr>"
  show ?thesis
  proof (cases "inflightQ (conn s)")
    case Nil
    then have "s' = set_conn s (?c\<lparr>rtoIsRunning := False\<rparr>)" using assms by (simp add: handleRTO_tick_def)
    then show ?thesis using assms(2) tidy_still [OF still_set_conn] by simp
  next
    case (Cons m q)
    show ?thesis
    proof (cases "counter m \<ge> MAX_RETRANSMISSIONS")
      case True
      let ?d = "?c\<lparr>inflightQ := [], sendBuf := (sendBuf ?c)\<lparr>lbw := sndNxt ?c\<rparr>, sndUna := sndNxt ?c\<rparr>"
      have d: "deleteSocket (set_conn s ?d) = ok s'" using assms(1) Cons True by (auto simp: handleRTO_tick_def Let_def bindG_eq_ok_iff)
      have "tidy ot w (set_conn s ?d)" using assms(2) tidy_still [OF still_set_conn] by simp
      then show ?thesis using tidy_delete [OF d] deleteSocket_state [OF d] by auto
    next
      case False
      let ?d = "timer_reset (?c\<lparr>rto := min (rto (conn s) * 2) MAX_RTO\<rparr>)"
      obtain p e p1 s1 m' where s1: "send_timed E (set_conn s ?d) p = ok (e, p1, s1)" and s': "s' = s1\<lparr>conn := (conn s1)\<lparr>inflightQ := m' # q\<rparr>\<rparr>"
        using assms(1) Cons False
        by (auto simp: handleRTO_tick_def Let_def bindG_eq_ok_iff timer_reset_def getRTODuration_def split: if_splits)
      have "still s (set_conn s ?d)" by (auto simp: still_def rto_ok_def who_def timer_reset_def getRTODuration_def MAX_RTO_def)
      then have "still s s1" using still_send_timed [OF s1] still_trans by blast
      moreover have "still s1 s'" by (simp add: s' still_def rto_ok_def who_def)
      ultimately have "still s s'" by (rule still_trans)
      then show ?thesis using tidy_still assms(2) by (auto simp: still_def)
    qed
  qed
qed

lemma VRead_keeps:
  assumes "VRead c buf = ok (VReadDone n e b c')"
  shows "who c' = who c \<and> state c' = state c \<and> rto c' = rto c"
proof -
  consider "c' = c" | r where "Read (recvBuf c) buf = ok r" "c' \<noteq> c" using assms
    by (fastforce simp: VRead_def bindG_eq_ok_iff split: if_splits)
  then show ?thesis
  proof cases
    case 2
    then show ?thesis using assms
      by (cases r) (auto simp: VRead_def bindG_eq_ok_iff split: if_splits option.splits)
  qed simp
qed

lemma writeToSendBuf_keeps: "writeToSendBuf c d = ok (n, c') \<Longrightarrow> who c' = who c \<and> state c' = state c \<and> rto c' = rto c"
  by (auto simp: writeToSendBuf_def Let_def split: if_splits elim!: bindG_okE)

lemma VWriteLoop_keeps:
  "VWriteLoop c d k = ok r \<Longrightarrow> (case r of VWriteDone n e c' \<Rightarrow> who c' = who c \<and> state c' = state c \<and> rto c' = rto c
     | VWriteWaits n c' \<Rightarrow> who c' = who c \<and> state c' = state c \<and> rto c' = rto c)"
proof (induction c d k rule: VWriteLoop.induct)
  case (1 c d k)
  note body = 1(2) [unfolded VWriteLoop.simps [of c d k]]
  show ?case
  proof (cases "k < length d \<and> state c \<notin> {FIN_WAIT_1, FIN_WAIT_2, CLOSING, TIME_WAIT} \<and> sendBufFreeSpace c \<noteq> 0")
    case False
    then show ?thesis using body by (auto split: if_splits)
  next
    case True
    then obtain w c1 where w: "writeToSendBuf c (drop k d) = Inr (w, c1)" "VWriteLoop c1 d (k + w) = ok r"
      using body by (auto simp: ok_def split: sum.splits)
    have "case r of VWriteDone n e c' \<Rightarrow> who c' = who c1 \<and> state c' = state c1 \<and> rto c' = rto c1 | VWriteWaits n c' \<Rightarrow> who c' = who c1 \<and> state c' = state c1 \<and> rto c' = rto c1"
      using True w by (intro 1(1)) auto
    then show ?thesis using writeToSendBuf_keeps [of c "drop k d" w c1] w(1) by (simp add: ok_def split: vwrite_outcome.splits)
  qed
qed

definition loop_tcb :: "loop_result \<Rightarrow> tcb" where
  "loop_tcb r = (case r of Waiting s \<Rightarrow> s | Again s \<Rightarrow> s | Probe p a b s \<Rightarrow> s | LoopEnds s \<Rightarrow> s)"

lemma loop_tcb_simps [simp]:
  "loop_tcb (Waiting s) = s" "loop_tcb (Again s) = s" "loop_tcb (Probe p a b s) = s" "loop_tcb (LoopEnds s) = s"
  by (simp_all add: loop_tcb_def)

lemma still_turn:
  assumes "sendBufferedData_turn E now s = ok r"
  shows "still s (loop_tcb r)"
proof -
  let ?s1 = "set_conn s ((conn s)\<lparr>sendBuf := (sendBuf (conn s))\<lparr>hasUnsentC := 0\<rparr>\<rparr>)"
  have s1: "still s ?s1" "still s (set_conn s ((conn s)\<lparr>sendBuf := b\<rparr>))" for b by (simp_all add: still_def rto_ok_def who_def)
  have sent: "still s (set_conn t ((conn t)\<lparr>inflightQ := q, sndNxt := n\<rparr>))" "still s t"
    if "send_timed E ?s1 p = ok (e, p1, t)" for p e p1 t q n
  proof -
    show "still s t" using s1(1) still_send_timed [OF that] by (rule still_trans)
    moreover have "still t (set_conn t ((conn t)\<lparr>inflightQ := q, sndNxt := n\<rparr>))" by (simp add: still_def rto_ok_def who_def)
    ultimately show "still s (set_conn t ((conn t)\<lparr>inflightQ := q, sndNxt := n\<rparr>))" by (rule still_trans)
  qed
  show ?thesis
    using assms s1 sent by (auto simp: sendBufferedData_turn_def Let_def bindG_eq_ok_iff split: if_splits)
qed

lemma still_probe:
  assumes "probe_round E p u n s = ok r"
  shows "still s (loop_tcb r)"
  using assms send_from_cases [of E s p]
  by (auto simp: probe_round_def bindG_eq_ok_iff still_def rto_ok_def who_def ok_def emit_def split: if_splits)


text \<open>A handshake leaves the state alone, except for the segment that ends it.\<close>

lemma doHandshakes_life:
  assumes "doHandshakes E rnd now a es k s = ok r"
  shows "(case r of HsWaiting t \<Rightarrow> still s t
    | HsDone b s' \<Rightarrow> still s s' \<or> (\<exists>p t. still s t \<and> stateMachine E rnd now p t = ok s'))"
  using assms
proof (induction es arbitrary: k s a)
  case Nil
  then show ?case
    by (subst (asm) doHandshakes.simps)
      (auto simp: bindG_eq_ok_iff calm_defs split: if_splits option.splits dest!: sendCTL_keeps)
next
  case (Cons e es)
  show ?case
  proof (cases "k = MAX_RETRANSMISSIONS + 1")
    case True
    then show ?thesis using Cons.prems by (subst (asm) doHandshakes.simps) auto
  next
    case False
    obtain q s1 where q: "(if a then sendCTL E s (iss (conn s)) 0 TCPFlagSyn
        else sendCTL E s (iss (conn s)) (expectedSeqNum (conn s)) (TCPFlagSyn OR TCPFlagAck)) = ok (q, s1)"
      using Cons.prems False by (subst (asm) doHandshakes.simps) (auto simp: bindG_eq_ok_iff)
    have s1: "still s s1" using q by (auto simp: still_def split: if_splits dest: sendCTL_keeps)
    have on: "(case r of HsWaiting t \<Rightarrow> still s t
        | HsDone b s' \<Rightarrow> still s s' \<or> (\<exists>p t. still s t \<and> stateMachine E rnd now p t = ok s'))" if "doHandshakes E rnd now a' es k' (set_conn s1 c) = ok r" and "still s1 (set_conn s1 c)" for a' k' c
    proof -
      have "still s (set_conn s1 c)" using s1 that(2) by (rule still_trans)
      then have "still (set_conn s1 c) t \<Longrightarrow> still s t" for t by (rule still_trans)
      then show ?thesis using Cons.IH [OF that(1)] by (cases r) auto
    qed
    show ?thesis
    proof (cases q)
      case None
      then show ?thesis using Cons.prems False q s1 by (subst (asm) doHandshakes.simps) auto
    next
      case (Some pk)
      show ?thesis
      proof (cases e)
        case HsTimeout
        then have "doHandshakes E rnd now a es (k + 1) (set_conn s1 ((conn s1)\<lparr>rto := 3000\<rparr>)) = ok r"
          using Cons.prems False q Some by (subst (asm) doHandshakes.simps) auto
        then show ?thesis by (rule on) (simp add: still_def rto_ok_def who_def)
      next
        case (HsSegment p)
        show ?thesis
        proof (cases "\<not> a \<and> IsSyn p")
          case True
          let ?c = "(conn s1)\<lparr>irs := SeqNum (TcpHeader p), expectedSeqNum := SeqNum (TcpHeader p) + 1,
              recvBuf := NewRecvBuf (of_nat BUFFER_CAPACITY) (SeqNum (TcpHeader p))\<rparr>"
          have "doHandshakes E rnd now False es 0 (set_conn s1 ?c) = ok r"
            using Cons.prems False q Some HsSegment True by (subst (asm) doHandshakes.simps) auto
          then show ?thesis by (rule on) (simp add: still_def rto_ok_def who_def)
        next
          case other: False
          obtain s2 where s2: "stateMachine E rnd now p (set_conn s1 ((conn s1)\<lparr>sndNxt := sndNxt (conn s1) + 1\<rparr>)) = ok s2"
              "r = HsDone True s2"
            using Cons.prems False q Some HsSegment other by (subst (asm) doHandshakes.simps) (auto simp: bindG_eq_ok_iff)
          have "still s1 (set_conn s1 ((conn s1)\<lparr>sndNxt := sndNxt (conn s1) + 1\<rparr>))" by (simp add: still_def rto_ok_def who_def)
          then show ?thesis using s2 still_trans [OF s1] by auto
        qed
      qed
    qed
  qed
qed

section \<open>All the steps of a connection\<close>

text \<open>
  Everything that happens to a connection after it was put into the table: its handshake, an arriving
  segment, the user's calls, a turn of the sending loop or a zero-window probe, the retransmission
  timer that runs out and its handler, and the end of the TIME-WAIT timer.
\<close>

inductive tcp_step :: "env \<Rightarrow> (rat \<Rightarrow> rat) \<Rightarrow> tcb \<Rightarrow> tcb \<Rightarrow> bool" for E rnd where
  handshake: "state (conn s) \<in> {SYN_SENT, SYN_RECEIVED} \<Longrightarrow>
    doHandshakes E rnd now (state (conn s) = SYN_SENT) es 0 s = ok (HsDone b s') \<Longrightarrow> tcp_step E rnd s s'"
| arrive: "stateMachine E rnd now p s = ok s' \<Longrightarrow> tcp_step E rnd s s'"
| close: "VClose E now s = ok (e, s') \<Longrightarrow> tcp_step E rnd s s'"
| read: "VRead (conn s) buf = ok (VReadDone n e buf' c) \<Longrightarrow> tcp_step E rnd s (set_conn s c)"
| wrote: "VWrite (conn s) d = ok (VWriteDone k e c) \<Longrightarrow> tcp_step E rnd s (set_conn s c)"
| write_waits: "VWrite (conn s) d = ok (VWriteWaits k c) \<Longrightarrow> tcp_step E rnd s (set_conn s c)"
| turn: "sendBufferedData_turn E now s = ok r \<Longrightarrow> tcp_step E rnd s (loop_tcb r)"
| probe: "probe_round E p una n s = ok r \<Longrightarrow> tcp_step E rnd s (loop_tcb r)"
| fires: "running (retransTimer (conn s)) \<Longrightarrow> tcp_step E rnd s
    (set_conn s ((conn s)\<lparr>retransTimer := (retransTimer (conn s))\<lparr>running := False, tick := True\<rparr>\<rparr>))"
| retransmit: "tick (retransTimer (conn s)) \<Longrightarrow> handleRTO_tick E now s = ok (b, s') \<Longrightarrow> tcp_step E rnd s s'"
| time_wait_over: "TimeWaitTimer \<in> set (spawned s) \<Longrightarrow> timeWaitExpires s = ok s' \<Longrightarrow> tcp_step E rnd s s'"

inductive_cases tcp_stepE: "tcp_step E rnd s s'"

definition fresh :: "tcb \<Rightarrow> bool" where
  "fresh s \<longleftrightarrow> (\<exists>sid i st ep r. conn s = NewSocket sid i st ep r \<and> st \<in> {SYN_SENT, SYN_RECEIVED}) \<and>
     entry s = Mine \<and> spawned s = []"

inductive tcp_reachable :: "env \<Rightarrow> (rat \<Rightarrow> rat) \<Rightarrow> tcb \<Rightarrow> bool" for E rnd where
  start: "fresh s \<Longrightarrow> tcp_reachable E rnd s"
| step: "tcp_reachable E rnd s \<Longrightarrow> tcp_step E rnd s s' \<Longrightarrow> tcp_reachable E rnd s'"

text \<open>The edges of the state diagram of RFC 9293 that the program has, besides those to CLOSED.\<close>

definition diagram :: "(State \<times> State) set" where
  "diagram = {(SYN_SENT, ESTABLISHED), (SYN_RECEIVED, ESTABLISHED), (SYN_RECEIVED, FIN_WAIT_1), (SYN_RECEIVED, CLOSE_WAIT),
     (ESTABLISHED, FIN_WAIT_1), (ESTABLISHED, CLOSE_WAIT), (FIN_WAIT_1, FIN_WAIT_2), (FIN_WAIT_1, CLOSING),
     (FIN_WAIT_1, TIME_WAIT), (FIN_WAIT_2, TIME_WAIT), (CLOSING, TIME_WAIT), (CLOSE_WAIT, LAST_ACK)}"

definition along :: "State \<Rightarrow> State \<Rightarrow> bool" where
  "along st st' \<longleftrightarrow> st' = st \<or> (st \<noteq> CLOSED \<and> (st' = CLOSED \<or> (st, st') \<in> diagram))"

lemma along_seg: "seg_edge p n st st' \<Longrightarrow> along st st'"
  by (cases st) (auto simp: seg_edge_def along_def diagram_def split: if_splits)

lemma along_close: "close_edge st st' \<Longrightarrow> along st st'"
  by (auto simp: close_edge_def along_def diagram_def)

lemma tidy_fresh: "fresh s \<Longrightarrow> tidy False (who (conn s)) s"
  by (auto simp: fresh_def tidy_def rto_ok_def NewSocket_def)

lemma still_tidy_along: "still s s' \<Longrightarrow> tidy ot w s \<Longrightarrow> tidy ot w s' \<and> along (state (conn s)) (state (conn s'))"
  using tidy_still by (auto simp: along_def still_def)

lemma arrive_tidy_along:
  "stateMachine E rnd now p s = ok s' \<Longrightarrow> tidy ot w s \<Longrightarrow> tidy ot w s' \<and> along (state (conn s)) (state (conn s'))"
  using stateMachine_tidy stateMachine_edge along_seg by blast

lemma tidy_step:
  assumes "tcp_step E rnd s s'" and t: "tidy ot w s"
  shows "tidy ot w s' \<and> along (state (conn s)) (state (conn s'))"
  using assms(1)
proof cases
  case (handshake now es b)
  from doHandshakes_life [OF this(2)] consider "still s s'" | p u where "still s u" "stateMachine E rnd now p u = ok s'"
    by auto
  then show ?thesis
  proof cases
    case 1
    then show ?thesis using t by (rule still_tidy_along)
  next
    case 2
    then show ?thesis using arrive_tidy_along [OF 2(2)] tidy_still [OF 2(1) t] by (simp add: still_def)
  qed
next
  case (arrive now p)
  then show ?thesis using arrive_tidy_along t by blast
next
  case (close now e)
  then show ?thesis using VClose_life t along_close by blast
next
  case (read buf n e buf' c)
  then show ?thesis using VRead_keeps still_set_conn [of c s] still_tidy_along t by blast
next
  case (wrote d k e c)
  then have "who c = who (conn s) \<and> state c = state (conn s) \<and> rto c = rto (conn s)"
    using VWriteLoop_keeps [of "conn s" d 0 "VWriteDone k e c"] by (simp add: VWrite_def)
  then show ?thesis using wrote(1) still_set_conn [of c s] still_tidy_along t by blast
next
  case (write_waits d k c)
  then have "who c = who (conn s) \<and> state c = state (conn s) \<and> rto c = rto (conn s)"
    using VWriteLoop_keeps [of "conn s" d 0 "VWriteWaits k c"] by (simp add: VWrite_def)
  then show ?thesis using write_waits(1) still_set_conn [of c s] still_tidy_along t by blast
next
  case (turn now r)
  then show ?thesis using still_turn still_tidy_along t by blast
next
  case (probe p una n r)
  then show ?thesis using still_probe still_tidy_along t by blast
next
  case fires
  then show ?thesis using still_tidy_along [OF still_set_conn t] by simp
next
  case (retransmit now b)
  then show ?thesis using handleRTO_life [OF retransmit(2) t] t by (auto simp: along_def tidy_def)
next
  case time_wait_over
  then have d: "deleteSocket (setState s CLOSED) = ok s'" by (simp add: timeWaitExpires_def)
  then show ?thesis
    using tidy_delete_closed [OF d t] t by (auto simp: along_def tidy_def deleteSocket_def setState_def split: table_entry.splits)
qed

lemma tidy_who: "tidy ot w s \<Longrightarrow> who (conn s) = w"
  by (simp add: tidy_def)

lemma tidy_reachable: "tcp_reachable E rnd s \<Longrightarrow> tidy False (who (conn s)) s"
proof (induction rule: tcp_reachable.induct)
  case (step s s')
  then have "tidy False (who (conn s)) s'" using tidy_step by blast
  then show ?case using tidy_who [of False "who (conn s)" s'] by simp
qed (rule tidy_fresh)

section \<open>Properties\<close>

text \<open>
  C1. The life of a connection, over every interleaving of segments, timers, user calls and the
  sending loop: the state moves only along the edges of the RFC's diagram, CLOSED is final, a connection
  is closed exactly when it has left the table, in TIME-WAIT its timer is running (and it runs in
  no other open state), and the retransmission timeout stays between 100 ms and 5 s.
\<close>

theorem connection_lifecycle:
  assumes "tcp_reachable E rnd s"
  shows "(state (conn s) = CLOSED \<longleftrightarrow> entry s = NoEntry) \<and> state (conn s) \<noteq> LISTEN \<and>
    100 \<le> rto (conn s) \<and> rto (conn s) \<le> 5000 \<and>
    (state (conn s) = TIME_WAIT \<longrightarrow> TimeWaitTimer \<in> set (spawned s)) \<and>
    (TimeWaitTimer \<in> set (spawned s) \<longrightarrow> state (conn s) = TIME_WAIT \<or> state (conn s) = CLOSED) \<and>
    (\<forall>s'. tcp_step E rnd s s' \<longrightarrow> state (conn s') = state (conn s) \<or>
       (state (conn s) \<noteq> CLOSED \<and> (state (conn s') = CLOSED \<or> (state (conn s), state (conn s')) \<in> diagram)))"
  using tidy_reachable [OF assms] tidy_step [of E rnd s] by (auto simp: tidy_def rto_ok_def along_def)

lemma connection_lifecycle_witness:
  "\<exists>e s'. VClose demo_env 0 (demo_tcb (NewSocket 1 8 SYN_SENT (endpoint (demo_sender 8)) 0)) = ok (e, s') \<and>
     state (conn s') = CLOSED \<and> entry s' = NoEntry \<and> 100 \<le> rto (conn s') \<and> rto (conn s') \<le> 5000"
proof -
  let ?s = "demo_tcb (NewSocket 1 8 SYN_SENT (endpoint (demo_sender 8)) 0)"
  have start: "tcp_reachable demo_env (\<lambda>x. x) ?s" by (rule tcp_reachable.start) (simp add: fresh_def demo_tcb_def, blast)
  obtain e s' where run: "VClose demo_env 0 ?s = ok (e, s')" and cl: "state (conn s') = CLOSED"
    by (simp add: VClose_def activeClose_def deleteSocket_def demo_tcb_def NewSocket_def)
  have "tcp_reachable demo_env (\<lambda>x. x) s'" by (rule tcp_reachable.step [OF start tcp_step.close [OF run]])
  from connection_lifecycle [OF this] run cl show ?thesis by blast
qed

end
