(* ===== verification/Tcp_Transfer.thy ===== *)
theory Tcp_Transfer imports Tcp_Machine begin

text \<open>
  Two established ends of a connection that exchange segments over a link that loses some of them: what
  the sending loop and the retransmission timer (\<open>Tcp_Conn\<close>), the segment handler (\<open>Tcp_State\<close>) and the
  two buffers do together.
  The definitions of the composition call those of the code's operations and add nothing to them.
\<close>

unbundle bit_operations_syntax

section \<open>One segment in ESTABLISHED\<close>

lemma MSS_value: "MSS = 1360"
  by (simp add: MSS_def MTU_def DefaultTcpHeaderLen_def DefaultIpHeaderLen_def)

text \<open>A window of at most 65535 survives the 16-bit header field.\<close>

lemma ucast_window:
  assumes "unat (w :: u32) \<le> 65535"
  shows "(ucast (ucast w :: u16) :: u32) = w"
proof -
  have "take_bit 16 (unat w) = unat w" using assms by (intro take_bit_nat_eq_self) simp
  then show ?thesis by (simp add: word_unat_eq_iff unsigned_ucast_eq unsigned_take_bit_eq)
qed

text \<open>An acknowledgement number that is not too old and acknowledges what was sent.\<close>

definition good_ack :: "VTCPConn \<Rightarrow> u32 \<Rightarrow> bool" where
  "good_ack c a \<longleftrightarrow> 65535 \<le> unat (sndUna c) \<and> sndUna c \<le> a \<and> a \<le> sndNxt c"

definition acked_buf :: "VTCPConn \<Rightarrow> u32 \<Rightarrow> sendBuf" where
  "acked_buf c a = (if a = sndUna c then sendBuf c else (sendBuf c)\<lparr>freespaceC := freespaceC (sendBuf c) + 1\<rparr>)"

lemma handleAck_good:
  fixes p :: TCPPacket and s :: tcb
  assumes up: "net_up E (RemoteAddr (endpoint (conn s)))" and wf: "timer_wf (conn s)"
    and room: "freespaceC (sendBuf (conn s)) < scapacity (sendBuf (conn s))" and ack: "good_ack (conn s) (AckNum (TcpHeader p))"
  defines "c \<equiv> conn s" and "a \<equiv> AckNum (TcpHeader p)"
  shows "\<exists>c'. handleAck E rnd now p s = ok (None, set_conn s c') \<and> timer_wf c' \<and>
    core c' = core (c\<lparr>sndUna := a, sndWnd := ucast (TcpWindowSize (TcpHeader p)), sendBuf := acked_buf c a\<rparr>) \<and>
    inflightQ c' = (if a = sndUna c then inflightQ c else dropWhile (acked_by a) (inflightQ c))"
proof -
  have order: "sndUna (conn s) \<le> sndNxt (conn s)" using ack by (auto simp: good_ack_def)
  have "unat (sndUna c) \<le> unat a" using ack by (simp add: good_ack_def c_def a_def word_le_nat_alt)
  then have low: "ack_floor (sndUna c) \<le> unat a" using ack by (simp add: ack_floor_def good_ack_def c_def)
  note cases = handleAck_cases [OF up wf order, of p rnd now, folded c_def a_def]
  show ?thesis
  proof (cases "a = sndUna c")
    case True
    then have "c\<lparr>sndUna := a, sndWnd := w, sendBuf := acked_buf c a\<rparr> = c\<lparr>sndWnd := w\<rparr>" for w
      by (simp add: acked_buf_def)
    then show ?thesis using cases(3) [OF low] True by auto
  next
    case False
    then have "sndUna c < a" "a \<le> sndNxt c" using ack by (auto simp: good_ack_def c_def a_def)
    then show ?thesis using cases(2) [OF low] room False by (auto simp: acked_buf_def c_def)
  qed
qed

lemma handleSeqNum_next:
  assumes up: "net_up E (RemoteAddr (endpoint (conn s)))" and w: "window_ok (conn s)"
    and early: "earlyArrivalQ (conn s) = []" and seq: "SeqNum (TcpHeader p) = expectedSeqNum (conn s)"
    and len: "length (TPayload p) \<le> unat (windowSize (conn s))"
  shows "handleSeqNum E p s = ok (Inr (TPayload p), s)"
proof -
  let ?n = "expectedSeqNum (conn s)"
  have "unat ?n + length (TPayload p) < 2 ^ 32" using w len by (simp add: window_ok_def)
  moreover have "rfc_acceptable (length (TPayload p)) (unat (windowSize (conn s))) (unat ?n) (unat ?n)"
    using len by (auto simp: rfc_acceptable_def)
  ultimately show ?thesis using handleSeqNum_exact [OF up w _ early, of p] seq len by (simp add: Let_def)
qed

lemma rcv_ok_core: "core c' = core c \<Longrightarrow> rcv_ok c \<Longrightarrow> rcv_ok c'"
  using core_fields [of c' c] by (simp add: rcv_ok_def)

lemma rcv_ok_ack: "rcv_ok (c\<lparr>sndUna := a, sndWnd := w, sendBuf := b\<rparr>) = rcv_ok c"
  by (simp add: rcv_ok_def)

lemma rcv_ok_window_ok:
  assumes "rcv_ok c" and "unat (expectedSeqNum c) + free (recvBuf c) < 2 ^ 32"
  shows "window_ok c"
proof -
  have "unat (windowSize c) \<le> 65535" using assms(1) by (rule rcv_ok_window)
  then have "unat (windowSize c) < 2 ^ 31" by simp
  then show ?thesis using assms rcv_ok_window(1) [OF assms(1)] by (simp add: window_ok_def)
qed

text \<open>Text in order: what the connection becomes, and the acknowledgement.\<close>

lemma established_data:
  fixes p :: TCPPacket and s :: tcb
  assumes up: "net_up E (RemoteAddr (endpoint (conn s)))" and st: "state (conn s) = ESTABLISHED"
    and rcv: "rcv_ok (conn s)" "unat (expectedSeqNum (conn s)) + free (recvBuf (conn s)) < 2 ^ 32"
    and early: "earlyArrivalQ (conn s) = []" and wf: "timer_wf (conn s)"
    and room: "freespaceC (sendBuf (conn s)) < scapacity (sendBuf (conn s))"
    and seq: "SeqNum (TcpHeader p) = expectedSeqNum (conn s)" and ack: "IsAck p" "good_ack (conn s) (AckNum (TcpHeader p))"
    and d: "TPayload p \<noteq> []" "length (TPayload p) \<le> free (recvBuf (conn s))" "length (TPayload p) < rb_limit (recvBuf (conn s))"
    and fin: "\<not> IsFin p"
  defines "c \<equiv> conn s" and "a \<equiv> AckNum (TcpHeader p)"
  shows "\<exists>c'. stateMachine E rnd now p s =
      ok (emit (set_conn s (take_text (TPayload p) c')) (ack_segment E (set_conn s (take_text (TPayload p) c')))) \<and>
    timer_wf c' \<and> core c' = core (c\<lparr>sndUna := a, sndWnd := ucast (TcpWindowSize (TcpHeader p)), sendBuf := acked_buf c a\<rparr>) \<and>
    inflightQ c' = (if a = sndUna c then inflightQ c else dropWhile (acked_by a) (inflightQ c))"
proof -
  have w: "window_ok (conn s)" using rcv by (rule rcv_ok_window_ok)
  have "length (TPayload p) \<le> unat (windowSize (conn s))" using d(2) rcv_ok_window(1) [OF rcv(1)] by simp
  note h1 = handleSeqNum_next [OF up w early seq this]
  obtain c' where c': "handleAck E rnd now p s = ok (None, set_conn s c')" "timer_wf c'"
      "core c' = core (c\<lparr>sndUna := a, sndWnd := ucast (TcpWindowSize (TcpHeader p)), sendBuf := acked_buf c a\<rparr>)"
      "inflightQ c' = (if a = sndUna c then inflightQ c else dropWhile (acked_by a) (inflightQ c))"
    using handleAck_good [OF up wf room ack(2), of rnd now] unfolding c_def a_def by blast
  have f: "recvBuf c' = recvBuf c" "endpoint c' = endpoint c" using core_fields [OF c'(3)] by simp_all
  have "rcv_ok (conn (set_conn s c'))" using rcv_ok_core [OF c'(3)] rcv(1) by (simp add: rcv_ok_ack c_def)
  moreover have "net_up E (RemoteAddr (endpoint (conn (set_conn s c'))))" using up f by (simp add: c_def)
  moreover have "length (TPayload p) \<le> free (recvBuf (conn (set_conn s c')))" "length (TPayload p) < rb_limit (recvBuf (conn (set_conn s c')))"
    using d f by (simp_all add: c_def)
  ultimately have "handleSegText E (TPayload p) (set_conn s c') =
      ok (None, emit (set_conn s (take_text (TPayload p) c')) (ack_segment E (set_conn s (take_text (TPayload p) c'))))"
    using handleSegText_room(1) [of "set_conn s c'" E "TPayload p"] d(1) by (simp add: set_conn_def)
  then have "stateMachine E rnd now p s =
      ok (emit (set_conn s (take_text (TPayload p) c')) (ack_segment E (set_conn s (take_text (TPayload p) c'))))"
    using st h1 ack(1) c'(1) d(1) fin
    by (simp add: stateMachine_def stateFuncEstablished_def onAccepted_def withText_def finToCloseWait_def)
  then show ?thesis using c' by blast
qed

text \<open>A bare acknowledgement.\<close>

lemma established_ack:
  fixes p :: TCPPacket and s :: tcb
  assumes up: "net_up E (RemoteAddr (endpoint (conn s)))" and st: "state (conn s) = ESTABLISHED"
    and w: "window_ok (conn s)" and early: "earlyArrivalQ (conn s) = []" and wf: "timer_wf (conn s)"
    and room: "freespaceC (sendBuf (conn s)) < scapacity (sendBuf (conn s))"
    and seq: "SeqNum (TcpHeader p) = expectedSeqNum (conn s)" and ack: "IsAck p" "good_ack (conn s) (AckNum (TcpHeader p))"
    and d: "TPayload p = []" and fin: "\<not> IsFin p"
  defines "c \<equiv> conn s" and "a \<equiv> AckNum (TcpHeader p)"
  shows "\<exists>c'. stateMachine E rnd now p s = ok (set_conn s c') \<and>
    timer_wf c' \<and> core c' = core (c\<lparr>sndUna := a, sndWnd := ucast (TcpWindowSize (TcpHeader p)), sendBuf := acked_buf c a\<rparr>) \<and>
    inflightQ c' = (if a = sndUna c then inflightQ c else dropWhile (acked_by a) (inflightQ c))"
proof -
  have h1: "handleSeqNum E p s = ok (Inr [], s)" using handleSeqNum_next [OF up w early seq] d by simp
  obtain c' where c': "handleAck E rnd now p s = ok (None, set_conn s c')" "timer_wf c'"
      "core c' = core (c\<lparr>sndUna := a, sndWnd := ucast (TcpWindowSize (TcpHeader p)), sendBuf := acked_buf c a\<rparr>)"
      "inflightQ c' = (if a = sndUna c then inflightQ c else dropWhile (acked_by a) (inflightQ c))"
    using handleAck_good [OF up wf room ack(2), of rnd now] unfolding c_def a_def by blast
  then have "stateMachine E rnd now p s = ok (set_conn s c')"
    using st h1 ack(1) fin
    by (simp add: stateMachine_def stateFuncEstablished_def onAccepted_def withText_def finToCloseWait_def)
  then show ?thesis using c' by blast
qed

section \<open>One turn of the sending loop\<close>

lemma core_sndNxt: "core (c\<lparr>sndNxt := n, inflightQ := q\<rparr>) = (core c)\<lparr>sndNxt := n\<rparr>" "core (c\<lparr>sndNxt := n\<rparr>) = (core c)\<lparr>sndNxt := n\<rparr>"
    "core (c\<lparr>inflightQ := q, sndNxt := n\<rparr>) = (core c)\<lparr>sndNxt := n\<rparr>"
  by (simp_all add: core_def)

lemma send_timed_wf:
  assumes "net_up E (RemoteAddr (endpoint (conn s)))" and "timer_wf (conn s)"
  shows "\<exists>c'. send_timed E s p = ok (True, sealed E s p, set_conn (emit s (sealed E s p)) c') \<and> timer_wf c' \<and>
    rtoIsRunning c' \<and> core c' = core (conn s) \<and> inflightQ c' = inflightQ (conn s)"
proof -
  obtain c' where c': "resetRetransTimer (conn s) False = ok c'" "timer_wf c'" "rtoIsRunning c'" "inflightQ c' = inflightQ (conn s)"
    using resetRetransTimer_wf [OF assms(2)] by blast
  then show ?thesis
    using send_from_up [OF assms(1), of p] core_resetRetransTimer [OF c'(1)] by (simp add: send_timed_def)
qed

text \<open>The segment that the loop sends next, without its checksum.\<close>

definition data_segment :: "tcb \<Rightarrow> TCPPacket" where
  "data_segment s = newPacket s (sndNxt (conn s)) (expectedSeqNum (conn s)) TCPFlagAck
     (take (sendable_now (conn s) MSS) (drop (unat (sndNxt (conn s)) - unat (sndUna (conn s))) (stored (conn s))))"

definition unsent :: "VTCPConn \<Rightarrow> nat" where
  "unsent c = unat (lbw (sendBuf c)) - unat (sndNxt c)"

lemma turn_sends:
  assumes up: "net_up E (RemoteAddr (endpoint (conn s)))" and wf: "timer_wf (conn s)" "sb_wf (conn s)"
    and wnd: "unat (sndUna (conn s)) + unat (sndWnd (conn s)) < 2 ^ 32" "sndWnd (conn s) \<noteq> 0"
    and n: "0 < sendable_now (conn s) MSS"
  shows "\<exists>c' p. sendBufferedData_turn E now s = ok (Again (set_conn (emit s p) c')) \<and> timer_wf c' \<and>
    SeqNum (TcpHeader p) = SeqNum (TcpHeader (data_segment s)) \<and> AckNum (TcpHeader p) = AckNum (TcpHeader (data_segment s)) \<and>
    Flags (TcpHeader p) = TCPFlagAck \<and> TcpWindowSize (TcpHeader p) = TcpWindowSize (TcpHeader (data_segment s)) \<and>
    TPayload p = TPayload (data_segment s) \<and>
    core c' = core ((conn s)\<lparr>sendBuf := (sendBuf (conn s))\<lparr>hasUnsentC := 0\<rparr>, sndNxt := sndNxt (conn s) + of_nat (sendable_now (conn s) MSS)\<rparr>) \<and>
    inflightQ c' = inflightQ (conn s) @ [\<lparr>timeSent = now, plength = of_nat (sendable_now (conn s) MSS), counter = 0, packet = p\<rparr>]"
proof -
  let ?c = "conn s" and ?n = "sendable_now (conn s) MSS"
  let ?c1 = "?c\<lparr>sendBuf := (sendBuf ?c)\<lparr>hasUnsentC := 0\<rparr>\<rparr>"
  have unsent: "numBytesNotSent ?c \<noteq> 0"
    using n sb_differences(4) [OF wf(2)] by (auto simp: sendable_now_def word_unat_eq_iff)
  have same: "sendable_now ?c1 MSS = ?n" "stored ?c1 = stored ?c" by (simp_all add: sendable_now_def stored_def kept_def)
  have wf1: "sb_wf ?c1" using wf(2) by (simp add: sb_wf_def kept_def)
  have wnd1: "unat (sndUna ?c1) + unat (sndWnd ?c1) < 2 ^ 32" using wnd(1) by simp
  have bytes: "bytesNotSent ?c1 MSS = ok (?n, TPayload (data_segment s))"
    using bytesNotSent_exact [OF wf1 wnd1, of MSS] unfolding same by (simp add: data_segment_def newPacket_def)
  let ?s1 = "set_conn s ?c1"
  let ?p0 = "newPacket ?s1 (sndNxt ?c1) (expectedSeqNum ?c1) TCPFlagAck (TPayload (data_segment s))"
  obtain c2 where c2: "send_timed E ?s1 ?p0 = ok (True, sealed E ?s1 ?p0, set_conn (emit ?s1 (sealed E ?s1 ?p0)) c2)"
      "timer_wf c2" "core c2 = core ?c1" "inflightQ c2 = inflightQ ?c"
    using send_timed_wf [of E ?s1 ?p0] up wf(1) by (auto simp: timer_wf_def)
  have nxt: "sndNxt c2 = sndNxt ?c" using core_fields(5) [OF c2(3)] by simp
  let ?p = "sealed E ?s1 ?p0"
  let ?c3 = "c2\<lparr>inflightQ := inflightQ c2 @ [\<lparr>timeSent = now, plength = of_nat ?n, counter = 0, packet = ?p\<rparr>],
      sndNxt := sndNxt c2 + of_nat ?n\<rparr>"
  have "sendBufferedData_turn E now s = ok (Again (set_conn (emit s ?p) ?c3))"
    using unsent wnd(2) bytes c2(1) n by (simp add: sendBufferedData_turn_def Let_def set_conn_def emit_def)
  moreover have "core ?c3 = core (?c1\<lparr>sndNxt := sndNxt ?c + of_nat ?n\<rparr>)"
    using c2(3) nxt by (simp add: core_sndNxt)
  moreover have "timer_wf ?c3" using c2(2) by (simp add: timer_wf_def)
  ultimately show ?thesis using c2(4) by (intro exI [of _ ?c3] exI [of _ ?p]) (simp add: data_segment_def newPacket_def)
qed


section \<open>Two ends of a connection\<close>

text \<open>
  The sender with everything sent acknowledged, the receiver, and the link between them: what one
  expects is what the other sends next, and the sender's window is one the receiver has offered.
\<close>

definition snd_side :: "VTCPConn \<Rightarrow> bool" where
  "snd_side c \<longleftrightarrow> state c = ESTABLISHED \<and> sb_wf c \<and> window_ok c \<and> earlyArrivalQ c = [] \<and> inflightQ c = [] \<and> timer_wf c \<and>
     sndNxt c = sndUna c \<and> 65535 \<le> unat (sndUna c) \<and> freespaceC (sendBuf c) + kept c \<le> scapacity (sendBuf c)"

definition rcv_side :: "VTCPConn \<Rightarrow> bool" where
  "rcv_side c \<longleftrightarrow> state c = ESTABLISHED \<and> rcv_ok c \<and> earlyArrivalQ c = [] \<and> timer_wf c \<and>
     freespaceC (sendBuf c) < scapacity (sendBuf c) \<and> sndNxt c = sndUna c \<and> 65535 \<le> unat (sndUna c)"

definition linked :: "tcb \<times> tcb \<Rightarrow> bool" where
  "linked ab \<longleftrightarrow> (case ab of (a, b) \<Rightarrow> snd_side (conn a) \<and> rcv_side (conn b) \<and>
     expectedSeqNum (conn b) = sndNxt (conn a) \<and> sndNxt (conn b) = expectedSeqNum (conn a) \<and>
     unat (sndWnd (conn a)) \<le> free (recvBuf (conn b)) \<and> unat (lbw (sendBuf (conn a))) + 65535 < 2 ^ 32)"

text \<open>
  A round: a turn of the sending loop and what becomes of the segment that it sends. The list says,
  for each transmission of the segment that fails, what the link loses: the segment, so that the
  receiver never sees it, or the receiver's answer. After a failure the retransmission timer of the
  sender fires (\<open>handleRTO_tick\<close>) and sends the segment again; the last transmission and its answer
  arrive.
\<close>

datatype loss = SegmentLost | AnswerLost

definition new_outs :: "tcb \<Rightarrow> tcb \<Rightarrow> TCPPacket list" where
  "new_outs s s' = drop (length (outs s)) (outs s')"

fun deliver :: "env \<Rightarrow> (rat \<Rightarrow> rat) \<Rightarrow> int \<Rightarrow> loss list \<Rightarrow> TCPPacket \<Rightarrow> tcb \<times> tcb \<Rightarrow> (tcb \<times> tcb) go" where
  "deliver E rnd now [] p (a, b) =
     bindG (stateMachine E rnd now p b) (\<lambda>b1. case new_outs b b1 of
         [] \<Rightarrow> ok (a, b1)
       | q # qs \<Rightarrow> bindG (stateMachine E rnd now q a) (\<lambda>a1. ok (a1, b1)))"
| "deliver E rnd now (l # ls) p (a, b) =
     bindG (case l of SegmentLost \<Rightarrow> ok b | AnswerLost \<Rightarrow> stateMachine E rnd now p b) (\<lambda>b1.
     bindG (handleRTO_tick E now a) (\<lambda>(go_on, a1). case new_outs a a1 of
         [] \<Rightarrow> ok (a1, b1)
       | p1 # ps \<Rightarrow> deliver E rnd now ls p1 (a1, b1)))"

definition transfer_round :: "env \<Rightarrow> (rat \<Rightarrow> rat) \<Rightarrow> int \<Rightarrow> loss list \<Rightarrow> tcb \<times> tcb \<Rightarrow> (tcb \<times> tcb) go" where
  "transfer_round E rnd now ls ab = (case ab of (a, b) \<Rightarrow>
     bindG (sendBufferedData_turn E now a) (\<lambda>r. case r of
       Again a1 \<Rightarrow> (case new_outs a a1 of
           [] \<Rightarrow> ok (a1, b)
         | p # ps \<Rightarrow> deliver E rnd now ls p (a1, b))
     | _ \<Rightarrow> ok (a, b)))"

lemma linked_snd:
  assumes "linked (a, b)"
  shows "kept (conn a) = unat (lbw (sendBuf (conn a))) - unat (sndUna (conn a))"
    "unat (sndUna (conn a)) + kept (conn a) = unat (lbw (sendBuf (conn a)))"
    "unat (sndWnd (conn a)) \<le> 65535" "unat (sndUna (conn a)) + unat (sndWnd (conn a)) < 2 ^ 32"
    "sendable_now (conn a) MSS = min 1360 (min (kept (conn a)) (unat (sndWnd (conn a))))"
proof -
  have l: "sb_wf (conn a)" "rcv_ok (conn b)" "sndNxt (conn a) = sndUna (conn a)" "unat (sndWnd (conn a)) \<le> free (recvBuf (conn b))"
      "unat (lbw (sendBuf (conn a))) + 65535 < 2 ^ 32"
    using assms by (simp_all add: linked_def snd_side_def rcv_side_def)
  show "kept (conn a) = unat (lbw (sendBuf (conn a))) - unat (sndUna (conn a))" by (simp add: kept_def)
  then show k: "unat (sndUna (conn a)) + kept (conn a) = unat (lbw (sendBuf (conn a)))"
    using sb_wf_order [OF l(1)] by simp
  show w: "unat (sndWnd (conn a)) \<le> 65535" using l(4) free_le_capacity [OF l(2)] by simp
  then show "unat (sndUna (conn a)) + unat (sndWnd (conn a)) < 2 ^ 32" using k l(5) by linarith
  show "sendable_now (conn a) MSS = min 1360 (min (kept (conn a)) (unat (sndWnd (conn a))))"
    using l(3) by (simp add: sendable_now_def kept_def MSS_value)
qed

text \<open>The sender after its bytes are acknowledged.\<close>

lemma sender_advanced:
  assumes a: "linked (a, b)" and n: "n \<le> kept (conn a)" "0 < n"
    and core: "core c' = core ((conn a)\<lparr>sendBuf := (sendBuf (conn a))\<lparr>hasUnsentC := 0, freespaceC := freespaceC (sendBuf (conn a)) + 1\<rparr>,
      sndNxt := sndNxt (conn a) + of_nat n, sndUna := sndUna (conn a) + of_nat n, sndWnd := w\<rparr>)"
    and t: "timer_wf c'" and q: "inflightQ c' = []"
  shows "snd_side c'" and "stored c' = drop n (stored (conn a))" and "kept c' = kept (conn a) - n"
    and "sndNxt c' = sndNxt (conn a) + of_nat n" and "sndWnd c' = w" and "lbw (sendBuf c') = lbw (sendBuf (conn a))"
    and "expectedSeqNum c' = expectedSeqNum (conn a)" and "endpoint c' = endpoint (conn a)"
proof -
  let ?c = "conn a"
  have l: "snd_side ?c" "unat (lbw (sendBuf ?c)) + 65535 < 2 ^ 32" using a by (simp_all add: linked_def)
  have wf: "sb_wf ?c" "sndNxt ?c = sndUna ?c" using l(1) by (simp_all add: snd_side_def)
  have order: "unat (biss (sendBuf ?c)) \<le> unat (sndUna ?c)" using sb_wf_order [OF wf(1)] by simp
  note k = linked_snd(1,2) [OF a]
  note f = core_fields [OF core, simplified]
  have "unat (sndUna ?c) + n < 2 ^ 32" using k(2) n l(2) by linarith
  then have una: "unat (sndUna c') = unat (sndUna ?c) + n" using f(6) unat_plus_nat by simp
  show kept': "kept c' = kept ?c - n" by (simp add: kept_def f(10) una)
  show "stored c' = drop n (stored ?c)"
    using order n by (simp add: stored_def kept' una f(10) drop_ring)
  show "sndNxt c' = sndNxt ?c + of_nat n" "sndWnd c' = w" "lbw (sendBuf c') = lbw (sendBuf ?c)"
    "expectedSeqNum c' = expectedSeqNum ?c" "endpoint c' = endpoint ?c" using f by simp_all
  have b: "biss (sendBuf c') \<le> sndUna c'" "sndNxt c' = sndUna c'" "sndUna c' \<le> lbw (sendBuf c')"
    using una order k n f wf(2) by (simp_all add: word_le_nat_alt)
  have "sb_wf c'" using wf b kept' f(10) by (auto simp: sb_wf_def)
  moreover have "window_ok c'" using l(1) f by (simp add: snd_side_def window_ok_def)
  moreover have "freespaceC (sendBuf c') + kept c' \<le> scapacity (sendBuf c')" using l(1) n kept' f(10) by (simp add: snd_side_def) linarith
  moreover have "65535 \<le> unat (sndUna c')" using l(1) una by (simp add: snd_side_def)
  ultimately show "snd_side c'" using l(1) f b q t by (simp add: snd_side_def)
qed

lemma rb_limit_seq:
  assumes "rcv_ok c" and "expectedSeqNum c \<noteq> 0"
  shows "rb_limit (recvBuf c) = 2 ^ 32 - unat (expectedSeqNum c) + 1"
proof -
  have "1 \<le> expectedSeqNum c" using assms(2) by (simp add: word_le_nat_alt unat_gt_0 Suc_leI)
  then have "unat (expectedSeqNum c - 1) = unat (expectedSeqNum c) - 1" "0 < unat (expectedSeqNum c)"
    by (simp_all add: unat_minus word_le_nat_alt)
  moreover have "unat (expectedSeqNum c) \<le> 4294967296" by (simp add: less_imp_le)
  ultimately show ?thesis using assms(1) by (simp add: rb_limit_def rcv_ok_def)
qed

text \<open>
  The sender with one segment of \<open>n\<close> bytes on the link, sent \<open>k + 1\<close> times; the receiver when the bytes
  \<open>d\<close> have arrived; and the receiver's answer.
\<close>

definition in_flight :: "VTCPConn \<Rightarrow> nat \<Rightarrow> nat \<Rightarrow> TCPPacket \<Rightarrow> VTCPConn \<Rightarrow> bool" where
  "in_flight c n k p c1 \<longleftrightarrow> timer_wf c1 \<and>
     core c1 = core (c\<lparr>sendBuf := (sendBuf c)\<lparr>hasUnsentC := 0\<rparr>, sndNxt := sndNxt c + of_nat n\<rparr>) \<and>
     (\<exists>t. inflightQ c1 = [\<lparr>timeSent = t, plength = of_nat n, counter = k, packet = p\<rparr>]) \<and>
     SeqNum (TcpHeader p) = sndNxt c \<and> AckNum (TcpHeader p) = expectedSeqNum c \<and>
     Flags (TcpHeader p) = TCPFlagAck \<and> TPayload p = take n (stored c)"

definition arrived :: "VTCPConn \<Rightarrow> bytes \<Rightarrow> VTCPConn \<Rightarrow> bool" where
  "arrived c d c1 \<longleftrightarrow> rcv_side c1 \<and> contents (recvBuf c1) = contents (recvBuf c) @ d \<and>
     free (recvBuf c1) = free (recvBuf c) - length d \<and> expectedSeqNum c1 = expectedSeqNum c + of_nat (length d) \<and>
     sndNxt c1 = sndNxt c \<and> endpoint c1 = endpoint c"

definition answers :: "TCPPacket \<Rightarrow> VTCPConn \<Rightarrow> bool" where
  "answers q c \<longleftrightarrow> SeqNum (TcpHeader q) = sndNxt c \<and> AckNum (TcpHeader q) = expectedSeqNum c \<and>
     Flags (TcpHeader q) = TCPFlagAck \<and> TcpWindowSize (TcpHeader q) = ucast (windowSize c) \<and> TPayload q = []"

lemma pure_ack: "Flags (TcpHeader p) = TCPFlagAck \<Longrightarrow> IsAck p" "Flags (TcpHeader p) = TCPFlagAck \<Longrightarrow> \<not> IsFin p"
  by (simp_all add: IsAck_def IsFin_def TCPFlagAck_def TCPFlagFin_def)

lemma answers_ack: "answers (ack_segment E s) (conn s)"
  by (simp add: answers_def)

lemma arrived_nothing: "rcv_side c \<Longrightarrow> arrived c [] c"
  by (simp add: arrived_def)

lemma turn_in_flight:
  assumes l: "linked (a, b)" and up: "net_up E (RemoteAddr (endpoint (conn a)))"
    and n: "n = sendable_now (conn a) MSS" "0 < n"
  shows "\<exists>a1 p. sendBufferedData_turn E now a = ok (Again a1) \<and> outs a1 = outs a @ [p] \<and> in_flight (conn a) n 0 p (conn a1)"
proof -
  let ?a = "conn a"
  have a: "sb_wf ?a" "inflightQ ?a = []" "timer_wf ?a" "sndNxt ?a = sndUna ?a"
    using l by (simp_all add: linked_def snd_side_def)
  note ls = linked_snd [OF l]
  have "sndWnd ?a \<noteq> 0" using n ls(5) by auto
  from turn_sends [OF up a(3,1) ls(4) this, of now] show ?thesis
    using n a(2,4) by (fastforce simp: data_segment_def newPacket_def in_flight_def)
qed

lemma tick_in_flight:
  assumes f: "in_flight c n k p (conn a)" and k: "k < 3" and up: "net_up E (RemoteAddr (endpoint c))"
  shows "\<exists>a1 p1. handleRTO_tick E now a = ok (True, a1) \<and> outs a1 = outs a @ [p1] \<and> in_flight c n (k + 1) p1 (conn a1)"
proof -
  obtain t where q: "inflightQ (conn a) = [\<lparr>timeSent = t, plength = of_nat n, counter = k, packet = p\<rparr>]"
    using f by (auto simp: in_flight_def)
  have core: "core (conn a) = core (c\<lparr>sendBuf := (sendBuf c)\<lparr>hasUnsentC := 0\<rparr>, sndNxt := sndNxt c + of_nat n\<rparr>)"
    using f by (simp add: in_flight_def)
  note g = core_fields [OF core, simplified]
  let ?c = "timer_reset ((conn a)\<lparr>retransTimer := (retransTimer (conn a))\<lparr>tick := False\<rparr>, rto := min (rto (conn a) * 2) MAX_RTO\<rparr>)"
  let ?p = "p\<lparr>TcpHeader := (TcpHeader p)\<lparr>AckNum := expectedSeqNum ?c, TcpWindowSize := ucast (windowSize ?c)\<rparr>\<rparr>"
  have same: "endpoint ?c = endpoint c" "rtoIsRunning ?c" "expectedSeqNum ?c = expectedSeqNum c" "running (retransTimer ?c)"
    using g by (simp_all add: timer_reset_def getRTODuration_def)
  have core1: "core ?c = core (conn a)" by (simp add: core_def timer_reset_def getRTODuration_def)
  let ?p1 = "sealed E (set_conn a ?c) ?p"
  have "send_timed E (set_conn a ?c) ?p = ok (True, ?p1, emit (set_conn a ?c) ?p1)"
    using up same by (intro send_timed_up) simp_all
  then have "handleRTO_tick E now a = ok (True, set_conn (emit a ?p1)
      (?c\<lparr>inflightQ := [\<lparr>timeSent = now, plength = of_nat n, counter = k + 1, packet = ?p1\<rparr>]\<rparr>))"
    using q k by (simp add: handleRTO_tick_def MAX_RETRANSMISSIONS_def Let_def set_conn_def emit_def)
  moreover have "in_flight c n (k + 1) ?p1 (?c\<lparr>inflightQ := [\<lparr>timeSent = now, plength = of_nat n, counter = k + 1, packet = ?p1\<rparr>]\<rparr>)"
    using f core core1 same(2-4) by (simp add: in_flight_def timer_wf_def)
  ultimately show ?thesis by fastforce
qed

lemma segment_length:
  assumes "linked (a, b)" and "n = sendable_now (conn a) MSS" and "0 < n"
  shows "n \<le> kept (conn a)" "n \<le> unat (sndWnd (conn a))" "length (take n (stored (conn a))) = n" "take n (stored (conn a)) \<noteq> []"
proof -
  show n: "n \<le> kept (conn a)" "n \<le> unat (sndWnd (conn a))" using linked_snd(5) [OF assms(1)] assms(2) by simp_all
  then show "length (take n (stored (conn a))) = n" by simp
  then show "take n (stored (conn a)) \<noteq> []" using assms(3) by (metis list.size(3) less_irrefl)
qed

text \<open>The segment arrives for the first time: its text is taken and acknowledged.\<close>

lemma first_arrival:
  assumes l: "linked (a, b)" and up: "net_up E (RemoteAddr (endpoint (conn b)))"
    and n: "n = sendable_now (conn a) MSS" "0 < n" and f: "in_flight (conn a) n k p c1"
  shows "\<exists>b1 q. stateMachine E rnd now p b = ok b1 \<and> outs b1 = outs b @ [q] \<and>
    arrived (conn b) (take n (stored (conn a))) (conn b1) \<and> answers q (conn b1)"
proof -
  let ?a = "conn a" and ?b = "conn b"
  let ?d = "take n (stored ?a)"
  have s: "snd_side ?a" "rcv_side ?b" "expectedSeqNum ?b = sndNxt ?a" "sndNxt ?b = expectedSeqNum ?a"
      "unat (sndWnd ?a) \<le> free (recvBuf ?b)" "unat (lbw (sendBuf ?a)) + 65535 < 2 ^ 32"
    using l by (simp_all add: linked_def)
  have a: "sndNxt ?a = sndUna ?a" "65535 \<le> unat (sndUna ?a)" using s(1) by (simp_all add: snd_side_def)
  have b: "state ?b = ESTABLISHED" "rcv_ok ?b" "earlyArrivalQ ?b = []" "timer_wf ?b" "sndNxt ?b = sndUna ?b"
      "65535 \<le> unat (sndUna ?b)" "freespaceC (sendBuf ?b) < scapacity (sendBuf ?b)"
    using s(2) by (simp_all add: rcv_side_def)
  have p: "SeqNum (TcpHeader p) = sndNxt ?a" "AckNum (TcpHeader p) = expectedSeqNum ?a" "Flags (TcpHeader p) = TCPFlagAck" "TPayload p = ?d"
    using f by (simp_all add: in_flight_def)
  note len = segment_length [OF l n]
  have room: "unat (expectedSeqNum ?b) + free (recvBuf ?b) < 2 ^ 32"
    using s(3,6) a(1) linked_snd(2) [OF l] free_le_capacity [OF b(2)] by simp
  have nz: "expectedSeqNum ?b \<noteq> 0" using s(3) a by (metis not_numeral_le_zero unsigned_0)
  have lim: "length (TPayload p) < rb_limit (recvBuf ?b)"
    using rb_limit_seq [OF b(2) nz] room len p(4) s(5) by simp
  have ack_b: "good_ack ?b (AckNum (TcpHeader p))" using b(5,6) s(4) p(2) by (simp add: good_ack_def)
  obtain c2 where c2: "stateMachine E rnd now p b =
        ok (emit (set_conn b (take_text ?d c2)) (ack_segment E (set_conn b (take_text ?d c2))))" "timer_wf c2"
      "core c2 = core (?b\<lparr>sndUna := AckNum (TcpHeader p), sndWnd := ucast (TcpWindowSize (TcpHeader p)),
         sendBuf := acked_buf ?b (AckNum (TcpHeader p))\<rparr>)"
    using established_data [OF up b(1,2) room b(3,4,7) _ _ ack_b _ _ lim, of rnd now] p len s(3,5) pure_ack [OF p(3)] by auto
  have same: "acked_buf ?b (AckNum (TcpHeader p)) = sendBuf ?b" "AckNum (TcpHeader p) = sndUna ?b"
    using p(2) s(4) b(5) by (simp_all add: acked_buf_def)
  note f2 = core_fields [OF c2(3), unfolded same, simplified]
  have rcv2: "rcv_ok c2" using rcv_ok_core [OF c2(3)] b(2) by (simp add: rcv_ok_ack)
  have got: "rcv_ok (take_text ?d c2)" "contents (recvBuf (take_text ?d c2)) = contents (recvBuf ?b) @ ?d"
      "free (recvBuf (take_text ?d c2)) = free (recvBuf ?b) - n"
    using handleSegText_room(2,3,4) [of "set_conn b c2" E ?d] rcv2 up f2 len s(5) lim p(4) by simp_all
  have "arrived ?b ?d (take_text ?d c2)"
    using got f2 b len c2(2) by (simp add: arrived_def rcv_side_def timer_wf_def take_text_def acked_buf_def)
  then show ?thesis using c2(1) answers_ack [of E "set_conn b (take_text ?d c2)"]
    by (intro exI [of _ "emit (set_conn b (take_text ?d c2)) (ack_segment E (set_conn b (take_text ?d c2)))"] exI) simp
qed

text \<open>It arrives again: all of it is old, so only the acknowledgement is repeated.\<close>

lemma second_arrival:
  assumes l: "linked (a, b0)" and up: "net_up E (RemoteAddr (endpoint (conn b)))"
    and n: "n = sendable_now (conn a) MSS" "0 < n" and f: "in_flight (conn a) n k p c1"
    and got: "arrived (conn b0) (take n (stored (conn a))) (conn b)"
  shows "stateMachine E rnd now p b = ok (emit b (ack_segment E b))"
proof -
  let ?a = "conn a" and ?b = "conn b"
  have s: "sndNxt ?a = sndUna ?a" "expectedSeqNum (conn b0) = sndNxt ?a" "unat (lbw (sendBuf ?a)) + 65535 < 2 ^ 32"
    using l by (simp_all add: linked_def snd_side_def)
  have p: "SeqNum (TcpHeader p) = sndUna ?a" "TPayload p = take n (stored ?a)" using f s(1) by (simp_all add: in_flight_def)
  note len = segment_length [OF l n]
  have b: "rcv_ok ?b" "state ?b = ESTABLISHED" "expectedSeqNum ?b = sndUna ?a + of_nat n"
    using got len(3) s(1,2) by (simp_all add: arrived_def rcv_side_def)
  have small: "unat (sndUna ?a) + n + 65535 < 2 ^ 32" using linked_snd(2) [OF l] len(1) s(3) by linarith
  then have e: "unat (expectedSeqNum ?b) = unat (sndUna ?a) + n" using b(3) unat_plus_nat [of "sndUna ?a" n] by simp
  have "window_ok ?b" using e small free_le_capacity [OF b(1)] by (intro rcv_ok_window_ok [OF b(1)]) simp
  moreover have "unat (SeqNum (TcpHeader p)) + length (TPayload p) < 2 ^ 32" using p len(3) small by simp
  ultimately have "\<not> isValidSeg p ?b"
    using isValidSeg_rfc [of ?b p] e p len(3) n(2) by (auto simp: rfc_acceptable_def)
  then show ?thesis using b(2) sendAck_up [OF up]
    by (simp add: stateMachine_def stateFuncEstablished_def onAccepted_def handleSeqNum_def)
qed

lemma arrived_linked: "arrived (conn b) [] (conn b1) \<Longrightarrow> linked (a, b) \<Longrightarrow> linked (a, b1)"
  by (simp add: arrived_def linked_def)

lemma arrived_again: "arrived c [] c1 \<Longrightarrow> arrived c1 d c2 \<Longrightarrow> arrived c d c2"
  by (simp add: arrived_def)

lemma arrival:
  assumes l: "linked (a, b)" and up: "net_up E (RemoteAddr (endpoint (conn b)))"
    and n: "n = sendable_now (conn a) MSS" "0 < n" and f: "in_flight (conn a) n k p c1"
    and got: "arrived (conn b) d (conn b1)" "d = [] \<or> d = take n (stored (conn a))"
  shows "\<exists>b2 q. stateMachine E rnd now p b1 = ok b2 \<and> new_outs b1 b2 = [q] \<and>
    arrived (conn b) (take n (stored (conn a))) (conn b2) \<and> answers q (conn b2)"
proof -
  have up1: "net_up E (RemoteAddr (endpoint (conn b1)))" using up got(1) by (simp add: arrived_def)
  show ?thesis
  proof (cases "d = []")
    case True
    then show ?thesis
      using first_arrival [OF arrived_linked [OF _ l] up1 n f, of rnd now] got(1) arrived_again by (fastforce simp: new_outs_def)
  next
    case False
    then have d: "arrived (conn b) (take n (stored (conn a))) (conn b1)" using got by simp
    show ?thesis
      using second_arrival [OF l up1 n f d, of rnd now] d answers_ack [of E b1] by (simp add: new_outs_def)
  qed
qed

text \<open>The answer arrives: the sender gives up the bytes, and the two ends agree again.\<close>

lemma answer_accepted:
  assumes l: "linked (a, b)" and up: "net_up E (RemoteAddr (endpoint (conn a)))"
    and n: "n = sendable_now (conn a) MSS" "0 < n" and f: "in_flight (conn a) n k p (conn a1)"
    and q: "SeqNum (TcpHeader q) = expectedSeqNum (conn a)" "AckNum (TcpHeader q) = sndNxt (conn a) + of_nat n"
      "Flags (TcpHeader q) = TCPFlagAck" "TPayload q = []" "TcpWindowSize (TcpHeader q) = ucast w" "unat (w :: u32) \<le> 65535"
  shows "\<exists>c. stateMachine E rnd now q a1 = ok (set_conn a1 c) \<and> timer_wf c \<and> inflightQ c = [] \<and>
    core c = core ((conn a)\<lparr>sendBuf := (sendBuf (conn a))\<lparr>hasUnsentC := 0, freespaceC := freespaceC (sendBuf (conn a)) + 1\<rparr>,
      sndNxt := sndNxt (conn a) + of_nat n, sndUna := sndUna (conn a) + of_nat n, sndWnd := w\<rparr>)"
proof -
  let ?a = "conn a" and ?c = "conn a1"
  have a: "state ?a = ESTABLISHED" "window_ok ?a" "earlyArrivalQ ?a = []" "sndNxt ?a = sndUna ?a" "65535 \<le> unat (sndUna ?a)"
      "freespaceC (sendBuf ?a) + kept ?a \<le> scapacity (sendBuf ?a)" "unat (lbw (sendBuf ?a)) + 65535 < 2 ^ 32"
    using l by (simp_all add: linked_def snd_side_def)
  note nk = segment_length(1) [OF l n]
  have core: "core ?c = core (?a\<lparr>sendBuf := (sendBuf ?a)\<lparr>hasUnsentC := 0\<rparr>, sndNxt := sndNxt ?a + of_nat n\<rparr>)"
    and c1: "timer_wf ?c" "SeqNum (TcpHeader p) = sndNxt ?a" and queue: "\<exists>t. inflightQ ?c = [\<lparr>timeSent = t, plength = of_nat n, counter = k, packet = p\<rparr>]"
    using f by (simp_all add: in_flight_def)
  note g = core_fields [OF core, simplified]
  have "unat (sndUna ?a) + n < 2 ^ 32" using linked_snd(2) [OF l] nk a(7) by linarith
  then have nxt: "unat (sndNxt ?c) = unat (sndUna ?a) + n" using g(5) a(4) unat_plus_nat by simp
  have ack: "good_ack ?c (AckNum (TcpHeader q))" using q(2) nxt g(5,6) a(5) by (simp add: good_ack_def word_le_nat_alt)
  have ne: "sndNxt ?c \<noteq> sndUna ?a" using nxt n(2) by auto
  have room: "freespaceC (sendBuf ?c) < scapacity (sendBuf ?c)" using a(6) nk n(2) g(10) by simp
  have "window_ok ?c" using a(2) g by (simp add: window_ok_def)
  then obtain c3 where c3: "stateMachine E rnd now q a1 = ok (set_conn a1 c3)" "timer_wf c3"
      "core c3 = core (?c\<lparr>sndUna := AckNum (TcpHeader q), sndWnd := ucast (TcpWindowSize (TcpHeader q)),
         sendBuf := acked_buf ?c (AckNum (TcpHeader q))\<rparr>)"
      "inflightQ c3 = dropWhile (acked_by (AckNum (TcpHeader q))) (inflightQ ?c)"
    using established_ack [of E a1 q rnd now] up g a(1,3) c1(1) room q(1-4) ack pure_ack [OF q(3)] ne by auto
  have "inflightQ c3 = []" using c3(4) queue c1(2) q(2) by (auto simp: acked_by_def)
  moreover have buf: "acked_buf ?c (AckNum (TcpHeader q)) = (sendBuf ?a)\<lparr>hasUnsentC := 0, freespaceC := freespaceC (sendBuf ?a) + 1\<rparr>"
    using ne g q(2) by (simp add: acked_buf_def)
  have split: "core (c\<lparr>sndUna := x, sndWnd := y, sendBuf := z\<rparr>) = (core c)\<lparr>sndUna := x, sndWnd := y, sendBuf := z\<rparr>" for c x y z
    by (simp add: core_def)
  have "core c3 = core (?a\<lparr>sendBuf := (sendBuf ?a)\<lparr>hasUnsentC := 0, freespaceC := freespaceC (sendBuf ?a) + 1\<rparr>,
      sndNxt := sndNxt ?a + of_nat n, sndUna := sndUna ?a + of_nat n, sndWnd := w\<rparr>)"
    using c3(3) unfolding split buf core using q(2,5) ucast_window [OF q(6)] a(4) by (simp add: core_def)
  ultimately show ?thesis using c3(1,2) by blast
qed

text \<open>What a round that moves \<open>n\<close> bytes achieves.\<close>

definition moved :: "nat \<Rightarrow> tcb \<times> tcb \<Rightarrow> tcb \<times> tcb \<Rightarrow> bool" where
  "moved n ab ab' \<longleftrightarrow> (case (ab, ab') of ((a, b), (a', b')) \<Rightarrow> linked (a', b') \<and>
     contents (recvBuf (conn b')) = contents (recvBuf (conn b)) @ take n (stored (conn a)) \<and>
     stored (conn a') = drop n (stored (conn a)) \<and> endpoint (conn a') = endpoint (conn a) \<and> endpoint (conn b') = endpoint (conn b) \<and>
     unat (sndWnd (conn a')) = free (recvBuf (conn b')) \<and> lbw (sendBuf (conn a')) = lbw (sendBuf (conn a)))"

lemma answer_arrives:
  assumes l: "linked (a, b)" and up: "net_up E (RemoteAddr (endpoint (conn a)))"
    and n: "n = sendable_now (conn a) MSS" "0 < n" and f: "in_flight (conn a) n k p (conn a1)"
    and got: "arrived (conn b) (take n (stored (conn a))) (conn b1)" and q: "answers q (conn b1)"
  shows "\<exists>a2. stateMachine E rnd now q a1 = ok a2 \<and> moved n (a, b) (a2, b1)"
proof -
  let ?a = "conn a" and ?b = "conn b1"
  have s: "expectedSeqNum (conn b) = sndNxt ?a" "sndNxt (conn b) = expectedSeqNum ?a" "unat (lbw (sendBuf ?a)) + 65535 < 2 ^ 32"
    using l by (simp_all add: linked_def)
  note len = segment_length [OF l n]
  have b: "rcv_side ?b" "rcv_ok ?b" "contents (recvBuf ?b) = contents (recvBuf (conn b)) @ take n (stored ?a)"
      "expectedSeqNum ?b = sndNxt ?a + of_nat n" "endpoint ?b = endpoint (conn b)"
    using got s(1,2) len(3) unfolding arrived_def rcv_side_def by simp_all
  have nxt: "sndNxt ?b = expectedSeqNum ?a" using got unfolding arrived_def s(2) by blast
  note w = rcv_ok_window [OF b(2)]
  obtain c where c: "stateMachine E rnd now q a1 = ok (set_conn a1 c)" "timer_wf c" "inflightQ c = []"
      "core c = core (?a\<lparr>sendBuf := (sendBuf ?a)\<lparr>hasUnsentC := 0, freespaceC := freespaceC (sendBuf ?a) + 1\<rparr>,
        sndNxt := sndNxt ?a + of_nat n, sndUna := sndUna ?a + of_nat n, sndWnd := windowSize ?b\<rparr>)"
    using answer_accepted [OF l up n f _ _ _ _ _ w(2), of q rnd now] q b(4) nxt by (auto simp: answers_def)
  note adv = sender_advanced [OF l len(1) n(2) c(4,2,3)]
  have "linked (set_conn a1 c, b1)" using adv b nxt s w by (simp add: linked_def)
  then have "moved n (a, b) (set_conn a1 c, b1)" using adv b w by (simp add: moved_def)
  then show ?thesis using c(1) by blast
qed

text \<open>Whatever three transmissions lose, the round moves the segment's bytes exactly once.\<close>

lemma deliver_moves:
  assumes l: "linked (a, b)" and up: "net_up E (RemoteAddr (endpoint (conn a)))" "net_up E (RemoteAddr (endpoint (conn b)))"
    and n: "n = sendable_now (conn a) MSS" "0 < n" and f: "in_flight (conn a) n k p (conn a1)"
    and got: "arrived (conn b) d (conn b1)" "d = [] \<or> d = take n (stored (conn a))" and ls: "k + length ls \<le> 3"
  shows "\<exists>ab'. deliver E rnd now ls p (a1, b1) = ok ab' \<and> moved n (a, b) ab'"
  using f got ls
proof (induction ls arbitrary: k p a1 b1 d)
  case Nil
  obtain b2 q where b2: "stateMachine E rnd now p b1 = ok b2" "new_outs b1 b2 = [q]"
      "arrived (conn b) (take n (stored (conn a))) (conn b2)" "answers q (conn b2)"
    using arrival [OF l up(2) n Nil.prems(1-3), of rnd now] by blast
  then show ?case using answer_arrives [OF l up(1) n Nil.prems(1) b2(3,4), of rnd now] by fastforce
next
  case (Cons x ls)
  obtain b2 d2 where b2: "(case x of SegmentLost \<Rightarrow> ok b1 | AnswerLost \<Rightarrow> stateMachine E rnd now p b1) = ok b2"
      "arrived (conn b) d2 (conn b2)" "d2 = [] \<or> d2 = take n (stored (conn a))"
  proof (cases x)
    case SegmentLost
    then show ?thesis using that Cons.prems(2,3) by simp
  next
    case AnswerLost
    then show ?thesis using that arrival [OF l up(2) n Cons.prems(1-3), of rnd now] by fastforce
  qed
  have "k < 3" using Cons.prems(4) by simp
  then obtain a2 p2 where a2: "handleRTO_tick E now a1 = ok (True, a2)" "outs a2 = outs a1 @ [p2]"
      "in_flight (conn a) n (k + 1) p2 (conn a2)"
    using tick_in_flight [OF Cons.prems(1) _ up(1), of now] by blast
  have "k + 1 + length ls \<le> 3" using Cons.prems(4) by simp
  from Cons.IH [OF a2(3) b2(2,3) this] show ?case using a2(1,2) b2(1) by (simp add: new_outs_def)
qed

lemma transfer_round_sends:
  assumes l: "linked (a, b)" and up: "net_up E (RemoteAddr (endpoint (conn a)))" "net_up E (RemoteAddr (endpoint (conn b)))"
    and n: "n = sendable_now (conn a) MSS" "0 < n" and ls: "length ls \<le> 3"
  shows "\<exists>a' b'. transfer_round E rnd now ls (a, b) = ok (a', b') \<and> linked (a', b') \<and>
    contents (recvBuf (conn b')) = contents (recvBuf (conn b)) @ take n (stored (conn a)) \<and>
    stored (conn a') = drop n (stored (conn a)) \<and> endpoint (conn a') = endpoint (conn a) \<and> endpoint (conn b') = endpoint (conn b) \<and>
    unat (sndWnd (conn a')) = free (recvBuf (conn b')) \<and> lbw (sendBuf (conn a')) = lbw (sendBuf (conn a))"
proof -
  obtain a1 p where a1: "sendBufferedData_turn E now a = ok (Again a1)" "outs a1 = outs a @ [p]" "in_flight (conn a) n 0 p (conn a1)"
    using turn_in_flight [OF l up(1) n, of now] by blast
  have "arrived (conn b) [] (conn b)" using l by (intro arrived_nothing) (simp add: linked_def)
  then obtain ab' where "deliver E rnd now ls p (a1, b) = ok ab'" "moved n (a, b) ab'"
    using deliver_moves [OF l up n a1(3), of "[]" b ls rnd now] ls by auto
  then show ?thesis using a1(1,2) by (cases ab') (auto simp: transfer_round_def new_outs_def moved_def)
qed

lemma transfer_round_idle:
  assumes l: "linked (a, b)" and n: "sendable_now (conn a) MSS = 0"
  shows "transfer_round E rnd now ls (a, b) = ok (a, b)"
proof -
  let ?c = "conn a"
  have wf: "sb_wf ?c" using l by (simp add: linked_def snd_side_def)
  have L: "0 < scapacity (sendBuf ?c)" "length (sbuf (sendBuf ?c)) = scapacity (sendBuf ?c)" using wf by (simp_all add: sb_wf_def)
  show ?thesis
  proof (cases "kept ?c = 0")
    case True
    then have "hasUnsentC (sendBuf ?c) = 0" using wf by (simp add: sb_wf_def)
    moreover have "unat (numBytesNotSent ?c) = 0"
      using sb_differences(4) [OF wf] True l by (simp add: linked_def snd_side_def kept_def)
    then have "numBytesNotSent ?c = 0" by (simp add: word_unat_eq_iff)
    ultimately show ?thesis by (simp add: transfer_round_def sendBufferedData_turn_def)
  next
    case False
    then have "unat (sndWnd ?c) = 0" using n linked_snd(5) [OF l] by (simp add: min_def split: if_splits)
    then have w: "sndWnd ?c = 0" by (simp add: word_unat_eq_iff)
    have "sindex (sendBuf ?c) (sndNxt ?c) = ok (unat (sndNxt ?c - biss (sendBuf ?c)) mod scapacity (sendBuf ?c))"
      using L by (simp add: sindex_def)
    moreover have "unat (numBytesNotSent ?c) \<noteq> 0"
      using sb_differences(4) [OF wf] False l by (simp add: linked_def snd_side_def kept_def)
    then have "numBytesNotSent ?c \<noteq> 0" by auto
    ultimately show ?thesis using w L by (auto simp: transfer_round_def sendBufferedData_turn_def Let_def not_le)
  qed
qed

section \<open>The applications at both ends\<close>

lemma linked_write:
  assumes l: "linked (a, b)" and lim: "unat (lbw (sendBuf (conn a))) + length d + 65535 < 2 ^ 32"
  shows "\<exists>n c. sb_put (conn a) d = ok (n, c) \<and> n \<le> length d \<and> linked (set_conn a c, b) \<and>
    stored c = stored (conn a) @ take n d \<and> endpoint c = endpoint (conn a) \<and>
    unat (lbw (sendBuf c)) = unat (lbw (sendBuf (conn a))) + n"
proof -
  let ?c = "conn a"
  have s: "snd_side ?c" "sb_wf ?c" using l by (simp_all add: linked_def snd_side_def)
  show ?thesis
  proof (cases "d = [] \<or> sb_room ?c = 0")
    case True
    then have "sb_put ?c d = ok (0, ?c)" by (simp add: sb_put_def FreeSpace_room [OF s(2)])
    then show ?thesis using l by (intro exI [of _ 0] exI [of _ ?c]) simp
  next
    case False
    let ?d = "take (sb_room ?c) d" and ?n = "min (sb_room ?c) (length d)"
    let ?c' = "after_put ?c ?d"
    have d: "?d \<noteq> []" "length ?d \<le> sb_room ?c" "length ?d < sb_limit ?c" using False lim by (auto simp: sb_limit_def)
    note put = after_put_wf [OF s(2) d]
    have "sb_put ?c d = ok (?n, ?c')"
      using False writeToSendBuf_room [OF s(2), of d] by (simp add: sb_put_def FreeSpace_room [OF s(2)])
    moreover have lbw: "unat (lbw (sendBuf ?c')) = unat (lbw (sendBuf ?c)) + ?n"
    proof -
      have "unat (lbw (sendBuf ?c)) + length ?d < 2 ^ 32" using lim by simp
      from unat_plus_nat [OF this] show ?thesis unfolding put(5) by (simp add: min.commute)
    qed
    moreover have "linked (set_conn a ?c', b)"
    proof -
      have same: "state ?c' = state ?c" "windowSize ?c' = windowSize ?c" "expectedSeqNum ?c' = expectedSeqNum ?c"
          "earlyArrivalQ ?c' = earlyArrivalQ ?c" "inflightQ ?c' = inflightQ ?c" "sndNxt ?c' = sndNxt ?c" "sndUna ?c' = sndUna ?c"
          "sndWnd ?c' = sndWnd ?c" "freespaceC (sendBuf ?c') = 0" "timer_wf ?c' = timer_wf ?c"
        by (simp_all add: after_put_def timer_wf_def)
      have "kept ?c' \<le> scapacity (sendBuf ?c')" using put(1) by (simp add: sb_wf_def)
      then have "snd_side ?c'" using s(1) put(1) same by (simp add: snd_side_def window_ok_def)
      moreover have "unat (lbw (sendBuf ?c')) + 65535 < 2 ^ 32" unfolding lbw using lim by simp
      ultimately show ?thesis using l same by (simp add: linked_def)
    qed
    moreover have "stored ?c' = stored ?c @ take ?n d" using put(2) by (simp add: min_def)
    ultimately show ?thesis by (intro exI [of _ ?n] exI [of _ ?c']) (simp add: after_put_def)
  qed
qed

lemma established_read:
  assumes st: "state c = ESTABLISHED" and rcv: "rcv_ok c" and k: "k < 2 ^ 31"
  shows "VRead c (replicate k 0) = ok VReadBlocks \<or>
    (\<exists>n e buf rb w. VRead c (replicate k 0) = ok (VReadDone n e buf (c\<lparr>recvBuf := rb, windowSize := w\<rparr>)) \<and>
       rcv_ok (c\<lparr>recvBuf := rb, windowSize := w\<rparr>) \<and> contents (recvBuf c) = take (nat n) buf @ contents rb \<and>
       free (recvBuf c) \<le> free rb)"
proof -
  let ?rb = "recvBuf c"
  have wf: "rb_wf ?rb" "\<not> finRecvd ?rb" using rcv by (simp_all add: rcv_ok_def)
  have read: "VRead c (replicate k 0) = bindG (Read ?rb (replicate k 0)) (\<lambda>r. case r of
             ReadBlocks \<Rightarrow> ok VReadBlocks
           | ReadDone n err buf' rb \<Rightarrow>
               ok (case err of
                     Some e \<Rightarrow> VReadDone 0 (Some (RecvBufError e)) buf' (c\<lparr>recvBuf := rb\<rparr>)
                   | None \<Rightarrow> VReadDone (uint n) None buf' (c\<lparr>recvBuf := rb, windowSize := windowSize c + n\<rparr>)))"
    using st by (simp add: VRead_def)
  show ?thesis
  proof (cases "k = 0")
    case True
    then have "VRead c (replicate k 0) = ok (VReadDone 0 None [] (c\<lparr>recvBuf := ?rb, windowSize := windowSize c\<rparr>))"
      using read by (simp add: Read_def)
    moreover have "c\<lparr>recvBuf := ?rb, windowSize := windowSize c\<rparr> = c" by simp
    ultimately show ?thesis using rcv
      by (intro disjI2 exI [of _ 0] exI [of _ None] exI [of _ "[]"] exI [of _ ?rb] exI [of _ "windowSize c"]) simp
  next
    case False
    show ?thesis
    proof (cases "contents ?rb = []")
      case True
      then show ?thesis using read Read_empty [OF wf(1) True, of "replicate k 0"] wf(2) False by simp
    next
      case ne: False
      let ?m = "min k (unread ?rb)"
      let ?rb' = "after_read ?rb ?m" and ?w = "windowSize c + of_nat ?m"
      have m: "?m \<le> unread ?rb" by simp
      have "0 < ?m" using False ne by (simp add: contents_Nil_iff)
      note ar = after_read_wf [OF wf(1) m this]
      have "unread ?rb \<le> 65535" using wf(1) rcv by (simp add: rb_wf_def rcv_ok_def BUFFER_CAPACITY_def)
      then have "?m < 2 ^ 31" by simp
      then have u: "uint (of_nat ?m :: u32) = int ?m" by (simp add: uint_nat unat_of_nat_small del: of_nat_min)
      have "VRead c (replicate k 0) = ok (VReadDone (int ?m) None (take ?m (contents ?rb) @ drop ?m (replicate k 0))
          (c\<lparr>recvBuf := ?rb', windowSize := ?w\<rparr>))"
        using read Read_contents [OF wf(1) ne, of "replicate k 0"] k False u by (simp del: of_nat_min)
      moreover have "rcv_ok (c\<lparr>recvBuf := ?rb', windowSize := ?w\<rparr>)"
        using rcv ar by (simp add: rcv_ok_def) (simp add: after_read_def)
      moreover have "contents ?rb = take (nat (int ?m)) (take ?m (contents ?rb) @ drop ?m (replicate k 0)) @ contents ?rb'"
        using ar m by simp
      moreover have "free ?rb \<le> free ?rb'" using ar by simp
      ultimately show ?thesis by blast
    qed
  qed
qed

lemma linked_read:
  assumes l: "linked (a, b)" and k: "k < 2 ^ 31"
  shows "(\<exists>n e buf c. VRead (conn b) (replicate k 0) = ok (VReadDone n e buf c) \<and> linked (a, set_conn b c) \<and>
      contents (recvBuf (conn b)) = take (nat n) buf @ contents (recvBuf c) \<and> endpoint c = endpoint (conn b)) \<or>
    VRead (conn b) (replicate k 0) = ok VReadBlocks"
proof -
  let ?c = "conn b"
  have r: "state ?c = ESTABLISHED" "rcv_ok ?c" and una: "sndUna ?c = expectedSeqNum (conn a)"
    using l by (auto simp: linked_def rcv_side_def)
  consider "VRead ?c (replicate k 0) = ok VReadBlocks" | n e buf rb w where
      "VRead ?c (replicate k 0) = ok (VReadDone n e buf (?c\<lparr>recvBuf := rb, windowSize := w\<rparr>))" "rcv_ok (?c\<lparr>recvBuf := rb, windowSize := w\<rparr>)"
      "contents (recvBuf ?c) = take (nat n) buf @ contents rb" "free (recvBuf ?c) \<le> free rb"
    using established_read [OF r k] by blast
  then show ?thesis
  proof cases
    case 2
    then have "linked (a, set_conn b (?c\<lparr>recvBuf := rb, windowSize := w\<rparr>))"
      using l una by (simp add: linked_def rcv_side_def timer_wf_def)
    then show ?thesis using 2 by (intro disjI1 exI conjI) (assumption | simp)+
  qed simp
qed

text \<open>
  What happens to the two ends: the application at one end writes, a round with what the link loses in
  it, the application at the other end reads. A step gives the bytes accepted and the bytes delivered.
\<close>

datatype xop = AppWrite bytes | Exchange "loss list" | AppRead nat

definition xstep :: "env \<Rightarrow> (rat \<Rightarrow> rat) \<Rightarrow> int \<Rightarrow> xop \<Rightarrow> tcb \<times> tcb \<Rightarrow> (bytes \<times> bytes \<times> tcb \<times> tcb) go" where
  "xstep E rnd now x ab =
     (case x of
        AppWrite d \<Rightarrow> bindG (sb_put (conn (fst ab)) d) (\<lambda>(n, c). ok (take n d, [], set_conn (fst ab) c, snd ab))
      | Exchange ls \<Rightarrow> bindG (transfer_round E rnd now ls ab) (\<lambda>ab'. ok ([], [], ab'))
      | AppRead k \<Rightarrow> bindG (VRead (conn (snd ab)) (replicate k 0)) (\<lambda>r. case r of
            VReadBlocks \<Rightarrow> ok ([], [], ab)
          | VReadDone n e buf c \<Rightarrow> ok ([], take (nat n) buf, fst ab, set_conn (snd ab) c)))"

fun xrun :: "env \<Rightarrow> (rat \<Rightarrow> rat) \<Rightarrow> int \<Rightarrow> xop list \<Rightarrow> tcb \<times> tcb \<Rightarrow> (bytes \<times> bytes \<times> tcb \<times> tcb) go" where
  "xrun E rnd now [] ab = ok ([], [], ab)"
| "xrun E rnd now (x # xs) ab =
     bindG (xstep E rnd now x ab) (\<lambda>(w, r, ab1).
     bindG (xrun E rnd now xs ab1) (\<lambda>(ws, rs, ab2). ok (w @ ws, r @ rs, ab2)))"

definition in_transit :: "tcb \<times> tcb \<Rightarrow> bytes" where
  "in_transit ab = contents (recvBuf (conn (snd ab))) @ stored (conn (fst ab))"

fun written :: "xop list \<Rightarrow> nat" where
  "written [] = 0"
| "written (AppWrite d # xs) = length d + written xs"
| "written (x # xs) = written xs"

text \<open>A step that the schedule may have: a read into a slice of sane size, a round that loses at most three transmissions.\<close>

fun xop_ok :: "xop \<Rightarrow> bool" where
  "xop_ok (AppRead k) = (k < 2 ^ 31)"
| "xop_ok (Exchange ls) = (length ls \<le> MAX_RETRANSMISSIONS)"
| "xop_ok x = True"

definition links_up :: "env \<Rightarrow> tcb \<times> tcb \<Rightarrow> bool" where
  "links_up E ab \<longleftrightarrow> net_up E (RemoteAddr (endpoint (conn (fst ab)))) \<and> net_up E (RemoteAddr (endpoint (conn (snd ab))))"

definition last_written :: "tcb \<times> tcb \<Rightarrow> nat" where
  "last_written ab = unat (lbw (sendBuf (conn (fst ab))))"

lemma xstep_stream:
  assumes l: "linked ab" and up: "links_up E ab" and lim: "last_written ab + written [x] + 65535 < 2 ^ 32" and sm: "xop_ok x"
  shows "\<exists>w r ab'. xstep E rnd now x ab = ok (w, r, ab') \<and> linked ab' \<and> links_up E ab' \<and>
    in_transit ab @ w = r @ in_transit ab' \<and> last_written ab' \<le> last_written ab + written [x]"
proof -
  obtain a b where ab: "ab = (a, b)" by (cases ab)
  show ?thesis
  proof (cases x)
    case (AppWrite d)
    then show ?thesis using linked_write [of a b d] l up lim
      by (auto simp: ab xstep_def in_transit_def links_up_def last_written_def)
  next
    case (Exchange ls)
    show ?thesis
    proof (cases "sendable_now (conn a) MSS = 0")
      case True
      then show ?thesis using transfer_round_idle [of a b] l up Exchange by (simp add: ab xstep_def)
    next
      case False
      then show ?thesis
        using transfer_round_sends [of a b E _ ls rnd now] l up Exchange sm
        by (fastforce simp: ab xstep_def in_transit_def links_up_def last_written_def MAX_RETRANSMISSIONS_def)
    qed
  next
    case (AppRead k)
    then show ?thesis using linked_read [of a b k] l up sm
      by (auto simp: ab xstep_def in_transit_def links_up_def last_written_def)
  qed
qed

lemma xrun_stream:
  assumes "linked ab" and "links_up E ab" and "last_written ab + written xs + 65535 < 2 ^ 32" and "list_all xop_ok xs"
  shows "\<exists>ws rs ab'. xrun E rnd now xs ab = ok (ws, rs, ab') \<and> linked ab' \<and> links_up E ab' \<and>
    in_transit ab @ ws = rs @ in_transit ab' \<and> last_written ab' \<le> last_written ab + written xs"
  using assms
proof (induction xs arbitrary: ab)
  case Nil
  then show ?case by simp
next
  case (Cons x xs)
  have wr: "written (x # xs) = written [x] + written xs" by (cases x) simp_all
  obtain w r ab1 where s: "xstep E rnd now x ab = ok (w, r, ab1)" "linked ab1" "links_up E ab1"
      "in_transit ab @ w = r @ in_transit ab1" "last_written ab1 \<le> last_written ab + written [x]"
    using xstep_stream [OF Cons.prems(1,2), of x rnd now] Cons.prems(3,4) unfolding wr by auto
  have "last_written ab1 + written xs + 65535 < 2 ^ 32" using s(5) Cons.prems(3) unfolding wr by linarith
  then obtain ws rs ab' where r: "xrun E rnd now xs ab1 = ok (ws, rs, ab')" "linked ab'" "links_up E ab'"
      "in_transit ab1 @ ws = rs @ in_transit ab'" "last_written ab' \<le> last_written ab1 + written xs"
    using Cons.IH [OF s(2,3)] Cons.prems(4) by auto
  have "xrun E rnd now (x # xs) ab = ok (w @ ws, r @ rs, ab')" using s(1) r(1) by simp
  moreover have "in_transit ab @ w @ ws = (r @ rs) @ in_transit ab'" using s(4) r(4) by (metis append.assoc)
  moreover have "last_written ab' \<le> last_written ab + written (x # xs)" unfolding wr using s(5) r(5) by linarith
  ultimately show ?case using r(2,3) by blast
qed

text \<open>Rounds deliver everything that fits the window the receiver has offered.\<close>

lemma kept_0: "kept c = 0 \<Longrightarrow> stored c = []"
  by (metis length_0_conv length_stored)

lemma flush:
  assumes "linked (a, b)" and "links_up E (a, b)" and "kept (conn a) \<le> 1360 * length lss" and "kept (conn a) \<le> unat (sndWnd (conn a))"
    and "list_all (\<lambda>ls. length ls \<le> 3) lss"
  shows "\<exists>a' b'. xrun E rnd now (map Exchange lss) (a, b) = ok ([], [], a', b') \<and> linked (a', b') \<and>
    contents (recvBuf (conn b')) = contents (recvBuf (conn b)) @ stored (conn a) \<and> stored (conn a') = []"
  using assms
proof (induction lss arbitrary: a b)
  case Nil
  then show ?case by (simp add: kept_0)
next
  case (Cons ls lss)
  show ?case
  proof (cases "sendable_now (conn a) MSS = 0")
    case True
    have "kept (conn a) = 0" using True linked_snd(5) [OF Cons.prems(1)] Cons.prems(4) by (auto simp: min_def split: if_splits)
    then show ?thesis using Cons.IH [OF Cons.prems(1,2)] Cons.prems(4,5) transfer_round_idle [OF Cons.prems(1) True, of E rnd now ls]
      by (auto simp: xstep_def)
  next
    case False
    let ?n = "sendable_now (conn a) MSS"
    obtain a1 b1 where r: "transfer_round E rnd now ls (a, b) = ok (a1, b1)" "linked (a1, b1)"
        "contents (recvBuf (conn b1)) = contents (recvBuf (conn b)) @ take ?n (stored (conn a))"
        "stored (conn a1) = drop ?n (stored (conn a))" "endpoint (conn a1) = endpoint (conn a)" "endpoint (conn b1) = endpoint (conn b)"
        "unat (sndWnd (conn a1)) = free (recvBuf (conn b1))"
      using transfer_round_sends [OF Cons.prems(1), of E ?n ls rnd now] Cons.prems(2,5) False by (auto simp: links_up_def)
    have n: "?n = min 1360 (kept (conn a))" using linked_snd(5) [OF Cons.prems(1)] Cons.prems(4) by simp
    have k1: "kept (conn a1) = kept (conn a) - ?n" using arg_cong [OF r(4), of length] by simp
    have rcv: "rcv_ok (conn b)" "rcv_ok (conn b1)" using Cons.prems(1) r(2) by (simp_all add: linked_def rcv_side_def)
    have "free (recvBuf (conn b1)) = free (recvBuf (conn b)) - ?n"
      using arg_cong [OF r(3), of length] rcv n by (simp add: free_def rcv_ok_def BUFFER_CAPACITY_def)
    moreover have "unat (sndWnd (conn a)) \<le> free (recvBuf (conn b))" using Cons.prems(1) by (simp add: linked_def)
    ultimately have "kept (conn a1) \<le> unat (sndWnd (conn a1))" using r(7) k1 Cons.prems(4) by linarith
    moreover have "kept (conn a1) \<le> 1360 * length lss" using k1 n Cons.prems(3) by simp
    moreover have "links_up E (a1, b1)" using Cons.prems(2) r(5,6) by (simp add: links_up_def)
    ultimately obtain a' b' where "xrun E rnd now (map Exchange lss) (a1, b1) = ok ([], [], a', b')" "linked (a', b')"
        "contents (recvBuf (conn b')) = contents (recvBuf (conn b1)) @ stored (conn a1)" "stored (conn a') = []"
      using Cons.IH [OF r(2)] Cons.prems(5) by auto
    then show ?thesis using r(1,3,4) by (auto simp: xstep_def)
  qed
qed


section \<open>Properties\<close>

text \<open>
  A segment with text in order in ESTABLISHED, when no early segment is queued and no sequence
  number wraps: its bytes are appended to the receive buffer, \<^verbatim>\<open>RCV.NXT\<close> moves by their number, the
  window shrinks by it and stays the free space of the buffer, the acknowledgement number and window
  of the segment are taken over, and exactly one segment goes out: an ACK with the new \<^verbatim>\<open>RCV.NXT\<close> and
  window.
\<close>

theorem text_in_order:
  assumes "net_up E (RemoteAddr (endpoint (conn s)))" and "state (conn s) = ESTABLISHED"
    and "rcv_ok (conn s)" and "unat (expectedSeqNum (conn s)) + free (recvBuf (conn s)) < 2 ^ 32"
    and "earlyArrivalQ (conn s) = []" and "timer_wf (conn s)"
    and "freespaceC (sendBuf (conn s)) < scapacity (sendBuf (conn s))"
    and "SeqNum (TcpHeader p) = expectedSeqNum (conn s)" and "IsAck p" and "good_ack (conn s) (AckNum (TcpHeader p))"
    and "TPayload p \<noteq> []" and "length (TPayload p) \<le> free (recvBuf (conn s))"
    and "length (TPayload p) < rb_limit (recvBuf (conn s))" and "\<not> IsFin p"
  shows "\<exists>s' q. stateMachine E rnd now p s = ok s' \<and> state (conn s') = ESTABLISHED \<and> rcv_ok (conn s') \<and>
    contents (recvBuf (conn s')) = contents (recvBuf (conn s)) @ TPayload p \<and>
    expectedSeqNum (conn s') = expectedSeqNum (conn s) + of_nat (length (TPayload p)) \<and>
    unat (windowSize (conn s')) = unat (windowSize (conn s)) - length (TPayload p) \<and>
    sndUna (conn s') = AckNum (TcpHeader p) \<and> sndWnd (conn s') = ucast (TcpWindowSize (TcpHeader p)) \<and>
    outs s' = outs s @ [q] \<and> Flags (TcpHeader q) = TCPFlagAck \<and> TPayload q = [] \<and>
    SeqNum (TcpHeader q) = sndNxt (conn s) \<and> AckNum (TcpHeader q) = expectedSeqNum (conn s') \<and>
    TcpWindowSize (TcpHeader q) = ucast (windowSize (conn s'))"
proof -
  note A = assms(1-8) assms(9,10) assms(11-14)
  obtain c' where c': "stateMachine E rnd now p s =
      ok (emit (set_conn s (take_text (TPayload p) c')) (ack_segment E (set_conn s (take_text (TPayload p) c'))))"
    and core: "core c' = core ((conn s)\<lparr>sndUna := AckNum (TcpHeader p), sndWnd := ucast (TcpWindowSize (TcpHeader p)),
      sendBuf := acked_buf (conn s) (AckNum (TcpHeader p))\<rparr>)"
    using established_data [OF A] by blast
  note f = core_fields [OF core, simplified]
  have rcv: "rcv_ok (conn (set_conn s c'))" using rcv_ok_core [OF core] assms(3) by (simp add: rcv_ok_ack)
  have got: "rcv_ok (take_text (TPayload p) c')" "contents (recvBuf (take_text (TPayload p) c')) = contents (recvBuf (conn s)) @ TPayload p"
      "free (recvBuf (take_text (TPayload p) c')) = free (recvBuf (conn s)) - length (TPayload p)"
    using handleSegText_room(2,3,4) [OF rcv, of E "TPayload p"] assms(1,11,12,13) f by simp_all
  have "unat (windowSize (take_text (TPayload p) c')) = unat (windowSize (conn s)) - length (TPayload p)"
    using rcv_ok_window(1) [OF got(1)] rcv_ok_window(1) [OF assms(3)] got(3) by simp
  then show ?thesis using c' got f assms(2)
    by (intro exI [of _ "emit (set_conn s (take_text (TPayload p) c')) (ack_segment E (set_conn s (take_text (TPayload p) c')))"]
        exI [of _ "ack_segment E (set_conn s (take_text (TPayload p) c'))"]) simp
qed

text \<open>Two established ends, the sender with three bytes to send, for the witnesses.\<close>

definition demo_pair :: "tcb \<times> tcb" where
  "demo_pair =
     (demo_tcb ((NewSocket 0 0x20000 ESTABLISHED \<lparr>LocalAddr = V4 1, LocalPort = 20000, RemoteAddr = V4 2, RemotePort = 80\<rparr> 0x30000)
        \<lparr>sndNxt := 0x20001, sndUna := 0x20001, sndWnd := 65535,
         sendBuf := \<lparr>sbuf = [0, 5, 6, 7], scapacity = 4, biss = 0x20000, lbw = 0x20004, hasUnsentC = 1, freespaceC = 0\<rparr>\<rparr>),
      demo_tcb ((NewSocket 0 0x30000 ESTABLISHED \<lparr>LocalAddr = V4 2, LocalPort = 80, RemoteAddr = V4 1, RemotePort = 20000\<rparr> 0x20000)
        \<lparr>sndNxt := 0x30001, sndUna := 0x30001\<rparr>))"

lemma demo_capacity: "unat (of_nat BUFFER_CAPACITY :: u32) = 65535" "of_nat BUFFER_CAPACITY = (0xffff :: u32)"
  by (simp_all add: BUFFER_CAPACITY_def unat_of_nat)

lemma demo_rcv_ok: "rcv_ok (conn (snd demo_pair))" "contents (recvBuf (conn (snd demo_pair))) = []"
    "free (recvBuf (conn (snd demo_pair))) = 65535"
proof -
  have r: "recvBuf (conn (snd demo_pair)) = NewRecvBuf 0xffff 0x20000"
    by (simp add: demo_pair_def demo_tcb_def NewSocket_def demo_capacity)
  note new = NewRecvBuf_wf [of "0xffff" "0x20000", simplified]
  show "contents (recvBuf (conn (snd demo_pair))) = []" "free (recvBuf (conn (snd demo_pair))) = 65535"
    unfolding r using new by simp_all
  show "rcv_ok (conn (snd demo_pair))"
    unfolding rcv_ok_def r using new by (simp add: NewRecvBuf_def BUFFER_CAPACITY_def demo_pair_def demo_tcb_def NewSocket_def)
qed

lemma demo_linked: "linked demo_pair" "links_up demo_env demo_pair" "stored (conn (fst demo_pair)) = [5, 6, 7]"
    "last_written demo_pair = 0x20004"
proof -
  have a: "sb_wf (conn (fst demo_pair))" "stored (conn (fst demo_pair)) = [5, 6, 7]" "kept (conn (fst demo_pair)) = 3"
    by (simp_all add: demo_pair_def demo_tcb_def sb_wf_def stored_def kept_def ring_def upt_rec)
  then show "stored (conn (fst demo_pair)) = [5, 6, 7]" by simp
  have "snd_side (conn (fst demo_pair))"
    using a by (simp add: snd_side_def) (simp add: demo_pair_def demo_tcb_def NewSocket_def window_ok_def demo_capacity timer_wf_def)
  moreover have "rcv_side (conn (snd demo_pair))"
    using demo_rcv_ok by (simp add: rcv_side_def)
      (simp add: demo_pair_def demo_tcb_def NewSocket_def newSendBuf_def timer_wf_def BUFFER_CAPACITY_def)
  moreover have "unat (sndWnd (conn (fst demo_pair))) = 65535" "unat (lbw (sendBuf (conn (fst demo_pair)))) = 0x20004"
      "expectedSeqNum (conn (snd demo_pair)) = sndNxt (conn (fst demo_pair))"
      "sndNxt (conn (snd demo_pair)) = expectedSeqNum (conn (fst demo_pair))"
    by (simp_all add: demo_pair_def demo_tcb_def NewSocket_def)
  ultimately show "linked demo_pair" using demo_rcv_ok(3) unfolding linked_def by (simp add: case_prod_beta)
  show "links_up demo_env demo_pair" by (simp add: links_up_def demo_net_up)
  show "last_written demo_pair = 0x20004" by (simp add: last_written_def demo_pair_def demo_tcb_def)
qed

lemma text_in_order_witness:
  "\<exists>s'. stateMachine demo_env (\<lambda>x. x) 0 (NewTCPacket 20000 80 0x20001 0x30001 TCPFlagAck [5, 6] 9) (snd demo_pair) = ok s' \<and>
     contents (recvBuf (conn s')) = [5, 6] \<and> expectedSeqNum (conn s') = 0x20003"
proof -
  let ?s = "snd demo_pair" and ?p = "NewTCPacket 20000 80 0x20001 0x30001 TCPFlagAck [5, 6] 9"
  have c: "expectedSeqNum (conn ?s) = 0x20001" "state (conn ?s) = ESTABLISHED" "earlyArrivalQ (conn ?s) = []" "timer_wf (conn ?s)"
      "freespaceC (sendBuf (conn ?s)) < scapacity (sendBuf (conn ?s))" "good_ack (conn ?s) 0x30001"
      "rb_limit (recvBuf (conn ?s)) = 4294836224"
    by (simp_all add: demo_pair_def demo_tcb_def NewSocket_def newSendBuf_def timer_wf_def BUFFER_CAPACITY_def good_ack_def
        rb_limit_def NewRecvBuf_def)
  have flags: "IsAck ?p" "\<not> IsFin ?p" by (simp_all add: IsAck_def IsFin_def TCPFlagAck_def TCPFlagFin_def)
  show ?thesis
    using text_in_order [of demo_env ?s ?p "\<lambda>x. x" 0] c demo_rcv_ok flags by (simp add: demo_net_up) blast
qed

text \<open>
  One round moves a segment's worth of the stream, whatever up to three transmissions of the segment
  lose: as many bytes as the sender keeps, the offered window and the maximum segment size allow leave
  the sender's buffer and arrive at the end of the receiver's, in order and once; nothing else of
  either buffer changes; and the two ends agree again on all sequence numbers and on the window.
\<close>

theorem segment_exchange:
  assumes "linked (a, b)" and "links_up E (a, b)"
    and "n = min 1360 (min (kept (conn a)) (unat (sndWnd (conn a))))" and "0 < n" and "length ls \<le> 3"
  shows "\<exists>a' b'. transfer_round E rnd now ls (a, b) = ok (a', b') \<and> linked (a', b') \<and>
    contents (recvBuf (conn b')) = contents (recvBuf (conn b)) @ take n (stored (conn a)) \<and>
    stored (conn a') = drop n (stored (conn a)) \<and> unat (sndWnd (conn a')) = free (recvBuf (conn b'))"
  using transfer_round_sends [OF assms(1), of E n ls rnd now] linked_snd(5) [OF assms(1)] assms(2-5) by (auto simp: links_up_def)

lemma segment_exchange_witness:
  "\<exists>a' b'. transfer_round demo_env (\<lambda>x. x) 0 [AnswerLost, SegmentLost] demo_pair = ok (a', b') \<and> contents (recvBuf (conn b')) = [5, 6, 7] \<and>
     stored (conn a') = []"
proof -
  have w: "sndWnd (conn (fst demo_pair)) = 65535" "kept (conn (fst demo_pair)) = 3"
    by (simp_all add: demo_pair_def demo_tcb_def kept_def)
  show ?thesis
    using segment_exchange [of "fst demo_pair" "snd demo_pair" demo_env 3 "[AnswerLost, SegmentLost]" "\<lambda>x. x" 0] demo_linked demo_rcv_ok(2) w by auto
qed

text \<open>
  C4. TCP delivers a byte stream: for every schedule of writes of one application, rounds of the
  exchange and reads of the other, in which the link loses up to three transmissions of a segment or
  of its acknowledgement, no step panics, blocks or loops, and the bytes read so far, followed by
  those buffered at the two ends, are the bytes buffered at the start followed by those the sender
  accepted, in order, without loss or duplication.
\<close>

theorem tcp_stream_delivery:
  assumes "linked ab" and "links_up E ab" and "last_written ab + written xs + 65535 < 2 ^ 32" and "list_all xop_ok xs"
  shows "\<exists>ws rs ab'. xrun E rnd now xs ab = ok (ws, rs, ab') \<and> linked ab' \<and>
    contents (recvBuf (conn (snd ab))) @ stored (conn (fst ab)) @ ws =
    rs @ contents (recvBuf (conn (snd ab'))) @ stored (conn (fst ab'))"
  using xrun_stream [OF assms, of rnd now] by (auto simp: in_transit_def)

lemma tcp_stream_delivery_witness:
  "\<exists>ws rs ab'. xrun demo_env (\<lambda>x. x) 0 [Exchange [AnswerLost], AppWrite [8, 9], AppRead 2, Exchange [SegmentLost, AnswerLost, AnswerLost], AppRead 9] demo_pair = ok (ws, rs, ab') \<and>
     [5, 6, 7] @ ws = rs @ contents (recvBuf (conn (snd ab'))) @ stored (conn (fst ab'))"
  using tcp_stream_delivery [of demo_pair demo_env "[Exchange [AnswerLost], AppWrite [8, 9], AppRead 2, Exchange [SegmentLost, AnswerLost, AnswerLost], AppRead 9]" "\<lambda>x. x" 0]
    demo_linked demo_rcv_ok(2) by (auto simp: MAX_RETRANSMISSIONS_def)

text \<open>
  C35. Progress: when the window the receiver has offered covers what the sender keeps, enough rounds
  (one for each 1360 bytes) leave nothing at the sender and everything at the receiver, whatever up
  to three transmissions in each of them lose.
\<close>

theorem tcp_flushes:
  assumes "linked (a, b)" and "links_up E (a, b)" and "kept (conn a) \<le> unat (sndWnd (conn a))"
    and "kept (conn a) \<le> 1360 * length lss" and "list_all (\<lambda>ls. length ls \<le> 3) lss"
  shows "\<exists>a' b'. xrun E rnd now (map Exchange lss) (a, b) = ok ([], [], a', b') \<and> linked (a', b') \<and>
    contents (recvBuf (conn b')) = contents (recvBuf (conn b)) @ stored (conn a) \<and> stored (conn a') = []"
  by (rule flush [OF assms(1,2,4,3,5)])

lemma tcp_flushes_witness:
  "\<exists>a' b'. xrun demo_env (\<lambda>x. x) 0 (map Exchange [[SegmentLost, AnswerLost]]) demo_pair = ok ([], [], a', b') \<and> contents (recvBuf (conn b')) = [5, 6, 7]"
proof -
  have w: "sndWnd (conn (fst demo_pair)) = 65535" "kept (conn (fst demo_pair)) = 3"
    by (simp_all add: demo_pair_def demo_tcb_def kept_def)
  show ?thesis
    using tcp_flushes [of "fst demo_pair" "snd demo_pair" demo_env "[[SegmentLost, AnswerLost]]" "\<lambda>x. x" 0] demo_linked demo_rcv_ok(2) w by fastforce
qed

end
