(* ===== verification/Tcp_Handshake.thy ===== *)
theory Tcp_Handshake imports Tcp_Transfer begin

text \<open>
  Opening a connection: \<open>doHandshakes\<close> at the two ends, the SYN_SENT and SYN_RECEIVED handlers, and the
  state in which the handshake leaves the two sockets.
\<close>

unbundle bit_operations_syntax

section \<open>The two sides of the handshake\<close>

lemma flags_syn: "IsSyn p" "\<not> IsAck p" if "Flags (TcpHeader p) = TCPFlagSyn"
  using that by (simp_all add: IsSyn_def IsAck_def TCPFlagSyn_def TCPFlagAck_def)

lemma flags_synack: "IsSyn p" "IsAck p" if "Flags (TcpHeader p) = TCPFlagSyn OR TCPFlagAck"
  using that by (simp_all add: IsSyn_def IsAck_def TCPFlagSyn_def TCPFlagAck_def)

lemma flags_ack: "IsAck p" "\<not> IsSyn p" "\<not> IsFin p" if "Flags (TcpHeader p) = TCPFlagAck"
  using that by (simp_all add: IsSyn_def IsAck_def IsFin_def TCPFlagSyn_def TCPFlagAck_def TCPFlagFin_def)

text \<open>A socket as \<^verbatim>\<open>VConnect\<close> and \<^verbatim>\<open>VAccept\<close> put it into the table.\<close>

definition opened :: "VTCPConn \<Rightarrow> tcb" where
  "opened c = \<lparr>conn = c, entry = Mine, outs = [], spawned = []\<rparr>"

lemma opened_fields [simp]: "conn (opened c) = c" "entry (opened c) = Mine" "outs (opened c) = []" "spawned (opened c) = []"
  by (simp_all add: opened_def)

lemma NewSocket_fields [simp]:
  "endpoint (NewSocket sid i st ep r) = ep" "state (NewSocket sid i st ep r) = st" "iss (NewSocket sid i st ep r) = i"
  "sndNxt (NewSocket sid i st ep r) = i" "sndUna (NewSocket sid i st ep r) = i" "expectedSeqNum (NewSocket sid i st ep r) = r + 1"
  "earlyArrivalQ (NewSocket sid i st ep r) = []" "inflightQ (NewSocket sid i st ep r) = []"
  "sendBuf (NewSocket sid i st ep r) = newSendBuf BUFFER_CAPACITY i" "windowSize (NewSocket sid i st ep r) = 0xffff"
  "recvBuf (NewSocket sid i st ep r) = NewRecvBuf 0xffff r" "rtoIsRunning (NewSocket sid i st ep r) = False"
  by (simp_all add: NewSocket_def demo_capacity)

lemma fresh_recvBuf: "rb_wf (NewRecvBuf 0xffff r)" "free (NewRecvBuf 0xffff r) = 65535" "contents (NewRecvBuf 0xffff r) = []"
    "unat (capacity (NewRecvBuf 0xffff r)) = BUFFER_CAPACITY" "\<not> finRecvd (NewRecvBuf 0xffff r)" "nxt (NewRecvBuf 0xffff r) = r + 1"
  using NewRecvBuf_wf [of "0xffff" r, simplified] by (simp_all add: NewRecvBuf_def BUFFER_CAPACITY_def)

text \<open>The receiving half of an established connection on which nothing has arrived yet.\<close>

lemma fresh_rcv_ok:
  assumes "recvBuf c = NewRecvBuf 0xffff r" and "expectedSeqNum c = r + 1" and "windowSize c = 0xffff"
  shows "rcv_ok c"
  using assms fresh_recvBuf by (simp add: rcv_ok_def)

text \<open>The sending half of one on which nothing was written yet.\<close>

lemma fresh_snd_side:
  assumes "state c = ESTABLISHED" and "sendBuf c = newSendBuf BUFFER_CAPACITY i" and "sndNxt c = i + 1" and "sndUna c = i + 1"
    and "windowSize c = 0xffff" and "unat (expectedSeqNum c) + 65535 < 2 ^ 32" and "earlyArrivalQ c = []" and "inflightQ c = []"
    and "\<not> rtoIsRunning c" and "65535 \<le> unat i" and "unat i + 1 < 2 ^ 32"
  shows "snd_side c" and "kept c = 0" and "stored c = []"
proof -
  have i: "unat (i + 1) = unat i + 1" using unat_plus_nat [of i 1] assms(11) by simp
  show k: "kept c = 0" using assms by (simp add: kept_def newSendBuf_def)
  then show "stored c = []" by (rule kept_0)
  have "sb_wf c" using assms k i by (simp add: sb_wf_def newSendBuf_def BUFFER_CAPACITY_def word_le_nat_alt)
  then show "snd_side c" using assms k i by (simp add: snd_side_def window_ok_def timer_wf_def newSendBuf_def)
qed


text \<open>What a side sends first, and a segment that is not a SYN coming in.\<close>

definition first_segment :: "env \<Rightarrow> bool \<Rightarrow> tcb \<Rightarrow> TCPPacket" where
  "first_segment E isActive s = sealed E s (if isActive then newPacket s (iss (conn s)) 0 TCPFlagSyn []
     else newPacket s (iss (conn s)) (expectedSeqNum (conn s)) (TCPFlagSyn OR TCPFlagAck) [])"

lemma first_segment_fields [simp]:
  "SeqNum (TcpHeader (first_segment E a s)) = iss (conn s)"
  "AckNum (TcpHeader (first_segment E a s)) = (if a then 0 else expectedSeqNum (conn s))"
  "Flags (TcpHeader (first_segment E a s)) = (if a then TCPFlagSyn else TCPFlagSyn OR TCPFlagAck)"
  "TcpWindowSize (TcpHeader (first_segment E a s)) = ucast (windowSize (conn s))" "TPayload (first_segment E a s) = []"
  by (simp_all add: first_segment_def newPacket_def)

lemma handshake_waits:
  assumes "net_up E (RemoteAddr (endpoint (conn s)))" and "k \<noteq> MAX_RETRANSMISSIONS + 1"
  shows "doHandshakes E rnd now a [] k s = ok (HsWaiting (emit s (first_segment E a s)))"
  using assms by (subst doHandshakes.simps) (simp add: sendCTL_up first_segment_def)

lemma handshake_segment:
  assumes "net_up E (RemoteAddr (endpoint (conn s)))" and "k \<noteq> MAX_RETRANSMISSIONS + 1" and "a \<or> \<not> IsSyn p"
  shows "doHandshakes E rnd now a (HsSegment p # es) k s =
    bindG (stateMachine E rnd now p (set_conn (emit s (first_segment E a s)) ((conn s)\<lparr>sndNxt := sndNxt (conn s) + 1\<rparr>)))
      (\<lambda>s2. ok (HsDone True s2))"
  using assms by (subst doHandshakes.simps) (auto simp: sendCTL_up first_segment_def)

lemma handshake_timeout:
  assumes "net_up E (RemoteAddr (endpoint (conn s)))" and "k \<noteq> MAX_RETRANSMISSIONS + 1"
  shows "doHandshakes E rnd now a (HsTimeout # es) k s =
    doHandshakes E rnd now a es (k + 1) (set_conn (emit s (first_segment E a s)) ((conn s)\<lparr>rto := 3000\<rparr>))"
  using assms by (subst doHandshakes.simps) (simp add: sendCTL_up first_segment_def)

text \<open>The client gets the SYN+ACK.\<close>

definition client_up :: "VTCPConn \<Rightarrow> TCPPacket \<Rightarrow> VTCPConn" where
  "client_up c p = c\<lparr>sndNxt := iss c + 1, expectedSeqNum := SeqNum (TcpHeader p) + 1,
     recvBuf := NewRecvBuf 0xffff (SeqNum (TcpHeader p)), irs := SeqNum (TcpHeader p), sndUna := AckNum (TcpHeader p),
     state := ESTABLISHED, sndWnd := ucast (TcpWindowSize (TcpHeader p))\<rparr>"

lemma client_gets_synack:
  fixes sid :: i32 and r :: u32
  assumes up: "net_up E (RemoteAddr ep)" and p: "IsAck p \<or> IsSyn p" "i < AckNum (TcpHeader p)"
  defines "c \<equiv> NewSocket sid i SYN_SENT ep r"
  shows "\<exists>ack. stateMachine E rnd now p (set_conn (emit (opened c) q) (c\<lparr>sndNxt := sndNxt c + 1\<rparr>)) =
      ok \<lparr>conn = client_up c p, entry = Mine, outs = [q, ack], spawned = [SendBufferedData]\<rparr> \<and>
    Flags (TcpHeader ack) = TCPFlagAck \<and> SeqNum (TcpHeader ack) = i + 1 \<and> AckNum (TcpHeader ack) = SeqNum (TcpHeader p) + 1 \<and>
    TcpWindowSize (TcpHeader ack) = 0xffff \<and> TPayload ack = []"
proof -
  let ?s = "set_conn (emit (opened c) q) (c\<lparr>sndNxt := sndNxt c + 1\<rparr>)"
  let ?t = "set_conn (emit (opened c) q) (client_up c p)"
  have rb: "SetLBR (AdvanceNxt (NewRecvBuf 0xffff r) x False) x = NewRecvBuf 0xffff x" for x
    by (simp add: SetLBR_def AdvanceNxt_def NewRecvBuf_def)
  have t: "set_conn ?s ((conn ?s)\<lparr>expectedSeqNum := SeqNum (TcpHeader p) + 1,
      recvBuf := SetLBR (AdvanceNxt (recvBuf (conn ?s)) (SeqNum (TcpHeader p)) False) (SeqNum (TcpHeader p)),
      irs := SeqNum (TcpHeader p), sndUna := AckNum (TcpHeader p), state := ESTABLISHED,
      sndWnd := ucast (TcpWindowSize (TcpHeader p))\<rparr>) = ?t"
    by (simp add: client_up_def c_def rb set_conn_def)
  have "net_up E (RemoteAddr (endpoint (conn ?t)))" using up by (simp add: client_up_def c_def)
  note ack = sendAck_up [OF this]
  have "stateMachine E rnd now p ?s = bindG (sendAck E ?t)
      (\<lambda>(q, s1). if q = None then deleteSocket s1 else ok (spawn s1 SendBufferedData))"
    using p t by (auto simp: stateMachine_def stateFuncSynSent_def Let_def c_def not_le)
  also have "\<dots> = ok (spawn (emit ?t (ack_segment E ?t)) SendBufferedData)" using ack by simp
  also have "\<dots> = ok \<lparr>conn = client_up c p, entry = Mine, outs = [q, ack_segment E ?t], spawned = [SendBufferedData]\<rparr>"
    by (simp add: spawn_def emit_def set_conn_def opened_def)
  finally show ?thesis by (intro exI [of _ "ack_segment E ?t"]) (simp add: client_up_def c_def)
qed

text \<open>The server gets the ACK of its SYN+ACK.\<close>

definition server_up :: "VTCPConn \<Rightarrow> TCPPacket \<Rightarrow> VTCPConn" where
  "server_up c p = c\<lparr>sndNxt := iss c + 1, state := ESTABLISHED, sndWnd := ucast (TcpWindowSize (TcpHeader p)),
     sndUna := AckNum (TcpHeader p)\<rparr>"

lemma server_gets_ack:
  fixes sid :: i32 and r :: u32
  assumes up: "net_up E (RemoteAddr ep)" and p: "Flags (TcpHeader p) = TCPFlagAck" "AckNum (TcpHeader p) = i + 1"
      "SeqNum (TcpHeader p) = r + 1" "TPayload p = []"
    and i: "unat i + 1 < 2 ^ 32" and r: "unat (r + 1) + 65535 < 2 ^ 32"
  defines "c \<equiv> NewSocket sid i SYN_RECEIVED ep r"
  shows "stateMachine E rnd now p (set_conn (emit (opened c) q) (c\<lparr>sndNxt := sndNxt c + 1\<rparr>)) =
      ok \<lparr>conn = server_up c p, entry = Mine, outs = [q], spawned = [SendBufferedData]\<rparr>"
proof -
  let ?s = "set_conn (emit (opened c) q) (c\<lparr>sndNxt := sndNxt c + 1\<rparr>)"
  have gt: "i < i + 1" using unat_plus_nat [of i 1] i by (simp add: word_less_nat_alt)
  have seq: "handleSeqNum E p ?s = ok (Inr (TPayload p), ?s)"
  proof (rule handleSeqNum_next)
    show "net_up E (RemoteAddr (endpoint (conn ?s)))" using up by (simp add: c_def)
    show "window_ok (conn ?s)" using r by (simp add: window_ok_def c_def)
  qed (use p in \<open>simp_all add: c_def\<close>)
  show ?thesis
    using seq p gt flags_ack [OF p(1)]
    by (simp add: stateMachine_def stateFuncSynRcvd_def Let_def c_def withText_def finToCloseWait_def server_up_def
        spawn_def emit_def set_conn_def opened_def)
qed

lemma client_up_sides:
  assumes p: "AckNum (TcpHeader p) = i + 1" and c: "c = NewSocket sid i SYN_SENT ep r"
    and i: "65535 \<le> unat i" "unat i + 65537 < 2 ^ 32"
    and j: "unat (SeqNum (TcpHeader p)) + 65537 < 2 ^ 32"
  shows "snd_side (client_up c p)" and "rcv_side (client_up c p)" and "free (recvBuf (client_up c p)) = 65535"
    and "kept (client_up c p) = 0" and "contents (recvBuf (client_up c p)) = []"
proof -
  let ?j = "SeqNum (TcpHeader p)"
  have i1: "unat (i + 1) = unat i + 1" and j1: "unat (?j + 1) = unat ?j + 1"
    using unat_plus_nat [of i 1] unat_plus_nat [of ?j 1] i j by simp_all
  show "snd_side (client_up c p)" "kept (client_up c p) = 0"
    using p i j1 j by (intro fresh_snd_side [where i = i]; simp add: client_up_def c)+
  have rcv: "rcv_ok (client_up c p)" by (rule fresh_rcv_ok [where r = ?j]) (simp_all add: client_up_def c)
  then show "rcv_side (client_up c p)"
    using p i i1 by (simp add: rcv_side_def) (simp add: client_up_def c timer_wf_def newSendBuf_def BUFFER_CAPACITY_def)
  show "free (recvBuf (client_up c p)) = 65535" "contents (recvBuf (client_up c p)) = []"
    using fresh_recvBuf by (simp_all add: client_up_def)
qed

lemma server_up_sides:
  assumes p: "AckNum (TcpHeader p) = i + 1" and c: "c = NewSocket sid i SYN_RECEIVED ep r"
    and i: "65535 \<le> unat i" "unat i + 65537 < 2 ^ 32" and j: "unat r + 65537 < 2 ^ 32"
  shows "snd_side (server_up c p)" and "rcv_side (server_up c p)" and "free (recvBuf (server_up c p)) = 65535"
    and "kept (server_up c p) = 0" and "contents (recvBuf (server_up c p)) = []"
proof -
  have i1: "unat (i + 1) = unat i + 1" and j1: "unat (r + 1) = unat r + 1"
    using unat_plus_nat [of i 1] unat_plus_nat [of r 1] i j by simp_all
  show "snd_side (server_up c p)" "kept (server_up c p) = 0"
    using p i j1 j by (intro fresh_snd_side [where i = i]; simp add: server_up_def c)+
  have rcv: "rcv_ok (server_up c p)" by (rule fresh_rcv_ok [where r = r]) (simp_all add: server_up_def c)
  then show "rcv_side (server_up c p)"
    using p i i1 by (simp add: rcv_side_def) (simp add: server_up_def c timer_wf_def newSendBuf_def BUFFER_CAPACITY_def)
  show "free (recvBuf (server_up c p)) = 65535" "contents (recvBuf (server_up c p)) = []"
    using fresh_recvBuf by (simp_all add: server_up_def c)
qed

text \<open>The three segments, and the two ends that they leave.\<close>

lemma handshake_exchange:
  fixes sid sid' :: i32
  assumes up: "net_up E (RemoteAddr ep)" "net_up E (RemoteAddr ep')"
    and i: "65535 \<le> unat i" "unat i + 65537 < 2 ^ 32" and j: "65535 \<le> unat j" "unat j + 65537 < 2 ^ 32"
  defines "client \<equiv> opened (NewSocket sid i SYN_SENT ep 0)"
  shows "\<exists>syn synack ack a b.
    doHandshakes E rnd now True [] 0 client = ok (HsWaiting (emit client syn)) \<and> Flags (TcpHeader syn) = TCPFlagSyn \<and>
    (let server = opened (NewSocket sid' j SYN_RECEIVED ep' (SeqNum (TcpHeader syn)))
     in doHandshakes E rnd now False [] 0 server = ok (HsWaiting (emit server synack)) \<and>
        doHandshakes E rnd now True [HsSegment synack] 0 client = ok (HsDone True a) \<and> outs a = [syn, ack] \<and>
        doHandshakes E rnd now False [HsSegment ack] 0 server = ok (HsDone True b) \<and> outs b = [synack]) \<and>
    linked (a, b) \<and> linked (b, a) \<and> spawned a = [SendBufferedData] \<and> spawned b = [SendBufferedData] \<and>
    contents (recvBuf (conn a)) = [] \<and> contents (recvBuf (conn b)) = [] \<and> stored (conn a) = [] \<and> stored (conn b) = [] \<and>
    entry a = Mine \<and> entry b = Mine \<and> endpoint (conn a) = ep \<and> endpoint (conn b) = ep' \<and>
    SeqNum (TcpHeader syn) = i \<and> SrcPort (TcpHeader syn) = LocalPort ep"
proof -
  let ?c = "NewSocket sid i SYN_SENT ep 0" and ?d = "NewSocket sid' j SYN_RECEIVED ep' i"
  let ?syn = "first_segment E True client" and ?synack = "first_segment E False (opened ?d)"
  have upc: "net_up E (RemoteAddr (endpoint (conn client)))" "net_up E (RemoteAddr (endpoint (conn (opened ?d))))"
    using up by (simp_all add: client_def)
  have k: "0 \<noteq> MAX_RETRANSMISSIONS + 1" by simp
  have i1: "unat (i + 1) = unat i + 1" and j1: "unat (j + 1) = unat j + 1"
    using unat_plus_nat [of i 1] unat_plus_nat [of j 1] i j by simp_all
  have sa: "IsAck ?synack" "AckNum (TcpHeader ?synack) = i + 1" "SeqNum (TcpHeader ?synack) = j"
    using flags_synack(2) [of ?synack] by simp_all
  have gt: "i < AckNum (TcpHeader ?synack)" using i1 sa(2) by (simp add: word_less_nat_alt)
  obtain ack where ack: "stateMachine E rnd now ?synack (set_conn (emit (opened ?c) ?syn) (?c\<lparr>sndNxt := sndNxt ?c + 1\<rparr>)) =
      ok \<lparr>conn = client_up ?c ?synack, entry = Mine, outs = [?syn, ack], spawned = [SendBufferedData]\<rparr>"
      "Flags (TcpHeader ack) = TCPFlagAck" "SeqNum (TcpHeader ack) = i + 1" "AckNum (TcpHeader ack) = j + 1"
      "TcpWindowSize (TcpHeader ack) = 0xffff" "TPayload ack = []"
    using client_gets_synack [OF up(1) disjI1 [OF sa(1)] gt, where sid = sid and r = 0 and rnd = rnd and now = now and q = ?syn] sa(3) by metis
  let ?a = "\<lparr>conn = client_up ?c ?synack, entry = Mine, outs = [?syn, ack], spawned = [SendBufferedData]\<rparr>"
  let ?b = "\<lparr>conn = server_up ?d ack, entry = Mine, outs = [?synack], spawned = [SendBufferedData]\<rparr>"
  have "unat j + 1 < 2 ^ 32" "unat (i + 1) + 65535 < 2 ^ 32" using j i i1 by simp_all
  then have srv: "stateMachine E rnd now ack (set_conn (emit (opened ?d) ?synack) (?d\<lparr>sndNxt := sndNxt ?d + 1\<rparr>)) = ok ?b"
    using server_gets_ack [OF up(2) ack(2,4,3,6), where sid = sid' and rnd = rnd and now = now and q = ?synack] by blast
  have client_done: "doHandshakes E rnd now True [HsSegment ?synack] 0 client = ok (HsDone True ?a)"
    using handshake_segment [OF upc(1) k] ack(1) by (simp add: client_def)
  have server_done: "doHandshakes E rnd now False [HsSegment ack] 0 (opened ?d) = ok (HsDone True ?b)"
    using handshake_segment [OF upc(2) k, of False ack] flags_ack [OF ack(2)] srv by simp
  have jj: "unat (SeqNum (TcpHeader ?synack)) + 65537 < 2 ^ 32" using j(2) sa(3) by simp
  note A = client_up_sides [OF sa(2) refl i jj, of sid ep 0] and B = server_up_sides [OF ack(4) refl j i(2), of sid' ep']
  have w: "(ucast (0xffff :: u16) :: u32) = 0xffff" by simp
  have ab: "linked (?a, ?b)" using A B i1 i sa(3) w
    by (simp add: linked_def) (simp add: client_up_def server_up_def newSendBuf_def)
  have ba: "linked (?b, ?a)" using A B j1 j sa(3) ack(5) w
    by (simp add: linked_def) (simp add: client_up_def server_up_def newSendBuf_def)
  have ends: "endpoint (client_up ?c ?synack) = ep" "endpoint (server_up ?d ack) = ep'" by (simp_all add: client_up_def server_up_def)
  have syn: "SrcPort (TcpHeader ?syn) = LocalPort ep"
    by (simp add: client_def first_segment_def newPacket_def NewTCPacket_def sealed_def)
  show ?thesis
    using handshake_waits [OF upc(1) k, of rnd now True] handshake_waits [OF upc(2) k, of rnd now False] client_done server_done
      ab ba A(4,5) B(4,5) kept_0 ends syn
    by (intro exI [of _ ?syn] exI [of _ ?synack] exI [of _ ack] exI [of _ ?a] exI [of _ ?b]) (simp add: client_def)
qed

section \<open>Properties\<close>

text \<open>
  C22. The three-way handshake. The client sends its SYN; the server, whose socket is made from the SYN's
  sequence number, answers with a SYN+ACK; given that, the client's handshake succeeds and sends an
  ACK; given that, the server's handshake succeeds. Both are ESTABLISHED with their sending loops
  started, agree on all sequence numbers and on the windows in both directions, and have empty
  buffers.
\<close>

theorem three_way_handshake:
  fixes sid sid' :: i32
  assumes up: "net_up E (RemoteAddr ep)" "net_up E (RemoteAddr ep')"
    and i: "65535 \<le> unat i" "unat i + 65537 < 2 ^ 32" and j: "65535 \<le> unat j" "unat j + 65537 < 2 ^ 32"
  defines "client \<equiv> opened (NewSocket sid i SYN_SENT ep 0)"
  shows "\<exists>syn synack ack a b.
    doHandshakes E rnd now True [] 0 client = ok (HsWaiting (emit client syn)) \<and> Flags (TcpHeader syn) = TCPFlagSyn \<and>
    (let server = opened (NewSocket sid' j SYN_RECEIVED ep' (SeqNum (TcpHeader syn)))
     in doHandshakes E rnd now False [] 0 server = ok (HsWaiting (emit server synack)) \<and>
        doHandshakes E rnd now True [HsSegment synack] 0 client = ok (HsDone True a) \<and> outs a = [syn, ack] \<and>
        doHandshakes E rnd now False [HsSegment ack] 0 server = ok (HsDone True b) \<and> outs b = [synack]) \<and>
    linked (a, b) \<and> linked (b, a) \<and> spawned a = [SendBufferedData] \<and> spawned b = [SendBufferedData] \<and>
    contents (recvBuf (conn a)) = [] \<and> contents (recvBuf (conn b)) = [] \<and> stored (conn a) = [] \<and> stored (conn b) = []"
  using handshake_exchange [OF up i j, of rnd now sid sid'] unfolding client_def Let_def by blast

lemma three_way_handshake_witness:
  "\<exists>synack a. doHandshakes demo_env (\<lambda>x. x) 0 True [HsSegment synack] 0
     (opened (NewSocket 1 0x20000 SYN_SENT (endpoint (demo_sender 8)) 0)) = ok (HsDone True a) \<and> spawned a = [SendBufferedData]"
  using three_way_handshake [of demo_env "endpoint (demo_sender 8)" "endpoint (demo_sender 8)" "0x20000" "0x30000" "\<lambda>x. x" 0 1 1]
  by (auto simp: demo_net_up Let_def)

text \<open>
  C36. What ends the client's handshake: any segment that is not lost, and always with success. A segment
  with ACK or SYN whose acknowledgement number is beyond the initial sequence number establishes the
  connection, also when it acknowledges what was never sent; any other segment closes the socket and
  takes it out of the table, and the caller is told that it is connected all the same.
\<close>

theorem syn_sent_segment:
  fixes sid :: i32
  assumes up: "net_up E (RemoteAddr ep)" and i: "unat i + 1 < 2 ^ 32"
  defines "client \<equiv> opened (NewSocket sid i SYN_SENT ep 0)"
  shows "\<exists>s'. doHandshakes E rnd now True [HsSegment p] 0 client = ok (HsDone True s') \<and>
    (if (IsAck p \<or> IsSyn p) \<and> i < AckNum (TcpHeader p)
     then state (conn s') = ESTABLISHED \<and> entry s' = Mine \<and> sndUna (conn s') = AckNum (TcpHeader p) \<and> sndNxt (conn s') = i + 1 \<and>
       expectedSeqNum (conn s') = SeqNum (TcpHeader p) + 1 \<and> spawned s' = [SendBufferedData]
     else state (conn s') = CLOSED \<and> entry s' = NoEntry \<and> spawned s' = [])"
proof -
  let ?c = "NewSocket sid i SYN_SENT ep 0" and ?q = "first_segment E True client"
  let ?s = "set_conn (emit (opened ?c) ?q) (?c\<lparr>sndNxt := sndNxt ?c + 1\<rparr>)"
  have "net_up E (RemoteAddr (endpoint (conn client)))" using up by (simp add: client_def)
  then have h: "doHandshakes E rnd now True [HsSegment p] 0 client = bindG (stateMachine E rnd now p ?s) (\<lambda>s2. ok (HsDone True s2))"
    by (subst handshake_segment) (simp_all add: client_def)
  show ?thesis
  proof (cases "(IsAck p \<or> IsSyn p) \<and> i < AckNum (TcpHeader p)")
    case True
    then obtain ack where "stateMachine E rnd now p ?s =
        ok \<lparr>conn = client_up ?c p, entry = Mine, outs = [?q, ack], spawned = [SendBufferedData]\<rparr>"
      using client_gets_synack [OF up, of p i] by metis
    then show ?thesis using h True by (simp add: client_up_def)
  next
    case False
    have "\<exists>s'. stateMachine E rnd now p ?s = ok s' \<and> state (conn s') = CLOSED \<and> entry s' = NoEntry \<and> spawned s' = []"
      using False by (auto simp: stateMachine_def stateFuncSynSent_def Let_def deleteSocket_def)
    then show ?thesis using h by (auto simp: if_not_P [OF False])
  qed
qed

lemma syn_sent_segment_witness:
  "(\<exists>s'. doHandshakes demo_env (\<lambda>x. x) 0 True [HsSegment (NewTCPacket 80 20000 5 0 4 [] 0)] 0
     (opened (NewSocket 1 8 SYN_SENT (endpoint (demo_sender 8)) 0)) = ok (HsDone True s') \<and> state (conn s') = CLOSED) \<and>
   (\<exists>s'. doHandshakes demo_env (\<lambda>x. x) 0 True [HsSegment (NewTCPacket 80 20000 5 1000 TCPFlagAck [] 0)] 0
     (opened (NewSocket 1 8 SYN_SENT (endpoint (demo_sender 8)) 0)) = ok (HsDone True s') \<and>
     state (conn s') = ESTABLISHED \<and> sndUna (conn s') = 1000 \<and> sndNxt (conn s') = 9)"
  using syn_sent_segment [of demo_env "endpoint (demo_sender 8)" 8 "\<lambda>x. x" 0 "NewTCPacket 80 20000 5 0 4 [] 0" 1]
    syn_sent_segment [of demo_env "endpoint (demo_sender 8)" 8 "\<lambda>x. x" 0 "NewTCPacket 80 20000 5 1000 TCPFlagAck [] 0" 1]
  by (auto simp: demo_net_up IsAck_def IsSyn_def TCPFlagAck_def TCPFlagSyn_def)

end
