(* ===== verification/Tcp_Closing.thy ===== *)
theory Tcp_Closing imports Tcp_Handshake begin

text \<open>
  Closing a connection: the user's close on either side (\<^verbatim>\<open>sendFin\<close>, \<^verbatim>\<open>activeClose\<close>), what the state
  machine does with the FINs and their acknowledgements, composed into the exchange that takes both
  ends to CLOSED; and two ways in which a close and the data of the connection meet.
\<close>

unbundle bit_operations_syntax

lemma set_conn_twice [simp]: "set_conn (set_conn s c) d = set_conn s d"
  by (simp add: set_conn_def)

section \<open>What the user's close sends\<close>

lemma sendFin_up:
  assumes up: "net_up E (RemoteAddr (endpoint (conn s)))" and wf: "timer_wf (conn s)"
  shows "\<exists>fin c'. sendFin E now s k = ok (None, k (set_conn (emit s fin) c')) \<and> timer_wf c' \<and> core c' = core (conn s) \<and>
    inflightQ c' = inflightQ (conn s) @ [\<lparr>timeSent = now, plength = 0, counter = 0, packet = fin\<rparr>] \<and>
    SeqNum (TcpHeader fin) = sndNxt (conn s) \<and> AckNum (TcpHeader fin) = expectedSeqNum (conn s) \<and>
    Flags (TcpHeader fin) = (TCPFlagFin OR TCPFlagAck) \<and> TPayload fin = [] \<and>
    TcpWindowSize (TcpHeader fin) = ucast (windowSize (conn s))"
proof -
  let ?fin = "sealed E s (newPacket s (sndNxt (conn s)) (expectedSeqNum (conn s)) (TCPFlagFin OR TCPFlagAck) [])"
  let ?c1 = "(conn s)\<lparr>inflightQ := inflightQ (conn s) @ [\<lparr>timeSent = now, plength = 0, counter = 0, packet = ?fin\<rparr>]\<rparr>"
  have "timer_wf ?c1" using wf by (simp add: timer_wf_def)
  then obtain c' where c': "resetRetransTimer ?c1 False = ok c'" "timer_wf c'" "inflightQ c' = inflightQ ?c1"
    using resetRetransTimer_wf by blast
  have "sendFin E now s k = ok (None, k (set_conn (emit s ?fin) c'))"
    using sendCTL_up [OF up] c'(1) by (simp add: sendFin_def)
  then show ?thesis using c' core_resetRetransTimer [OF c'(1)]
    by (intro exI [of _ ?fin] exI [of _ c']) (simp add: newPacket_def)
qed

text \<open>Closing a connection on which everything was sent.\<close>

definition close_to :: "State \<Rightarrow> State" where
  "close_to st = (if st = ESTABLISHED then FIN_WAIT_1 else LAST_ACK)"

lemma close_sends_fin:
  assumes up: "net_up E (RemoteAddr (endpoint (conn s)))" and wf: "timer_wf (conn s)"
    and st: "state (conn s) = ESTABLISHED \<or> state (conn s) = CLOSE_WAIT" and all: "lbw (sendBuf (conn s)) = sndNxt (conn s)"
  shows "\<exists>fin c'. VClose E now s = ok (None, set_conn (emit s fin) c') \<and> timer_wf c' \<and>
    core c' = core ((conn s)\<lparr>sndNxt := sndNxt (conn s) + 1, state := close_to (state (conn s))\<rparr>) \<and>
    SeqNum (TcpHeader fin) = sndNxt (conn s) \<and> AckNum (TcpHeader fin) = expectedSeqNum (conn s) \<and>
    Flags (TcpHeader fin) = (TCPFlagFin OR TCPFlagAck) \<and> TPayload fin = [] \<and>
    TcpWindowSize (TcpHeader fin) = ucast (windowSize (conn s)) \<and>
    inflightQ c' = inflightQ (conn s) @ [\<lparr>timeSent = now, plength = 0, counter = 0, packet = fin\<rparr>]"
proof -
  let ?st = "close_to (state (conn s))"
  let ?k = "\<lambda>s'. setState (set_conn s' ((conn s')\<lparr>sndNxt := sndNxt (conn s') + 1\<rparr>)) ?st"
  obtain fin c where f: "sendFin E now s ?k = ok (None, ?k (set_conn (emit s fin) c))" "timer_wf c" "core c = core (conn s)"
      "inflightQ c = inflightQ (conn s) @ [\<lparr>timeSent = now, plength = 0, counter = 0, packet = fin\<rparr>]"
      "SeqNum (TcpHeader fin) = sndNxt (conn s)" "AckNum (TcpHeader fin) = expectedSeqNum (conn s)"
      "Flags (TcpHeader fin) = (TCPFlagFin OR TCPFlagAck)" "TPayload fin = []" "TcpWindowSize (TcpHeader fin) = ucast (windowSize (conn s))"
    using sendFin_up [OF up wf, of now ?k] by blast
  let ?c' = "c\<lparr>sndNxt := sndNxt c + 1, state := ?st\<rparr>"
  have k: "?k (set_conn (emit s fin) c) = set_conn (emit s fin) ?c'" by (simp add: setState_def set_conn_def)
  have "VClose E now s = sendFin E now s ?k"
    using st all by (auto simp: VClose_def activeClose_def Let_def numBytesNotSent_def close_to_def)
  then have "VClose E now s = ok (None, set_conn (emit s fin) ?c')" using f(1) k by simp
  moreover have "core ?c' = core ((conn s)\<lparr>sndNxt := sndNxt (conn s) + 1, state := ?st\<rparr>)"
  proof -
    have "core (x\<lparr>sndNxt := n, state := st\<rparr>) = (core x)\<lparr>sndNxt := n, state := st\<rparr>" for x n st by (simp add: core_def)
    then show ?thesis using f(3) core_fields(5) [OF f(3)] by simp
  qed
  ultimately show ?thesis using f by (intro exI [of _ fin] exI [of _ ?c']) (simp add: timer_wf_def)
qed

text \<open>A segment without text in any state that begins with sequence number and acknowledgement.\<close>

lemma onAccepted_empty:
  fixes p :: TCPPacket and s :: tcb
  assumes up: "net_up E (RemoteAddr (endpoint (conn s)))" and w: "window_ok (conn s)" and early: "earlyArrivalQ (conn s) = []"
    and wf: "timer_wf (conn s)" and room: "freespaceC (sendBuf (conn s)) < scapacity (sendBuf (conn s))"
    and p: "SeqNum (TcpHeader p) = expectedSeqNum (conn s)" "IsAck p" "good_ack (conn s) (AckNum (TcpHeader p))" "TPayload p = []"
  defines "c \<equiv> conn s" and "a \<equiv> AckNum (TcpHeader p)"
  shows "\<exists>c'. (\<forall>k. onAccepted E rnd now p s k = k [] (set_conn s c')) \<and> timer_wf c' \<and>
    core c' = core (c\<lparr>sndUna := a, sndWnd := ucast (TcpWindowSize (TcpHeader p)), sendBuf := acked_buf c a\<rparr>) \<and>
    inflightQ c' = (if a = sndUna c then inflightQ c else dropWhile (acked_by a) (inflightQ c))"
proof -
  have h1: "handleSeqNum E p s = ok (Inr [], s)" using handleSeqNum_next [OF up w early p(1)] p(4) by simp
  obtain c' where c': "handleAck E rnd now p s = ok (None, set_conn s c')" "timer_wf c'"
      "core c' = core (c\<lparr>sndUna := a, sndWnd := ucast (TcpWindowSize (TcpHeader p)), sendBuf := acked_buf c a\<rparr>)"
      "inflightQ c' = (if a = sndUna c then inflightQ c else dropWhile (acked_by a) (inflightQ c))"
    using handleAck_good [OF up wf room p(3), of rnd now] unfolding c_def a_def by blast
  then show ?thesis using h1 p(2) by (intro exI [of _ c']) (simp add: onAccepted_def)
qed

text \<open>What the steps of a close look at: nothing left to send, a next sequence number \<open>n\<close>, expecting \<open>r\<close>.\<close>

definition quiet :: "State \<Rightarrow> u32 \<Rightarrow> u32 \<Rightarrow> VTCPConn \<Rightarrow> bool" where
  "quiet st n r c \<longleftrightarrow> state c = st \<and> sndNxt c = n \<and> expectedSeqNum c = r \<and> unat r + unat (windowSize c) < 2 ^ 32 \<and>
     unat (windowSize c) < 2 ^ 31 \<and> earlyArrivalQ c = [] \<and> timer_wf c \<and> 65535 \<le> unat (sndUna c) \<and>
     freespaceC (sendBuf c) < scapacity (sendBuf c)"

lemma quiet_window: "quiet st n r c \<Longrightarrow> window_ok c"
  by (simp add: quiet_def window_ok_def)

lemma flags_fin: "IsAck p" "IsFin p" if "Flags (TcpHeader p) = (TCPFlagFin OR TCPFlagAck)"
  using that by (simp_all add: IsAck_def IsFin_def TCPFlagAck_def TCPFlagFin_def)

lemma flags_pure_ack: "IsAck p" "\<not> IsFin p" if "Flags (TcpHeader p) = TCPFlagAck"
  using that by (simp_all add: IsAck_def IsFin_def TCPFlagAck_def TCPFlagFin_def)

text \<open>The connections before and after a step have the same endpoint, table entry and kind of buffers.\<close>

definition carried :: "tcb \<Rightarrow> tcb \<Rightarrow> bool" where
  "carried s s' \<longleftrightarrow> endpoint (conn s') = endpoint (conn s) \<and> entry s' = entry s \<and>
     windowSize (conn s') = windowSize (conn s) \<and> lbw (sendBuf (conn s')) = lbw (sendBuf (conn s)) \<and>
     scapacity (sendBuf (conn s')) = scapacity (sendBuf (conn s)) \<and> unat (sndUna (conn s)) \<le> unat (sndUna (conn s'))"

lemma quiet_close:
  assumes up: "net_up E (RemoteAddr (endpoint (conn s)))" and q: "quiet st n r (conn s)" and st: "st = ESTABLISHED \<or> st = CLOSE_WAIT"
    and all: "lbw (sendBuf (conn s)) = n"
  shows "\<exists>s' fin. VClose E now s = ok (None, s') \<and> quiet (close_to st) (n + 1) r (conn s') \<and> carried s s' \<and>
    outs s' = outs s @ [fin] \<and> spawned s' = spawned s \<and> sndUna (conn s') = sndUna (conn s) \<and>
    freespaceC (sendBuf (conn s')) = freespaceC (sendBuf (conn s)) \<and>
    SeqNum (TcpHeader fin) = n \<and> AckNum (TcpHeader fin) = r \<and> Flags (TcpHeader fin) = (TCPFlagFin OR TCPFlagAck) \<and> TPayload fin = [] \<and>
    inflightQ (conn s') = inflightQ (conn s) @ [\<lparr>timeSent = now, plength = 0, counter = 0, packet = fin\<rparr>]"
proof -
  have c: "state (conn s) = st" "sndNxt (conn s) = n" "expectedSeqNum (conn s) = r" "timer_wf (conn s)" using q by (simp_all add: quiet_def)
  obtain fin c' where f: "VClose E now s = ok (None, set_conn (emit s fin) c')" "timer_wf c'"
      "core c' = core ((conn s)\<lparr>sndNxt := n + 1, state := close_to st\<rparr>)"
      "SeqNum (TcpHeader fin) = n" "AckNum (TcpHeader fin) = r" "Flags (TcpHeader fin) = (TCPFlagFin OR TCPFlagAck)" "TPayload fin = []"
      "inflightQ c' = inflightQ (conn s) @ [\<lparr>timeSent = now, plength = 0, counter = 0, packet = fin\<rparr>]"
    using close_sends_fin [OF up c(4), of now] st all c by auto
  note g = core_fields [OF f(3), simplified]
  show ?thesis using f g q by (intro exI [of _ "set_conn (emit s fin) c'"] exI [of _ fin]) (simp add: quiet_def carried_def)
qed

lemma quiet_passive_fin:
  assumes up: "net_up E (RemoteAddr (endpoint (conn s)))" and q: "quiet ESTABLISHED n r (conn s)" and una: "sndUna (conn s) = n"
    and p: "SeqNum (TcpHeader p) = r" "AckNum (TcpHeader p) = n" "Flags (TcpHeader p) = (TCPFlagFin OR TCPFlagAck)" "TPayload p = []"
    and nx: "unat r + 1 + unat (windowSize (conn s)) < 2 ^ 32"
  shows "\<exists>s' ack. stateMachine E rnd now p s = ok s' \<and> quiet CLOSE_WAIT n (r + 1) (conn s') \<and> carried s s' \<and>
    outs s' = outs s @ [ack] \<and> spawned s' = spawned s \<and> sndUna (conn s') = n \<and> inflightQ (conn s') = inflightQ (conn s) \<and>
    SeqNum (TcpHeader ack) = n \<and> AckNum (TcpHeader ack) = r + 1 \<and> Flags (TcpHeader ack) = TCPFlagAck \<and> TPayload ack = [] \<and>
    recvBuf (conn s') = AdvanceNxt (recvBuf (conn s)) r True"
proof -
  have c: "earlyArrivalQ (conn s) = []" "timer_wf (conn s)" "freespaceC (sendBuf (conn s)) < scapacity (sendBuf (conn s))"
      "SeqNum (TcpHeader p) = expectedSeqNum (conn s)" "good_ack (conn s) (AckNum (TcpHeader p))" "state (conn s) = ESTABLISHED"
    using q una p by (simp_all add: quiet_def good_ack_def)
  obtain c' where c': "\<And>k. onAccepted E rnd now p s k = k [] (set_conn s c')" "timer_wf c'"
      "core c' = core ((conn s)\<lparr>sndUna := n, sndWnd := ucast (TcpWindowSize (TcpHeader p)), sendBuf := acked_buf (conn s) n\<rparr>)"
      "inflightQ c' = inflightQ (conn s)"
    using onAccepted_empty [OF up quiet_window [OF q] c(1-4) flags_fin(1) [OF p(3)] c(5) p(4), of rnd now] p(2) una by auto
  note g = core_fields [OF c'(3), simplified]
  let ?c2 = "c'\<lparr>recvBuf := AdvanceNxt (recvBuf c') (SeqNum (TcpHeader p)) True, expectedSeqNum := expectedSeqNum c' + 1\<rparr>"
  let ?t = "set_conn s ?c2"
  have "net_up E (RemoteAddr (endpoint (conn ?t)))" using up g by simp
  then have fin: "handleFin E p (set_conn s c') = ok (None, emit ?t (ack_segment E ?t))"
    by (simp add: handleFin_def Let_def sendAck_up)
  have run: "stateMachine E rnd now p s = ok (setState (emit ?t (ack_segment E ?t)) CLOSE_WAIT)"
    using c(6) c'(1) fin flags_fin(2) [OF p(3)] by (simp add: stateMachine_def stateFuncEstablished_def withText_def finToCloseWait_def)
  have r1: "unat (r + 1) = unat r + 1" using nx unat_plus_nat [of r 1] by simp
  have buf: "acked_buf (conn s) n = sendBuf (conn s)" using una by (simp add: acked_buf_def)
  show ?thesis
    using run q g c'(2,4) nx r1 una buf p(1)
    by (intro exI [of _ "setState (emit ?t (ack_segment E ?t)) CLOSE_WAIT"] exI [of _ "ack_segment E ?t"])
      (simp add: quiet_def carried_def timer_wf_def setState_def)
qed

lemma quiet_fin_acked:
  assumes up: "net_up E (RemoteAddr (endpoint (conn s)))" and q: "quiet FIN_WAIT_1 n r (conn s)" and una: "sndUna (conn s) < n"
    and p: "SeqNum (TcpHeader p) = r" "AckNum (TcpHeader p) = n" "Flags (TcpHeader p) = TCPFlagAck" "TPayload p = []"
    and room: "freespaceC (sendBuf (conn s)) + 1 < scapacity (sendBuf (conn s))"
    and flight: "\<forall>m \<in> set (inflightQ (conn s)). acked_by n m"
  shows "\<exists>s'. stateMachine E rnd now p s = ok s' \<and> quiet FIN_WAIT_2 n r (conn s') \<and> carried s s' \<and>
    outs s' = outs s \<and> spawned s' = spawned s \<and> sndUna (conn s') = n \<and> inflightQ (conn s') = []"
proof -
  have c: "earlyArrivalQ (conn s) = []" "timer_wf (conn s)" "freespaceC (sendBuf (conn s)) < scapacity (sendBuf (conn s))"
      "SeqNum (TcpHeader p) = expectedSeqNum (conn s)" "good_ack (conn s) (AckNum (TcpHeader p))" "state (conn s) = FIN_WAIT_1"
    using q una p by (simp_all add: quiet_def good_ack_def less_imp_le)
  obtain c' where c': "\<And>k. onAccepted E rnd now p s k = k [] (set_conn s c')" "timer_wf c'"
      "core c' = core ((conn s)\<lparr>sndUna := n, sndWnd := ucast (TcpWindowSize (TcpHeader p)), sendBuf := acked_buf (conn s) n\<rparr>)"
      "inflightQ c' = dropWhile (acked_by n) (inflightQ (conn s))"
    using onAccepted_empty [OF up quiet_window [OF q] c(1-4) flags_pure_ack(1) [OF p(3)] c(5) p(4), of rnd now] p(2) una by auto
  note g = core_fields [OF c'(3), simplified]
  have run: "stateMachine E rnd now p s = ok (setState (set_conn s c') FIN_WAIT_2)"
    using c(6) c'(1) g flags_pure_ack(2) [OF p(3)] p(2) q
    by (simp add: stateMachine_def stateFuncFinWait1_def Let_def withText_def quiet_def)
  have buf: "acked_buf (conn s) n = (sendBuf (conn s))\<lparr>freespaceC := freespaceC (sendBuf (conn s)) + 1\<rparr>"
    using una by (auto simp: acked_buf_def)
  have "inflightQ c' = []" using c'(4) flight by simp
  moreover have "unat (sndUna (conn s)) \<le> unat n" using una by (simp add: word_less_nat_alt)
  ultimately show ?thesis
    using run q g c'(2) buf room
    by (intro exI [of _ "setState (set_conn s c') FIN_WAIT_2"]) (simp add: quiet_def carried_def timer_wf_def setState_def)
qed

lemma quiet_time_wait:
  assumes up: "net_up E (RemoteAddr (endpoint (conn s)))" and q: "quiet FIN_WAIT_2 n r (conn s)" and una: "sndUna (conn s) = n"
    and p: "SeqNum (TcpHeader p) = r" "AckNum (TcpHeader p) = n" "Flags (TcpHeader p) = (TCPFlagFin OR TCPFlagAck)" "TPayload p = []"
    and flight: "inflightQ (conn s) = []"
  shows "\<exists>s' ack. stateMachine E rnd now p s = ok s' \<and> state (conn s') = TIME_WAIT \<and> carried s s' \<and>
    outs s' = outs s @ [ack] \<and> spawned s' = spawned s @ [TimeWaitTimer] \<and> inflightQ (conn s') = [] \<and>
    SeqNum (TcpHeader ack) = n \<and> AckNum (TcpHeader ack) = r + 1 \<and> Flags (TcpHeader ack) = TCPFlagAck \<and> TPayload ack = []"
proof -
  have c: "earlyArrivalQ (conn s) = []" "timer_wf (conn s)" "freespaceC (sendBuf (conn s)) < scapacity (sendBuf (conn s))"
      "SeqNum (TcpHeader p) = expectedSeqNum (conn s)" "good_ack (conn s) (AckNum (TcpHeader p))" "state (conn s) = FIN_WAIT_2"
    using q una p by (simp_all add: quiet_def good_ack_def)
  obtain c' where c': "\<And>k. onAccepted E rnd now p s k = k [] (set_conn s c')" "timer_wf c'"
      "core c' = core ((conn s)\<lparr>sndUna := n, sndWnd := ucast (TcpWindowSize (TcpHeader p)), sendBuf := acked_buf (conn s) n\<rparr>)"
      "inflightQ c' = []"
    using onAccepted_empty [OF up quiet_window [OF q] c(1-4) flags_fin(1) [OF p(3)] c(5) p(4), of rnd now] p(2) una flight by auto
  note g = core_fields [OF c'(3), simplified]
  let ?t = "set_conn s (c'\<lparr>expectedSeqNum := SeqNum (TcpHeader p) + 1\<rparr>)"
  have "net_up E (RemoteAddr (endpoint (conn ?t)))" using up g by simp
  note ack = sendAck_up [OF this]
  have run: "stateMachine E rnd now p s = ok (spawn (setState (emit ?t (ack_segment E ?t)) TIME_WAIT) TimeWaitTimer)"
    using c(6) c'(1,4) ack flags_fin(2) [OF p(3)] by (simp add: stateMachine_def stateFuncFinWait2_def Let_def withText_def)
  have buf: "acked_buf (conn s) n = sendBuf (conn s)" using una by (simp add: acked_buf_def)
  show ?thesis
    using run g q c'(4) p(1) buf una
    by (intro exI [of _ "spawn (setState (emit ?t (ack_segment E ?t)) TIME_WAIT) TimeWaitTimer"] exI [of _ "ack_segment E ?t"])
      (simp add: carried_def setState_def spawn_def quiet_def)
qed

lemma quiet_last_ack:
  assumes up: "net_up E (RemoteAddr (endpoint (conn s)))" and q: "quiet LAST_ACK n r (conn s)" and una: "sndUna (conn s) \<le> n"
    and p: "SeqNum (TcpHeader p) = r" "AckNum (TcpHeader p) = n" "Flags (TcpHeader p) = TCPFlagAck" "TPayload p = []"
    and mine: "entry s = Mine"
  shows "\<exists>s'. stateMachine E rnd now p s = ok s' \<and> state (conn s') = CLOSED \<and> entry s' = NoEntry \<and> outs s' = outs s"
proof -
  have c: "earlyArrivalQ (conn s) = []" "timer_wf (conn s)" "freespaceC (sendBuf (conn s)) < scapacity (sendBuf (conn s))"
      "SeqNum (TcpHeader p) = expectedSeqNum (conn s)" "good_ack (conn s) (AckNum (TcpHeader p))" "state (conn s) = LAST_ACK"
    using q una p by (simp_all add: quiet_def good_ack_def)
  obtain c' where c': "\<And>k. onAccepted E rnd now p s k = k [] (set_conn s c')"
      "core c' = core ((conn s)\<lparr>sndUna := n, sndWnd := ucast (TcpWindowSize (TcpHeader p)), sendBuf := acked_buf (conn s) n\<rparr>)"
    using onAccepted_empty [OF up quiet_window [OF q] c(1-4) flags_pure_ack(1) [OF p(3)] c(5) p(4), of rnd now] p(2) by auto
  have "sndNxt c' = AckNum (TcpHeader p)" using core_fields(5) [OF c'(2)] q p(2) by (simp add: quiet_def)
  then show ?thesis using c(6) c'(1) mine by (simp add: stateMachine_def stateFuncLastAck_def deleteSocket_def setState_def)
qed

text \<open>An end of a connection on which everything is sent and acknowledged.\<close>

lemma linked_quiet:
  assumes l: "linked (a, b)" "linked (b, a)" and k: "kept (conn a) = 0"
    and room: "unat (lbw (sendBuf (conn b))) + 65536 < 2 ^ 32"
  shows "quiet ESTABLISHED (sndNxt (conn a)) (sndNxt (conn b)) (conn a)" and "sndUna (conn a) = sndNxt (conn a)"
    and "lbw (sendBuf (conn a)) = sndNxt (conn a)" and "inflightQ (conn a) = []"
    and "unat (sndNxt (conn b)) + 1 + unat (windowSize (conn a)) < 2 ^ 32"
proof -
  have a: "snd_side (conn a)" "rcv_side (conn a)" "expectedSeqNum (conn a) = sndNxt (conn b)"
    using l by (simp_all add: linked_def)
  have s: "sb_wf (conn a)" "sndNxt (conn a) = sndUna (conn a)" "inflightQ (conn a) = []" "earlyArrivalQ (conn a) = []" "timer_wf (conn a)"
    using a(1) by (simp_all add: snd_side_def)
  show "sndUna (conn a) = sndNxt (conn a)" "inflightQ (conn a) = []" using s by simp_all
  show "lbw (sendBuf (conn a)) = sndNxt (conn a)"
    using sb_wf_order [OF s(1)] k s(2) by (simp add: kept_def word_unat_eq_iff)
  have w: "unat (windowSize (conn a)) \<le> 65535" using a(2) rcv_ok_window(2) by (simp add: rcv_side_def)
  have "unat (sndNxt (conn b)) \<le> unat (lbw (sendBuf (conn b)))"
    using l(2) sb_wf_order(3) [of "conn b"] by (simp add: linked_def snd_side_def)
  then show n: "unat (sndNxt (conn b)) + 1 + unat (windowSize (conn a)) < 2 ^ 32" using w room by linarith
  then show "quiet ESTABLISHED (sndNxt (conn a)) (sndNxt (conn b)) (conn a)"
    using a s w by (simp add: quiet_def rcv_side_def)
qed

section \<open>The two halves of a close\<close>

text \<open>The first half of a close: the FIN of one end and its acknowledgement.\<close>

lemma active_close:
  assumes up: "net_up E (RemoteAddr (endpoint (conn a)))" "net_up E (RemoteAddr (endpoint (conn b)))"
    and a: "quiet ESTABLISHED m n (conn a)" "sndUna (conn a) = m" "lbw (sendBuf (conn a)) = m" "inflightQ (conn a) = []"
      "freespaceC (sendBuf (conn a)) + 1 < scapacity (sendBuf (conn a))"
    and b: "quiet ESTABLISHED n m (conn b)" "sndUna (conn b) = n" "unat m + 1 + unat (windowSize (conn b)) < 2 ^ 32"
  shows "\<exists>fin ack a1 b1 a2. VClose E now a = ok (None, a1) \<and> outs a1 = outs a @ [fin] \<and> state (conn a1) = FIN_WAIT_1 \<and>
    stateMachine E rnd now fin b = ok b1 \<and> outs b1 = outs b @ [ack] \<and> quiet CLOSE_WAIT n (m + 1) (conn b1) \<and> carried b b1 \<and>
    sndUna (conn b1) = n \<and> stateMachine E rnd now ack a1 = ok a2 \<and> outs a2 = outs a1 \<and> quiet FIN_WAIT_2 (m + 1) n (conn a2) \<and>
    carried a a2 \<and> sndUna (conn a2) = m + 1 \<and> inflightQ (conn a2) = []"
proof -
  obtain a1 fin where a1: "VClose E now a = ok (None, a1)" "quiet FIN_WAIT_1 (m + 1) n (conn a1)" "carried a a1"
      "outs a1 = outs a @ [fin]" "sndUna (conn a1) = m" "freespaceC (sendBuf (conn a1)) = freespaceC (sendBuf (conn a))"
      "inflightQ (conn a1) = [\<lparr>timeSent = now, plength = 0, counter = 0, packet = fin\<rparr>]"
    and f: "SeqNum (TcpHeader fin) = m" "AckNum (TcpHeader fin) = n" "Flags (TcpHeader fin) = (TCPFlagFin OR TCPFlagAck)" "TPayload fin = []"
    using quiet_close [OF up(1) a(1) disjI1 [OF refl] a(3), of now] a(2,4) by (auto simp: close_to_def)
  obtain b1 ack where b1: "stateMachine E rnd now fin b = ok b1" "quiet CLOSE_WAIT n (m + 1) (conn b1)" "carried b b1"
      "outs b1 = outs b @ [ack]" "sndUna (conn b1) = n"
    and k: "SeqNum (TcpHeader ack) = n" "AckNum (TcpHeader ack) = m + 1" "Flags (TcpHeader ack) = TCPFlagAck" "TPayload ack = []"
    using quiet_passive_fin [OF up(2) b(1,2) f b(3), of rnd now] by blast
  have "unat m + 1 < 2 ^ 32" using b(3) by linarith
  then have lt: "m < m + 1" using unat_plus_nat [of m 1] by (simp add: word_less_nat_alt)
  have "net_up E (RemoteAddr (endpoint (conn a1)))" using up(1) a1(3) by (simp add: carried_def)
  moreover have "freespaceC (sendBuf (conn a1)) + 1 < scapacity (sendBuf (conn a1))" using a(5) a1(3,6) by (simp add: carried_def)
  moreover have "\<forall>x \<in> set (inflightQ (conn a1)). acked_by (m + 1) x" using a1(7) f(1) lt by (simp add: acked_by_def less_imp_le)
  moreover have "sndUna (conn a1) < m + 1" using a1(5) lt by simp
  ultimately obtain a2 where a2: "stateMachine E rnd now ack a1 = ok a2" "quiet FIN_WAIT_2 (m + 1) n (conn a2)" "carried a1 a2"
      "outs a2 = outs a1" "sndUna (conn a2) = m + 1" "inflightQ (conn a2) = []"
    using quiet_fin_acked [OF _ a1(2) _ k, of E rnd now] by blast
  have "carried a a2" using a1(3) a2(3) by (auto simp: carried_def)
  moreover have "state (conn a1) = FIN_WAIT_1" using a1(2) by (simp add: quiet_def)
  ultimately show ?thesis using a1(1,4) b1 a2 by blast
qed

text \<open>The second half: the other end's FIN, its acknowledgement and the timer.\<close>

lemma passive_close:
  assumes up: "net_up E (RemoteAddr (endpoint (conn a)))" "net_up E (RemoteAddr (endpoint (conn b)))"
    and b: "quiet CLOSE_WAIT n m (conn b)" "sndUna (conn b) = n" "lbw (sendBuf (conn b)) = n" "entry b = Mine" "unat n + 1 < 2 ^ 32"
    and a: "quiet FIN_WAIT_2 m n (conn a)" "sndUna (conn a) = m" "inflightQ (conn a) = []" "entry a = Mine"
  shows "\<exists>fin ack b1 a1 b2 a2. VClose E now b = ok (None, b1) \<and> outs b1 = outs b @ [fin] \<and> state (conn b1) = LAST_ACK \<and>
    stateMachine E rnd now fin a = ok a1 \<and> outs a1 = outs a @ [ack] \<and> state (conn a1) = TIME_WAIT \<and>
    TimeWaitTimer \<in> set (spawned a1) \<and> inflightQ (conn a1) = [] \<and>
    stateMachine E rnd now ack b1 = ok b2 \<and> state (conn b2) = CLOSED \<and> entry b2 = NoEntry \<and>
    timeWaitExpires a1 = ok a2 \<and> state (conn a2) = CLOSED \<and> entry a2 = NoEntry"
proof -
  have lt: "n < n + 1" using b(5) unat_plus_nat [of n 1] by (simp add: word_less_nat_alt)
  obtain b1 fin where b1: "VClose E now b = ok (None, b1)" "quiet LAST_ACK (n + 1) m (conn b1)" "carried b b1"
      "outs b1 = outs b @ [fin]" "sndUna (conn b1) = n"
    and f: "SeqNum (TcpHeader fin) = n" "AckNum (TcpHeader fin) = m" "Flags (TcpHeader fin) = (TCPFlagFin OR TCPFlagAck)" "TPayload fin = []"
    using quiet_close [OF up(2) b(1) disjI2 [OF refl] b(3), of now] b(2) by (auto simp: close_to_def)
  obtain a1 ack where a1: "stateMachine E rnd now fin a = ok a1" "state (conn a1) = TIME_WAIT" "carried a a1"
      "outs a1 = outs a @ [ack]" "spawned a1 = spawned a @ [TimeWaitTimer]" "inflightQ (conn a1) = []"
    and k: "SeqNum (TcpHeader ack) = m" "AckNum (TcpHeader ack) = n + 1" "Flags (TcpHeader ack) = TCPFlagAck" "TPayload ack = []"
    using quiet_time_wait [OF up(1) a(1,2) f a(3), of rnd now] by blast
  have "net_up E (RemoteAddr (endpoint (conn b1)))" "entry b1 = Mine" using up(2) b(4) b1(3) by (simp_all add: carried_def)
  moreover have "sndUna (conn b1) \<le> n + 1" using b1(5) lt by (simp add: less_imp_le)
  ultimately obtain b2 where b2: "stateMachine E rnd now ack b1 = ok b2" "state (conn b2) = CLOSED" "entry b2 = NoEntry"
    using quiet_last_ack [OF _ b1(2) _ k, of E rnd now] by blast
  have "entry a1 = Mine" using a(4) a1(3) by (simp add: carried_def)
  then obtain a2 where a2: "timeWaitExpires a1 = ok a2" "state (conn a2) = CLOSED" "entry a2 = NoEntry"
    by (simp add: timeWaitExpires_def deleteSocket_def setState_def)
  have "state (conn b1) = LAST_ACK" "TimeWaitTimer \<in> set (spawned a1)" using b1(2) a1(5) by (simp_all add: quiet_def)
  then show ?thesis using b1(1,4) a1(1,2,4,6) b2 a2 by blast
qed

section \<open>The sending loop after the FIN\<close>

text \<open>\<^verbatim>\<open>bytesNotSent\<close> on any sequence numbers: it takes whatever is in the array.\<close>

lemma bytesNotSent_any:
  assumes n: "n = min m (min (unat (numBytesNotSent c)) (unat (usableSendWindow c)))" "0 < n"
    and cap: "n \<le> scapacity (sendBuf c)" "length (sbuf (sendBuf c)) = scapacity (sendBuf c)"
  shows "bytesNotSent c m = ok (n, ring (sbuf (sendBuf c)) (unat (sndNxt c - biss (sendBuf c)) mod scapacity (sendBuf c)) n)"
proof -
  let ?b = "sendBuf c" and ?L = "scapacity (sendBuf c)"
  let ?i = "unat (sndNxt c - biss ?b) mod ?L"
  have L: "0 < ?L" using n cap by linarith
  have idx: "sindex ?b (sndNxt c) = ok ?i" using L by (simp add: sindex_def)
  have "?i < ?L" using L by simp
  from copy_out [OF cap(2) this n(2) cap(1), of "replicate n 0"]
  have copied: "(if ?i + n \<le> ?L
          then bindG (go_slice (sbuf ?b) ?i (?i + n)) (\<lambda>src. go_copy (replicate n 0) 0 (length (replicate n (0 :: u8))) src)
          else bindG (go_slice (sbuf ?b) ?i (length (sbuf ?b))) (\<lambda>src.
               bindG (go_copy (replicate n 0) 0 (?L - ?i) src) (\<lambda>r1.
               bindG (go_slice (sbuf ?b) 0 (n - (?L - ?i))) (\<lambda>src2.
               go_copy r1 (?L - ?i) (length r1) src2)))) = ok (ring (sbuf ?b) ?i n)"
    by simp
  have nz: "(n = 0) = False" using n(2) by simp
  show ?thesis
    unfolding bytesNotSent_def Let_def n(1) [symmetric]
    by (simp only: idx bindG_ok copied nz if_False)
qed

text \<open>With the FIN sent and nothing else, \<^verbatim>\<open>SND.NXT\<close> is one beyond the last byte: the count of unsent bytes wraps around.\<close>

lemma unsent_beyond_last:
  assumes nxt: "sndNxt c = sndUna c + 1" "lbw (sendBuf c) = sndUna c"
    and w: "1 < unat (sndWnd c)" "unat (sndUna c) + unat (sndWnd c) < 2 ^ 32"
  shows "numBytesNotSent c = -1" and "min m (min (unat (numBytesNotSent c)) (unat (usableSendWindow c))) = min m (unat (sndWnd c) - 1)"
proof -
  show all: "numBytesNotSent c = -1" using nxt by (simp add: numBytesNotSent_def)
  have n: "unat (sndNxt c) = unat (sndUna c) + 1" using nxt(1) w unat_plus_nat [of "sndUna c" 1] by simp
  have edge: "unat (sndUna c + sndWnd c) = unat (sndUna c) + unat (sndWnd c)" using unat_plus_wnd [OF w(2)] .
  then have "sndUna c + sndWnd c > sndNxt c" using n w(1) by (simp add: word_less_nat_alt)
  then have usable: "unat (usableSendWindow c) = unat (sndWnd c) - 1" using edge n by (simp add: usableSendWindow_def unat_minus)
  have "unat (numBytesNotSent c) = 2 ^ 32 - 1" by (simp add: all unsigned_minus_1_eq_mask mask_eq_exp_minus_1)
  moreover have "unat (sndWnd c) - 1 \<le> 2 ^ 32 - 1" using unat_less_2_32 [of "sndWnd c"] by (simp del: unat_less_2_32)
  ultimately show "min m (min (unat (numBytesNotSent c)) (unat (usableSendWindow c))) = min m (unat (sndWnd c) - 1)"
    unfolding usable by (simp only: min_absorb2)
qed

text \<open>A turn of the sending loop there sends whatever the array holds.\<close>

lemma turn_beyond_last:
  assumes up: "net_up E (RemoteAddr (endpoint (conn s)))" and wf: "timer_wf (conn s)"
    and nxt: "sndNxt (conn s) = sndUna (conn s) + 1" "lbw (sendBuf (conn s)) = sndUna (conn s)"
    and w: "1 < unat (sndWnd (conn s))" "unat (sndUna (conn s)) + unat (sndWnd (conn s)) < 2 ^ 32"
    and cap: "1360 \<le> scapacity (sendBuf (conn s))" "length (sbuf (sendBuf (conn s))) = scapacity (sendBuf (conn s))"
  shows "\<exists>s' p. sendBufferedData_turn E now s = ok (Again s') \<and> outs s' = outs s @ [p] \<and> SeqNum (TcpHeader p) = sndNxt (conn s) \<and>
    length (TPayload p) = min 1360 (unat (sndWnd (conn s)) - 1)"
proof -
  let ?c = "conn s" and ?n = "min 1360 (unat (sndWnd (conn s)) - 1)"
  let ?c1 = "?c\<lparr>sendBuf := (sendBuf ?c)\<lparr>hasUnsentC := 0\<rparr>\<rparr>"
  have c1: "sndNxt ?c1 = sndUna ?c1 + 1" "lbw (sendBuf ?c1) = sndUna ?c1" "1 < unat (sndWnd ?c1)" "unat (sndUna ?c1) + unat (sndWnd ?c1) < 2 ^ 32"
    using nxt w by simp_all
  have n: "?n = min MSS (min (unat (numBytesNotSent ?c1)) (unat (usableSendWindow ?c1)))"
    unfolding unsent_beyond_last(2) [OF c1] MSS_value by simp
  have "0 < ?n" "?n \<le> scapacity (sendBuf ?c1)" "length (sbuf (sendBuf ?c1)) = scapacity (sendBuf ?c1)" using w cap by simp_all
  note taken = bytesNotSent_any [OF n this]
  let ?d = "ring (sbuf (sendBuf ?c1)) (unat (sndNxt ?c1 - biss (sendBuf ?c1)) mod scapacity (sendBuf ?c1)) ?n"
  let ?t = "set_conn s ?c1"
  let ?p = "newPacket ?t (sndNxt ?c1) (expectedSeqNum ?c1) TCPFlagAck ?d"
  have "net_up E (RemoteAddr (endpoint (conn ?t)))" "timer_wf (conn ?t)" using up wf by (simp_all add: timer_wf_def)
  then obtain c2 where c2: "send_timed E ?t ?p = ok (True, sealed E ?t ?p, set_conn (emit ?t (sealed E ?t ?p)) c2)"
    using send_timed_wf by blast
  have wnz: "sndWnd ?c \<noteq> 0" using w(1) by auto
  have nz: "(min 1360 (unat (sndWnd ?c) - Suc 0) = 0) = False" using w(1) by (simp add: min_def)
  have "\<exists>s'. sendBufferedData_turn E now s = ok (Again s') \<and> outs s' = outs s @ [sealed E ?t ?p]"
    using unsent_beyond_last(1) [OF nxt w] wnz taken c2 by (simp add: sendBufferedData_turn_def Let_def nz)
  moreover have "SeqNum (TcpHeader (sealed E ?t ?p)) = sndNxt ?c" "length (TPayload (sealed E ?t ?p)) = ?n" by (simp_all add: newPacket_def)
  ultimately show ?thesis by blast
qed

section \<open>Properties\<close>

text \<open>
  C23. The orderly close of an idle connection. One user's close sends a FIN, which takes the other end to
  CLOSE_WAIT and is acknowledged; that end's close sends the second FIN, which takes the first end to
  TIME_WAIT, where its timer starts, and is acknowledged; the acknowledgement closes the second end,
  and the timer the first. Both sockets leave the table, and nothing is left to retransmit.
\<close>

theorem orderly_close:
  assumes "linked (a, b)" and "linked (b, a)" and "links_up E (a, b)" and "entry a = Mine" and "entry b = Mine"
    and "kept (conn a) = 0" and "kept (conn b) = 0"
    and "freespaceC (sendBuf (conn a)) + 1 < scapacity (sendBuf (conn a))"
    and "unat (lbw (sendBuf (conn a))) + 65537 < 2 ^ 32" and "unat (lbw (sendBuf (conn b))) + 65537 < 2 ^ 32"
  shows "\<exists>fin1 ack1 fin2 ack2 a1 b1 a2 b2 a3 b3 a4.
    VClose E now a = ok (None, a1) \<and> outs a1 = outs a @ [fin1] \<and> state (conn a1) = FIN_WAIT_1 \<and>
    stateMachine E rnd now fin1 b = ok b1 \<and> outs b1 = outs b @ [ack1] \<and> state (conn b1) = CLOSE_WAIT \<and>
    stateMachine E rnd now ack1 a1 = ok a2 \<and> outs a2 = outs a1 \<and> state (conn a2) = FIN_WAIT_2 \<and>
    VClose E now b1 = ok (None, b2) \<and> outs b2 = outs b1 @ [fin2] \<and> state (conn b2) = LAST_ACK \<and>
    stateMachine E rnd now fin2 a2 = ok a3 \<and> outs a3 = outs a2 @ [ack2] \<and> state (conn a3) = TIME_WAIT \<and>
    TimeWaitTimer \<in> set (spawned a3) \<and> inflightQ (conn a3) = [] \<and>
    stateMachine E rnd now ack2 b2 = ok b3 \<and> state (conn b3) = CLOSED \<and> entry b3 = NoEntry \<and>
    timeWaitExpires a3 = ok a4 \<and> state (conn a4) = CLOSED \<and> entry a4 = NoEntry"
proof -
  let ?m = "sndNxt (conn a)" and ?n = "sndNxt (conn b)"
  have up: "net_up E (RemoteAddr (endpoint (conn a)))" "net_up E (RemoteAddr (endpoint (conn b)))"
    using assms(3) by (simp_all add: links_up_def)
  have room: "unat (lbw (sendBuf (conn a))) + 65536 < 2 ^ 32" "unat (lbw (sendBuf (conn b))) + 65536 < 2 ^ 32"
    using assms(9,10) by simp_all
  note A = linked_quiet [OF assms(1,2,6) room(2)] and B = linked_quiet [OF assms(2,1,7) room(1)]
  obtain fin1 ack1 a1 b1 a2 where h1: "VClose E now a = ok (None, a1)" "outs a1 = outs a @ [fin1]" "state (conn a1) = FIN_WAIT_1"
      "stateMachine E rnd now fin1 b = ok b1" "outs b1 = outs b @ [ack1]" "stateMachine E rnd now ack1 a1 = ok a2" "outs a2 = outs a1"
    and b1: "quiet CLOSE_WAIT ?n (?m + 1) (conn b1)" "carried b b1" "sndUna (conn b1) = ?n"
    and a2: "quiet FIN_WAIT_2 (?m + 1) ?n (conn a2)" "carried a a2" "sndUna (conn a2) = ?m + 1" "inflightQ (conn a2) = []"
    using active_close [OF up A(1-4) assms(8) B(1,2,5), of now rnd] by blast
  have up2: "net_up E (RemoteAddr (endpoint (conn a2)))" "net_up E (RemoteAddr (endpoint (conn b1)))"
    and own: "entry a2 = Mine" "entry b1 = Mine" "lbw (sendBuf (conn b1)) = ?n"
    using up assms(4,5) a2(2) b1(2) B(3) by (simp_all add: carried_def)
  have small: "unat ?n + 1 < 2 ^ 32" using B(3) room by simp
  have st: "state (conn b1) = CLOSE_WAIT" "state (conn a2) = FIN_WAIT_2" using b1(1) a2(1) by (simp_all add: quiet_def)
  from passive_close [OF up2 b1(1,3) own(3,2) small a2(1,3,4) own(1), of now rnd]
  show ?thesis using h1 st by (elim exE conjE) (intro exI conjI; assumption)
qed

text \<open>Two ends of a connection that was opened and not yet used.\<close>

definition idle_pair :: "tcb \<times> tcb" where
  "idle_pair =
     (opened ((NewSocket 0 0x20000 ESTABLISHED (endpoint (demo_sender 8)) 0x30000)
        \<lparr>sndNxt := 0x20001, sndUna := 0x20001, sndWnd := 0xffff\<rparr>),
      opened ((NewSocket 0 0x30000 ESTABLISHED (endpoint (demo_sender 8)) 0x20000)
        \<lparr>sndNxt := 0x30001, sndUna := 0x30001, sndWnd := 0xffff\<rparr>))"

lemma idle_linked: "linked idle_pair" "linked (snd idle_pair, fst idle_pair)"
    "kept (conn (fst idle_pair)) = 0" "kept (conn (snd idle_pair)) = 0"
proof -
  let ?a = "conn (fst idle_pair)" and ?b = "conn (snd idle_pair)"
  have a: "snd_side ?a" "kept ?a = 0" by (rule fresh_snd_side [where i = "0x20000"]; simp add: idle_pair_def)+
  have b: "snd_side ?b" "kept ?b = 0" by (rule fresh_snd_side [where i = "0x30000"]; simp add: idle_pair_def)+
  show "kept ?a = 0" "kept ?b = 0" by (rule a b)+
  have "rcv_ok ?a" by (rule fresh_rcv_ok [where r = "0x30000"]) (simp_all add: idle_pair_def)
  then have ra: "rcv_side ?a" using a by (simp add: snd_side_def rcv_side_def) (simp add: idle_pair_def newSendBuf_def BUFFER_CAPACITY_def)
  have "rcv_ok ?b" by (rule fresh_rcv_ok [where r = "0x20000"]) (simp_all add: idle_pair_def)
  then have rb: "rcv_side ?b" using b by (simp add: snd_side_def rcv_side_def) (simp add: idle_pair_def newSendBuf_def BUFFER_CAPACITY_def)
  show "linked idle_pair" "linked (snd idle_pair, fst idle_pair)"
    using a b ra rb by (simp_all add: linked_def split_beta) (simp_all add: idle_pair_def newSendBuf_def fresh_recvBuf)
qed

lemma orderly_close_witness:
  "\<exists>fin1 a1 b1. VClose demo_env 0 (fst idle_pair) = ok (None, a1) \<and> outs a1 = [fin1] \<and> state (conn a1) = FIN_WAIT_1 \<and>
     stateMachine demo_env (\<lambda>x. x) 0 fin1 (snd idle_pair) = ok b1 \<and> state (conn b1) = CLOSE_WAIT"
proof -
  have "links_up demo_env idle_pair" by (simp add: links_up_def demo_net_up)
  moreover have "entry (fst idle_pair) = Mine" "entry (snd idle_pair) = Mine" "outs (fst idle_pair) = []"
      "freespaceC (sendBuf (conn (fst idle_pair))) + 1 < scapacity (sendBuf (conn (fst idle_pair)))"
      "unat (lbw (sendBuf (conn (fst idle_pair)))) + 65537 < 2 ^ 32" "unat (lbw (sendBuf (conn (snd idle_pair)))) + 65537 < 2 ^ 32"
    by (simp_all add: idle_pair_def newSendBuf_def BUFFER_CAPACITY_def)
  ultimately show ?thesis
    using orderly_close [of "fst idle_pair" "snd idle_pair" demo_env 0 "\<lambda>x. x"] idle_linked by auto
qed


text \<open>
  After a close, \<^verbatim>\<open>SND.NXT\<close> is beyond the end of what was written, and the difference the sending
  loop takes for the number of unsent bytes wraps around to \<open>2 ^ 32 - 1\<close>. A turn of the loop that comes
  after the close sends up to a whole segment of stale bytes of the buffer, numbered behind the
  FIN.
\<close>

theorem stale_data_after_fin:
  assumes up: "net_up E (RemoteAddr (endpoint (conn s)))" and side: "snd_side (conn s)"
    and all: "lbw (sendBuf (conn s)) = sndNxt (conn s)" and cap: "1360 \<le> scapacity (sendBuf (conn s))"
    and w: "1 < unat (sndWnd (conn s))" "unat (sndUna (conn s)) + unat (sndWnd (conn s)) < 2 ^ 32"
  shows "\<exists>fin junk s1 s2. VClose E now s = ok (None, s1) \<and> outs s1 = outs s @ [fin] \<and> state (conn s1) = FIN_WAIT_1 \<and>
    sendBufferedData_turn E now s1 = ok (Again s2) \<and> outs s2 = outs s1 @ [junk] \<and>
    SeqNum (TcpHeader fin) = sndNxt (conn s) \<and> IsFin fin \<and> SeqNum (TcpHeader junk) = SeqNum (TcpHeader fin) + 1 \<and>
    length (TPayload junk) = min 1360 (unat (sndWnd (conn s)) - 1)"
proof -
  let ?c = "conn s"
  have side': "state ?c = ESTABLISHED" "sb_wf ?c" "timer_wf ?c" "sndNxt ?c = sndUna ?c" using side by (simp_all add: snd_side_def)
  obtain fin c' where close: "VClose E now s = ok (None, set_conn (emit s fin) c')" "timer_wf c'"
      "core c' = core (?c\<lparr>sndNxt := sndNxt ?c + 1, state := FIN_WAIT_1\<rparr>)"
      "SeqNum (TcpHeader fin) = sndNxt ?c" "Flags (TcpHeader fin) = (TCPFlagFin OR TCPFlagAck)"
    using close_sends_fin [OF up side'(3) disjI1 [OF side'(1)] all, of now, unfolded close_to_def side'(1) if_P [OF refl]] by blast
  note f = core_fields [OF close(3), simplified]
  have "length (sbuf (sendBuf ?c)) = scapacity (sendBuf ?c)" using side'(2) by (simp add: sb_wf_def)
  then obtain s2 junk where "sendBufferedData_turn E now (set_conn (emit s fin) c') = ok (Again s2)"
      "outs s2 = outs (set_conn (emit s fin) c') @ [junk]" "SeqNum (TcpHeader junk) = sndNxt ?c + 1"
      "length (TPayload junk) = min 1360 (unat (sndWnd ?c) - 1)"
    using turn_beyond_last [of E "set_conn (emit s fin) c'" now] up close(2) f side'(4) all w cap by auto
  moreover have "IsFin fin" using close(5) by (simp add: IsFin_def TCPFlagFin_def TCPFlagAck_def)
  ultimately show ?thesis using close f
    by (intro exI [of _ fin] exI [of _ junk]) (rule exI [of _ "set_conn (emit s fin) c'"], rule exI [of _ s2], simp)
qed


lemma stale_data_after_fin_witness:
  "\<exists>fin junk s1 s2. VClose demo_env 0 (opened ((NewSocket 1 0x20000 ESTABLISHED (endpoint (demo_sender 8)) 5)
        \<lparr>sndNxt := 0x20001, sndUna := 0x20001, sndWnd := 100\<rparr>)) = ok (None, s1) \<and> outs s1 = [fin] \<and>
     sendBufferedData_turn demo_env 0 s1 = ok (Again s2) \<and> outs s2 = [fin, junk] \<and> length (TPayload junk) = 99"
proof -
  let ?c = "(NewSocket 1 0x20000 ESTABLISHED (endpoint (demo_sender 8)) 5)\<lparr>sndNxt := 0x20001, sndUna := 0x20001, sndWnd := 100\<rparr>"
  have "snd_side ?c" by (rule fresh_snd_side [where i = "0x20000"]) simp_all
  then show ?thesis
    using stale_data_after_fin [of demo_env "opened ?c" 0] by (fastforce simp: demo_net_up newSendBuf_def BUFFER_CAPACITY_def)
qed

text \<open>
  A FIN that arrives together with text. The text is written, counted in \<^verbatim>\<open>RCV.NXT\<close> and acknowledged;
  then the buffer's \<^verbatim>\<open>nxt\<close> is set from the segment's first sequence number instead of from its last.
  Of the text only the first byte is left for the application; the others were acknowledged and are
  lost.
\<close>

theorem fin_with_text_loses_bytes:
  assumes "net_up E (RemoteAddr (endpoint (conn s)))" and "state (conn s) = ESTABLISHED"
    and "rcv_ok (conn s)" and "unat (expectedSeqNum (conn s)) + free (recvBuf (conn s)) < 2 ^ 32"
    and "earlyArrivalQ (conn s) = []" and "timer_wf (conn s)"
    and "freespaceC (sendBuf (conn s)) < scapacity (sendBuf (conn s))"
    and "SeqNum (TcpHeader p) = expectedSeqNum (conn s)" and "IsAck p" and "good_ack (conn s) (AckNum (TcpHeader p))"
    and "TPayload p \<noteq> []" and "length (TPayload p) \<le> free (recvBuf (conn s))"
    and "length (TPayload p) < rb_limit (recvBuf (conn s))" and "IsFin p"
  shows "\<exists>s' q1 q2. stateMachine E rnd now p s = ok s' \<and> state (conn s') = CLOSE_WAIT \<and>
    outs s' = outs s @ [q1, q2] \<and>
    AckNum (TcpHeader q2) = expectedSeqNum (conn s) + of_nat (length (TPayload p)) + 1 \<and>
    contents (recvBuf (conn s')) = contents (recvBuf (conn s)) @ take 1 (TPayload p)"
proof -
  let ?d = "TPayload p"
  have w: "window_ok (conn s)" using assms(3,4) by (rule rcv_ok_window_ok)
  have "length ?d \<le> unat (windowSize (conn s))" using assms(12) rcv_ok_window(1) [OF assms(3)] by simp
  note h1 = handleSeqNum_next [OF assms(1) w assms(5,8) this]
  obtain c' where c': "handleAck E rnd now p s = ok (None, set_conn s c')" and core:
      "core c' = core ((conn s)\<lparr>sndUna := AckNum (TcpHeader p), sndWnd := ucast (TcpWindowSize (TcpHeader p)),
         sendBuf := acked_buf (conn s) (AckNum (TcpHeader p))\<rparr>)"
    using handleAck_good [OF assms(1,6,7,10), of rnd now] by blast
  note f = core_fields [OF core, simplified]
  have rcv: "rcv_ok (conn (set_conn s c'))" using rcv_ok_core [OF core] assms(3) by (simp add: rcv_ok_ack)
  let ?t = "set_conn s (take_text ?d c')"
  let ?u = "emit ?t (ack_segment E ?t)"
  have h2: "handleSegText E ?d (set_conn s c') = ok (None, ?u)"
    and got: "contents (recvBuf (take_text ?d c')) = contents (recvBuf (conn s)) @ ?d"
    using handleSegText_room(1,3) [OF rcv, of E ?d] assms(1,11,12,13) f by (simp_all add: set_conn_def)
  let ?c2 = "(take_text ?d c')\<lparr>recvBuf := AdvanceNxt (recvBuf (take_text ?d c')) (SeqNum (TcpHeader p)) True,
      expectedSeqNum := expectedSeqNum (take_text ?d c') + 1\<rparr>"
  let ?v = "set_conn ?u ?c2"
  have "net_up E (RemoteAddr (endpoint (conn ?v)))" using assms(1) f by simp
  then have h3: "handleFin E p ?u = ok (None, emit ?v (ack_segment E ?v))"
    by (simp add: handleFin_def Let_def sendAck_up)
  have run: "stateMachine E rnd now p s = ok (setState (emit ?v (ack_segment E ?v)) CLOSE_WAIT)"
    using assms(2,9,11,14) h1 c' h2 h3
    by (simp add: stateMachine_def stateFuncEstablished_def onAccepted_def withText_def finToCloseWait_def)
  have "contents (recvBuf ?c2) = contents (recvBuf (conn s)) @ take 1 ?d"
  proof -
    let ?b = "recvBuf (conn s)" and ?b1 = "recvBuf (take_text ?d c')"
    have b: "rb_wf ?b" "nxt ?b = expectedSeqNum (conn s)" using assms(3) by (simp_all add: rcv_ok_def)
    have lbr: "lbr ?b1 = lbr ?b" using f by (simp add: take_text_def after_write_def)
    have order: "unat (lbr ?b) + unread ?b = unat (nxt ?b - 1)" using b(1) by (auto simp: rb_wf_def unread_def)
    have len: "unread ?b1 = unread ?b + length ?d" using arg_cong [OF got, of length] by simp
    have "1 \<le> length ?d" using assms(11) by (cases ?d) auto
    then have small: "unat (nxt ?b - 1) + 1 < 2 ^ 32" using assms(13) by (simp add: rb_limit_def)
    have "unat ((nxt ?b - 1) + of_nat 1) = unat (nxt ?b - 1) + 1" using small by (rule unat_plus_nat)
    then have "unat (nxt ?b) = unat (nxt ?b - 1) + 1" by simp
    then have un: "unread (recvBuf ?c2) = unread ?b + 1"
      using order lbr assms(8) b(2) by (simp add: unread_def AdvanceNxt_def)
    have "contents (recvBuf ?c2) = ring (buff ?b1) (unat (lbr ?b1)) (unread ?b + 1)"
      unfolding contents_def un by (simp add: AdvanceNxt_def)
    also have "\<dots> = take (unread ?b + 1) (contents ?b1)"
      using len \<open>1 \<le> length ?d\<close> by (simp add: contents_def take_ring)
    also have "\<dots> = contents ?b @ take 1 ?d" unfolding got by simp
    finally show ?thesis .
  qed
  then show ?thesis using run f
    by (intro exI [of _ "setState (emit ?v (ack_segment E ?v)) CLOSE_WAIT"] exI [of _ "ack_segment E ?t"] exI [of _ "ack_segment E ?v"])
      (simp add: setState_def)
qed

lemma fin_with_text_loses_bytes_witness:
  "\<exists>s'. stateMachine demo_env (\<lambda>x. x) 0 (NewTCPacket 20000 80 0x20001 0x30001 17 [5, 6, 7] 9) (snd demo_pair) = ok s' \<and>
     contents (recvBuf (conn s')) = [5]"
proof -
  let ?s = "snd demo_pair" and ?p = "NewTCPacket 20000 80 0x20001 0x30001 17 [5, 6, 7] 9"
  have c: "expectedSeqNum (conn ?s) = 0x20001" "state (conn ?s) = ESTABLISHED" "earlyArrivalQ (conn ?s) = []" "timer_wf (conn ?s)"
      "freespaceC (sendBuf (conn ?s)) < scapacity (sendBuf (conn ?s))" "good_ack (conn ?s) 0x30001"
      "rb_limit (recvBuf (conn ?s)) = 4294836224"
    by (simp_all add: demo_pair_def demo_tcb_def newSendBuf_def timer_wf_def BUFFER_CAPACITY_def good_ack_def
        rb_limit_def NewRecvBuf_def)
  have flags: "IsAck ?p" "IsFin ?p" by (simp_all add: IsAck_def IsFin_def TCPFlagAck_def TCPFlagFin_def)
  show ?thesis
    using fin_with_text_loses_bytes [of demo_env ?s ?p "\<lambda>x. x" 0] c demo_rcv_ok flags by (simp add: demo_net_up) blast
qed

end
