(* ===== verification/Socket_Table.thy ===== *)
theory Socket_Table imports Prelude begin

text \<open>
  The contract of a table of sockets: a finite map in which a key is bound, looked up and removed,
  where removing a key may fail. The table of listeners and the table of connections of
  \<open>Tcp_Stack\<close> both provide it; what their clients rely on is proved here once.
\<close>

datatype ('k, 'v) table_op = Bind 'k 'v | Remove 'k

text \<open>What a sequence of operations does to the map.\<close>

fun table_effect :: "('k, 'v) table_op list \<Rightarrow> ('k \<rightharpoonup> 'v) \<Rightarrow> ('k \<rightharpoonup> 'v)" where
  "table_effect [] m = m"
| "table_effect (Bind k v # os) m = table_effect os (m(k \<mapsto> v))"
| "table_effect (Remove k # os) m = table_effect os (m(k := None))"

text \<open>Every key that is removed is there.\<close>

fun removable :: "('k, 'v) table_op list \<Rightarrow> ('k \<rightharpoonup> 'v) \<Rightarrow> bool" where
  "removable [] m = True"
| "removable (Bind k v # os) m = removable os (m(k \<mapsto> v))"
| "removable (Remove k # os) m = (m k \<noteq> None \<and> removable os (m(k := None)))"

locale key_table =
  fixes wf :: "'t \<Rightarrow> bool"
    and find_key :: "'t \<Rightarrow> 'k \<Rightarrow> 'v option"
    and bind :: "'k \<Rightarrow> 'v \<Rightarrow> 't \<Rightarrow> 't"
    and remove :: "'k \<Rightarrow> 't \<Rightarrow> 't go"
  assumes bind_law: "wf t \<Longrightarrow> wf (bind k v t) \<and> find_key (bind k v t) = (find_key t)(k \<mapsto> v)"
    and remove_law: "wf t \<Longrightarrow> find_key t k \<noteq> None \<Longrightarrow>
      \<exists>t'. remove k t = ok t' \<and> wf t' \<and> find_key t' = (find_key t)(k := None)"
begin

fun run :: "('k, 'v) table_op list \<Rightarrow> 't \<Rightarrow> 't go" where
  "run [] t = ok t"
| "run (Bind k v # os) t = run os (bind k v t)"
| "run (Remove k # os) t = bindG (remove k t) (run os)"

lemma run_effect:
  "wf t \<Longrightarrow> removable os (find_key t) \<Longrightarrow>
    \<exists>t'. run os t = ok t' \<and> wf t' \<and> find_key t' = table_effect os (find_key t)"
proof (induction os arbitrary: t)
  case (Cons p os)
  show ?case
  proof (cases p)
    case (Bind k v)
    have b: "wf (bind k v t)" "find_key (bind k v t) = (find_key t)(k \<mapsto> v)" using bind_law Cons.prems(1) by blast+
    have "removable os ((find_key t)(k \<mapsto> v))" using Cons.prems(2) Bind by (simp only: removable.simps)
    then show ?thesis using Cons.IH [OF b(1)] by (simp only: Bind run.simps table_effect.simps b(2))
  next
    case (Remove k)
    then obtain t' where t': "remove k t = ok t'" "wf t'" "find_key t' = (find_key t)(k := None)"
      using remove_law [of t k] Cons.prems by auto
    have "removable os ((find_key t)(k := None))" using Cons.prems(2) Remove by (simp only: removable.simps)
    then show ?thesis using Cons.IH [OF t'(2)] by (simp only: Remove run.simps table_effect.simps t'(1,3) bindG_ok)
  qed
qed simp

text \<open>A call that binds a free key and then fails leaves the map as it was.\<close>

lemma bind_remove:
  assumes "wf t" and "find_key t k = None"
  shows "\<exists>t'. remove k (bind k v t) = ok t' \<and> wf t' \<and> find_key t' = find_key t"
proof -
  have b: "wf (bind k v t)" "find_key (bind k v t) = (find_key t)(k \<mapsto> v)" using bind_law assms(1) by blast+
  then obtain t' where "remove k (bind k v t) = ok t'" "wf t'" "find_key t' = (find_key (bind k v t))(k := None)"
    using remove_law [of "bind k v t" k] by auto
  moreover have "((find_key t)(k \<mapsto> v))(k := None) = find_key t" using assms(2) by (simp add: fun_upd_idem)
  ultimately show ?thesis using b by auto
qed

end

end
