(* ===== verification/Tcp_Stack.thy ===== *)
theory Tcp_Stack imports Tcp_Closing Ip_Delivery Socket_Table "HOL-Library.AList" begin

text \<open>
  The sockets of a node (\<^verbatim>\<open>tcpstack.go\<close>, \<^verbatim>\<open>listener.go\<close>, \<^verbatim>\<open>utils.go\<close> and the tables of
  \<^verbatim>\<open>tcp_internal.go\<close>): the table of listeners, the table of connections, the calls that open and close
  them, and the handler that takes segments from the IP layer to a connection or a listener.
\<close>

unbundle bit_operations_syntax

section \<open>State\<close>

record VTCPListener =
  listenerId :: i32
  lport :: u16

text \<open>
  A connection object: the connection, the segments queued in its \<^verbatim>\<open>recvChan\<close>, and the trace of what it
  has sent and of the goroutines it has started.
\<close>

record socket =
  sconn :: VTCPConn
  recvChan :: "TCPPacket list"
  sent :: "TCPPacket list"
  started :: "goroutine list"

text \<open>
  The two tables are association lists in the order in which Go's maps are iterated. A pointer to a
  connection is its index in \<open>socks\<close>, where every connection that was ever created stays; a listener
  never changes, so the table has it by value.
\<close>

record TCPGlobalInfo =
  localAddr :: Addr
  listenerTable :: "(u16 \<times> VTCPListener) list"
  connTable :: "(TCPEndpointID \<times> nat) list"
  socks :: "socket list"
  socketNum :: i32

datatype stack_error =
  PortInUse u16 | SocketExists TCPEndpointID | NotSyn u8 | HandshakeFailed | AlreadyClosed u16

section \<open>The tables (\<^verbatim>\<open>tcp_internal.go\<close>)\<close>

definition isPortInUse :: "TCPGlobalInfo \<Rightarrow> u16 \<Rightarrow> bool" where
  "isPortInUse t port \<longleftrightarrow>
     map_of (listenerTable t) port \<noteq> None \<or> list_ex (\<lambda>(ep, p). LocalPort ep = port) (connTable t)"

definition socketExists :: "TCPGlobalInfo \<Rightarrow> TCPEndpointID \<Rightarrow> bool" where
  "socketExists t ep \<longleftrightarrow> map_of (connTable t) ep \<noteq> None"

definition bindListener :: "u16 \<Rightarrow> VTCPListener \<Rightarrow> TCPGlobalInfo \<Rightarrow> TCPGlobalInfo" where
  "bindListener port l t = t\<lparr>listenerTable := AList.update port l (listenerTable t)\<rparr>"

definition bindSocket :: "TCPEndpointID \<Rightarrow> nat \<Rightarrow> TCPGlobalInfo \<Rightarrow> TCPGlobalInfo" where
  "bindSocket ep p t = t\<lparr>connTable := AList.update ep p (connTable t)\<rparr>"

definition set_sock :: "TCPGlobalInfo \<Rightarrow> nat \<Rightarrow> (VTCPConn \<Rightarrow> VTCPConn) \<Rightarrow> TCPGlobalInfo" where
  "set_sock t p f = t\<lparr>socks := (socks t)[p := (socks t ! p)\<lparr>sconn := f (sconn (socks t ! p))\<rparr>]\<rparr>"

definition deleteSocketAt :: "TCPEndpointID \<Rightarrow> TCPGlobalInfo \<Rightarrow> TCPGlobalInfo go" where
  "deleteSocketAt ep t =
     (case map_of (connTable t) ep of
        None \<Rightarrow> panic NilDereference
      | Some p \<Rightarrow>
          let t1 = set_sock t p (\<lambda>c. c\<lparr>state := CLOSED\<rparr>)
          in ok (t1\<lparr>connTable := AList.delete ep (connTable t1)\<rparr>))"

definition deleteListener :: "u16 \<Rightarrow> TCPGlobalInfo \<Rightarrow> TCPGlobalInfo" where
  "deleteListener port t = t\<lparr>listenerTable := AList.delete port (listenerTable t)\<rparr>"

definition findListenerSocket :: "TCPGlobalInfo \<Rightarrow> i32 \<Rightarrow> VTCPListener option" where
  "findListenerSocket t sid = map_option snd (find (\<lambda>(port, l). listenerId l = sid) (listenerTable t))"

definition findNormalSocket :: "TCPGlobalInfo \<Rightarrow> i32 \<Rightarrow> nat option" where
  "findNormalSocket t sid = map_option snd (find (\<lambda>(ep, p). socketId (sconn (socks t ! p)) = sid) (connTable t))"

section \<open>A connection and the tables\<close>

text \<open>What the operations of a connection see of the node, and what they change of it.\<close>

definition tcb_at :: "TCPGlobalInfo \<Rightarrow> nat \<Rightarrow> tcb" where
  "tcb_at t p =
     (let x = socks t ! p
      in \<lparr>conn = sconn x,
          entry = (case map_of (connTable t) (endpoint (sconn x)) of
                     None \<Rightarrow> NoEntry | Some q \<Rightarrow> if q = p then Mine else Other),
          outs = sent x, spawned = started x\<rparr>)"

definition put_tcb :: "TCPGlobalInfo \<Rightarrow> nat \<Rightarrow> tcb \<Rightarrow> TCPGlobalInfo" where
  "put_tcb t p s =
     (let t1 = t\<lparr>socks := (socks t)[p := (socks t ! p)\<lparr>sconn := conn s, sent := outs s, started := spawned s\<rparr>]\<rparr>;
          ep = endpoint (sconn (socks t ! p))
      in if entry s = NoEntry
         then (case map_of (connTable t) ep of
                 None \<Rightarrow> t1
               | Some q \<Rightarrow> (if q = p then t1 else set_sock t1 q (\<lambda>c. c\<lparr>state := CLOSED\<rparr>))
                   \<lparr>connTable := AList.delete ep (connTable t)\<rparr>)
         else t1)"

section \<open>Opening sockets\<close>

definition MAX_UINT16 :: int where "MAX_UINT16 = 65535"
definition MIN_RANDOM_PORT :: int where "MIN_RANDOM_PORT = 20000"

definition IsUint16 :: "int \<Rightarrow> bool" where
  "IsUint16 num \<longleftrightarrow> num \<ge> 0 \<and> num \<le> MAX_UINT16"

text \<open>
  The numbers that \<^verbatim>\<open>rand.Intn(MAX_UINT16 - MIN_RANDOM_PORT)\<close> hands out are a list; \<open>None\<close>: all of them
  hit a port in use, and the loop goes on.
\<close>

fun generateRandomPortNum :: "TCPGlobalInfo \<Rightarrow> nat list \<Rightarrow> u16 option" where
  "generateRandomPortNum t [] = None"
| "generateRandomPortNum t (n # draws) =
     (let port = word_of_int (MIN_RANDOM_PORT + int n)
      in if isPortInUse t port then generateRandomPortNum t draws else Some port)"

definition NewListenerSocket :: "TCPGlobalInfo \<Rightarrow> u16 \<Rightarrow> VTCPListener \<times> TCPGlobalInfo" where
  "NewListenerSocket t port =
     (let t1 = t\<lparr>socketNum := socketNum t + 1\<rparr>
      in (\<lparr>listenerId = socketNum t1, lport = port\<rparr>, t1))"

definition VListen :: "TCPGlobalInfo \<Rightarrow> u16 \<Rightarrow> (stack_error + VTCPListener) \<times> TCPGlobalInfo" where
  "VListen t port =
     (if isPortInUse t port then (Inl (PortInUse port), t)
      else let (l, t1) = NewListenerSocket t port in (Inr l, bindListener port l t1))"

definition CloseListener :: "TCPGlobalInfo \<Rightarrow> VTCPListener \<Rightarrow> stack_error option \<times> TCPGlobalInfo" where
  "CloseListener t l =
     (if map_of (listenerTable t) (lport l) = None then (Some (AlreadyClosed (lport l)), t)
      else (None, deleteListener (lport l) t))"

text \<open>\<^verbatim>\<open>NewSocket\<close> with the node's socket counter; the new object is at the end of \<open>socks\<close>.\<close>

definition newSocketIn :: "TCPGlobalInfo \<Rightarrow> State \<Rightarrow> TCPEndpointID \<Rightarrow> u32 \<Rightarrow> u32 \<Rightarrow> nat \<times> TCPGlobalInfo" where
  "newSocketIn t st ep remoteInitSeqNum startSeq =
     (let t1 = t\<lparr>socketNum := socketNum t + 1\<rparr>
      in (length (socks t1),
          t1\<lparr>socks := socks t1 @ [\<lparr>sconn = NewSocket (socketNum t1) startSeq st ep remoteInitSeqNum,
                                  recvChan = [], sent = [], started = []\<rparr>]\<rparr>))"

text \<open>
  The result of a call that may wait for ever: \<open>Unfinished\<close> when the random numbers or the events that
  it was given are used up.
\<close>

datatype 'a call = Finished 'a TCPGlobalInfo | Unfinished TCPGlobalInfo

text \<open>
  The end of \<^verbatim>\<open>VConnect\<close> and of \<^verbatim>\<open>VAccept\<close>: the handshake, then the goroutine \<^verbatim>\<open>run\<close>, which first starts
  \<^verbatim>\<open>handleRTO\<close>, or the removal of the socket.
\<close>

definition openSocket ::
    "env \<Rightarrow> (rat \<Rightarrow> rat) \<Rightarrow> int \<Rightarrow> bool \<Rightarrow> hs_event list \<Rightarrow> TCPEndpointID \<Rightarrow> nat \<Rightarrow> TCPGlobalInfo \<Rightarrow> (stack_error + nat) call go" where
  "openSocket E rnd now isActive events ep p t =
     bindG (doHandshakes E rnd now isActive events 0 (tcb_at t p)) (\<lambda>r.
       case r of
         HsWaiting s \<Rightarrow> ok (Unfinished (put_tcb t p s))
       | HsDone suc s \<Rightarrow>
           if suc then ok (Finished (Inr p) (put_tcb t p (spawn s HandleRTO)))
           else bindG (deleteSocketAt ep (put_tcb t p s)) (\<lambda>t'. ok (Finished (Inl HandshakeFailed) t')))"

definition VConnect ::
    "env \<Rightarrow> (rat \<Rightarrow> rat) \<Rightarrow> int \<Rightarrow> nat list \<Rightarrow> u32 \<Rightarrow> hs_event list \<Rightarrow> TCPGlobalInfo \<Rightarrow> Addr \<Rightarrow> u16 \<Rightarrow> (stack_error + nat) call go" where
  "VConnect E rnd now draws startSeq events t addr port =
     (case generateRandomPortNum t draws of
        None \<Rightarrow> ok (Unfinished t)
      | Some local_port \<Rightarrow>
          let ep = \<lparr>LocalAddr = localAddr t, LocalPort = local_port, RemoteAddr = addr, RemotePort = port\<rparr>
          in if socketExists t ep then ok (Finished (Inl (SocketExists ep)) t)
             else let (p, t1) = newSocketIn t SYN_SENT ep 0 startSeq
                  in openSocket E rnd now True events ep p (bindSocket ep p t1))"

text \<open>\<open>pair\<close>: the segment and the address that \<^verbatim>\<open>VAccept\<close> receives from the listener's channel.\<close>

definition VAccept ::
    "env \<Rightarrow> (rat \<Rightarrow> rat) \<Rightarrow> int \<Rightarrow> u32 \<Rightarrow> hs_event list \<Rightarrow> TCPGlobalInfo \<Rightarrow> VTCPListener \<Rightarrow> TCPPacket \<times> Addr \<Rightarrow> (stack_error + nat) call go" where
  "VAccept E rnd now startSeq events t l pair =
     (let (tcpPacket, srcIP) = pair
      in if Flags (TcpHeader tcpPacket) \<noteq> TCPFlagSyn then ok (Finished (Inl (NotSyn (Flags (TcpHeader tcpPacket)))) t)
         else
           let ep = \<lparr>LocalAddr = localAddr t, LocalPort = lport l, RemoteAddr = srcIP, RemotePort = SrcPort (TcpHeader tcpPacket)\<rparr>
           in if socketExists t ep then ok (Finished (Inl (SocketExists ep)) t)
              else let (p, t1) = newSocketIn t SYN_RECEIVED ep (SeqNum (TcpHeader tcpPacket)) startSeq
                   in openSocket E rnd now False events ep p (bindSocket ep p t1))"

section \<open>Segments from the IP layer\<close>

text \<open>
  What the handler does with a packet: nothing, or a send on the channel of a connection or of a
  listener. The channel of a connection holds one segment, that of a listener none: the handler waits
  there, with the read lock of the tables held.
\<close>

datatype dispatch = Discard | ToConn nat TCPPacket | ToListener VTCPListener TCPPacket Addr

definition tcpRecvHandler :: "env \<Rightarrow> TCPGlobalInfo \<Rightarrow> IPPacket \<Rightarrow> dispatch go" where
  "tcpRecvHandler E t ipPacket =
     bindG (slice_to (Payload ipPacket) (TotalLen (Header ipPacket) - Len (Header ipPacket))) (\<lambda>data.
     bindG (UnmarshalTCP E data) (\<lambda>tcpPacket.
     bindG (ValidTCPChecksum E tcpPacket (Src (Header ipPacket)) (Dst (Header ipPacket))) (\<lambda>(valid, tcpPacket).
       if \<not> valid then ok Discard
       else if localAddr t \<noteq> Dst (Header ipPacket) then ok Discard
       else
         let ep = \<lparr>LocalAddr = Dst (Header ipPacket), LocalPort = DstPort (TcpHeader tcpPacket),
                   RemoteAddr = Src (Header ipPacket), RemotePort = SrcPort (TcpHeader tcpPacket)\<rparr>
         in case map_of (connTable t) ep of
              Some p \<Rightarrow> ok (ToConn p tcpPacket)
            | None \<Rightarrow> (case map_of (listenerTable t) (LocalPort ep) of
                None \<Rightarrow> ok Discard
              | Some l \<Rightarrow> ok (ToListener l tcpPacket (RemoteAddr ep))))))"

text \<open>The send on a connection's channel, and a turn of \<^verbatim>\<open>run\<close>, which takes a segment from it; \<open>None\<close>: it waits.\<close>

definition chan_send :: "TCPGlobalInfo \<Rightarrow> nat \<Rightarrow> TCPPacket \<Rightarrow> TCPGlobalInfo option" where
  "chan_send t p segment =
     (if recvChan (socks t ! p) = []
      then Some (t\<lparr>socks := (socks t)[p := (socks t ! p)\<lparr>recvChan := [segment]\<rparr>]\<rparr>)
      else None)"

definition run_turn :: "env \<Rightarrow> (rat \<Rightarrow> rat) \<Rightarrow> int \<Rightarrow> TCPGlobalInfo \<Rightarrow> nat \<Rightarrow> TCPGlobalInfo option go" where
  "run_turn E rnd now t p =
     (case recvChan (socks t ! p) of
        [] \<Rightarrow> ok None
      | segment # q \<Rightarrow>
          let t1 = t\<lparr>socks := (socks t)[p := (socks t ! p)\<lparr>recvChan := q\<rparr>]\<rparr>
          in bindG (stateMachine E rnd now segment (tcb_at t1 p)) (\<lambda>s. ok (Some (put_tcb t1 p s))))"

text \<open>
  \<^verbatim>\<open>Init\<close>: the local address is that of the interface that the iteration over the node's interfaces
  meets first; \<open>None\<close> is the error of an invalid one.
\<close>

definition InitTCP :: "string list \<Rightarrow> IPGlobalInfo \<Rightarrow> (TCPGlobalInfo \<times> IPGlobalInfo) option" where
  "InitTCP order ip =
     (let addr = (case order of [] \<Rightarrow> NoAddr | n # ns \<Rightarrow>
                    (case Interfaces ip n of None \<Rightarrow> NoAddr | Some i \<Rightarrow> AssignedIP i))
      in if \<not> IsValid addr then None
         else Some (\<lparr>localAddr = addr, listenerTable = [], connTable = [], socks = [], socketNum = -1\<rparr>,
                    RegisterRecvHandler ip ProtoNumTCP TcpRecvHandler))"

section \<open>The tables as maps\<close>

lemma bindListener_fields [simp]:
  "map_of (listenerTable (bindListener port l t)) = (map_of (listenerTable t))(port \<mapsto> l)"
  "connTable (bindListener port l t) = connTable t" "socks (bindListener port l t) = socks t"
  "localAddr (bindListener port l t) = localAddr t" "socketNum (bindListener port l t) = socketNum t"
  by (simp_all add: bindListener_def update_conv')

lemma bindSocket_fields [simp]:
  "map_of (connTable (bindSocket ep p t)) = (map_of (connTable t))(ep \<mapsto> p)"
  "listenerTable (bindSocket ep p t) = listenerTable t" "socks (bindSocket ep p t) = socks t"
  "localAddr (bindSocket ep p t) = localAddr t" "socketNum (bindSocket ep p t) = socketNum t"
  by (simp_all add: bindSocket_def update_conv')

lemma deleteListener_fields [simp]:
  "map_of (listenerTable (deleteListener port t)) = (map_of (listenerTable t))(port := None)"
  "connTable (deleteListener port t) = connTable t" "socks (deleteListener port t) = socks t"
  "localAddr (deleteListener port t) = localAddr t" "socketNum (deleteListener port t) = socketNum t"
  by (simp_all add: deleteListener_def delete_conv')

lemma set_sock_fields [simp]:
  "connTable (set_sock t p f) = connTable t" "listenerTable (set_sock t p f) = listenerTable t"
  "localAddr (set_sock t p f) = localAddr t" "socketNum (set_sock t p f) = socketNum t"
  "length (socks (set_sock t p f)) = length (socks t)"
  by (simp_all add: set_sock_def)

definition keys_ok :: "TCPGlobalInfo \<Rightarrow> bool" where
  "keys_ok t \<longleftrightarrow> distinct (map fst (connTable t)) \<and> distinct (map fst (listenerTable t))"

text \<open>Both tables keep the contract of \<open>Socket_Table\<close>.\<close>

interpretation listeners: key_table keys_ok "\<lambda>t. map_of (listenerTable t)" bindListener "\<lambda>port t. ok (deleteListener port t)"
  by unfold_locales (auto simp: keys_ok_def bindListener_def deleteListener_def update_conv' delete_conv' distinct_update distinct_delete)

interpretation connections: key_table keys_ok "\<lambda>t. map_of (connTable t)" bindSocket deleteSocketAt
  by unfold_locales
    (auto simp: keys_ok_def bindSocket_def deleteSocketAt_def update_conv' delete_conv' distinct_update distinct_delete Let_def)

section \<open>Writing back a connection\<close>

lemma nth_update_if: "xs[i := x] ! j = (if i = j \<and> i < length xs then x else xs ! j)"
  by (cases "i < length xs") (auto simp: nth_list_update list_update_beyond)

lemma deleteSocketAt_fields:
  assumes "deleteSocketAt ep t = ok t'" and "map_of (connTable t) ep = Some q"
  shows "map_of (connTable t') = (map_of (connTable t))(ep := None)" "listenerTable t' = listenerTable t"
    "localAddr t' = localAddr t" "socketNum t' = socketNum t" "length (socks t') = length (socks t)"
    "socks t' ! r = (if r = q \<and> q < length (socks t) then (socks t ! q)\<lparr>sconn := (sconn (socks t ! q))\<lparr>state := CLOSED\<rparr>\<rparr> else socks t ! r)"
    "connTable t' = AList.delete ep (connTable t)"
  using assms by (auto simp: deleteSocketAt_def Let_def delete_conv' set_sock_def nth_update_if)

text \<open>The removal of a connection's own entry, and the other connection that it may hit.\<close>

definition evicts :: "TCPGlobalInfo \<Rightarrow> nat \<Rightarrow> tcb \<Rightarrow> nat \<Rightarrow> bool" where
  "evicts t p s q \<longleftrightarrow> entry s = NoEntry \<and> q \<noteq> p \<and> q < length (socks t) \<and>
     map_of (connTable t) (endpoint (sconn (socks t ! p))) = Some q"

lemma put_tcb_fields [simp]:
  "listenerTable (put_tcb t p s) = listenerTable t" "localAddr (put_tcb t p s) = localAddr t"
  "socketNum (put_tcb t p s) = socketNum t" "length (socks (put_tcb t p s)) = length (socks t)"
  by (simp_all add: put_tcb_def Let_def split: option.splits)

lemma put_tcb_table:
  "map_of (connTable (put_tcb t p s)) =
     (if entry s = NoEntry then (map_of (connTable t))(endpoint (sconn (socks t ! p)) := None) else map_of (connTable t))"
  by (auto simp: put_tcb_def Let_def delete_conv' fun_upd_idem_iff split: option.splits)

lemma put_tcb_keys: "keys_ok t \<Longrightarrow> keys_ok (put_tcb t p s)"
  by (auto simp: put_tcb_def keys_ok_def Let_def distinct_delete split: option.splits)

lemma put_tcb_sock:
  assumes "p < length (socks t)"
  shows "sconn (socks (put_tcb t p s) ! r) =
      (if r = p then conn s else if evicts t p s r then (sconn (socks t ! r))\<lparr>state := CLOSED\<rparr> else sconn (socks t ! r))"
    and "started (socks (put_tcb t p s) ! r) = (if r = p then spawned s else started (socks t ! r))"
    and "sent (socks (put_tcb t p s) ! r) = (if r = p then outs s else sent (socks t ! r))"
  using assms by (auto simp: put_tcb_def Let_def set_sock_def evicts_def nth_update_if split: option.splits)

text \<open>
  \<^verbatim>\<open>deleteSocket\<close> as a connection sees it in \<open>Tcp_Conn\<close> is the deletion from the tables of the node: on
  the views of the node they do the same.
\<close>

lemma deleteSocket_refines:
  assumes "p < length (socks t)"
  shows "deleteSocketAt (endpoint (sconn (socks t ! p))) t =
    bindG (Tcp_Conn.deleteSocket (tcb_at t p)) (\<lambda>s. ok (put_tcb t p s))"
  using assms
  by (auto simp: deleteSocketAt_def Tcp_Conn.deleteSocket_def tcb_at_def put_tcb_def Let_def set_sock_def split: option.splits)

section \<open>The invariant of the node\<close>

text \<open>
  Of every connection object, in the table or not: its address is the node's, it is what the states of a
  connection allow, and it is open exactly if the table has it under its endpoint.
\<close>

definition life :: "VTCPConn \<Rightarrow> goroutine list \<Rightarrow> bool" where
  "life c g \<longleftrightarrow> state c \<noteq> LISTEN \<and> rto_ok c \<and>
     (TimeWaitTimer \<in> set g \<longrightarrow> state c \<in> {TIME_WAIT, CLOSED}) \<and> (state c = TIME_WAIT \<longrightarrow> TimeWaitTimer \<in> set g)"

definition sock_ok :: "TCPGlobalInfo \<Rightarrow> nat \<Rightarrow> bool" where
  "sock_ok t p \<longleftrightarrow>
     (let c = sconn (socks t ! p)
      in LocalAddr (endpoint c) = localAddr t \<and> life c (started (socks t ! p)) \<and>
         (state c \<noteq> CLOSED \<longleftrightarrow> map_of (connTable t) (endpoint c) = Some p))"

definition stack_ok :: "TCPGlobalInfo \<Rightarrow> bool" where
  "stack_ok t \<longleftrightarrow> keys_ok t \<and> (\<forall>p < length (socks t). sock_ok t p) \<and>
     (\<forall>ep p. map_of (connTable t) ep = Some p \<longrightarrow> p < length (socks t) \<and> endpoint (sconn (socks t ! p)) = ep) \<and>
     (\<forall>port l. map_of (listenerTable t) port = Some l \<longrightarrow> lport l = port)"

lemma sock_ok_tidy:
  assumes "sock_ok t p"
  shows "tidy (entry (tcb_at t p) = Other) (who (sconn (socks t ! p))) (tcb_at t p)"
  using assms by (auto simp: sock_ok_def life_def tidy_def tcb_at_def Let_def split: option.splits if_splits)

lemma put_tcb_ok:
  assumes t: "stack_ok t" and p: "p < length (socks t)"
    and s: "tidy (entry (tcb_at t p) = Other) (who (sconn (socks t ! p))) s"
    and closed: "state (sconn (socks t ! p)) = CLOSED \<Longrightarrow> state (conn s) = CLOSED"
  shows "stack_ok (put_tcb t p s)"
proof -
  let ?t = "put_tcb t p s" and ?ep = "endpoint (sconn (socks t ! p))"
  have ok: "sock_ok t r" if "r < length (socks t)" for r using t that by (simp add: stack_ok_def)
  have tab: "map_of (connTable t) ep = Some q \<Longrightarrow> q < length (socks t) \<and> endpoint (sconn (socks t ! q)) = ep" for ep q
    using t by (simp add: stack_ok_def)
  have ep: "endpoint (conn s) = ?ep" using s by (simp add: tidy_def who_def)
  have ent: "entry s = NoEntry \<or> map_of (connTable t) ?ep = Some p \<and> entry s = Mine \<or> map_of (connTable t) ?ep \<noteq> Some p \<and> entry s = Other"
    using s ok [OF p] closed by (auto simp: tidy_def sock_ok_def tcb_at_def Let_def split: option.splits if_splits)
  have "sock_ok ?t r" if r: "r < length (socks t)" for r
  proof (cases "r = p")
    case True
    then show ?thesis using s ok [OF p] ep ent put_tcb_sock [OF p, of s p]
      by (auto simp: sock_ok_def life_def tidy_def Let_def put_tcb_table)
  next
    case False
    then show ?thesis using ok [OF r] ep put_tcb_sock [OF p, of s r] r tab [of ?ep r]
      by (auto simp: sock_ok_def life_def rto_ok_def Let_def put_tcb_table evicts_def)
  qed
  moreover have "q < length (socks ?t) \<and> endpoint (sconn (socks ?t ! q)) = e" if "map_of (connTable ?t) e = Some q" for e q
    using that tab [of e q] ep put_tcb_sock(1) [OF p, of s q] by (auto simp: put_tcb_table split: if_splits)
  ultimately show ?thesis using t put_tcb_keys by (simp add: stack_ok_def)
qed

lemma put_step_ok:
  assumes t: "stack_ok t" and p: "p < length (socks t)" and step: "tcp_step E rnd (tcb_at t p) s"
  shows "stack_ok (put_tcb t p s)"
proof -
  have "sock_ok t p" using t p by (simp add: stack_ok_def)
  then have "tidy (entry (tcb_at t p) = Other) (who (sconn (socks t ! p))) (tcb_at t p)" by (rule sock_ok_tidy)
  from tidy_step [OF step this] show ?thesis
    by (intro put_tcb_ok [OF t p]) (auto simp: along_def tcb_at_def Let_def)
qed

text \<open>What the queue of segments does not touch.\<close>

lemma sock_ok_queue:
  "sock_ok (t\<lparr>socks := (socks t)[p := (socks t ! p)\<lparr>recvChan := q\<rparr>]\<rparr>) r \<longleftrightarrow> sock_ok t r"
  by (cases "p < length (socks t)") (auto simp: sock_ok_def Let_def nth_update_if)

lemma stack_ok_queue:
  "stack_ok t \<Longrightarrow> stack_ok (t\<lparr>socks := (socks t)[p := (socks t ! p)\<lparr>recvChan := q\<rparr>]\<rparr>)"
  by (simp add: stack_ok_def sock_ok_queue keys_ok_def nth_update_if)

lemma run_turn_ok:
  assumes "stack_ok t" and "p < length (socks t)" and "run_turn E rnd now t p = ok (Some t')"
  shows "stack_ok t'"
proof -
  obtain seg q where q: "recvChan (socks t ! p) = seg # q" using assms(3) by (cases "recvChan (socks t ! p)") (auto simp: run_turn_def)
  let ?t = "t\<lparr>socks := (socks t)[p := (socks t ! p)\<lparr>recvChan := q\<rparr>]\<rparr>"
  obtain s where s: "stateMachine E rnd now seg (tcb_at ?t p) = ok s" and "t' = put_tcb ?t p s"
    using assms(3) q by (auto simp: run_turn_def Let_def bindG_eq_ok_iff)
  then show ?thesis using put_step_ok [OF stack_ok_queue [OF assms(1)] _ tcp_step.arrive [OF s]] assms(2) by simp
qed

lemma delete_ok:
  assumes t: "stack_ok t" and e: "map_of (connTable t) ep = Some q" and d: "deleteSocketAt ep t = ok t'"
  shows "stack_ok t'"
proof -
  have q: "q < length (socks t)" "endpoint (sconn (socks t ! q)) = ep" "sock_ok t q" using t e by (auto simp: stack_ok_def)
  have "tcb_at t q = \<lparr>conn = sconn (socks t ! q), entry = Mine, outs = sent (socks t ! q), spawned = started (socks t ! q)\<rparr>"
    using e q(2) by (simp add: tcb_at_def Let_def)
  then have view: "entry (tcb_at t q) = Mine" "conn (tcb_at t q) = sconn (socks t ! q)" by simp_all
  then obtain s where s: "Tcp_Conn.deleteSocket (tcb_at t q) = ok s" by (simp add: Tcp_Conn.deleteSocket_def)
  then have "t' = put_tcb t q s" using d deleteSocket_refines [OF q(1)] q(2) by simp
  moreover have "stack_ok (put_tcb t q s)"
    using tidy_delete [OF s sock_ok_tidy [OF q(3)]] s view by (intro put_tcb_ok [OF t q(1)]) (auto simp: Tcp_Conn.deleteSocket_def)
  ultimately show ?thesis by simp
qed

section \<open>Opening sockets keeps the invariant\<close>

lemma new_socket:
  fixes r i :: u32
  assumes t: "stack_ok t" and new: "\<not> socketExists t ep" "LocalAddr ep = localAddr t" "st \<in> {SYN_SENT, SYN_RECEIVED}"
  defines "p \<equiv> fst (newSocketIn t st ep r i)" and "t' \<equiv> bindSocket ep (fst (newSocketIn t st ep r i)) (snd (newSocketIn t st ep r i))"
  shows "stack_ok t'" and "p = length (socks t)" and "length (socks t') = length (socks t) + 1"
    and "tcb_at t' p = opened (NewSocket (socketNum t + 1) i st ep r)"
    and "map_of (connTable t') = (map_of (connTable t))(ep \<mapsto> p)" and "localAddr t' = localAddr t"
    and "listenerTable t' = listenerTable t" and "socketNum t' = socketNum t + 1"
    and "map (socketId \<circ> sconn) (socks t') = map (socketId \<circ> sconn) (socks t) @ [socketNum t + 1]"
proof -
  show p: "p = length (socks t)" by (simp add: p_def newSocketIn_def Let_def)
  let ?c = "NewSocket (socketNum t + 1) i st ep r"
  have s': "socks t' = socks t @ [\<lparr>sconn = ?c, recvChan = [], sent = [], started = []\<rparr>]"
    by (simp add: t'_def newSocketIn_def Let_def)
  then show "length (socks t') = length (socks t) + 1" "map (socketId \<circ> sconn) (socks t') = map (socketId \<circ> sconn) (socks t) @ [socketNum t + 1]"
    by (simp_all add: NewSocket_def)
  show tab: "map_of (connTable t') = (map_of (connTable t))(ep \<mapsto> p)" "localAddr t' = localAddr t"
    "listenerTable t' = listenerTable t" "socketNum t' = socketNum t + 1"
    by (simp_all add: t'_def p_def newSocketIn_def Let_def)
  show "tcb_at t' p = opened ?c"
    using tab(1) by (simp add: tcb_at_def Let_def s' p opened_def)
  have none: "map_of (connTable t) ep = None" using new(1) by (simp add: socketExists_def)
  have "sock_ok t' q" if q: "q < length (socks t')" for q
  proof (cases "q = p")
    case True
    then show ?thesis using new(2,3) tab(1,2) by (auto simp: sock_ok_def Let_def s' p life_def rto_ok_def NewSocket_def)
  next
    case False
    then have q': "q < length (socks t)" using q s' p by simp
    then have "sock_ok t q" using t by (simp add: stack_ok_def)
    then show ?thesis using tab(1,2) none False q' by (auto simp: sock_ok_def Let_def s' p nth_append)
  qed
  moreover have "q < length (socks t') \<and> endpoint (sconn (socks t' ! q)) = e" if "map_of (connTable t') e = Some q" for e q
    using that tab(1) t by (auto simp: s' p nth_append stack_ok_def split: if_splits)
  moreover have "keys_ok t'"
    using t by (simp add: stack_ok_def keys_ok_def t'_def newSocketIn_def Let_def bindSocket_def distinct_update)
  ultimately show "stack_ok t'" using t tab(3) by (simp add: stack_ok_def)
qed

lemma openSocket_ok:
  assumes t: "stack_ok t" and p: "p < length (socks t)" "ep = endpoint (sconn (socks t ! p))"
    and st: "state (sconn (socks t ! p)) \<in> {SYN_SENT, SYN_RECEIVED}" "a = (state (sconn (socks t ! p)) = SYN_SENT)"
    and run: "openSocket E rnd now a es ep p t = ok r"
  shows "\<exists>t'. (r = Unfinished t' \<or> (\<exists>x. r = Finished x t')) \<and> stack_ok t' \<and> length (socks t') = length (socks t) \<and>
    listenerTable t' = listenerTable t \<and> localAddr t' = localAddr t \<and> socketNum t' = socketNum t \<and>
    map (socketId \<circ> sconn) (socks t') = map (socketId \<circ> sconn) (socks t)"
proof -
  let ?s = "tcb_at t p"
  have c: "conn ?s = sconn (socks t ! p)" by (simp add: tcb_at_def Let_def)
  have sp: "sock_ok t p" using t p by (simp add: stack_ok_def)
  note view = sock_ok_tidy [OF sp]
  have ids: "map (socketId \<circ> sconn) (socks (put_tcb t p s)) = map (socketId \<circ> sconn) (socks t)" if "who (conn s) = who (sconn (socks t ! p))" for s
    using that by (intro nth_equalityI) (auto simp: put_tcb_sock [OF p(1)] who_def)
  obtain h where h: "doHandshakes E rnd now a es 0 ?s = ok h" using run by (auto simp: openSocket_def bindG_eq_ok_iff)
  show ?thesis
  proof (cases h)
    case (HsWaiting s)
    then have still: "still ?s s" using doHandshakes_life [OF h] by simp
    then have td: "tidy (entry ?s = Other) (who (sconn (socks t ! p))) s" "state (conn s) = state (sconn (socks t ! p))"
      using tidy_still [OF _ view] c by (blast, simp add: still_def)
    then have "stack_ok (put_tcb t p s)" by (intro put_tcb_ok [OF t p(1)]) auto
    then show ?thesis using run h HsWaiting ids [of s] td(1) by (auto simp: openSocket_def tidy_def)
  next
    case (HsDone suc s)
    have "tcp_step E rnd ?s s" by (rule tcp_step.handshake) (use st h HsDone c in auto)
    note ts = tidy_step [OF this view]
    have td: "tidy (entry ?s = Other) (who (sconn (socks t ! p))) s" using ts by simp
    have ok: "stack_ok (put_tcb t p s)" using ts st(1) c by (intro put_tcb_ok [OF t p(1)]) auto
    show ?thesis
    proof (cases suc)
      case True
      have "tidy (entry ?s = Other) (who (sconn (socks t ! p))) (spawn s HandleRTO)" using td by (rule tidy_spawn) simp
      then have "stack_ok (put_tcb t p (spawn s HandleRTO))" using st(1) by (intro put_tcb_ok [OF t p(1)]) auto
      then show ?thesis using run h HsDone True ids [of "spawn s HandleRTO"] td by (auto simp: openSocket_def tidy_def)
    next
      case False
      then obtain t' where d: "deleteSocketAt ep (put_tcb t p s) = ok t'" and r: "r = Finished (Inl HandshakeFailed) t'"
        using run h HsDone by (auto simp: openSocket_def bindG_eq_ok_iff)
      then obtain q where q: "map_of (connTable (put_tcb t p s)) ep = Some q"
        by (cases "map_of (connTable (put_tcb t p s)) ep") (auto simp: deleteSocketAt_def)
      note f = deleteSocketAt_fields [OF d q]
      have "map (socketId \<circ> sconn) (socks t') = map (socketId \<circ> sconn) (socks (put_tcb t p s))"
        by (intro nth_equalityI) (auto simp: f(5,6))
      then show ?thesis using r f delete_ok [OF ok q d] ids [of s] td by (simp add: tidy_def)
    qed
  qed
qed

section \<open>Every run of a node\<close>

text \<open>The state in which a call leaves the node, finished or not.\<close>

fun after_call :: "'a call \<Rightarrow> TCPGlobalInfo" where
  "after_call (Finished x t) = t"
| "after_call (Unfinished t) = t"

text \<open>
  The nodes that the program reaches, with the number \<open>k\<close> of listeners created so far: the calls of the
  users, the steps of every connection object, whether it is in the table or not, the arrival of
  segments, and the removal of a socket whose handshake failed.
\<close>

inductive stack_run :: "env \<Rightarrow> (rat \<Rightarrow> rat) \<Rightarrow> nat \<Rightarrow> TCPGlobalInfo \<Rightarrow> bool" for E rnd where
  start: "InitTCP order ip = Some (t, ip') \<Longrightarrow> stack_run E rnd 0 t"
| listen: "stack_run E rnd k t \<Longrightarrow> VListen t port = (Inr l, t') \<Longrightarrow> stack_run E rnd (k + 1) t'"
| unlisten: "stack_run E rnd k t \<Longrightarrow> CloseListener t l = (e, t') \<Longrightarrow> stack_run E rnd k t'"
| connect: "stack_run E rnd k t \<Longrightarrow> VConnect E rnd now draws i es t addr port = ok r \<Longrightarrow> stack_run E rnd k (after_call r)"
| accept: "stack_run E rnd k t \<Longrightarrow> VAccept E rnd now i es t l pair = ok r \<Longrightarrow> stack_run E rnd k (after_call r)"
| started_up: "stack_run E rnd k t \<Longrightarrow> p < length (socks t) \<Longrightarrow> stack_run E rnd k (put_tcb t p (spawn (tcb_at t p) HandleRTO))"
| connection: "stack_run E rnd k t \<Longrightarrow> p < length (socks t) \<Longrightarrow> tcp_step E rnd (tcb_at t p) s \<Longrightarrow> stack_run E rnd k (put_tcb t p s)"
| given_up: "stack_run E rnd k t \<Longrightarrow> map_of (connTable t) ep = Some p \<Longrightarrow> state (sconn (socks t ! p)) \<in> {SYN_SENT, SYN_RECEIVED} \<Longrightarrow>
    deleteSocketAt ep t = ok t' \<Longrightarrow> stack_run E rnd k t'"
| arrives: "stack_run E rnd k t \<Longrightarrow> chan_send t p segment = Some t' \<Longrightarrow> stack_run E rnd k t'"
| taken: "stack_run E rnd k t \<Longrightarrow> p < length (socks t) \<Longrightarrow> run_turn E rnd now t p = ok (Some t') \<Longrightarrow> stack_run E rnd k t'"

text \<open>The ids of all connection objects and of the open listeners.\<close>

definition ids_of :: "TCPGlobalInfo \<Rightarrow> i32 list" where
  "ids_of t = map (socketId \<circ> sconn) (socks t) @ map (listenerId \<circ> snd) (listenerTable t)"

definition ids_ok :: "nat \<Rightarrow> TCPGlobalInfo \<Rightarrow> bool" where
  "ids_ok k t \<longleftrightarrow> socketNum t + 1 = of_nat (k + length (socks t)) \<and>
     (k + length (socks t) < 2 ^ 32 \<longrightarrow> distinct (ids_of t) \<and> (\<forall>i \<in> set (ids_of t). unat i < k + length (socks t)))"

lemma ids_ok_same:
  assumes "ids_ok k t" and "map (socketId \<circ> sconn) (socks t') = map (socketId \<circ> sconn) (socks t)"
    and "listenerTable t' = listenerTable t" and "socketNum t' = socketNum t"
  shows "ids_ok k t'"
  using assms map_eq_imp_length_eq [OF assms(2)] by (simp add: ids_ok_def ids_of_def)

text \<open>A new id is larger than all that are in use.\<close>

lemma fresh_id:
  assumes "ids_ok k t" and "k + length (socks t) + 1 < 2 ^ 32"
  shows "unat (socketNum t + 1) = k + length (socks t)" and "socketNum t + 1 \<notin> set (ids_of t)"
proof -
  have n: "socketNum t + 1 = of_nat (k + length (socks t))" and b: "\<forall>i \<in> set (ids_of t). unat i < k + length (socks t)"
    using assms by (simp_all add: ids_ok_def)
  show u: "unat (socketNum t + 1) = k + length (socks t)" unfolding n using assms(2) by (intro unat_of_nat_small) simp
  then show "socketNum t + 1 \<notin> set (ids_of t)" using b by force
qed

lemma ids_new_socket:
  assumes "ids_ok k t" and "socketNum t' = socketNum t + 1" and "listenerTable t' = listenerTable t"
    and "map (socketId \<circ> sconn) (socks t') = map (socketId \<circ> sconn) (socks t) @ [socketNum t + 1]"
  shows "ids_ok k t'"
proof -
  have len: "length (socks t') = length (socks t) + 1" using arg_cong [OF assms(4), of length] by simp
  have set: "set (ids_of t') = insert (socketNum t + 1) (set (ids_of t))"
    unfolding ids_of_def assms(3,4) by (simp only: set_append list.set) blast
  have "socketNum t' + 1 = of_nat (k + length (socks t'))"
    using assms(1,2) len by (simp add: ids_ok_def)
  moreover have "distinct (ids_of t') \<and> (\<forall>i \<in> set (ids_of t'). unat i < k + length (socks t'))"
    if lim: "k + length (socks t') < 2 ^ 32"
  proof -
    have lim': "k + length (socks t) + 1 < 2 ^ 32" using lim len by simp
    note f = fresh_id [OF assms(1) lim']
    have old: "distinct (ids_of t)" "\<forall>i \<in> set (ids_of t). unat i < k + length (socks t)" using assms(1) lim' by (simp_all add: ids_ok_def)
    have "distinct (ids_of t')" using old(1) f(2) unfolding ids_of_def assms(3,4) by auto
    moreover have "\<forall>i \<in> set (ids_of t'). unat i < k + length (socks t')" unfolding set len using f(1) old(2) by force
    ultimately show ?thesis by blast
  qed
  ultimately show ?thesis by (simp add: ids_ok_def)
qed

lemma update_new: "k \<notin> fst ` set xs \<Longrightarrow> AList.update k v xs = xs @ [(k, v)]"
  by (induction xs) auto

lemma VListen_ok:
  assumes t: "stack_ok t" "ids_ok k t" and run: "VListen t port = (Inr l, t')"
  shows "stack_ok t' \<and> ids_ok (k + 1) t'"
proof -
  let ?l = "\<lparr>listenerId = socketNum t + 1, lport = port\<rparr>"
  have t': "t' = bindListener port ?l (t\<lparr>socketNum := socketNum t + 1\<rparr>)" and none: "map_of (listenerTable t) port = None"
    using run by (auto simp: VListen_def NewListenerSocket_def Let_def isPortInUse_def split: if_splits)
  have tab: "listenerTable t' = listenerTable t @ [(port, ?l)]"
    using none update_new [of port "listenerTable t"] by (simp add: t' bindListener_def map_of_eq_None_iff)
  have "stack_ok t'"
    using t(1) unfolding stack_ok_def keys_ok_def t' sock_ok_def
    by (auto simp: bindListener_def distinct_update update_conv' split: if_splits)
  moreover have "ids_ok (k + 1) t'"
  proof -
    have "socketNum t' + 1 = of_nat (k + 1 + length (socks t'))" using t(2) by (simp add: t' ids_ok_def)
    moreover have "distinct (ids_of t') \<and> (\<forall>i \<in> set (ids_of t'). unat i < k + 1 + length (socks t'))"
      if lim: "k + 1 + length (socks t') < 2 ^ 32"
    proof -
      have ids: "ids_of t' = ids_of t @ [socketNum t + 1]" unfolding ids_of_def tab by (simp add: t')
      have lim': "k + length (socks t) + 1 < 2 ^ 32" using lim by (simp add: t')
      note f = fresh_id [OF t(2) lim']
      have old: "distinct (ids_of t)" "\<forall>i \<in> set (ids_of t). unat i < k + length (socks t)" using t(2) lim' by (simp_all add: ids_ok_def)
      have "length (socks t') = length (socks t)" by (simp add: t')
      then show ?thesis unfolding ids using f old by force
    qed
    ultimately show ?thesis by (simp add: ids_ok_def)
  qed
  ultimately show ?thesis by blast
qed

lemma CloseListener_ok:
  assumes t: "stack_ok t" "ids_ok k t" and run: "CloseListener t l = (e, t')"
  shows "stack_ok t' \<and> ids_ok k t'"
proof (cases "map_of (listenerTable t) (lport l) = None")
  case True
  then show ?thesis using assms by (simp add: CloseListener_def)
next
  case False
  then have t': "t' = deleteListener (lport l) t" using run unfolding CloseListener_def if_not_P [OF False] by blast
  have "stack_ok t'"
    using t(1) unfolding stack_ok_def keys_ok_def t' sock_ok_def
    by (auto simp: deleteListener_def distinct_delete delete_conv' split: if_splits)
  moreover have "ids_ok k t'"
  proof -
    have sub: "listenerTable t' = filter (\<lambda>(port, l'). lport l \<noteq> port) (listenerTable t)"
      by (simp add: t' deleteListener_def AList.delete_eq)
    have "distinct (map (listenerId \<circ> snd) (listenerTable t))" if "distinct (ids_of t)" using that by (simp add: ids_of_def)
    then have "distinct (ids_of t')" if "distinct (ids_of t)"
      using that distinct_map_filter [of "listenerId \<circ> snd" "listenerTable t" "\<lambda>(port, l'). lport l \<noteq> port"]
      unfolding ids_of_def sub by (auto simp: t')
    moreover have "set (ids_of t') \<subseteq> set (ids_of t)" unfolding ids_of_def sub by (auto simp: t')
    moreover have "socketNum t' = socketNum t" "length (socks t') = length (socks t)" by (simp_all add: t')
    ultimately show ?thesis using t(2) by (auto simp: ids_ok_def)
  qed
  ultimately show ?thesis by blast
qed

text \<open>A call that opens a socket.\<close>

lemma open_ok:
  assumes t: "stack_ok t" "ids_ok k t" and new: "\<not> socketExists t ep" "LocalAddr ep = localAddr t"
    and st: "st \<in> {SYN_SENT, SYN_RECEIVED}"
    and run: "(let (p, t1) = newSocketIn t st ep r i in openSocket E rnd now (st = SYN_SENT) es ep p (bindSocket ep p t1)) = ok x"
  shows "stack_ok (after_call x) \<and> ids_ok k (after_call x)"
proof -
  note n = new_socket [OF t(1) new st, of r i]
  let ?p = "fst (newSocketIn t st ep r i)" and ?t = "bindSocket ep (fst (newSocketIn t st ep r i)) (snd (newSocketIn t st ep r i))"
  have p: "?p < length (socks ?t)" using n(2,3) by simp
  have c: "sconn (socks ?t ! ?p) = NewSocket (socketNum t + 1) i st ep r"
    using arg_cong [OF n(4), of conn] by (simp add: tcb_at_def Let_def)
  have open': "openSocket E rnd now (st = SYN_SENT) es ep ?p ?t = ok x"
    using run by (simp add: case_prod_beta)
  have "\<exists>t'. (x = Unfinished t' \<or> (\<exists>y. x = Finished y t')) \<and> stack_ok t' \<and> length (socks t') = length (socks ?t) \<and>
      listenerTable t' = listenerTable ?t \<and> localAddr t' = localAddr ?t \<and> socketNum t' = socketNum ?t \<and>
      map (socketId \<circ> sconn) (socks t') = map (socketId \<circ> sconn) (socks ?t)"
    by (rule openSocket_ok [OF n(1) p _ _ _ open']) (use c st in auto)
  then obtain t' where t': "after_call x = t'" "stack_ok t'" "listenerTable t' = listenerTable ?t" "socketNum t' = socketNum ?t"
      "map (socketId \<circ> sconn) (socks t') = map (socketId \<circ> sconn) (socks ?t)" by auto
  have "ids_ok k ?t" by (rule ids_new_socket [OF t(2)]) (rule n(8), rule n(7), rule n(9))
  then have "ids_ok k t'" by (rule ids_ok_same) (rule t')+
  then show ?thesis using t' by simp
qed

lemma VConnect_ok:
  assumes t: "stack_ok t" "ids_ok k t" and run: "VConnect E rnd now draws i es t addr port = ok x"
  shows "stack_ok (after_call x) \<and> ids_ok k (after_call x)"
proof (cases "generateRandomPortNum t draws")
  case None
  then show ?thesis using assms by (auto simp: VConnect_def)
next
  case (Some n)
  let ?ep = "\<lparr>LocalAddr = localAddr t, LocalPort = n, RemoteAddr = addr, RemotePort = port\<rparr>"
  show ?thesis
  proof (cases "socketExists t ?ep")
    case True
    then show ?thesis using assms Some by (auto simp: VConnect_def)
  next
    case False
    then show ?thesis using open_ok [OF t False, of SYN_SENT 0 i E rnd now es x] run Some by (simp add: VConnect_def Let_def)
  qed
qed

lemma VAccept_ok:
  assumes t: "stack_ok t" "ids_ok k t" and run: "VAccept E rnd now i es t l pair = ok x"
  shows "stack_ok (after_call x) \<and> ids_ok k (after_call x)"
proof -
  obtain p ip where pair: "pair = (p, ip)" by (cases pair)
  let ?ep = "\<lparr>LocalAddr = localAddr t, LocalPort = lport l, RemoteAddr = ip, RemotePort = SrcPort (TcpHeader p)\<rparr>"
  consider "Flags (TcpHeader p) \<noteq> TCPFlagSyn" | "Flags (TcpHeader p) = TCPFlagSyn" "socketExists t ?ep"
    | "Flags (TcpHeader p) = TCPFlagSyn" "\<not> socketExists t ?ep" by blast
  then show ?thesis
  proof cases
    case 3
    then show ?thesis using open_ok [OF t 3(2), of SYN_RECEIVED "SeqNum (TcpHeader p)" i E rnd now es x] run pair
      by (simp add: VAccept_def Let_def)
  qed (use assms pair in \<open>auto simp: VAccept_def Let_def\<close>)
qed

lemma put_ids:
  assumes "ids_ok k t" and "p < length (socks t)" and "who (conn s) = who (sconn (socks t ! p))"
  shows "ids_ok k (put_tcb t p s)"
proof (rule ids_ok_same [OF assms(1)])
  show "map (socketId \<circ> sconn) (socks (put_tcb t p s)) = map (socketId \<circ> sconn) (socks t)"
    using assms(3) by (intro nth_equalityI) (auto simp: put_tcb_sock [OF assms(2)] who_def)
qed simp_all

lemma put_step_ids:
  assumes "stack_ok t" "ids_ok k t" and p: "p < length (socks t)" and step: "tcp_step E rnd (tcb_at t p) s"
  shows "ids_ok k (put_tcb t p s)"
proof -
  have "sock_ok t p" using assms by (simp add: stack_ok_def)
  from tidy_step [OF step sock_ok_tidy [OF this]] have "who (conn s) = who (sconn (socks t ! p))" by (simp add: tidy_def)
  then show ?thesis by (rule put_ids [OF assms(2) p])
qed

lemma queue_ids: "ids_ok k t \<Longrightarrow> ids_ok k (t\<lparr>socks := (socks t)[p := (socks t ! p)\<lparr>recvChan := q\<rparr>]\<rparr>)"
proof (rule ids_ok_same)
  show "map (socketId \<circ> sconn) (socks (t\<lparr>socks := (socks t)[p := (socks t ! p)\<lparr>recvChan := q\<rparr>]\<rparr>)) = map (socketId \<circ> sconn) (socks t)"
    by (intro nth_equalityI) (auto simp: nth_update_if)
qed simp_all

lemma InitTCP_ok: "InitTCP order ip = Some (t, ip') \<Longrightarrow> stack_ok t \<and> ids_ok 0 t"
  by (auto simp: InitTCP_def Let_def stack_ok_def keys_ok_def ids_ok_def ids_of_def split: if_splits)

lemma stack_run_ok: "stack_run E rnd k t \<Longrightarrow> stack_ok t \<and> ids_ok k t"
proof (induction rule: stack_run.induct)
  case (start order ip t ip')
  then show ?case by (rule InitTCP_ok)
next
  case (listen k t port l t')
  then show ?case using VListen_ok by blast
next
  case (unlisten k t l e t')
  then show ?case using CloseListener_ok by blast
next
  case (connect k t now draws i es addr port r)
  then show ?case using VConnect_ok by blast
next
  case (accept k t now i es l pair r)
  then show ?case using VAccept_ok by blast
next
  case (started_up k t p)
  then have "sock_ok t p" by (simp add: stack_ok_def)
  from tidy_spawn [OF sock_ok_tidy [OF this], of HandleRTO]
  have "tidy (entry (tcb_at t p) = Other) (who (sconn (socks t ! p))) (spawn (tcb_at t p) HandleRTO)" by simp
  moreover have "conn (tcb_at t p) = sconn (socks t ! p)" by (simp add: tcb_at_def Let_def)
  ultimately show ?case using started_up put_tcb_ok put_ids by simp
next
  case (connection k t p s)
  then show ?case using put_step_ok put_step_ids by blast
next
  case (given_up k t ep p t')
  note f = deleteSocketAt_fields [OF given_up(4,2)]
  have "map (socketId \<circ> sconn) (socks t') = map (socketId \<circ> sconn) (socks t)"
    by (intro nth_equalityI) (auto simp: f(5,6))
  then show ?case using given_up delete_ok ids_ok_same f by blast
next
  case (arrives k t p segment t')
  then show ?case using stack_ok_queue queue_ids by (auto simp: chan_send_def split: if_splits)
next
  case (taken k t p now t')
  then obtain seg q s where "t' = put_tcb (t\<lparr>socks := (socks t)[p := (socks t ! p)\<lparr>recvChan := q\<rparr>]\<rparr>) p s"
      and s: "stateMachine E rnd now seg (tcb_at (t\<lparr>socks := (socks t)[p := (socks t ! p)\<lparr>recvChan := q\<rparr>]\<rparr>) p) = ok s"
    by (auto simp: run_turn_def Let_def bindG_eq_ok_iff split: list.splits)
  then show ?case
    using taken put_step_ok [OF stack_ok_queue _ tcp_step.arrive [OF s]] put_step_ids [OF stack_ok_queue queue_ids _ tcp_step.arrive [OF s]]
    by simp
qed

section \<open>Properties\<close>

text \<open>
  C11. The tables of a node after any sequence of calls, steps of connections and arrivals of
  segments. The table of connections has under an endpoint exactly the one connection object with that
  endpoint that is not CLOSED; so there is at most one, every connection has the node's own address,
  and what was closed is out of reach of segments. The listener under a port has that port.
\<close>

theorem socket_tables:
  assumes "stack_run E rnd k t"
  shows "(\<forall>ep p. map_of (connTable t) ep = Some p \<longleftrightarrow>
        p < length (socks t) \<and> endpoint (sconn (socks t ! p)) = ep \<and> state (sconn (socks t ! p)) \<noteq> CLOSED) \<and>
    (\<forall>p < length (socks t). LocalAddr (endpoint (sconn (socks t ! p))) = localAddr t \<and> state (sconn (socks t ! p)) \<noteq> LISTEN) \<and>
    (\<forall>port l. map_of (listenerTable t) port = Some l \<longrightarrow> lport l = port)"
  using stack_run_ok [OF assms] by (auto simp: stack_ok_def sock_ok_def life_def Let_def)

text \<open>A node with one interface.\<close>

definition demo_node :: "u32 \<Rightarrow> TCPGlobalInfo" where
  "demo_node a = \<lparr>localAddr = V4 a, listenerTable = [], connTable = [], socks = [], socketNum = -1\<rparr>"

lemma demo_node_starts: "stack_run E rnd 0 (demo_node 0x0a010001)"
proof (rule stack_run.start)
  show "InitTCP [''if0''] demo_host = Some (demo_node 0x0a010001, RegisterRecvHandler demo_host ProtoNumTCP TcpRecvHandler)"
    by (simp add: InitTCP_def demo_node_def demo_host_eq demo_if_def Let_def)
qed

lemma demo_node_listens:
  "stack_run E rnd 1 ((demo_node 0x0a010001)\<lparr>listenerTable := [(80, \<lparr>listenerId = 0, lport = 80\<rparr>)], socketNum := 0\<rparr>)"
proof -
  have "VListen (demo_node 0x0a010001) 80 = (Inr \<lparr>listenerId = 0, lport = 80\<rparr>,
      (demo_node 0x0a010001)\<lparr>listenerTable := [(80, \<lparr>listenerId = 0, lport = 80\<rparr>)], socketNum := 0\<rparr>)"
    by (simp add: VListen_def demo_node_def isPortInUse_def NewListenerSocket_def bindListener_def)
  from stack_run.listen [OF demo_node_starts this] show ?thesis by simp
qed

lemma socket_tables_witness:
  "map_of (listenerTable ((demo_node 0x0a010001)\<lparr>listenerTable := [(80, \<lparr>listenerId = 0, lport = 80\<rparr>)], socketNum := 0\<rparr>)) 80 =
     Some \<lparr>listenerId = 0, lport = 80\<rparr> \<and> lport \<lparr>listenerId = 0, lport = 80\<rparr> = 80"
  using socket_tables [OF demo_node_listens] by simp

lemma find_SomeD: "find P xs = Some x \<Longrightarrow> x \<in> set xs \<and> P x"
  by (auto simp: find_Some_iff)

text \<open>In a list without a repeated key, \<^verbatim>\<open>find\<close> on the key finds exactly the element that has it.\<close>

lemma find_key_eq:
  assumes "\<And>x y. x \<in> set xs \<Longrightarrow> y \<in> set xs \<Longrightarrow> f x = f y \<Longrightarrow> x = y"
  shows "find (\<lambda>x. f x = k) xs = Some y \<longleftrightarrow> y \<in> set xs \<and> f y = k"
proof
  assume "find (\<lambda>x. f x = k) xs = Some y"
  then show "y \<in> set xs \<and> f y = k" by (auto dest: find_SomeD)
next
  assume y: "y \<in> set xs \<and> f y = k"
  show "find (\<lambda>x. f x = k) xs = Some y"
  proof (cases "find (\<lambda>x. f x = k) xs")
    case None
    then show ?thesis using y by (auto simp: find_None_iff)
  next
    case (Some z)
    then show ?thesis using find_SomeD [OF Some] assms y by auto
  qed
qed

text \<open>What a look-up by id finds in consistent tables.\<close>

lemma findNormalSocket_iff:
  assumes t: "stack_ok t" and d: "distinct (map (socketId \<circ> sconn) (socks t))"
  shows "findNormalSocket t sid = Some q \<longleftrightarrow>
    q < length (socks t) \<and> state (sconn (socks t ! q)) \<noteq> CLOSED \<and> socketId (sconn (socks t ! q)) = sid"
proof -
  have keys: "distinct (map fst (connTable t))" using t by (simp add: stack_ok_def keys_ok_def)
  have conns: "(ep, r) \<in> set (connTable t) \<longleftrightarrow>
      r < length (socks t) \<and> endpoint (sconn (socks t ! r)) = ep \<and> state (sconn (socks t ! r)) \<noteq> CLOSED" for ep r
    using t map_of_eq_Some_iff [OF keys, of ep r] by (auto simp: stack_ok_def sock_ok_def Let_def)
  have same: "r = r'" if "r < length (socks t)" "r' < length (socks t)" "socketId (sconn (socks t ! r)) = socketId (sconn (socks t ! r'))" for r r'
    using that nth_eq_iff_index_eq [OF d, of r r'] by simp
  have "find (\<lambda>x. socketId (sconn (socks t ! snd x)) = sid) (connTable t) = Some y \<longleftrightarrow>
      y \<in> set (connTable t) \<and> socketId (sconn (socks t ! snd y)) = sid" for y
  proof (rule find_key_eq)
    fix x y assume x: "x \<in> set (connTable t)" "y \<in> set (connTable t)" "socketId (sconn (socks t ! snd x)) = socketId (sconn (socks t ! snd y))"
    then have "snd x = snd y" using conns [of "fst x" "snd x"] conns [of "fst y" "snd y"] same by simp
    moreover have "endpoint (sconn (socks t ! snd x)) = fst x" "endpoint (sconn (socks t ! snd y)) = fst y"
      using x(1,2) conns [of "fst x" "snd x"] conns [of "fst y" "snd y"] by simp_all
    ultimately show "x = y" by (simp add: prod_eq_iff)
  qed
  then have "findNormalSocket t sid = Some q \<longleftrightarrow> (\<exists>ep. (ep, q) \<in> set (connTable t) \<and> socketId (sconn (socks t ! q)) = sid)"
    by (simp add: findNormalSocket_def case_prod_unfold)
  then show ?thesis using conns by auto
qed

lemma findListenerSocket_iff:
  assumes t: "stack_ok t" and d: "distinct (map (listenerId \<circ> snd) (listenerTable t))"
  shows "findListenerSocket t sid = Some m \<longleftrightarrow> map_of (listenerTable t) (lport m) = Some m \<and> listenerId m = sid"
proof -
  have keys: "distinct (map fst (listenerTable t))" using t by (simp add: stack_ok_def keys_ok_def)
  have lids: "(port, l) \<in> set (listenerTable t) \<longleftrightarrow> lport l = port \<and> map_of (listenerTable t) port = Some l" for port l
    using t map_of_eq_Some_iff [OF keys, of port l] by (auto simp: stack_ok_def)
  have "find (\<lambda>x. listenerId (snd x) = sid) (listenerTable t) = Some y \<longleftrightarrow> y \<in> set (listenerTable t) \<and> listenerId (snd y) = sid" for y
    by (rule find_key_eq) (use d in \<open>auto simp: distinct_map inj_on_def\<close>)
  then have "findListenerSocket t sid = Some m \<longleftrightarrow> (\<exists>port. (port, m) \<in> set (listenerTable t) \<and> listenerId m = sid)"
    by (simp add: findListenerSocket_def case_prod_unfold)
  then show ?thesis using lids by auto
qed

text \<open>
  C27. Socket ids. As long as fewer than \<open>2 ^ 32\<close> sockets were created, a look-up by id finds exactly the
  open connection or the listener with that id, and no id belongs to both.
\<close>

theorem socket_ids:
  assumes "stack_run E rnd k t" and "k + length (socks t) < 2 ^ 32"
  shows "(findNormalSocket t sid = Some p \<longleftrightarrow>
        p < length (socks t) \<and> state (sconn (socks t ! p)) \<noteq> CLOSED \<and> socketId (sconn (socks t ! p)) = sid) \<and>
    (findListenerSocket t sid = Some l \<longleftrightarrow> map_of (listenerTable t) (lport l) = Some l \<and> listenerId l = sid) \<and>
    \<not> (findNormalSocket t sid = Some p \<and> findListenerSocket t sid = Some l)"
proof -
  have t: "stack_ok t" and "ids_ok k t" using stack_run_ok [OF assms(1)] by blast+
  then have d: "distinct (map (socketId \<circ> sconn) (socks t))" "distinct (map (listenerId \<circ> snd) (listenerTable t))"
      "\<forall>x \<in> set (socks t). \<forall>y \<in> set (listenerTable t). socketId (sconn x) \<noteq> listenerId (snd y)"
    using assms(2) by (auto simp: ids_ok_def ids_of_def)
  note normal = findNormalSocket_iff [OF t d(1)] and listener = findListenerSocket_iff [OF t d(2)]
  have "\<not> (findNormalSocket t sid = Some p \<and> findListenerSocket t sid = Some l)"
    unfolding normal listener using d(3) nth_mem [of p "socks t"] map_of_SomeD [of "listenerTable t" "lport l" l] by fastforce
  then show ?thesis using normal listener by blast
qed

lemma socket_ids_witness:
  "findListenerSocket ((demo_node 0x0a010001)\<lparr>listenerTable := [(80, \<lparr>listenerId = 0, lport = 80\<rparr>)], socketNum := 0\<rparr>) 0 =
     Some \<lparr>listenerId = 0, lport = 80\<rparr>"
  using socket_ids [OF demo_node_listens, of 0 0 "\<lparr>listenerId = 0, lport = 80\<rparr>"] by (simp add: demo_node_def)

text \<open>
  The random port. It is one of 20000 to 65534 and in use by no listener and no connection; the search
  goes on exactly as long as every port it has drawn is in use, so it never ends when all are.
\<close>

theorem random_port:
  assumes "\<forall>n \<in> set draws. n < 45535"
  shows "case generateRandomPortNum t draws of
      Some port \<Rightarrow> 20000 \<le> unat port \<and> unat port < 65535 \<and> map_of (listenerTable t) port = None \<and>
        (\<forall>(ep, p) \<in> set (connTable t). LocalPort ep \<noteq> port)
    | None \<Rightarrow> \<forall>n \<in> set draws. isPortInUse t (of_nat (20000 + n))"
  using assms
proof (induction draws)
  case (Cons n draws)
  define q where "q = (of_nat (20000 + n) :: u16)"
  have n: "unat q = 20000 + n"
    unfolding q_def using Cons.prems by (simp add: unsigned_of_nat take_bit_nat_eq_self del: of_nat_add of_nat_numeral)
  have gen: "generateRandomPortNum t (n # draws) = (if isPortInUse t q then generateRandomPortNum t draws else Some q)"
    by (simp add: MIN_RANDOM_PORT_def q_def)
  show ?case
  proof (cases "isPortInUse t q")
    case True
    then show ?thesis using Cons unfolding gen by (simp add: q_def split: option.splits)
  next
    case False
    then show ?thesis using n Cons.prems unfolding gen by (auto simp: isPortInUse_def list_ex_iff)
  qed
qed simp

lemma random_port_witness:
  "generateRandomPortNum ((demo_node 1)\<lparr>listenerTable := [(20007, \<lparr>listenerId = 0, lport = 20007\<rparr>)]\<rparr>) [7, 9] = Some 20009 \<and>
   unat (20009 :: u16) < 65535"
  using random_port [of "[7, 9]" "(demo_node 1)\<lparr>listenerTable := [(20007, \<lparr>listenerId = 0, lport = 20007\<rparr>)]\<rparr>"]
  by (simp add: demo_node_def isPortInUse_def MIN_RANDOM_PORT_def)

section \<open>Connecting two nodes\<close>

lemma random_port_free: "generateRandomPortNum t draws = Some n \<Longrightarrow> \<not> isPortInUse t n"
  by (induction draws) (auto simp: Let_def split: if_splits)

lemma isPortInUse_map:
  "isPortInUse t n \<longleftrightarrow> map_of (listenerTable t) n \<noteq> None \<or> (\<exists>ep. map_of (connTable t) ep \<noteq> None \<and> LocalPort ep = n)"
proof -
  have "map_of (connTable t) ep \<noteq> None \<longleftrightarrow> (\<exists>p. (ep, p) \<in> set (connTable t))" for ep
    by (auto dest: map_of_SomeD weak_map_of_SomeI)
  then show ?thesis by (auto simp: isPortInUse_def list_ex_iff)
qed

lemma unused_port: "\<not> isPortInUse t (LocalPort ep) \<Longrightarrow> \<not> socketExists t ep"
  by (auto simp: isPortInUse_map socketExists_def)

lemma linked_conn: "conn a' = conn a \<Longrightarrow> conn b' = conn b \<Longrightarrow> linked (a', b') = linked (a, b)"
  by (simp add: linked_def)

text \<open>A handshake that succeeds: what \<^verbatim>\<open>VConnect\<close> and \<^verbatim>\<open>VAccept\<close> return.\<close>

lemma opens:
  fixes i r :: u32
  assumes t: "stack_ok t" and new: "\<not> socketExists t ep" "LocalAddr ep = localAddr t" and st: "st \<in> {SYN_SENT, SYN_RECEIVED}"
    and hs: "doHandshakes E rnd now (st = SYN_SENT) es 0 (opened (NewSocket (socketNum t + 1) i st ep r)) = ok (HsDone True s)"
    and s: "entry s = Mine"
  defines "p \<equiv> length (socks t)"
  shows "\<exists>t'. (let (p, t1) = newSocketIn t st ep r i in openSocket E rnd now (st = SYN_SENT) es ep p (bindSocket ep p t1)) =
      ok (Finished (Inr p) t') \<and> length (socks t') = p + 1 \<and> conn (tcb_at t' p) = conn s \<and> sent (socks t' ! p) = outs s \<and>
      started (socks t' ! p) = spawned s @ [HandleRTO] \<and> map_of (connTable t') = (map_of (connTable t))(ep \<mapsto> p) \<and>
      listenerTable t' = listenerTable t"
proof -
  note n = new_socket [OF t new st, of r i]
  let ?p = "fst (newSocketIn t st ep r i)" and ?t = "bindSocket ep (fst (newSocketIn t st ep r i)) (snd (newSocketIn t st ep r i))"
  have p: "?p < length (socks ?t)" using n(2,3) by simp
  let ?s = "spawn s HandleRTO"
  have "(let (p, t1) = newSocketIn t st ep r i in openSocket E rnd now (st = SYN_SENT) es ep p (bindSocket ep p t1)) =
      ok (Finished (Inr ?p) (put_tcb ?t ?p ?s))"
    using hs n(4) by (simp add: case_prod_beta openSocket_def)
  moreover have "conn (tcb_at (put_tcb ?t ?p ?s) ?p) = conn s" using put_tcb_sock(1) [OF p, of ?s ?p] by (simp add: tcb_at_def Let_def)
  moreover have "spawned ?s = spawned s @ [HandleRTO]" by (simp add: spawn_def)
  ultimately show ?thesis
    using put_tcb_sock(2,3) [OF p, of ?s ?p] n(2,3,5,7) s put_tcb_table [of ?t ?p ?s] unfolding p_def
    by (intro exI [of _ "put_tcb ?t ?p ?s"]) simp
qed

lemma waits:
  fixes i r :: u32
  assumes t: "stack_ok t" and new: "\<not> socketExists t ep" "LocalAddr ep = localAddr t" and st: "st \<in> {SYN_SENT, SYN_RECEIVED}"
    and hs: "doHandshakes E rnd now (st = SYN_SENT) es 0 (opened (NewSocket (socketNum t + 1) i st ep r)) = ok (HsWaiting s)"
  shows "\<exists>t'. (let (p, t1) = newSocketIn t st ep r i in openSocket E rnd now (st = SYN_SENT) es ep p (bindSocket ep p t1)) =
      ok (Unfinished t') \<and> sent (socks t' ! length (socks t)) = outs s"
proof -
  note n = new_socket [OF t new st, of r i]
  let ?p = "fst (newSocketIn t st ep r i)" and ?t = "bindSocket ep (fst (newSocketIn t st ep r i)) (snd (newSocketIn t st ep r i))"
  have p: "?p < length (socks ?t)" using n(2,3) by simp
  have "(let (p, t1) = newSocketIn t st ep r i in openSocket E rnd now (st = SYN_SENT) es ep p (bindSocket ep p t1)) =
      ok (Unfinished (put_tcb ?t ?p s))"
    using hs n(4) by (simp add: case_prod_beta openSocket_def)
  then show ?thesis using put_tcb_sock(3) [OF p, of s ?p] n(2) by auto
qed

text \<open>
  C10. One node connects to a port on which another listens. \<^verbatim>\<open>VConnect\<close> sends a SYN; \<^verbatim>\<open>VAccept\<close>, given the SYN,
  answers with a SYN+ACK; both calls return a socket once each has the other's answer; the two tables
  have the sockets under mirrored endpoints and are otherwise as before; and the two sockets agree on
  all sequence numbers and windows, in both directions.
\<close>

theorem dial_and_accept:
  assumes runs: "stack_run E rnd k a" "stack_run E rnd m b" and up: "net_up E (localAddr a)" "net_up E (localAddr b)"
    and local_port: "generateRandomPortNum a draws = Some n" and l: "map_of (listenerTable b) port = Some l"
    and free: "map_of (connTable b) \<lparr>LocalAddr = localAddr b, LocalPort = port, RemoteAddr = localAddr a, RemotePort = n\<rparr> = None"
    and i: "65535 \<le> unat i" "unat i + 65537 < 2 ^ 32" and j: "65535 \<le> unat j" "unat j + 65537 < 2 ^ 32"
  defines "epa \<equiv> \<lparr>LocalAddr = localAddr a, LocalPort = n, RemoteAddr = localAddr b, RemotePort = port\<rparr>"
    and "epb \<equiv> \<lparr>LocalAddr = localAddr b, LocalPort = port, RemoteAddr = localAddr a, RemotePort = n\<rparr>"
    and "p \<equiv> length (socks a)" and "q \<equiv> length (socks b)"
  shows "\<exists>syn synack ack a0 a' b'.
    VConnect E rnd now draws i [] a (localAddr b) port = ok (Unfinished a0) \<and> sent (socks a0 ! p) = [syn] \<and>
    VAccept E rnd now j [HsSegment ack] b l (syn, localAddr a) = ok (Finished (Inr q) b') \<and> sent (socks b' ! q) = [synack] \<and>
    VConnect E rnd now draws i [HsSegment synack] a (localAddr b) port = ok (Finished (Inr p) a') \<and> sent (socks a' ! p) = [syn, ack] \<and>
    map_of (connTable a') = (map_of (connTable a))(epa \<mapsto> p) \<and> map_of (connTable b') = (map_of (connTable b))(epb \<mapsto> q) \<and>
    linked (tcb_at a' p, tcb_at b' q) \<and> linked (tcb_at b' q, tcb_at a' p)"
proof -
  have ok: "stack_ok a" "stack_ok b" using runs stack_run_ok by blast+
  have newa: "\<not> socketExists a epa" using unused_port [of a epa] random_port_free [OF local_port] by (simp add: epa_def)
  have newb: "\<not> socketExists b epb" using free by (simp add: socketExists_def epb_def)
  have lp: "lport l = port" using ok(2) l by (simp add: stack_ok_def)
  have addr: "LocalAddr epa = localAddr a" "LocalAddr epb = localAddr b" "net_up E (RemoteAddr epa)" "net_up E (RemoteAddr epb)"
    using up by (simp_all add: epa_def epb_def)
  have sa: "SYN_SENT \<in> {SYN_SENT, SYN_RECEIVED}" and sb: "SYN_RECEIVED \<in> {SYN_SENT, SYN_RECEIVED}" by simp_all
  let ?c = "opened (NewSocket (socketNum a + 1) i SYN_SENT epa 0)"
  obtain syn synack ack s u where
    hs: "doHandshakes E rnd now True [] 0 ?c = ok (HsWaiting (emit ?c syn))" "Flags (TcpHeader syn) = TCPFlagSyn"
      "doHandshakes E rnd now True [HsSegment synack] 0 ?c = ok (HsDone True s)" "outs s = [syn, ack]"
      "doHandshakes E rnd now False [HsSegment ack] 0 (opened (NewSocket (socketNum b + 1) j SYN_RECEIVED epb (SeqNum (TcpHeader syn)))) =
         ok (HsDone True u)" "outs u = [synack]"
      "linked (s, u)" "linked (u, s)" "entry s = Mine" "entry u = Mine" "SrcPort (TcpHeader syn) = LocalPort epa"
    using handshake_exchange [OF addr(3,4) i j, of rnd now "socketNum a + 1" "socketNum b + 1"] by (auto simp: Let_def)
  have src: "SrcPort (TcpHeader syn) = n" using hs(11) by (simp add: epa_def)
  have connect: "VConnect E rnd now draws i es a (localAddr b) port =
      (let (p, t1) = newSocketIn a SYN_SENT epa 0 i in openSocket E rnd now True es epa p (bindSocket epa p t1))" for es
    using newa local_port by (simp add: VConnect_def epa_def Let_def)
  have accept: "VAccept E rnd now j es b l (syn, localAddr a) =
      (let (p, t1) = newSocketIn b SYN_RECEIVED epb (SeqNum (TcpHeader syn)) j in openSocket E rnd now False es epb p (bindSocket epb p t1))" for es
    using newb hs(2) src lp by (simp add: VAccept_def epb_def Let_def)
  obtain a0 where a0: "VConnect E rnd now draws i [] a (localAddr b) port = ok (Unfinished a0)" "sent (socks a0 ! p) = [syn]"
    using waits [OF ok(1) newa addr(1) sa, of E rnd now "[]" i 0] hs(1) unfolding connect p_def by auto
  obtain a' where a': "VConnect E rnd now draws i [HsSegment synack] a (localAddr b) port = ok (Finished (Inr p) a')"
      "sent (socks a' ! p) = [syn, ack]" "map_of (connTable a') = (map_of (connTable a))(epa \<mapsto> p)" "conn (tcb_at a' p) = conn s"
    using opens [OF ok(1) newa addr(1) sa, of E rnd now "[HsSegment synack]" i 0 s] hs(3,4,9) unfolding connect p_def by auto
  obtain b' where b': "VAccept E rnd now j [HsSegment ack] b l (syn, localAddr a) = ok (Finished (Inr q) b')"
      "sent (socks b' ! q) = [synack]" "map_of (connTable b') = (map_of (connTable b))(epb \<mapsto> q)" "conn (tcb_at b' q) = conn u"
    using opens [OF ok(2) newb addr(2) sb, of E rnd now "[HsSegment ack]" j "SeqNum (TcpHeader syn)" u] hs(5,6,10)
    unfolding accept q_def by auto
  show ?thesis using a0 a'(1-3) b'(1-3) hs(7,8) linked_conn [OF a'(4) b'(4)] linked_conn [OF b'(4) a'(4)] by blast
qed

lemma dial_and_accept_witness:
  "\<exists>a' b' syn synack ack.
     VConnect demo_env (\<lambda>x. x) 0 [7] 0x20000 [HsSegment synack] (demo_node 0x0a010001) (V4 0x0a010001) 80 = ok (Finished (Inr 0) a') \<and>
     VAccept demo_env (\<lambda>x. x) 0 0x30000 [HsSegment ack]
       ((demo_node 0x0a010001)\<lparr>listenerTable := [(80, \<lparr>listenerId = 0, lport = 80\<rparr>)], socketNum := 0\<rparr>)
       \<lparr>listenerId = 0, lport = 80\<rparr> (syn, V4 0x0a010001) = ok (Finished (Inr 0) b') \<and> linked (tcb_at a' 0, tcb_at b' 0)"
proof -
  have "generateRandomPortNum (demo_node 0x0a010001) [7] = Some 20007"
    by (simp add: demo_node_def isPortInUse_def MIN_RANDOM_PORT_def)
  from dial_and_accept [OF demo_node_starts [of demo_env "\<lambda>x. x"] demo_node_listens _ _ this, of 80 "\<lparr>listenerId = 0, lport = 80\<rparr>" "0x20000" "0x30000" 0]
  show ?thesis by (auto simp: demo_node_def demo_net_up)
qed

section \<open>A handshake that nobody answers\<close>

lemma handshake_gives_up:
  assumes "net_up E (RemoteAddr (endpoint (conn s)))" and "k + n = MAX_RETRANSMISSIONS + 1"
  shows "\<exists>s'. doHandshakes E rnd now a (replicate n HsTimeout) k s = ok (HsDone False s') \<and> entry s' = entry s \<and>
    state (conn s') = state (conn s) \<and> who (conn s') = who (conn s) \<and> spawned s' = spawned s \<and> rto_ok (conn s') = (n > 0 \<or> rto_ok (conn s)) \<and>
    (\<exists>ps. outs s' = outs s @ ps \<and> length ps = n \<and> (\<forall>p \<in> set ps. Flags (TcpHeader p) = (if a then TCPFlagSyn else TCPFlagSyn OR TCPFlagAck)))"
  using assms
proof (induction n arbitrary: k s)
  case 0
  then show ?case by (subst doHandshakes.simps) auto
next
  case (Suc n)
  let ?t = "set_conn (emit s (first_segment E a s)) ((conn s)\<lparr>rto := 3000\<rparr>)"
  have "k \<noteq> MAX_RETRANSMISSIONS + 1" using Suc.prems(2) by simp
  note step = handshake_timeout [OF Suc.prems(1) this]
  have "net_up E (RemoteAddr (endpoint (conn ?t)))" "k + 1 + n = MAX_RETRANSMISSIONS + 1" using Suc.prems by simp_all
  from Suc.IH [OF this] obtain s' ps where s': "doHandshakes E rnd now a (replicate n HsTimeout) (k + 1) ?t = ok (HsDone False s')"
      "entry s' = entry ?t" "state (conn s') = state (conn ?t)" "who (conn s') = who (conn ?t)" "spawned s' = spawned ?t"
      "rto_ok (conn s') = (n > 0 \<or> rto_ok (conn ?t))" "outs s' = outs ?t @ ps" "length ps = n"
      "\<forall>p \<in> set ps. Flags (TcpHeader p) = (if a then TCPFlagSyn else TCPFlagSyn OR TCPFlagAck)" by blast
  have "rto_ok (conn ?t)" by (simp add: rto_ok_def)
  then show ?case using s' step [of rnd now a "replicate n HsTimeout"]
    by (intro exI [of _ s'] conjI exI [of _ "first_segment E a s # ps"]) simp_all
qed

text \<open>
  C38. A connect that nobody answers. It sends four SYNs, waits each time for its timer, and then reports the
  error; the new socket is CLOSED, both tables are as before the call, and the port can be used again.
\<close>

theorem connect_times_out:
  assumes "stack_run E rnd k t" and up: "net_up E addr" and n: "generateRandomPortNum t draws = Some n"
  shows "\<exists>t'. VConnect E rnd now draws i (replicate 4 HsTimeout) t addr port = ok (Finished (Inl HandshakeFailed) t') \<and>
    map_of (connTable t') = map_of (connTable t) \<and> listenerTable t' = listenerTable t \<and> \<not> isPortInUse t' n \<and>
    length (socks t') = length (socks t) + 1 \<and> state (sconn (socks t' ! length (socks t))) = CLOSED \<and>
    map (Flags \<circ> TcpHeader) (sent (socks t' ! length (socks t))) = replicate 4 TCPFlagSyn"
proof -
  have ok: "stack_ok t" using assms(1) stack_run_ok by blast
  let ?ep = "\<lparr>LocalAddr = localAddr t, LocalPort = n, RemoteAddr = addr, RemotePort = port\<rparr>"
  have new: "\<not> socketExists t ?ep" using unused_port [of t ?ep] random_port_free [OF n] by simp
  have none: "map_of (connTable t) ?ep = None" using new by (simp add: socketExists_def)
  note ns = new_socket [OF ok new, of SYN_SENT 0 i, simplified]
  let ?t = "bindSocket ?ep (fst (newSocketIn t SYN_SENT ?ep 0 i)) (snd (newSocketIn t SYN_SENT ?ep 0 i))" and ?p = "length (socks t)"
  let ?c = "opened (NewSocket (socketNum t + 1) i SYN_SENT ?ep 0)"
  have "net_up E (RemoteAddr (endpoint (conn ?c)))" "0 + 4 = MAX_RETRANSMISSIONS + 1" using up by (simp_all add: MAX_RETRANSMISSIONS_def)
  from handshake_gives_up [OF this, of rnd now True] obtain s ps where
    s: "doHandshakes E rnd now True (replicate 4 HsTimeout) 0 ?c = ok (HsDone False s)" "entry s = Mine" "who (conn s) = who (conn ?c)"
      "outs s = ps" "length ps = 4" "\<forall>p \<in> set ps. Flags (TcpHeader p) = TCPFlagSyn" by auto
  have p: "?p < length (socks ?t)" using ns(3) by simp
  have ep: "endpoint (sconn (socks ?t ! ?p)) = ?ep" using arg_cong [OF ns(4), of conn] ns(2) by (simp add: tcb_at_def Let_def)
  let ?u = "put_tcb ?t ?p s"
  have tab: "map_of (connTable ?u) = (map_of (connTable t))(?ep \<mapsto> ?p)" using put_tcb_table [of ?t ?p s] s(2) ns(5) ns(2) by simp
  then obtain t' where t': "deleteSocketAt ?ep ?u = ok t'" by (simp add: deleteSocketAt_def)
  have hit: "map_of (connTable ?u) ?ep = Some ?p" using tab by simp
  note f = deleteSocketAt_fields [OF t' hit]
  have as_before: "map_of (connTable t') = map_of (connTable t)" using f(1) tab none by (simp add: fun_upd_idem)
  have "VConnect E rnd now draws i (replicate 4 HsTimeout) t addr port = ok (Finished (Inl HandshakeFailed) t')"
    using new n s(1) ns(2,4) t' by (simp add: VConnect_def Let_def case_prod_beta openSocket_def)
  moreover have "map (Flags \<circ> TcpHeader) ps = replicate 4 TCPFlagSyn" using s(5,6) by (auto intro: replicate_eqI)
  moreover have "\<not> isPortInUse t' n" using random_port_free [OF n] as_before f(2) ns(7) by (simp add: isPortInUse_map)
  ultimately show ?thesis using as_before f(2,5,6) ns(3,7) put_tcb_sock(3) [OF p, of s ?p] s(4) p
    by (intro exI [of _ t']) simp
qed

lemma connect_times_out_witness:
  "\<exists>t'. VConnect demo_env (\<lambda>x. x) 0 [7] 8 (replicate 4 HsTimeout) (demo_node 0x0a010001) (V4 0x0a010002) 80 =
     ok (Finished (Inl HandshakeFailed) t') \<and> map_of (connTable t') = Map.empty \<and> \<not> isPortInUse t' 20007"
proof -
  have "generateRandomPortNum (demo_node 0x0a010001) [7] = Some 20007"
    by (simp add: demo_node_def isPortInUse_def MIN_RANDOM_PORT_def)
  from connect_times_out [OF demo_node_starts [of demo_env "\<lambda>x. x"] demo_net_up [of "V4 0x0a010002"] this, of 0 8 80] show ?thesis
    by (auto simp: demo_node_def)
qed

end
