(* ===== verification/Tcp_Delivery.thy ===== *)
theory Tcp_Delivery imports Tcp_Stack begin

text \<open>
  From the sender's socket to the receiver's: \<^verbatim>\<open>send\<close> hands a segment to the IP layer, the IP layer takes it
  to the other node, and the handler there finds the socket it is for.
\<close>

unbundle bit_operations_syntax

section \<open>The documented behaviour of the TCP header codec\<close>

text \<open>
  Netstack's \<^verbatim>\<open>header.TCP\<close>: a header without options takes 20 bytes, and every accessor reads the field
  that \<^verbatim>\<open>Encode\<close> wrote, whatever follows the header.
\<close>

definition tcp_doc :: "env \<Rightarrow> bool" where
  "tcp_doc L \<longleftrightarrow> (\<forall>h rest. DataOffset h = DefaultTcpHeaderLen \<longrightarrow>
     length (Encode L h) = 20 \<and>
     td_SourcePort L (Encode L h @ rest) = ok (SrcPort h) \<and> td_DestinationPort L (Encode L h @ rest) = ok (DstPort h) \<and>
     td_SequenceNumber L (Encode L h @ rest) = ok (SeqNum h) \<and> td_AckNumber L (Encode L h @ rest) = ok (AckNum h) \<and>
     td_DataOffset L (Encode L h @ rest) = ok (DataOffset h) \<and> td_Flags L (Encode L h @ rest) = ok (Flags h) \<and>
     td_WindowSize L (Encode L h @ rest) = ok (TcpWindowSize h) \<and> td_Checksum L (Encode L h @ rest) = ok (TcpChecksum h))"

text \<open>What \<^verbatim>\<open>NewTCPacket\<close> makes.\<close>

definition plain_segment :: "TCPPacket \<Rightarrow> bool" where
  "plain_segment p \<longleftrightarrow> DataOffset (TcpHeader p) = DefaultTcpHeaderLen \<and> UrgentPointer (TcpHeader p) = 0 \<and> length (TPayload p) \<le> MSS"

lemma NewTCPacket_plain: "length d \<le> MSS \<Longrightarrow> plain_segment (NewTCPacket sp dp seq ack fl d w)"
  by (simp add: plain_segment_def NewTCPacket_def)

lemma UnmarshalTCP_Encode:
  assumes "tcp_doc E" and "plain_segment p"
  shows "UnmarshalTCP E (Encode E (TcpHeader p) @ TPayload p) = ok p"
proof -
  have o: "DataOffset (TcpHeader p) = 20" "UrgentPointer (TcpHeader p) = 0"
    using assms(2) by (simp_all add: plain_segment_def DefaultTcpHeaderLen_def)
  have doc: "length (Encode E (TcpHeader p)) = 20" "ParseTCPHeader E (Encode E (TcpHeader p) @ TPayload p) = ok (TcpHeader p)"
    using assms(1) o unfolding tcp_doc_def by (simp_all add: ParseTCPHeader_def DefaultTcpHeaderLen_def)
  then show ?thesis using o by (simp add: UnmarshalTCP_def)
qed

section \<open>Demultiplexing\<close>

text \<open>The socket that a segment with the given addresses is for.\<close>

definition route_segment :: "TCPGlobalInfo \<Rightarrow> Addr \<Rightarrow> Addr \<Rightarrow> TCPPacket \<Rightarrow> dispatch" where
  "route_segment t src dst p =
     (let ep = \<lparr>LocalAddr = dst, LocalPort = DstPort (TcpHeader p), RemoteAddr = src, RemotePort = SrcPort (TcpHeader p)\<rparr>
      in case map_of (connTable t) ep of
           Some q \<Rightarrow> ToConn q p
         | None \<Rightarrow> (case map_of (listenerTable t) (DstPort (TcpHeader p)) of None \<Rightarrow> Discard | Some l \<Rightarrow> ToListener l p src))"

lemma table_open:
  "stack_ok t \<Longrightarrow> map_of (connTable t) ep = Some q \<longleftrightarrow>
    q < length (socks t) \<and> endpoint (sconn (socks t ! q)) = ep \<and> state (sconn (socks t ! q)) \<noteq> CLOSED"
  by (auto simp: stack_ok_def sock_ok_def Let_def)

lemma tcpRecvHandler_cases:
  assumes "slice_to (Payload ip) (TotalLen (Header ip) - Len (Header ip)) = ok data" and "UnmarshalTCP E data = ok p"
    and "ValidTCPChecksum E p (Src (Header ip)) (Dst (Header ip)) = ok (valid, p')"
  shows "tcpRecvHandler E t ip =
    ok (if valid \<and> localAddr t = Dst (Header ip) then route_segment t (Src (Header ip)) (Dst (Header ip)) p' else Discard)"
  using assms by (simp add: tcpRecvHandler_def route_segment_def Let_def split: option.splits)

lemma ValidTCPChecksum_ok:
  "\<exists>valid. ValidTCPChecksum E p src dst = ok (valid, p\<lparr>TcpHeader := (TcpHeader p)\<lparr>TcpChecksum := 0\<rparr>\<rparr>)"
proof -
  obtain c where "ComputeTCPChecksum E ((TcpHeader p)\<lparr>TcpChecksum := 0\<rparr>) src dst (TPayload p) = ok c" using ComputeTCPChecksum_ok by blast
  then show ?thesis by (simp add: ValidTCPChecksum_def)
qed

text \<open>The segment that went out, its checksum being the one computed over it, is valid where it arrives.\<close>

lemma sent_segment:
  assumes "send_packet E p src dst = ok (True, p1)"
  shows "\<exists>c. p1 = p\<lparr>TcpHeader := (TcpHeader p)\<lparr>TcpChecksum := c\<rparr>\<rparr> \<and>
    ValidTCPChecksum E p1 src dst = ok (True, p\<lparr>TcpHeader := (TcpHeader p)\<lparr>TcpChecksum := 0\<rparr>\<rparr>) \<and>
    ip_send E dst (Encode E (TcpHeader p1) @ TPayload p1) ProtoNumTCP = ok True"
proof -
  obtain c where c: "ComputeTCPChecksum E ((TcpHeader p)\<lparr>TcpChecksum := 0\<rparr>) src dst (TPayload p) = ok c" using ComputeTCPChecksum_ok by blast
  then show ?thesis using assms
    by (auto simp: send_packet_def Let_def bindG_eq_ok_iff ValidTCPChecksum_def intro!: exI [of _ c])
qed

section \<open>TCP over IP\<close>

text \<open>The IP layer of a node as the TCP layer calls it.\<close>

definition over_ip :: "netlib \<Rightarrow> (nat \<Rightarrow> Prefix list) \<Rightarrow> IPGlobalInfo \<Rightarrow> env \<Rightarrow> env" where
  "over_ip L orders s E =
     E\<lparr>ip_send := \<lambda>dst b proto. bindG (IPSend L orders s dst b proto) (\<lambda>(err, out, s'). ok (err = None))\<rparr>"

lemma over_ip_codec [simp]:
  "UnmarshalTCP (over_ip L orders s E) d = UnmarshalTCP E d" "ValidTCPChecksum (over_ip L orders s E) p x y = ValidTCPChecksum E p x y"
  "Encode (over_ip L orders s E) = Encode E" "tcpRecvHandler (over_ip L orders s E) t ip = tcpRecvHandler E t ip"
proof -
  show d: "UnmarshalTCP (over_ip L orders s E) d = UnmarshalTCP E d" for d
    by (simp add: UnmarshalTCP_def ParseTCPHeader_def over_ip_def)
  show v: "ValidTCPChecksum (over_ip L orders s E) p x y = ValidTCPChecksum E p x y" for p x y
    by (simp add: ValidTCPChecksum_def ComputeTCPChecksum_def over_ip_def)
  show "Encode (over_ip L orders s E) = Encode E" by (simp add: over_ip_def)
  show "tcpRecvHandler (over_ip L orders s E) t ip = tcpRecvHandler E t ip" by (simp add: tcpRecvHandler_def d v)
qed

section \<open>Properties\<close>

text \<open>
  C24. Where the handler sends a segment, on every branch and on every node the program reaches. It goes to a
  connection exactly if its checksum is right, the packet is for this node and that connection is open
  with the segment's addresses and ports; to a listener exactly if, besides, no such connection
  is open and a listener has its port; and is dropped otherwise.
\<close>

theorem demultiplex:
  assumes "stack_run E rnd k t"
    and "slice_to (Payload ip) (TotalLen (Header ip) - Len (Header ip)) = ok data" and "UnmarshalTCP E data = ok p"
  shows "\<exists>valid p'. ValidTCPChecksum E p (Src (Header ip)) (Dst (Header ip)) = ok (valid, p') \<and>
    (let ep = \<lparr>LocalAddr = Dst (Header ip), LocalPort = DstPort (TcpHeader p), RemoteAddr = Src (Header ip), RemotePort = SrcPort (TcpHeader p)\<rparr>;
         is_open = (\<lambda>q. q < length (socks t) \<and> endpoint (sconn (socks t ! q)) = ep \<and> state (sconn (socks t ! q)) \<noteq> CLOSED)
     in (\<forall>q. tcpRecvHandler E t ip = ok (ToConn q p') \<longleftrightarrow> valid \<and> localAddr t = Dst (Header ip) \<and> is_open q) \<and>
        (\<forall>l. tcpRecvHandler E t ip = ok (ToListener l p' (Src (Header ip))) \<longleftrightarrow>
           valid \<and> localAddr t = Dst (Header ip) \<and> (\<nexists>q. is_open q) \<and> map_of (listenerTable t) (DstPort (TcpHeader p)) = Some l) \<and>
        (tcpRecvHandler E t ip = ok Discard \<longleftrightarrow>
           \<not> valid \<or> localAddr t \<noteq> Dst (Header ip) \<or> (\<nexists>q. is_open q) \<and> map_of (listenerTable t) (DstPort (TcpHeader p)) = None))"
proof -
  let ?ep = "\<lparr>LocalAddr = Dst (Header ip), LocalPort = DstPort (TcpHeader p), RemoteAddr = Src (Header ip), RemotePort = SrcPort (TcpHeader p)\<rparr>"
  let ?open = "\<lambda>q. q < length (socks t) \<and> endpoint (sconn (socks t ! q)) = ?ep \<and> state (sconn (socks t ! q)) \<noteq> CLOSED"
  have tab: "map_of (connTable t) ?ep = Some q \<longleftrightarrow> ?open q" for q
    using stack_run_ok [OF assms(1)] table_open by blast
  obtain valid where v: "ValidTCPChecksum E p (Src (Header ip)) (Dst (Header ip)) = ok (valid, p\<lparr>TcpHeader := (TcpHeader p)\<lparr>TcpChecksum := 0\<rparr>\<rparr>)"
    using ValidTCPChecksum_ok by blast
  let ?p' = "p\<lparr>TcpHeader := (TcpHeader p)\<lparr>TcpChecksum := 0\<rparr>\<rparr>"
  have run: "tcpRecvHandler E t ip =
      ok (if valid \<and> localAddr t = Dst (Header ip) then route_segment t (Src (Header ip)) (Dst (Header ip)) ?p' else Discard)"
    using tcpRecvHandler_cases [OF assms(2,3) v] .
  have none: "map_of (connTable t) ?ep = None \<longleftrightarrow> (\<nexists>q. ?open q)" using tab by (metis option.exhaust option.distinct(1))
  have to: "route_segment t (Src (Header ip)) (Dst (Header ip)) ?p' = (case map_of (connTable t) ?ep of Some q \<Rightarrow> ToConn q ?p'
      | None \<Rightarrow> (case map_of (listenerTable t) (DstPort (TcpHeader p)) of None \<Rightarrow> Discard | Some l \<Rightarrow> ToListener l ?p' (Src (Header ip))))"
    by (simp add: route_segment_def Let_def split: option.splits)
  show ?thesis
    unfolding Let_def run to tab [symmetric] none [symmetric]
    by (intro exI [of _ valid] exI [of _ ?p'] conjI allI v) (auto split: option.splits)
qed

text \<open>
  C9. A segment from socket to socket. What \<^verbatim>\<open>send\<close> hands to the IP layer of one node goes out as one datagram;
  the IP layer of the node that owns the destination address hands it to the TCP handler; and the
  handler sends the segment, its checksum verified and then cleared, to the socket with the mirrored
  endpoint, as it was sent. A header whose IP checksum comes out as \<open>0\<close> is lost on the way.
\<close>

theorem segment_delivery:
  assumes docs: "checksum_doc L" "header_doc L" "tcp_doc E" and p: "plain_segment p"
    and route: "FindLinkLayerSrcDst orders s (V4 d) = ok (Inr (i, remote))"
    and sender: "\<not> isDown i" "bound i" "AssignedIP i = V4 a" "\<forall>b. WriteToUDP L b remote"
    and receiver: "AssignedIP j = V4 d" "\<not> isDown j" "recvHandlers r ProtoNumTCP = Some TcpRecvHandler" "localAddr t = V4 d"
  shows "\<exists>p1 s' dgram. send_packet (over_ip L orders s E) p (V4 a) (V4 d) = ok (True, p1) \<and>
    IPSend L orders s (V4 d) (Encode E (TcpHeader p1) @ TPayload p1) ProtoNumTCP = ok (None, [(UDPAddr i, remote, dgram)], s') \<and>
    (if header_checksum L (newHeader (V4 a) (V4 d) (Encode E (TcpHeader p1) @ TPayload p1) ProtoNumTCP) = 0
     then listenOnStep L r j dgram = ok Dropped
     else \<exists>ip. listenOnStep L r j dgram = ok (Handled TcpRecvHandler ip) \<and>
       tcpRecvHandler E t ip = ok (route_segment t (V4 a) (V4 d) (p\<lparr>TcpHeader := (TcpHeader p)\<lparr>TcpChecksum := 0\<rparr>\<rparr>)))"
proof -
  let ?E = "over_ip L orders s E"
  have sent: "\<exists>s' dgram. IPSend L orders s (V4 d) msg ProtoNumTCP = ok (None, [(UDPAddr i, remote, dgram)], s') \<and> length dgram \<le> MTU \<and>
      listenOnStep L r j dgram = ok (if header_checksum L (newHeader (V4 a) (V4 d) msg ProtoNumTCP) = 0 then Dropped
        else Handled TcpRecvHandler \<lparr>Header = (newHeader (V4 a) (V4 d) msg ProtoNumTCP)\<lparr>TTL := 31,
            HChecksum := uint (header_checksum L (newHeader (V4 a) (V4 d) msg ProtoNumTCP))\<rparr>,
          Payload = take 1380 msg @ replicate (1380 - length msg) 0\<rparr>)" for msg
    by (rule ip_delivered [OF refl docs(1,2) route sender _ receiver(1-3)]) simp
  have "\<exists>p1. send_packet ?E p (V4 a) (V4 d) = ok (True, p1)"
  proof -
    obtain c where "ComputeTCPChecksum ?E ((TcpHeader p)\<lparr>TcpChecksum := 0\<rparr>) (V4 a) (V4 d) (TPayload p) = ok c" using ComputeTCPChecksum_ok by blast
    moreover have "ip_send ?E (V4 d) msg ProtoNumTCP = ok True" for msg using sent [of msg] by (auto simp: over_ip_def)
    ultimately show ?thesis by (simp add: send_packet_def Let_def)
  qed
  then obtain p1 where p1: "send_packet ?E p (V4 a) (V4 d) = ok (True, p1)" by blast
  then obtain c where c: "p1 = p\<lparr>TcpHeader := (TcpHeader p)\<lparr>TcpChecksum := c\<rparr>\<rparr>"
      "ValidTCPChecksum E p1 (V4 a) (V4 d) = ok (True, p\<lparr>TcpHeader := (TcpHeader p)\<lparr>TcpChecksum := 0\<rparr>\<rparr>)"
    using sent_segment [OF p1] by auto
  let ?m = "Encode E (TcpHeader p1) @ TPayload p1"
  have plain: "plain_segment p1" using p by (simp add: plain_segment_def c(1))
  have "length (Encode E (TcpHeader p1)) = 20" using docs(3) plain by (simp add: tcp_doc_def plain_segment_def)
  moreover have "length (TPayload p1) \<le> 1360" using plain by (simp add: plain_segment_def MSS_value)
  ultimately have len: "length ?m \<le> 1380" by simp
  let ?h = "newHeader (V4 a) (V4 d) ?m ProtoNumTCP"
  let ?ip = "\<lparr>Header = ?h\<lparr>TTL := 31, HChecksum := uint (header_checksum L ?h)\<rparr>, Payload = take 1380 ?m @ replicate (1380 - length ?m) 0\<rparr>"
  have cut: "slice_to (Payload ?ip) (TotalLen (Header ?ip) - Len (Header ?ip)) = ok ?m"
    using len by (simp add: slice_to_def newHeader_def DefaultIpHeaderLen_def MTU_def)
  have v: "ValidTCPChecksum E p1 (Src (Header ?ip)) (Dst (Header ?ip)) = ok (True, p\<lparr>TcpHeader := (TcpHeader p)\<lparr>TcpChecksum := 0\<rparr>\<rparr>)"
    using c(2) by (simp add: newHeader_def)
  have handled: "tcpRecvHandler E t ?ip = ok (route_segment t (V4 a) (V4 d) (p\<lparr>TcpHeader := (TcpHeader p)\<lparr>TcpChecksum := 0\<rparr>\<rparr>))"
    using tcpRecvHandler_cases [OF cut UnmarshalTCP_Encode [OF docs(3) plain] v, of t] receiver(4) by (simp add: newHeader_def)
  obtain s' dgram where d: "IPSend L orders s (V4 d) ?m ProtoNumTCP = ok (None, [(UDPAddr i, remote, dgram)], s')"
      "listenOnStep L r j dgram = ok (if header_checksum L ?h = 0 then Dropped else Handled TcpRecvHandler ?ip)"
    using sent [of ?m] by blast
  show ?thesis
  proof (intro exI [of _ p1] exI [of _ s'] exI [of _ dgram] conjI p1 d(1))
    show "if header_checksum L ?h = 0 then listenOnStep L r j dgram = ok Dropped
      else \<exists>ip. listenOnStep L r j dgram = ok (Handled TcpRecvHandler ip) \<and>
        tcpRecvHandler E t ip = ok (route_segment t (V4 a) (V4 d) (p\<lparr>TcpHeader := (TcpHeader p)\<lparr>TcpChecksum := 0\<rparr>\<rparr>))"
      using d(2) handled by (cases "header_checksum L ?h = 0") simp_all
  qed
qed

text \<open>A codec that does what the documentation says.\<close>

definition demo_codec :: env where
  "demo_codec = demo_env\<lparr>
     Encode := \<lambda>h. PutUint16 (SrcPort h) @ PutUint16 (DstPort h) @ PutUint32 (SeqNum h) @ PutUint32 (AckNum h) @
       [of_nat (DataOffset h * 4), Flags h] @ PutUint16 (TcpWindowSize h) @ PutUint16 (TcpChecksum h) @ PutUint16 (UrgentPointer h),
     td_SourcePort := \<lambda>b. Uint16 (take 2 b), td_DestinationPort := \<lambda>b. Uint16 (take 2 (drop 2 b)),
     td_SequenceNumber := \<lambda>b. Uint32 (take 4 (drop 4 b)), td_AckNumber := \<lambda>b. Uint32 (take 4 (drop 8 b)),
     td_DataOffset := \<lambda>b. ok (unat (b ! 12) div 4), td_Flags := \<lambda>b. ok (b ! 13),
     td_WindowSize := \<lambda>b. Uint16 (take 2 (drop 14 b)), td_Checksum := \<lambda>b. Uint16 (take 2 (drop 16 b))\<rparr>"

lemma demo_codec_doc: "tcp_doc demo_codec"
  unfolding tcp_doc_def
  by (intro allI impI) (simp add: demo_codec_def DefaultTcpHeaderLen_def nth_append)

definition demo_syn :: TCPPacket where
  "demo_syn = (NewTCPacket 20007 80 8 0 TCPFlagSyn [] 100)\<lparr>TcpHeader := (TcpHeader (NewTCPacket 20007 80 8 0 TCPFlagSyn [] 100))\<lparr>TcpChecksum := 0xffff\<rparr>\<rparr>"

lemma demo_syn_fields: "plain_segment demo_syn" "DstPort (TcpHeader demo_syn) = 80" "SrcPort (TcpHeader demo_syn) = 20007" "TPayload demo_syn = []"
    "DataOffset (TcpHeader demo_syn) = 20" "TcpChecksum (TcpHeader demo_syn) = 0xffff"
  by (simp_all add: demo_syn_def plain_segment_def NewTCPacket_def DefaultTcpHeaderLen_def)

text \<open>A packet with a SYN for port 80 from \<open>src\<close>, which passes the checks of the handler.\<close>

definition demo_ip :: "Addr \<Rightarrow> IPPacket" where
  "demo_ip src = \<lparr>Header = newHeader src (V4 0x0a010001) (Encode demo_codec (TcpHeader demo_syn)) ProtoNumTCP,
     Payload = Encode demo_codec (TcpHeader demo_syn)\<rparr>"

lemma demo_ip_checked:
  "slice_to (Payload (demo_ip src)) (TotalLen (Header (demo_ip src)) - Len (Header (demo_ip src))) = ok (Encode demo_codec (TcpHeader demo_syn))"
  "UnmarshalTCP demo_codec (Encode demo_codec (TcpHeader demo_syn)) = ok demo_syn"
  "ValidTCPChecksum demo_codec demo_syn x y = ok (True, demo_syn\<lparr>TcpHeader := (TcpHeader demo_syn)\<lparr>TcpChecksum := 0\<rparr>\<rparr>)"
  "Src (Header (demo_ip src)) = src" "Dst (Header (demo_ip src)) = V4 0x0a010001"
proof -
  let ?data = "Encode demo_codec (TcpHeader demo_syn)"
  have "length ?data = 20" using demo_codec_doc demo_syn_fields(5) by (simp add: tcp_doc_def DefaultTcpHeaderLen_def)
  then show "slice_to (Payload (demo_ip src)) (TotalLen (Header (demo_ip src)) - Len (Header (demo_ip src))) = ok ?data"
    by (simp add: demo_ip_def slice_to_def newHeader_def DefaultIpHeaderLen_def MTU_def)
  show "UnmarshalTCP demo_codec ?data = ok demo_syn"
    using UnmarshalTCP_Encode [OF demo_codec_doc demo_syn_fields(1)] demo_syn_fields(4) by simp
  have "ComputeTCPChecksum demo_codec h x y d = ok 0xffff" for h d
  proof -
    obtain c where c: "ComputeTCPChecksum demo_codec h x y d = ok c" using ComputeTCPChecksum_ok by blast
    then have "c = 0 XOR 0xffff" by (auto simp: ComputeTCPChecksum_def bindG_eq_ok_iff Let_def demo_codec_def demo_env_def)
    then show ?thesis using c by simp
  qed
  then show "ValidTCPChecksum demo_codec demo_syn x y = ok (True, demo_syn\<lparr>TcpHeader := (TcpHeader demo_syn)\<lparr>TcpChecksum := 0\<rparr>\<rparr>)"
    using demo_syn_fields(6) by (simp add: ValidTCPChecksum_def)
  show "Src (Header (demo_ip src)) = src" "Dst (Header (demo_ip src)) = V4 0x0a010001" by (simp_all add: demo_ip_def newHeader_def)
qed

lemma demultiplex_witness:
  "\<exists>p'. tcpRecvHandler demo_codec ((demo_node 0x0a010001)\<lparr>listenerTable := [(80, \<lparr>listenerId = 0, lport = 80\<rparr>)], socketNum := 0\<rparr>)
      (demo_ip (V4 9)) = ok (ToListener \<lparr>listenerId = 0, lport = 80\<rparr> p' (V4 9))"
proof -
  let ?t = "(demo_node 0x0a010001)\<lparr>listenerTable := [(80, \<lparr>listenerId = 0, lport = 80\<rparr>)], socketNum := 0\<rparr>"
  have "localAddr ?t = V4 0x0a010001" "socks ?t = []" "map_of (listenerTable ?t) 80 = Some \<lparr>listenerId = 0, lport = 80\<rparr>"
    by (simp_all add: demo_node_def)
  then show ?thesis
    using demultiplex [OF demo_node_listens demo_ip_checked(1,2), of "V4 9"] demo_ip_checked(3) [of "V4 9" "V4 0x0a010001"] demo_syn_fields(2)
    by (auto simp: Let_def demo_ip_checked(4,5))
qed

lemma segment_delivery_witness:
  "\<exists>p1 s' dgram. send_packet (over_ip demo_lib demo_orders demo_host demo_codec) demo_syn (V4 0x0a010001) (V4 0x0a01000a) = ok (True, p1) \<and>
    IPSend demo_lib demo_orders demo_host (V4 0x0a01000a) (Encode demo_codec (TcpHeader p1) @ TPayload p1) ProtoNumTCP =
      ok (None, [(UDPAddr (demo_if 0x0a010001), (V4 0x7f000001, 6001), dgram)], s')"
  using segment_delivery [OF demo_checksum_doc demo_header_doc demo_codec_doc demo_syn_fields(1) demo_route, where a = "0x0a010001" and
      j = "demo_if 0x0a01000a" and r = "RegisterRecvHandler demo_host ProtoNumTCP TcpRecvHandler" and t = "demo_node 0x0a01000a"]
  by (simp add: demo_if_def demo_lib_def RegisterRecvHandler_def demo_node_def) blast

end
