(* ===== verification/Tcp_Repl.thy ===== *)
theory Tcp_Repl imports Tcp_Delivery Netip_Text begin

text \<open>
  The TCP commands of a host (\<^verbatim>\<open>tcp_repl.go\<close>): the parsing of a command line, the handlers of the commands, and
  the loops with which \<^verbatim>\<open>sf\<close> and \<^verbatim>\<open>rf\<close> send and receive a file. What the handlers print is left out.
\<close>

section \<open>The handlers\<close>

datatype repl_error =
    Usage | CannotOpen | BadAddress | NotANumber | OutOfRange int | NegativeCount | NoSuchSocket int
  | StackError stack_error | ConnError tcp_error

text \<open>
  \<open>acceptHandler\<close> returns the listener: the goroutine that it starts calls \<^verbatim>\<open>VAccept\<close> on it for ever.
  \<open>connectHandler\<close> panics on what is no address.
\<close>

definition acceptHandler :: "TCPGlobalInfo \<Rightarrow> string \<Rightarrow> (repl_error + VTCPListener) \<times> TCPGlobalInfo" where
  "acceptHandler t input =
     (let args = words input
      in if length args \<noteq> 2 then (Inl Usage, t)
         else (case Atoi (args ! 1) of
             None \<Rightarrow> (Inl NotANumber, t)
           | Some port \<Rightarrow>
               if \<not> IsUint16 port then (Inl (OutOfRange port), t)
               else (case VListen t (word_of_int port) of
                   (Inl e, t') \<Rightarrow> (Inl (StackError e), t')
                 | (Inr l, t') \<Rightarrow> (Inr l, t'))))"

definition connectHandler ::
    "env \<Rightarrow> (rat \<Rightarrow> rat) \<Rightarrow> int \<Rightarrow> (string \<Rightarrow> Addr option) \<Rightarrow> nat list \<Rightarrow> u32 \<Rightarrow> hs_event list \<Rightarrow> TCPGlobalInfo \<Rightarrow> string
      \<Rightarrow> (repl_error + (stack_error + nat) call) go" where
  "connectHandler E rnd now p6 draws startSeq events t input =
     (let args = words input
      in if length args \<noteq> 3 then ok (Inl Usage)
         else (case Atoi (args ! 2) of
             None \<Rightarrow> ok (Inl NotANumber)
           | Some port \<Rightarrow>
               if \<not> IsUint16 port then ok (Inl (OutOfRange port))
               else bindG (MustParseAddr p6 (args ! 1)) (\<lambda>addr.
                 bindG (VConnect E rnd now draws startSeq events t addr (word_of_int port)) (\<lambda>r. ok (Inr r)))))"

definition closeHandler :: "env \<Rightarrow> int \<Rightarrow> TCPGlobalInfo \<Rightarrow> string \<Rightarrow> (repl_error option \<times> TCPGlobalInfo) go" where
  "closeHandler E now t input =
     (let args = words input
      in if length args \<noteq> 2 then ok (Some Usage, t)
         else (case Atoi (args ! 1) of
             None \<Rightarrow> ok (Some NotANumber, t)
           | Some sid \<Rightarrow> (case findListenerSocket t (word_of_int sid) of
               Some l \<Rightarrow> (let (e, t') = CloseListener t l in ok (map_option StackError e, t'))
             | None \<Rightarrow> (case findNormalSocket t (word_of_int sid) of
                 Some p \<Rightarrow> bindG (VClose E now (tcb_at t p)) (\<lambda>(e, s). ok (map_option ConnError e, put_tcb t p s))
               | None \<Rightarrow> ok (Some (NoSuchSocket sid), t)))))"

text \<open>\<open>Inl\<close>: the error; \<open>Inr\<close>: what is printed. \<open>None\<close>: the call waits.\<close>

definition readBytesHandler :: "TCPGlobalInfo \<Rightarrow> string \<Rightarrow> ((repl_error + int \<times> bytes) \<times> TCPGlobalInfo) option go" where
  "readBytesHandler t input =
     (let args = words input
      in if length args \<noteq> 3 then ok (Some (Inl Usage, t))
         else (case Atoi (args ! 1) of
             None \<Rightarrow> ok (Some (Inl NotANumber, t))
           | Some sid \<Rightarrow> (case Atoi (args ! 2) of
               None \<Rightarrow> ok (Some (Inl NegativeCount, t))
             | Some n \<Rightarrow>
                 if n < 0 then ok (Some (Inl NegativeCount, t))
                 else (case findNormalSocket t (word_of_int sid) of
                     None \<Rightarrow> ok (Some (Inl (NoSuchSocket sid), t))
                   | Some p \<Rightarrow> bindG (VRead (sconn (socks t ! p)) (replicate (nat n) 0)) (\<lambda>r. case r of
                         VReadBlocks \<Rightarrow> ok None
                       | VReadDone k err buf c \<Rightarrow>
                           let t' = set_sock t p (\<lambda>_. c)
                           in ok (Some (case err of Some e \<Rightarrow> Inl (ConnError e) | None \<Rightarrow> Inr (k, buf), t')))))))"

definition sendBytesHandler :: "TCPGlobalInfo \<Rightarrow> string \<Rightarrow> ((repl_error + nat) option \<times> TCPGlobalInfo) go" where
  "sendBytesHandler t input =
     (let args = words input
      in if length args \<noteq> 3 then ok (Some (Inl Usage), t)
         else (case Atoi (args ! 1) of
             None \<Rightarrow> ok (Some (Inl NotANumber), t)
           | Some sid \<Rightarrow> (case findNormalSocket t (word_of_int sid) of
               None \<Rightarrow> ok (Some (Inl (NoSuchSocket sid)), t)
             | Some p \<Rightarrow> bindG (VWrite (sconn (socks t ! p)) (map of_char (args ! 2))) (\<lambda>r. case r of
                   VWriteWaits k c \<Rightarrow> ok (None, set_sock t p (\<lambda>_. c))
                 | VWriteDone k err c \<Rightarrow>
                     ok (Some (case err of Some e \<Rightarrow> Inl (ConnError e) | None \<Rightarrow> Inr k), set_sock t p (\<lambda>_. c))))))"

section \<open>Sending and receiving a file\<close>

text \<open>
  The loop of \<^verbatim>\<open>sf\<close>. \<open>reads\<close> is what the reads of the file give up to its end or to an error; both close
  the connection. \<open>SfWaits\<close>: a write waits for room in the send buffer.
\<close>

datatype sf_result = SfClosed nat "tcp_error option" tcb | SfFailed nat tcp_error tcb | SfWaits nat tcb

fun sendFile_loop :: "env \<Rightarrow> int \<Rightarrow> bytes list \<Rightarrow> nat \<Rightarrow> tcb \<Rightarrow> sf_result go" where
  "sendFile_loop E now [] bytesWritten s = bindG (VClose E now s) (\<lambda>(e, s'). ok (SfClosed bytesWritten e s'))"
| "sendFile_loop E now (buf # reads) bytesWritten s =
     bindG (VWrite (conn s) buf) (\<lambda>r. case r of
         VWriteWaits k c \<Rightarrow> ok (SfWaits (bytesWritten + k) (set_conn s c))
       | VWriteDone w (Some e) c \<Rightarrow> ok (SfFailed bytesWritten e (set_conn s c))
       | VWriteDone w None c \<Rightarrow> sendFile_loop E now reads (bytesWritten + w) (set_conn s c))"

text \<open>\<^verbatim>\<open>Truncate\<close> cuts a file or fills it up with zeros.\<close>

definition truncate_to :: "nat \<Rightarrow> bytes \<Rightarrow> bytes" where
  "truncate_to n f = take n f @ replicate (n - length f) 0"

text \<open>The loop of \<^verbatim>\<open>rf\<close>, which reads the receive buffer until the end of the stream.\<close>

datatype rf_result = RfDone bytes VTCPConn | RfFailed bytes buf_error VTCPConn | RfWaits bytes VTCPConn

partial_function (option) readFile_loop :: "VTCPConn \<Rightarrow> bytes \<Rightarrow> u32 \<Rightarrow> rf_result go option" where
  "readFile_loop c f totalBytesRead =
     (case Read (recvBuf c) (replicate MSS 0) of
        Inl e \<Rightarrow> Some (Inl e)
      | Inr ReadBlocks \<Rightarrow> Some (ok (RfWaits f c))
      | Inr (ReadDone bytesRead err buf rb) \<Rightarrow>
          let c' = c\<lparr>recvBuf := rb, windowSize := windowSize c + bytesRead\<rparr>;
              f' = f @ take (unat bytesRead) buf;
              total = totalBytesRead + bytesRead
          in (case err of
                None \<Rightarrow> readFile_loop c' f' total
              | Some e \<Rightarrow>
                  if e = EOF then Some (ok (RfDone (truncate_to (unat (total - 1)) f') c'))
                  else Some (ok (RfFailed f' e c'))))"

text \<open>The beginning of \<^verbatim>\<open>rf\<close>: it accepts one connection, and takes its listener away when that fails.\<close>

definition readFile_accept ::
    "env \<Rightarrow> (rat \<Rightarrow> rat) \<Rightarrow> int \<Rightarrow> u32 \<Rightarrow> hs_event list \<Rightarrow> TCPGlobalInfo \<Rightarrow> VTCPListener \<Rightarrow> TCPPacket \<times> Addr \<Rightarrow> (stack_error + nat) call go" where
  "readFile_accept E rnd now startSeq events t l pair =
     bindG (VAccept E rnd now startSeq events t l pair) (\<lambda>r. ok (case r of
         Finished (Inl e) t' \<Rightarrow> Finished (Inl e) (deleteListener (lport l) t')
       | _ \<Rightarrow> r))"

text \<open>The end of \<^verbatim>\<open>rf\<close>: the listener and the connection are closed.\<close>

definition readFile_close :: "env \<Rightarrow> int \<Rightarrow> TCPGlobalInfo \<Rightarrow> VTCPListener \<Rightarrow> nat \<Rightarrow> (stack_error option \<times> tcp_error option \<times> TCPGlobalInfo) go" where
  "readFile_close E now t l p =
     (let (e, t1) = CloseListener t l
      in bindG (VClose E now (tcb_at t1 p)) (\<lambda>(e', s). ok (e, e', put_tcb t1 p s)))"

text \<open>
  The parts of \<^verbatim>\<open>sf\<close> and \<^verbatim>\<open>rf\<close> before the loops. \<open>can_open\<close> says whether the file could be opened; \<^verbatim>\<open>rf\<close> does not
  check the range of the port.
\<close>

definition sendFileHandler ::
    "env \<Rightarrow> (rat \<Rightarrow> rat) \<Rightarrow> int \<Rightarrow> (string \<Rightarrow> Addr option) \<Rightarrow> (string \<Rightarrow> bool) \<Rightarrow> nat list \<Rightarrow> u32 \<Rightarrow> hs_event list \<Rightarrow> TCPGlobalInfo \<Rightarrow> string
      \<Rightarrow> (repl_error + (stack_error + nat) call) go" where
  "sendFileHandler E rnd now p6 can_open draws startSeq events t input =
     (let args = words input
      in if length args \<noteq> 4 then ok (Inl Usage)
         else if \<not> can_open (args ! 1) then ok (Inl CannotOpen)
         else (case ParseAddr p6 (args ! 2) of
             None \<Rightarrow> ok (Inl BadAddress)
           | Some addr \<Rightarrow> (case Atoi (args ! 3) of
               None \<Rightarrow> ok (Inl NotANumber)
             | Some port \<Rightarrow>
                 if \<not> IsUint16 port then ok (Inl (OutOfRange port))
                 else bindG (VConnect E rnd now draws startSeq events t addr (word_of_int port)) (\<lambda>r. ok (Inr r)))))"

definition readFileHandler :: "(string \<Rightarrow> bool) \<Rightarrow> TCPGlobalInfo \<Rightarrow> string \<Rightarrow> (repl_error + VTCPListener) \<times> TCPGlobalInfo" where
  "readFileHandler can_open t input =
     (let args = words input
      in if length args \<noteq> 3 then (Inl Usage, t)
         else if \<not> can_open (args ! 1) then (Inl CannotOpen, t)
         else (case Atoi (args ! 2) of
             None \<Rightarrow> (Inl NotANumber, t)
           | Some port \<Rightarrow> (case VListen t (word_of_int port) of
               (Inl e, t') \<Rightarrow> (Inl (StackError e), t')
             | (Inr l, t') \<Rightarrow> (Inr l, t'))))"

section \<open>Reading a file to its end\<close>

lemma after_read_flags: "finRecvd (after_read b k) = finRecvd b" "nxt (after_read b k) = nxt b"
  by (simp_all add: after_read_def)

lemma take_butlast: "n \<noteq> 0 \<Longrightarrow> length f = n \<Longrightarrow> truncate_to (n - 1) f = butlast f"
  by (simp add: truncate_to_def butlast_conv_take)

lemma readFile_end:
  assumes "rb_wf (recvBuf c)" and "finRecvd (recvBuf c)" and "length f + length (contents (recvBuf c)) < 2 ^ 32"
    and "f @ contents (recvBuf c) \<noteq> []"
  shows "\<exists>c'. readFile_loop c f (of_nat (length f)) = Some (ok (RfDone (butlast (f @ contents (recvBuf c))) c')) \<and>
    contents (recvBuf c') = []"
  using assms
proof (induction "length (contents (recvBuf c))" arbitrary: c f rule: less_induct)
  case less
  let ?b = "recvBuf c" and ?buf = "replicate MSS (0 :: u8)"
  have buf: "?buf \<noteq> []" "length ?buf < 2 ^ 31" "length ?buf = 1360" by (simp_all add: MSS_value)
  show ?case
  proof (cases "contents ?b = []")
    case True
    have r: "Read ?b ?buf = Inr (ReadDone 0 (Some EOF) ?buf ?b)" using Read_empty [OF less.prems(1) True buf(1)] less.prems(2) by (simp add: ok_def)
    have ne: "length f \<noteq> 0" using less.prems(4) True by simp
    have "unat (of_nat (length f) - 1 :: u32) = length f - 1"
    proof -
      have "of_nat (length f) - 1 = (of_nat (length f - 1) :: u32)" using ne by (cases "length f") simp_all
      then show ?thesis using less.prems(3) by (simp add: unat_of_nat_small)
    qed
    then show ?thesis
      using r True take_butlast [OF ne refl] by (subst readFile_loop.simps) (simp add: Let_def)
  next
    case False
    define k where "k = min 1360 (unread ?b)"
    let ?c = "c\<lparr>recvBuf := after_read ?b k, windowSize := windowSize c + of_nat k\<rparr>" and ?f = "f @ take k (contents ?b)"
    have k: "0 < k" "k \<le> unread ?b" "k \<le> 1360" using False by (simp_all add: k_def contents_Nil_iff)
    have r: "Read ?b ?buf = Inr (ReadDone (of_nat k) None (take k (contents ?b) @ drop k ?buf) (after_read ?b k))"
      using Read_contents [OF less.prems(1) False buf(2,1)] unfolding buf(3) k_def [symmetric] by (simp add: ok_def)
    note a = after_read_wf [OF less.prems(1) k(2,1)]
    have u: "unat (of_nat k :: u32) = k" using k(3) by (simp add: unat_of_nat_small)
    have len: "length (take k (contents ?b)) = k" using k(2) by simp
    have step: "readFile_loop c f (of_nat (length f)) = readFile_loop ?c ?f (of_nat (length ?f))"
      using r u len by (subst readFile_loop.simps) (simp add: Let_def)
    have "length (contents (recvBuf ?c)) < length (contents ?b)" using a(3) k by simp
    moreover have "?f @ contents (recvBuf ?c) = f @ contents ?b" using a(2) by simp
    moreover have "length ?f + length (contents (recvBuf ?c)) = length f + length (contents ?b)" using a(2) k(2) by simp
    ultimately show ?thesis
      using less.hyps [of ?c ?f] a(1) less.prems(2-4) unfolding step by (simp add: after_read_flags)
  qed
qed

section \<open>Properties\<close>

lemma rb_limit_linked:
  assumes l: "linked (a, b)" and flushed: "stored (conn a) = []" and lim: "unat (lbw (sendBuf (conn a))) + 65537 < 2 ^ 32"
  shows "1 < rb_limit (recvBuf (conn b))" and "unat (expectedSeqNum (conn b)) + 1 + unat (windowSize (conn b)) < 2 ^ 32"
    and "rb_wf (recvBuf (conn b))" "nxt (recvBuf (conn b)) = expectedSeqNum (conn b)" "\<not> finRecvd (recvBuf (conn b))"
proof -
  have b: "rcv_side (conn b)" "expectedSeqNum (conn b) = sndNxt (conn a)" "snd_side (conn a)" using l by (simp_all add: linked_def)
  show rb: "rb_wf (recvBuf (conn b))" "nxt (recvBuf (conn b)) = expectedSeqNum (conn b)" "\<not> finRecvd (recvBuf (conn b))"
    using b(1) by (simp_all add: rcv_side_def rcv_ok_def)
  have s: "sb_wf (conn a)" "sndNxt (conn a) = sndUna (conn a)" using b(3) by (simp_all add: snd_side_def)
  have e: "unat (expectedSeqNum (conn b)) + 65537 < 2 ^ 32"
    unfolding b(2) using lim sb_wf_order(3) [OF s(1)] by simp
  have w: "unat (windowSize (conn b)) \<le> 65535" using b(1) rcv_ok_window(2) by (simp add: rcv_side_def)
  then show "unat (expectedSeqNum (conn b)) + 1 + unat (windowSize (conn b)) < 2 ^ 32" using e by linarith
  have "65535 \<le> unat (expectedSeqNum (conn b))" unfolding b(2) s(2) using b(3) by (simp add: snd_side_def)
  then have "expectedSeqNum (conn b) \<noteq> 0" by auto
  then show "1 < rb_limit (recvBuf (conn b))" using rb_limit_seq [of "conn b"] b(1) e by (simp add: rcv_side_def)
qed



text \<open>
  C37. A reader that waits is not told of the end of the stream. When the FIN arrives in order, the buffer is marked
  and its place is counted, so that a read that starts now returns at once; but no token goes to the
  channel on which a reader of the empty buffer waits, and since nothing is written after the FIN, none ever will.
\<close>

theorem waiting_reader_misses_fin:
  assumes wf: "rb_wf (recvBuf (conn s))" and waits: "Read (recvBuf (conn s)) buf = ok ReadBlocks"
    and room: "2 \<le> free (recvBuf (conn s))" and lim: "1 < rb_limit (recvBuf (conn s))" and len: "length buf < 2 ^ 31"
    and seq: "SeqNum (TcpHeader p) = nxt (recvBuf (conn s))" and fin: "handleFin E p s = ok (r, s')"
  shows "canRead (recvBuf (conn s')) = 0 \<and> (\<exists>x rb. Read (recvBuf (conn s')) buf = ok (ReadDone 1 None (x # tl buf) rb) \<and>
    Read rb buf = ok (ReadDone 0 (Some EOF) buf rb))"
proof -
  let ?b = "recvBuf (conn s)"
  have b': "recvBuf (conn s') = AdvanceNxt ?b (nxt ?b) True"
    using fin seq sendAck_keeps by (fastforce simp: handleFin_def Let_def bindG_eq_ok_iff)
  have buf: "buf \<noteq> []" and tok: "canRead ?b = 0" and empty: "contents ?b = []"
    using waits Read_contents [OF wf _ len] by (auto simp: Read_def bindG_eq_ok_iff split: if_splits)
  obtain x where x: "rb_wf (recvBuf (conn s'))" "contents (recvBuf (conn s')) = [x]"
    using fin_with_room [OF wf room lim] empty unfolding b' by auto
  have un: "unread (recvBuf (conn s')) = 1" using x(2) length_contents [of "recvBuf (conn s')"] by simp
  have k: "min (length buf) 1 = 1" using buf by (cases buf) simp_all
  let ?rb = "after_read (recvBuf (conn s')) 1"
  have r: "Read (recvBuf (conn s')) buf = ok (ReadDone 1 None (x # tl buf) ?rb)"
    using Read_contents [OF x(1) _ len buf] x(2) unfolding un k by (simp add: drop_Suc)
  note a = after_read_wf [OF x(1), of 1]
  have "rb_wf ?rb" "contents ?rb = []" using a un x(2) by (simp_all)
  moreover have "finRecvd ?rb" by (simp add: after_read_flags b' AdvanceNxt_def)
  ultimately have "Read ?rb buf = ok (ReadDone 0 (Some EOF) buf ?rb)" using Read_empty buf by simp
  then show ?thesis using r tok by (auto simp: b' AdvanceNxt_def)
qed

lemma waiting_reader_misses_fin_witness:
  "\<exists>s' x rb. handleFin demo_env (NewTCPacket 20000 80 0x20001 0x30001 (TCPFlagFin OR TCPFlagAck) [] 65535) (snd demo_pair) = ok (None, s') \<and>
     Read (recvBuf (conn (snd demo_pair))) [0, 0] = ok ReadBlocks \<and> canRead (recvBuf (conn s')) = 0 \<and>
     Read (recvBuf (conn s')) [0, 0] = ok (ReadDone 1 None [x, 0] rb) \<and> Read rb [0, 0] = ok (ReadDone 0 (Some EOF) [0, 0] rb)"
proof -
  let ?p = "NewTCPacket 20000 80 0x20001 0x30001 (TCPFlagFin OR TCPFlagAck) [] 65535" and ?s = "snd demo_pair"
  have b: "rb_wf (recvBuf (conn ?s))" "\<not> finRecvd (recvBuf (conn ?s))" "nxt (recvBuf (conn ?s)) = 0x20001"
      "unat (capacity (recvBuf (conn ?s))) = 65535"
    using demo_rcv_ok(1) by (simp_all add: rcv_ok_def BUFFER_CAPACITY_def) (simp add: demo_pair_def demo_tcb_def)
  have w: "Read (recvBuf (conn ?s)) [0, 0] = ok ReadBlocks" using Read_empty [OF b(1) demo_rcv_ok(2)] b(2) by simp
  have room: "2 \<le> free (recvBuf (conn ?s))" using demo_rcv_ok(3) by simp
  have lim: "1 < rb_limit (recvBuf (conn ?s))" by (simp add: rb_limit_def b(3))
  have up: "net_up demo_env (RemoteAddr (endpoint (conn ?s)))" using demo_linked(2) by (simp add: links_up_def)
  obtain s' where f: "handleFin demo_env ?p ?s = ok (None, s')"
    using up by (auto simp: handleFin_def Let_def sendAck_up)
  have seq: "SeqNum (TcpHeader ?p) = nxt (recvBuf (conn ?s))" by (simp add: b(3) NewTCPacket_def)
  show ?thesis
    using waiting_reader_misses_fin [OF b(1) w room lim _ seq f] f w by auto
qed

end
