(* ===== verification/Host.thy ===== *)
theory Host imports Ip_Repl Tcp_Repl Config_Parser begin

text \<open>
  A host (\<^verbatim>\<open>pkg/vhost/vhost.go\<close>, \<^verbatim>\<open>cmd/vhost\<close>): how it is built from its configuration, the rows of its socket table
  (\<^verbatim>\<open>tcp_print.go\<close>), the table of TCP commands, and the console that \<^verbatim>\<open>main\<close> combines from both layers.
\<close>

section \<open>The socket table\<close>

fun stateString :: "State \<Rightarrow> string" where
  "stateString CLOSED = ''CLOSED''"
| "stateString LISTEN = ''LISTEN''"
| "stateString SYN_RECEIVED = ''SYN_RECEIVED''"
| "stateString SYN_SENT = ''SYN_SENT''"
| "stateString ESTABLISHED = ''ESTABLISHED''"
| "stateString FIN_WAIT_1 = ''FIN_WAIT_1''"
| "stateString FIN_WAIT_2 = ''FIN_WAIT_2''"
| "stateString CLOSING = ''CLOSING''"
| "stateString TIME_WAIT = ''TIME_WAIT''"
| "stateString CLOSE_WAIT = ''CLOSE_WAIT''"
| "stateString LAST_ACK = ''LAST_ACK''"

definition row :: "string list \<Rightarrow> string" where
  "row cells = join tab cells @ [nl]"

definition GetSocketTableString :: "(Addr \<Rightarrow> string) \<Rightarrow> TCPGlobalInfo \<Rightarrow> string list" where
  "GetSocketTableString t6 t =
     map (\<lambda>(port, l). row [show_int (sint (listenerId l)), ''0.0.0.0'' @ [tab], show_nat (unat (lport l)), ''0.0.0.0'' @ [tab], ''0'', ''LISTEN''])
       (listenerTable t) @
     map (\<lambda>(ep, p). let c = sconn (socks t ! p)
       in row [show_int (sint (socketId c)), Addr_text t6 (LocalAddr (endpoint c)), show_nat (unat (LocalPort (endpoint c))),
               Addr_text t6 (RemoteAddr (endpoint c)), show_nat (unat (RemotePort (endpoint c))), stateString (state c)])
       (connTable t)"

datatype ls_result = LsUsage | LsWriteError "string list" | LsDone "string list"

definition lsHandler :: "(nat \<Rightarrow> bool) \<Rightarrow> (Addr \<Rightarrow> string) \<Rightarrow> TCPGlobalInfo \<Rightarrow> string \<Rightarrow> ls_result" where
  "lsHandler w t6 t input =
     (if length (words input) \<noteq> 1 then LsUsage
      else let (b, out) = write_all w 0
             ((''SID'' @ [tab] @ ''LAddr'' @ [tab, tab] @ ''LPort'' @ [tab] @ ''RAddr'' @ [tab, tab] @ ''RPort'' @ [tab] @ ''Status'' @ [nl])
              # GetSocketTableString t6 t)
           in if b then LsDone out else LsWriteError out)"

section \<open>The commands of a host\<close>

datatype tcp_command = Accept_cmd | Ls_cmd | Connect_cmd | Close_cmd | Read_cmd | Send_cmd | SendFile_cmd | ReadFile_cmd

definition TcpRepl :: "(tcp_command \<Rightarrow> 'h) \<Rightarrow> 'h REPL" where
  "TcpRepl wrap =
     (AddCommand ''rf'' (wrap ReadFile_cmd) ''Read a file into the destination file on a listening port. usage: rf <dest file> <port>'' \<circ>
      AddCommand ''sf'' (wrap SendFile_cmd) ''Send file to destination addr port. usage: sf <file path> <dst addr> <dst port>'' \<circ>
      AddCommand ''s'' (wrap Send_cmd) ''Send n bytes of data on a socket. usage: s <socket ID> <bytes to send>'' \<circ>
      AddCommand ''r'' (wrap Read_cmd) ''Read n bytes of data on a socket. usage: r <socket ID> <numbytes>'' \<circ>
      AddCommand ''cl'' (wrap Close_cmd) ''Closes a socket. usage: cl <socket ID>'' \<circ>
      AddCommand ''c'' (wrap Connect_cmd) ''Creates a new socket that connects to the specified virtual IP address and port. usage: c <vip> <port>'' \<circ>
      AddCommand ''ls'' (wrap Ls_cmd) ''Lists all sockets. usage: ls'' \<circ>
      AddCommand ''a'' (wrap Accept_cmd) ''Listens and accpets a port. usage: a <port>'') NewRepl"

datatype host_command = Ip ip_command | Tcp tcp_command

definition host_repl :: "string list \<Rightarrow> string list \<Rightarrow> host_command REPL option" where
  "host_repl ipOrder tcpOrder = CombineRepls [(IpRepl Ip, ipOrder), (TcpRepl Tcp, tcpOrder)]"

section \<open>Building a host\<close>

text \<open>\<^verbatim>\<open>vhost.New\<close>: \<open>order\<close> is the order in which \<^verbatim>\<open>tcpstack.Init\<close> meets the interfaces; \<open>None\<close> is its error.\<close>

definition newHost :: "string list \<Rightarrow> IPConfig \<Rightarrow> (TCPGlobalInfo \<times> IPGlobalInfo) option" where
  "newHost order config =
     (case InitTCP order (Init config) of
        None \<Rightarrow> None
      | Some (t, ip) \<Rightarrow> Some (t, RegisterRecvHandler ip ProtoNumTest HostTestRecvHandler))"

text \<open>\<^verbatim>\<open>main\<close> up to the start of the node: the file, the host and its console; \<open>None\<close> when it gives up.\<close>

definition start_host ::
    "(string \<Rightarrow> Addr option) \<Rightarrow> string list \<Rightarrow> string list \<Rightarrow> string list \<Rightarrow> string option
      \<Rightarrow> (TCPGlobalInfo \<times> IPGlobalInfo \<times> host_command REPL) option go" where
  "start_host p6 order ipOrder tcpOrder file =
     bindG (ParseConfig p6 file) (\<lambda>res. case res of
         Inl err \<Rightarrow> ok None
       | Inr config \<Rightarrow> (case newHost order config of
             None \<Rightarrow> ok None
           | Some (t, ip) \<Rightarrow> (case host_repl ipOrder tcpOrder of
                 None \<Rightarrow> ok None
               | Some r \<Rightarrow> ok (Some (t, ip, r)))))"

section \<open>Lemmas\<close>

lemma TcpRepl_wf: "repl_wf (TcpRepl wrap)"
  by (simp add: TcpRepl_def)

lemma TcpRepl_commands: "Commands (TcpRepl wrap) =
    [''a'' \<mapsto> Some (wrap Accept_cmd), ''ls'' \<mapsto> Some (wrap Ls_cmd), ''c'' \<mapsto> Some (wrap Connect_cmd), ''cl'' \<mapsto> Some (wrap Close_cmd),
     ''r'' \<mapsto> Some (wrap Read_cmd), ''s'' \<mapsto> Some (wrap Send_cmd), ''sf'' \<mapsto> Some (wrap SendFile_cmd), ''rf'' \<mapsto> Some (wrap ReadFile_cmd)]"
  by (simp add: TcpRepl_def AddCommand_def NewRepl_def)

lemma TcpRepl_help: "dom (Help (TcpRepl wrap)) = {''a'', ''ls'', ''c'', ''cl'', ''r'', ''s'', ''sf'', ''rf''}"
  by (auto simp: TcpRepl_def AddCommand_def NewRepl_def split: if_splits)

text \<open>An order in which the help texts of a table can be traversed.\<close>

definition order_of :: "'h REPL \<Rightarrow> string list \<Rightarrow> bool" where
  "order_of r ks \<longleftrightarrow> distinct ks \<and> set ks = dom (Help r)"

lemma host_tables:
  assumes "order_of (IpRepl Ip) io" and "order_of (TcpRepl Tcp) tio"
  shows "\<exists>r. host_repl io tio = Some r \<and> Commands r = Commands (IpRepl Ip) ++ Commands (TcpRepl Tcp)"
proof -
  have "list_all ordered_table [(IpRepl Ip, io), (TcpRepl Tcp, tio)]"
    using assms by (simp add: ordered_table_def order_of_def IpRepl_wf TcpRepl_wf)
  moreover have "tables_disjoint [IpRepl Ip, TcpRepl Tcp]"
    by (simp only: tables_disjoint.simps list.set ball_simps IpRepl_help TcpRepl_help) auto
  ultimately show ?thesis unfolding host_repl_def by (subst CombineRepls_spec) simp_all
qed

lemma Interfaces_Init:
  "Interfaces (Init config) n = map_option (\<lambda>c. \<lparr>Name = n, AssignedIP = cfgAssignedIP c, AssignedPrefix = cfgAssignedPrefix c,
      UDPAddr = cfgUDPAddr c, isDown = False, bound = False\<rparr>) (find (\<lambda>c. cfgName c = n) (rev (cfgInterfaces config)))"
proof -
  have n: "Interfaces (foldl initNeighbor s ns) = Interfaces s" for s ns
    by (induction ns arbitrary: s) (simp_all add: initNeighbor_def)
  have r: "Interfaces (initRoutes s m) = Interfaces s" for s m by (simp add: initRoutes_def)
  have i: "Interfaces (foldl initInterface s cs) n = (case find (\<lambda>c. cfgName c = n) (rev cs) of
      None \<Rightarrow> Interfaces s n
    | Some c \<Rightarrow> Some \<lparr>Name = n, AssignedIP = cfgAssignedIP c, AssignedPrefix = cfgAssignedPrefix c,
      UDPAddr = cfgUDPAddr c, isDown = False, bound = False\<rparr>)" for s cs
    by (induction cs rule: rev_induct) (auto simp: initInterface_def)
  show ?thesis by (simp add: Init_def Let_def n r i split: option.split)
qed

lemma recvHandlers_Init: "recvHandlers (Init config) = Map.empty"
proof -
  have "recvHandlers (foldl initNeighbor s ns) = recvHandlers s" for s ns
    by (induction ns arbitrary: s) (simp_all add: initNeighbor_def)
  moreover have "recvHandlers (foldl initInterface s cs) = recvHandlers s" for s cs
    by (induction cs arbitrary: s) (simp_all add: initInterface_def)
  ultimately show ?thesis by (simp add: Init_def Let_def initRoutes_def)
qed

lemma Interfaces_Init_mem:
  assumes "Interfaces (Init config) n = Some i"
  shows "\<exists>c \<in> set (cfgInterfaces config). AssignedIP i = cfgAssignedIP c \<and> AssignedPrefix i = cfgAssignedPrefix c"
  using assms find_SomeD [of _ "rev (cfgInterfaces config)"] by (fastforce simp: Interfaces_Init)

lemma Interfaces_Init_empty: "dom (Interfaces (Init config)) = {} \<longleftrightarrow> cfgInterfaces config = []"
proof (cases "cfgInterfaces config" rule: rev_cases)
  case Nil
  then show ?thesis by (auto simp: Interfaces_Init)
next
  case (snoc cs c)
  then have "Interfaces (Init config) (cfgName c) \<noteq> None" by (simp add: Interfaces_Init)
  then show ?thesis using snoc by fastforce
qed

text \<open>The commands of a host, by their triggers.\<close>

definition host_commands :: "(string \<times> host_command) list" where
  "host_commands =
     [(''ln'', Ip Ln), (''li'', Ip Li), (''lr'', Ip Lr), (''up'', Ip Up), (''down'', Ip Down), (''send'', Ip SendMsg),
      (''a'', Tcp Accept_cmd), (''ls'', Tcp Ls_cmd), (''c'', Tcp Connect_cmd), (''cl'', Tcp Close_cmd), (''r'', Tcp Read_cmd),
      (''s'', Tcp Send_cmd), (''sf'', Tcp SendFile_cmd), (''rf'', Tcp ReadFile_cmd)]"

lemma host_command_for:
  assumes "Commands r = Commands (IpRepl Ip) ++ Commands (TcpRepl Tcp)"
  shows "command_for r input = map_option Some (map_of host_commands (hd (words (TrimSpace input))))"
  unfolding command_for_def assms IpRepl_commands TcpRepl_commands
  by (simp add: host_commands_def map_add_def)



end
