(* ===== verification/Stream_Receiver.thy ===== *)
theory Stream_Receiver imports Tcp_Transfer begin

text \<open>
  The receiving end of a byte stream on a network that loses, repeats, delays and reorders segments:
  what the handler of \<open>Tcp_State\<close> does with any segment that the other end has ever sent. The segments of
  one sender tile its stream: none begins inside another.
\<close>

section \<open>Segments of a stream\<close>

definition seg_at :: "TCPPacket \<Rightarrow> nat" where
  "seg_at p = unat (SeqNum (TcpHeader p))"

definition seg_end :: "TCPPacket \<Rightarrow> nat" where
  "seg_end p = seg_at p + length (TPayload p)"

definition stream_at :: "nat \<Rightarrow> bytes \<Rightarrow> nat \<Rightarrow> u8" where
  "stream_at base st n = st ! (n - base)"

lemma span_stream:
  assumes "base \<le> a" and "b \<le> base + length st"
  shows "span (stream_at base st) a b = take (b - a) (drop (a - base) st)"
  using assms by (intro nth_equalityI) (auto simp: span_def stream_at_def)

definition carries :: "nat \<Rightarrow> bytes \<Rightarrow> u32 \<Rightarrow> TCPPacket \<Rightarrow> bool" where
  "carries base st R p \<longleftrightarrow> base \<le> seg_at p \<and> seg_end p \<le> base + length st \<and>
     TPayload p = span (stream_at base st) (seg_at p) (seg_end p) \<and>
     AckNum (TcpHeader p) = R \<and> Flags (TcpHeader p) = TCPFlagAck"

definition whole :: "TCPPacket set \<Rightarrow> nat \<Rightarrow> bool" where
  "whole P n \<longleftrightarrow> (\<forall>p \<in> P. seg_at p < n \<longrightarrow> seg_end p \<le> n)"

definition tiled :: "TCPPacket set \<Rightarrow> bool" where
  "tiled P \<longleftrightarrow> (\<forall>p \<in> P. whole P (seg_at p) \<and> whole P (seg_end p))"

lemma wholeD: "whole P n \<Longrightarrow> p \<in> P \<Longrightarrow> seg_at p < n \<Longrightarrow> seg_end p \<le> n"
  by (simp add: whole_def)

lemma carries_append:
  assumes "carries base st R p"
  shows "carries base (st @ w) R p"
proof -
  have "span (stream_at base (st @ w)) (seg_at p) (seg_end p) = span (stream_at base st) (seg_at p) (seg_end p)"
    using assms by (auto simp: span_def stream_at_def carries_def nth_append)
  then show ?thesis using assms by (simp add: carries_def)
qed

lemma carries_honest: "carries base st R p \<Longrightarrow> base + length st < 2 ^ 32 \<Longrightarrow> honest (stream_at base st) p"
  by (auto simp: carries_def honest_def seg_at_def seg_end_def)

text \<open>What a merge may end in: the stream up to a new place, or the one panic the loop is capable of.\<close>

definition merges :: "nat \<Rightarrow> bytes \<Rightarrow> TCPPacket set \<Rightarrow> nat \<Rightarrow> nat \<Rightarrow> nat \<Rightarrow> Item list \<Rightarrow> (bytes \<times> Item list) go \<Rightarrow> bool" where
  "merges base st P a lo hi q r \<longleftrightarrow> r = panic SliceBounds \<or>
     (\<exists>e q'. r = ok (span (stream_at base st) a e, q') \<and> lo \<le> e \<and> e \<le> hi \<and> e \<le> base + length st \<and> whole P e \<and>
        ivalue ` set q' \<subseteq> ivalue ` set q)"

lemma mergesI:
  "lo \<le> e \<Longrightarrow> e \<le> hi \<Longrightarrow> e \<le> base + length st \<Longrightarrow> whole P e \<Longrightarrow> ivalue ` set q' \<subseteq> ivalue ` set q \<Longrightarrow>
   merges base st P a lo hi q (ok (span (stream_at base st) a e, q'))"
  by (auto simp: merges_def)

lemma merges_mono:
  assumes "merges base st P a lo' hi q' r" and "lo \<le> lo'" and "ivalue ` set q' \<subseteq> ivalue ` set q"
  shows "merges base st P a lo hi q r"
proof -
  consider "r = panic SliceBounds" | e q1 where "r = ok (span (stream_at base st) a e, q1)" "lo' \<le> e" "e \<le> hi" "e \<le> base + length st"
      "whole P e" "ivalue ` set q1 \<subseteq> ivalue ` set q'"
    using assms(1) by (auto simp: merges_def)
  then show ?thesis
  proof cases
    case 2
    then show ?thesis using assms(2,3) by (simp add: mergesI order_trans [OF _ assms(3)])
  qed (simp add: merges_def)
qed

lemma aggLoop_whole:
  assumes net: "\<forall>p \<in> P. carries base st R p" "tiled P" and lim: "base + length st < 2 ^ 32"
    and items: "ivalue ` set q \<subseteq> P" "\<forall>i \<in> set q. seg_end (ivalue i) \<le> unat start + unat wnd"
    and wnd: "0 < unat wnd" "unat wnd < 2 ^ 31" and start: "a \<le> unat start" "whole P (unat start)" "unat start \<le> base + length st"
  shows "\<exists>r. aggLoop q (span (stream_at base st) a (unat start)) start wnd = Some r \<and>
    merges base st P a (unat start) (unat start + unat wnd) q r"
  using items wnd start
proof (induction "length q" arbitrary: q start wnd)
  case 0
  then show ?case by (simp add: aggLoop.simps mergesI)
next
  case (Suc n)
  obtain x r where q: "q = x # r" using Suc.hyps(2) by (cases q) auto
  let ?p = "ivalue x" and ?st = "stream_at base st"
  let ?seq = "SeqNum (TcpHeader ?p)" and ?len = "length (TPayload ?p)"
  let ?stop = "?seq + of_nat ?len"
  have p: "?p \<in> P" using Suc.prems(1) q by simp
  then have c: "carries base st R ?p" using net(1) by blast
  then have hon: "honest ?st ?p" using lim by (rule carries_honest)
  then have fin: "unat ?stop = seg_end ?p" "unat ?seq = seg_at ?p" "seg_end ?p = seg_at ?p + ?len" "seg_end ?p < 2 ^ 32"
    by (simp_all add: honest_def seg_at_def seg_end_def unat_plus_nat)
  have edge: "seg_end ?p \<le> unat start + unat wnd" using Suc.prems(2) q by simp
  obtain x' r' where pop: "HeapPop q = ok (x', r')" "length r' = n" "mset (map ivalue r') = mset (map ivalue r)"
    using HeapPop_segments [of x r] Suc.hyps(2) q by auto
  have set': "ivalue ` set r' = ivalue ` set r" using mset_eq_setD [OF pop(3)] by simp
  then have r': "ivalue ` set r' \<subseteq> P" "ivalue ` set r' \<subseteq> ivalue ` set q" using Suc.prems(1) q by auto
  have edge': "seg_end (ivalue i) \<le> unat start + unat wnd" if "i \<in> set r'" for i
  proof -
    have "ivalue i \<in> ivalue ` set q" using that r'(2) by auto
    then show ?thesis using Suc.prems(2) by auto
  qed
  consider "seg_end ?p < unat start" | "unat start \<le> seg_end ?p" "unat start < seg_at ?p"
    | "seg_at ?p < unat start" "seg_end ?p = unat start" "unat wnd < ?len"
    | "seg_at ?p \<le> unat start" "unat start \<le> seg_end ?p" "?len \<le> unat wnd"
  proof (cases "seg_at ?p < unat start")
    case True
    then have "seg_end ?p \<le> unat start" using wholeD [OF Suc.prems(6) p] by simp
    then show ?thesis using that True by linarith
  next
    case False
    then show ?thesis using that edge fin(3) by linarith
  qed
  then show ?case
  proof cases
    case 1
    have "aggLoop q (span ?st a (unat start)) start wnd = aggLoop r' (span ?st a (unat start)) start wnd"
      using 1 pop(1) fin(1) by (subst aggLoop.simps) (simp add: q ok_def Let_def word_less_nat_alt)
    moreover obtain res where "aggLoop r' (span ?st a (unat start)) start wnd = Some res"
        "merges base st P a (unat start) (unat start + unat wnd) r' res"
      using Suc.hyps(1) [OF pop(2) [symmetric] r'(1) ballI [OF edge'] Suc.prems(3-7)] by blast
    ultimately show ?thesis using merges_mono [OF _ order_refl r'(2)] by auto
  next
    case 2
    then have "aggLoop q (span ?st a (unat start)) start wnd = Some (ok (span ?st a (unat start), q))"
      using fin(1,2) by (subst aggLoop.simps) (simp add: q Let_def word_less_nat_alt)
    then show ?thesis using Suc.prems(6,7) by (simp add: mergesI)
  next
    case 3
    have "?seq \<le> start" using 3(1) fin(2) by (simp add: word_le_nat_alt)
    then show ?thesis
      using aggLoop_overlap_panics [OF q _ _ Suc.prems(4)] 3 fin by (simp add: merges_def)
  next
    case 4
    note take = aggLoop_takes [OF hon 4(3) Suc.prems(4,5) pop(1) [unfolded q] 4(1,2) [unfolded seg_end_def seg_at_def], folded q, unfolded fin(1)]
    have top: "seg_end ?p \<le> base + length st" "whole P (seg_end ?p)" using c p net(2) by (auto simp: carries_def tiled_def)
    show ?thesis
    proof (cases "unat wnd = seg_end ?p - unat start")
      case True
      then show ?thesis using take(1) r'(2) 4 edge top by (simp add: mergesI)
    next
      case False
      let ?w = "wnd - of_nat (seg_end ?p - unat start)"
      have w: "unat ?stop + unat ?w = unat start + unat wnd" "0 < unat ?w" "unat ?w < 2 ^ 31" "a \<le> unat ?stop"
        unfolding take(2) fin(1) using Suc.prems(3-5) 4 edge False by simp_all
      have e1: "\<forall>i \<in> set r'. seg_end (ivalue i) \<le> unat ?stop + unat ?w" using edge' w(1) by simp
      have e2: "whole P (unat ?stop)" "unat ?stop \<le> base + length st" using top fin(1) by simp_all
      obtain res where "aggLoop r' (span ?st a (unat ?stop)) ?stop ?w = Some res"
          "merges base st P a (unat ?stop) (unat start + unat wnd) r' res"
        using Suc.hyps(1) [OF pop(2) [symmetric] r'(1) e1 w(2-4) e2] unfolding w(1) by blast
      moreover have "unat start \<le> unat ?stop" using 4(2) fin(1) by simp
      ultimately show ?thesis using take(1) False merges_mono [OF _ _ r'(2)] unfolding fin(1) by auto
    qed
  qed
qed


section \<open>The receiver\<close>

text \<open>The edge of the window that the receiver has offered: it never moves back.\<close>

definition edge :: "VTCPConn \<Rightarrow> nat" where
  "edge c = unat (expectedSeqNum c) + free (recvBuf c)"

text \<open>
  The segments \<open>P\<close> on the network carry the stream \<open>st\<close>, whose first byte has number \<open>base\<close>; they tile it, and none
  with more than a byte reaches beyond the window offered.
\<close>

definition network :: "nat \<Rightarrow> bytes \<Rightarrow> u32 \<Rightarrow> nat \<Rightarrow> TCPPacket set \<Rightarrow> bool" where
  "network base st R e P \<longleftrightarrow> (\<forall>p \<in> P. carries base st R p \<and> (1 < length (TPayload p) \<longrightarrow> seg_end p \<le> e)) \<and> tiled P"

definition receiver :: "nat \<Rightarrow> bytes \<Rightarrow> u32 \<Rightarrow> TCPPacket set \<Rightarrow> bytes \<Rightarrow> bytes \<Rightarrow> VTCPConn \<Rightarrow> bool" where
  "receiver base st R P pre got c \<longleftrightarrow> state c = ESTABLISHED \<and> rcv_ok c \<and> timer_wf c \<and> inflightQ c = [] \<and>
     freespaceC (sendBuf c) < scapacity (sendBuf c) \<and> sndNxt c = R \<and> sndUna c = R \<and> 65535 \<le> unat R \<and>
     base \<le> unat (expectedSeqNum c) \<and> unat (expectedSeqNum c) \<le> base + length st \<and> whole P (unat (expectedSeqNum c)) \<and>
     got @ contents (recvBuf c) = pre @ take (unat (expectedSeqNum c) - base) st \<and>
     ivalue ` set (earlyArrivalQ c) \<subseteq> P \<and> (\<forall>i \<in> set (earlyArrivalQ c). seg_end (ivalue i) \<le> edge c)"

lemma receiver_window:
  assumes "receiver base st R P pre got c" and "base + length st + 65535 < 2 ^ 32"
  shows "rcv_ok c" "window_ok c" "unat (windowSize c) = free (recvBuf c)" "free (recvBuf c) \<le> 65535"
    "edge c = unat (expectedSeqNum c) + unat (windowSize c)"
proof -
  show r: "rcv_ok c" using assms(1) by (simp add: receiver_def)
  show f: "free (recvBuf c) \<le> 65535" by (rule free_le_capacity [OF r])
  have "unat (expectedSeqNum c) \<le> base + length st" using assms(1) by (simp add: receiver_def)
  then have "unat (expectedSeqNum c) + free (recvBuf c) < 2 ^ 32" using f assms(2) by linarith
  then show "window_ok c" by (rule rcv_ok_window_ok [OF r])
  show "unat (windowSize c) = free (recvBuf c)" by (rule rcv_ok_window [OF r])
  then show "edge c = unat (expectedSeqNum c) + unat (windowSize c)" by (simp add: edge_def)
qed

text \<open>Which segments are acceptable: those that begin inside the window; they end inside it.\<close>

lemma valid_segment:
  assumes r: "receiver base st R P pre got c" and n: "network base st R (edge c) P" and p: "p \<in> P"
    and lim: "base + length st + 65535 < 2 ^ 32" and valid: "isValidSeg p c"
  shows "unat (expectedSeqNum c) \<le> seg_at p" "seg_end p \<le> edge c"
proof -
  note w = receiver_window [OF r lim]
  have c: "carries base st R p" "1 < length (TPayload p) \<longrightarrow> seg_end p \<le> edge c" using n p by (simp_all add: network_def)
  have "seg_end p < 2 ^ 32" using c(1) lim by (simp add: carries_def)
  then have a: "rfc_acceptable (length (TPayload p)) (unat (windowSize c)) (seg_at p) (unat (expectedSeqNum c))"
    using isValidSeg_rfc [OF w(2), of p] valid by (simp add: seg_at_def seg_end_def)
  have old: "seg_end p \<le> unat (expectedSeqNum c)" if "seg_at p < unat (expectedSeqNum c)"
    using r that p by (auto simp: receiver_def whole_def)
  show ge: "unat (expectedSeqNum c) \<le> seg_at p"
    using a old by (fastforce simp: rfc_acceptable_def seg_end_def split: if_splits)
  show "seg_end p \<le> edge c"
    using a c(2) ge unfolding w(5) by (auto simp: rfc_acceptable_def seg_end_def split: if_splits)
qed

lemma aggregate_whole:
  assumes r: "receiver base st R P pre got c" and n: "network base st R (edge c) P" and p: "p \<in> P"
    and lim: "base + length st + 65535 < 2 ^ 32" and at: "seg_at p = unat (expectedSeqNum c)" and fits: "seg_end p \<le> edge c"
  shows "aggregateEarlyArrivals c (TPayload p) (SeqNum (TcpHeader p) + of_nat (length (TPayload p))) = panic SliceBounds \<or>
    (\<exists>e q'. aggregateEarlyArrivals c (TPayload p) (SeqNum (TcpHeader p) + of_nat (length (TPayload p))) =
        ok (span (stream_at base st) (unat (expectedSeqNum c)) e, c\<lparr>earlyArrivalQ := q'\<rparr>) \<and>
       seg_end p \<le> e \<and> e \<le> edge c \<and> e \<le> base + length st \<and> whole P e \<and> ivalue ` set q' \<subseteq> ivalue ` set (earlyArrivalQ c))"
proof -
  let ?start = "SeqNum (TcpHeader p) + of_nat (length (TPayload p))" and ?wnd = "windowSize c - of_nat (length (TPayload p))"
  note w = receiver_window [OF r lim]
  have net: "\<forall>p \<in> P. carries base st R p" "tiled P" using n by (simp_all add: network_def)
  then have c: "carries base st R p" "whole P (seg_end p)" using p by (simp_all add: tiled_def)
  have "seg_end p < 2 ^ 32" using c(1) lim by (simp add: carries_def)
  then have start: "unat ?start = seg_end p" by (simp add: seg_end_def seg_at_def unat_plus_nat)
  have len: "length (TPayload p) \<le> unat (windowSize c)" using at fits unfolding w(5) by (simp add: seg_end_def)
  then have "unat (of_nat (length (TPayload p)) :: u32) = length (TPayload p)" using w(3,4) by (intro unat_of_nat_small) simp
  then have wnd: "unat ?wnd = unat (windowSize c) - length (TPayload p)" using len by (simp add: unat_minus word_le_nat_alt)
  have pay: "TPayload p = span (stream_at base st) (unat (expectedSeqNum c)) (unat ?start)"
    using c(1) at start by (simp add: carries_def)
  have top: "seg_end p \<le> base + length st" using c(1) by (simp add: carries_def)
  show ?thesis
  proof (cases "?wnd = 0")
    case True
    then have "aggregateEarlyArrivals c (TPayload p) ?start = ok (TPayload p, c\<lparr>earlyArrivalQ := earlyArrivalQ c\<rparr>)"
      by (simp add: aggregateEarlyArrivals_def)
    then show ?thesis using fits top c(2) pay start
      by (intro disjI2 exI [of _ "seg_end p"] exI [of _ "earlyArrivalQ c"]) simp
  next
    case False
    then have pos: "0 < unat ?wnd" by (simp add: unat_gt_0)
    have hi: "seg_end p + unat ?wnd = edge c" using wnd len at w(5) by (simp add: seg_end_def)
    have q: "ivalue ` set (earlyArrivalQ c) \<subseteq> P" "\<forall>i \<in> set (earlyArrivalQ c). seg_end (ivalue i) \<le> unat ?start + unat ?wnd"
      using r unfolding start hi by (simp_all add: receiver_def)
    have small: "base + length st < 2 ^ 32" "unat ?wnd < 2 ^ 31" using lim wnd w(3,4) by simp_all
    have place: "unat (expectedSeqNum c) \<le> unat ?start" "whole P (unat ?start)" "unat ?start \<le> base + length st"
      using c(2) top at unfolding start by (simp_all add: seg_end_def)
    obtain res where res: "aggLoop (earlyArrivalQ c) (TPayload p) ?start ?wnd = Some res"
        "merges base st P (unat (expectedSeqNum c)) (seg_end p) (edge c) (earlyArrivalQ c) res"
      using aggLoop_whole [OF net small(1) q pos small(2) place, folded pay, unfolded start hi] by blast
    then have run: "aggregateEarlyArrivals c (TPayload p) ?start = bindG res (\<lambda>(data', q'). ok (data', c\<lparr>earlyArrivalQ := q'\<rparr>))"
      using False by (simp add: aggregateEarlyArrivals_def)
    show ?thesis unfolding run using res(2) by (auto simp: merges_def)
  qed
qed


lemma receiver_core:
  assumes "receiver base st R P pre got c" and "core c' = core (c\<lparr>sndWnd := w\<rparr>)" and "timer_wf c'" and "inflightQ c' = []"
  shows "receiver base st R P pre got c'" "edge c' = edge c"
proof -
  note f = core_fields [OF assms(2), simplified]
  have "rcv_ok c'" using assms(1) f by (simp add: receiver_def rcv_ok_def)
  then show "receiver base st R P pre got c'" using assms f by (simp add: receiver_def edge_def)
  show "edge c' = edge c" using f by (simp add: edge_def)
qed

lemma receiver_queue:
  assumes "receiver base st R P pre got c" and "ivalue ` set q \<subseteq> ivalue ` set (earlyArrivalQ c)"
  shows "receiver base st R P pre got (c\<lparr>earlyArrivalQ := q\<rparr>)"
proof -
  have "seg_end (ivalue i) \<le> edge c" if "i \<in> set q" for i
  proof -
    have "ivalue i \<in> ivalue ` set (earlyArrivalQ c)" using that assms(2) by auto
    then show ?thesis using assms(1) by (auto simp: receiver_def)
  qed
  moreover have "ivalue ` set q \<subseteq> P" using assms by (auto simp: receiver_def)
  ultimately show ?thesis using assms(1) by (simp add: receiver_def rcv_ok_def timer_wf_def edge_def)
qed

lemma receiver_enqueue:
  assumes "receiver base st R P pre got c" and "p \<in> P" and "seg_end p \<le> edge c"
  shows "receiver base st R P pre got (enqueue p c)" "edge (enqueue p c) = edge c"
  using assms by (auto simp: receiver_def enqueue_def Push_def rcv_ok_def timer_wf_def edge_def)

lemma receiver_text:
  assumes r: "receiver base st R P pre got c" and lim: "base + length st + 65535 < 2 ^ 32" and base: "65535 \<le> base"
    and e: "unat (expectedSeqNum c) < e" "e \<le> edge c" "e \<le> base + length st" "whole P e"
    and up: "net_up E (RemoteAddr (endpoint (conn s)))" and s: "conn s = c"
  defines "d \<equiv> span (stream_at base st) (unat (expectedSeqNum c)) e"
  shows "handleSegText E d s = ok (None, emit (set_conn s (take_text d c)) (ack_segment E (set_conn s (take_text d c))))"
    and "receiver base st R P pre got (take_text d c)" and "unat (expectedSeqNum (take_text d c)) = e" and "edge (take_text d c) = edge c"
proof -
  note w = receiver_window [OF r lim]
  have b: "base \<le> unat (expectedSeqNum c)" "got @ contents (recvBuf c) = pre @ take (unat (expectedSeqNum c) - base) st"
    using r by (simp_all add: receiver_def)
  have len: "length d = e - unat (expectedSeqNum c)" by (simp add: d_def)
  then have d: "d \<noteq> []" "length d \<le> free (recvBuf c)" using e(1,2) by (auto simp: edge_def)
  have nz: "expectedSeqNum c \<noteq> 0" using b(1) base by auto
  have lim': "length d < rb_limit (recvBuf c)" unfolding rb_limit_seq [OF w(1) nz] using len e lim by simp
  note got = handleSegText_room [of s E d, unfolded s, OF w(1) up [unfolded s] d lim']
  show "handleSegText E d s = ok (None, emit (set_conn s (take_text d c)) (ack_segment E (set_conn s (take_text d c))))"
    by (rule got(1))
  have sum: "unat (expectedSeqNum c) + length d = e" using len e(1) by simp
  then have "unat (expectedSeqNum c) + length d < 2 ^ 32" using e(3) lim by simp
  from unat_plus_nat [OF this] show exp: "unat (expectedSeqNum (take_text d c)) = e" unfolding sum by simp
  show same: "edge (take_text d c) = edge c" unfolding edge_def exp got(4) using len e by (simp add: edge_def)
  have dd: "d = take (e - unat (expectedSeqNum c)) (drop (unat (expectedSeqNum c) - base) st)"
    using b(1) e(1,3) by (simp add: d_def span_stream)
  have "take (unat (expectedSeqNum c) - base) st @ d = take (e - base) st"
    unfolding dd using b(1) e(1) by (simp flip: take_add)
  then have "got @ contents (recvBuf (take_text d c)) = pre @ take (e - base) st"
    unfolding got(3) using b(2) by (metis append.assoc)
  then show "receiver base st R P pre got (take_text d c)"
    using r got(2) e(1,3,4) b(1) exp same by (simp add: receiver_def timer_wf_def) (simp add: take_text_def)
qed

text \<open>The acknowledgement number of every segment is the one that the receiver already knows.\<close>

lemma receiver_ack:
  assumes r: "receiver base st R P pre got (conn s)" and up: "net_up E (RemoteAddr (endpoint (conn s)))" and a: "AckNum (TcpHeader p) = R"
  shows "\<exists>c'. handleAck E rnd now p s = ok (None, set_conn s c') \<and> receiver base st R P pre got c' \<and> edge c' = edge (conn s) \<and>
    endpoint c' = endpoint (conn s) \<and> expectedSeqNum c' = expectedSeqNum (conn s) \<and> sndNxt c' = sndNxt (conn s) \<and> windowSize c' = windowSize (conn s)"
proof -
  have c: "timer_wf (conn s)" "freespaceC (sendBuf (conn s)) < scapacity (sendBuf (conn s))" "sndNxt (conn s) = R" "sndUna (conn s) = R"
      "65535 \<le> unat R" "inflightQ (conn s) = []" using r by (simp_all add: receiver_def)
  have "ack_floor (sndUna (conn s)) \<le> unat (AckNum (TcpHeader p))" using c(4,5) a by (simp add: ack_floor_def)
  then obtain c' where c': "handleAck E rnd now p s = ok (None, set_conn s c')" "timer_wf c'" "inflightQ c' = []"
      "core c' = core ((conn s)\<lparr>sndWnd := ucast (TcpWindowSize (TcpHeader p))\<rparr>)"
    using handleAck_cases(3) [OF up c(1), of p rnd now] c(3,4,6) a by auto
  then show ?thesis using receiver_core [OF r c'(4,2,3)] core_fields [OF c'(4), simplified] by auto
qed


text \<open>
  Any segment of the network arrives at the receiver, for the first time or again, in order, early or late:
  the receiver panics in the merge of early segments, or goes on with at least what it had, and
  acknowledges.
\<close>

definition received_stream :: "nat \<Rightarrow> bytes \<Rightarrow> u32 \<Rightarrow> TCPPacket set \<Rightarrow> bytes \<Rightarrow> bytes \<Rightarrow> tcb \<Rightarrow> tcb \<Rightarrow> bool" where
  "received_stream base st R P pre got b b' \<longleftrightarrow> receiver base st R P pre got (conn b') \<and> edge (conn b') = edge (conn b) \<and>
     endpoint (conn b') = endpoint (conn b) \<and> unat (expectedSeqNum (conn b)) \<le> unat (expectedSeqNum (conn b')) \<and>
     (\<exists>qs. outs b' = outs b @ qs \<and> (\<forall>q \<in> set qs. answers q (conn b')))"

lemma answers_cong:
  "answers q c \<Longrightarrow> sndNxt c' = sndNxt c \<Longrightarrow> expectedSeqNum c' = expectedSeqNum c \<Longrightarrow> windowSize c' = windowSize c \<Longrightarrow> answers q c'"
  by (simp add: answers_def)

lemma segment_received:
  assumes r: "receiver base st R P pre got (conn b)" and n: "network base st R (edge (conn b)) P" and p: "p \<in> P"
    and up: "net_up E (RemoteAddr (endpoint (conn b)))" and lim: "base + length st + 65535 < 2 ^ 32" and base: "65535 \<le> base"
  shows "stateMachine E rnd now p b = panic SliceBounds \<or> (\<exists>b'. stateMachine E rnd now p b = ok b' \<and> received_stream base st R P pre got b b')"
proof -
  let ?c = "conn b"
  have c: "AckNum (TcpHeader p) = R" "IsAck p" "\<not> IsFin p" "seg_at p \<le> seg_end p"
    using n p pure_ack [of p] by (auto simp: network_def carries_def seg_end_def)
  have st: "state ?c = ESTABLISHED" using r by (simp add: receiver_def)
  note run = stateMachine_def stateFuncEstablished_def onAccepted_def withText_def finToCloseWait_def
  consider "\<not> isValidSeg p ?c" | "isValidSeg p ?c" "expectedSeqNum ?c < SeqNum (TcpHeader p)"
    | "isValidSeg p ?c" "\<not> expectedSeqNum ?c < SeqNum (TcpHeader p)" by blast
  then show ?thesis
  proof cases
    case 1
    then have "stateMachine E rnd now p b = ok (emit b (ack_segment E b))"
      using st sendAck_up [OF up] by (simp add: run handleSeqNum_def)
    then show ?thesis using r answers_ack [of E b] by (auto simp: received_stream_def)
  next
    case 2
    let ?s = "set_conn b (enqueue p ?c)"
    let ?s1 = "emit ?s (ack_segment E ?s)"
    note q = receiver_enqueue [OF r p valid_segment(2) [OF r n p lim 2(1)]]
    have up1: "net_up E (RemoteAddr (endpoint (conn ?s1)))" using up by simp
    have "handleSeqNum E p b = ok (Inr [], ?s1)"
      using 2 sendAck_up [of E ?s] up by (simp add: handleSeqNum_def Let_def enqueue_def)
    moreover obtain c' where c': "handleAck E rnd now p ?s1 = ok (None, set_conn ?s1 c')" "receiver base st R P pre got c'" "edge c' = edge ?c"
        "endpoint c' = endpoint ?c" "expectedSeqNum c' = expectedSeqNum ?c" "sndNxt c' = sndNxt ?c" "windowSize c' = windowSize ?c"
      using receiver_ack [OF _ up1 c(1), of base st P pre got rnd now] q by auto
    ultimately have "stateMachine E rnd now p b = ok (set_conn ?s1 c')" using st c(2,3) by (simp add: run)
    then show ?thesis using c' answers_cong [OF answers_ack [of E ?s], of c'] by (auto simp: received_stream_def)
  next
    case 3
    note v = valid_segment [OF r n p lim 3(1)]
    have at: "seg_at p = unat (expectedSeqNum ?c)" "SeqNum (TcpHeader p) = expectedSeqNum ?c"
      using 3(2) v(1) by (auto simp: seg_at_def word_less_nat_alt word_unat_eq_iff)
    note w = receiver_window [OF r lim]
    have "sint (windowSize ?c) = int (unat (windowSize ?c))" using w(2) by (intro sint_small) (simp add: window_ok_def)
    moreover have "length (TPayload p) \<le> unat (windowSize ?c)" using at v(2) unfolding w(5) by (simp add: seg_end_def)
    ultimately have "min (int (length (TPayload p))) (sint (windowSize ?c)) = int (length (TPayload p))"
      by (metis min.absorb1 of_nat_le_iff)
    then have hs: "handleSeqNum E p b = bindG (aggregateEarlyArrivals ?c (TPayload p) (SeqNum (TcpHeader p) + of_nat (length (TPayload p))))
        (\<lambda>(aggData', c'). ok (Inr aggData', set_conn b c'))"
      using 3(1) at(2) slice_signed_nat [of 0 "length (TPayload p)" "TPayload p"] by (simp add: handleSeqNum_def Let_def)
    consider "handleSeqNum E p b = panic SliceBounds" | e q where
        "handleSeqNum E p b = ok (Inr (span (stream_at base st) (unat (expectedSeqNum ?c)) e), set_conn b (?c\<lparr>earlyArrivalQ := q\<rparr>))"
        "seg_end p \<le> e" "e \<le> edge ?c" "e \<le> base + length st" "whole P e" "ivalue ` set q \<subseteq> ivalue ` set (earlyArrivalQ ?c)"
      using aggregate_whole [OF r n p lim at(1) v(2)] unfolding hs by fastforce
    then show ?thesis
    proof cases
      case 1
      then show ?thesis using st by (simp add: run)
    next
      case (2 e q)
      let ?s = "set_conn b (?c\<lparr>earlyArrivalQ := q\<rparr>)" and ?d = "span (stream_at base st) (unat (expectedSeqNum ?c)) e"
      have up1: "net_up E (RemoteAddr (endpoint (conn ?s)))" using up by simp
      obtain c' where c': "handleAck E rnd now p ?s = ok (None, set_conn ?s c')" "receiver base st R P pre got c'" "edge c' = edge ?c"
          "endpoint c' = endpoint ?c" "expectedSeqNum c' = expectedSeqNum ?c"
        using receiver_ack [OF _ up1 c(1), of base st P pre got rnd now] receiver_queue [OF r 2(6)] by (auto simp: edge_def)
      show ?thesis
      proof (cases "e = unat (expectedSeqNum ?c)")
        case True
        then have "stateMachine E rnd now p b = ok (set_conn ?s c')" using st c(2,3) 2(1) c'(1) by (simp add: run span_def)
        then show ?thesis using c' by (auto simp: received_stream_def)
      next
        case False
        then have e: "unat (expectedSeqNum c') < e" "?d \<noteq> []" using 2(2) c(4) at(1) c'(5) by (auto simp: span_def)
        let ?c1 = "take_text ?d c'"
        have up2: "net_up E (RemoteAddr (endpoint (conn (set_conn ?s c'))))" using up c'(4) by simp
        note t = receiver_text [OF c'(2) lim base e(1) 2(3) [folded c'(3)] 2(4,5) up2, simplified, unfolded c'(5)]
        have "stateMachine E rnd now p b = ok (emit (set_conn b ?c1) (ack_segment E (set_conn b ?c1)))"
          using st c(2,3) 2(1) c'(1) e(2) t(1) by (simp add: run set_conn_def)
        then show ?thesis using t(2-4) c'(3,4) e(1) answers_ack [of E "set_conn b ?c1"] c'(5) by (auto simp: received_stream_def)
      qed
    qed
  qed
qed


lemma receiver_read:
  assumes r: "receiver base st R P pre got c" and k: "k < 2 ^ 31" and run: "VRead c (replicate k 0) = ok (VReadDone n e buf c')"
  shows "receiver base st R P pre (got @ take (nat n) buf) c'" "edge c \<le> edge c'" "expectedSeqNum c' = expectedSeqNum c" "endpoint c' = endpoint c"
proof -
  have s: "state c = ESTABLISHED" "rcv_ok c" using r by (simp_all add: receiver_def)
  obtain rb w where c': "c' = c\<lparr>recvBuf := rb, windowSize := w\<rparr>" "rcv_ok c'" "contents (recvBuf c) = take (nat n) buf @ contents rb"
      "free (recvBuf c) \<le> free rb"
    using established_read [OF s k] run by auto
  show e: "edge c \<le> edge c'" using c'(1,4) by (simp add: edge_def)
  have "\<forall>i \<in> set (earlyArrivalQ c). seg_end (ivalue i) \<le> edge c'" using r e by (auto simp: receiver_def)
  then show "receiver base st R P pre (got @ take (nat n) buf) c'"
    using r c'(2,3) unfolding c'(1) by (simp add: receiver_def timer_wf_def)
  show "expectedSeqNum c' = expectedSeqNum c" "endpoint c' = endpoint c" by (simp_all add: c'(1))
qed

end
