(* ===== verification/Stream_Sender.thy ===== *)
theory Stream_Sender imports Stream_Receiver begin

text \<open>
  The sending end: what writes, turns of the sending loop, probes of a closed window, the retransmission
  timer and acknowledgements, however old, do to the invariant of the sender and to the segments that the
  network carries.
\<close>

section \<open>New segments and repeated ones\<close>

lemma whole_new: "whole P n \<Longrightarrow> n \<le> seg_at p \<Longrightarrow> whole (insert p P) n"
  by (auto simp: whole_def)

lemma tiled_new:
  assumes "tiled P" and "\<forall>q \<in> P. seg_end q \<le> seg_at p"
  shows "tiled (insert p P)"
proof -
  have le: "seg_at q \<le> seg_end q" for q by (simp add: seg_end_def)
  have "whole (insert p P) (seg_at q) \<and> whole (insert p P) (seg_end q)" if "q \<in> P" for q
    using assms that le [of q] by (auto simp: tiled_def intro!: whole_new intro: order_trans)
  moreover have "whole (insert p P) (seg_at p)" "whole (insert p P) (seg_end p)"
    using assms(2) le [of p] by (auto simp: whole_def intro: order_trans)
  ultimately show ?thesis by (auto simp: tiled_def)
qed

text \<open>A segment that is sent again has the place of one that the network already carries.\<close>

definition repeats :: "TCPPacket \<Rightarrow> TCPPacket set \<Rightarrow> bool" where
  "repeats p P \<longleftrightarrow> (\<exists>q \<in> P. seg_at q = seg_at p \<and> seg_end q = seg_end p)"

lemma whole_repeat: "repeats p P \<Longrightarrow> whole (insert p P) n = whole P n"
  by (auto simp: whole_def repeats_def)

lemma tiled_repeat:
  assumes "tiled P" and "repeats p P"
  shows "tiled (insert p P)"
proof -
  obtain q where "q \<in> P" "seg_at q = seg_at p" "seg_end q = seg_end p" using assms(2) by (auto simp: repeats_def)
  then show ?thesis using assms whole_repeat [OF assms(2)] by (auto simp: tiled_def)
qed

section \<open>The sender\<close>

text \<open>
  The sending loop is between two turns (\<open>None\<close>), or probes a closed window with a segment whose byte ends
  before the third component.
\<close>

definition probe_ok :: "nat \<Rightarrow> bytes \<Rightarrow> u32 \<Rightarrow> TCPPacket set \<Rightarrow> VTCPConn \<Rightarrow> (TCPPacket \<times> u32 \<times> u32) option \<Rightarrow> bool" where
  "probe_ok base st R P c pr \<longleftrightarrow> (case pr of None \<Rightarrow> True | Some (p, una, n) \<Rightarrow>
     carries base st R p \<and> length (TPayload p) = 1 \<and> seg_end p = unat n \<and>
     (sndNxt c = n \<and> repeats p P \<or> unat (sndNxt c) = seg_at p \<and> hasUnsentC (sendBuf c) < unsent c))"

definition sender :: "nat \<Rightarrow> bytes \<Rightarrow> u32 \<Rightarrow> TCPPacket set \<Rightarrow> nat \<Rightarrow> (TCPPacket \<times> u32 \<times> u32) option \<Rightarrow> VTCPConn \<Rightarrow> bool" where
  "sender base st R P e pr c \<longleftrightarrow> state c = ESTABLISHED \<and> sb_wf c \<and> window_ok c \<and> earlyArrivalQ c = [] \<and> timer_wf c \<and>
     expectedSeqNum c = R \<and> 65535 \<le> base \<and> base \<le> unat (sndUna c) \<and> unat (lbw (sendBuf c)) = base + length st \<and>
     stored c = drop (unat (sndUna c) - base) st \<and> freespaceC (sendBuf c) + kept c \<le> scapacity (sendBuf c) \<and>
     unat (sndUna c) + unat (sndWnd c) \<le> e \<and> hasUnsentC (sendBuf c) \<le> unsent c \<and>
     (\<forall>m \<in> set (inflightQ c). packet m \<in> P) \<and> (\<forall>p \<in> P. seg_end p \<le> unat (sndNxt c)) \<and> probe_ok base st R P c pr"

lemma sender_order:
  assumes "sender base st R P e pr c"
  shows "unat (sndUna c) \<le> unat (sndNxt c)" "unat (sndNxt c) \<le> base + length st" "base \<le> unat (sndUna c)"
    "kept c = base + length st - unat (sndUna c)" "unsent c = base + length st - unat (sndNxt c)"
  using assms sb_wf_order [of c] by (simp_all add: sender_def kept_def unsent_def)

lemma sender_edge: "sender base st R P e pr c \<Longrightarrow> e \<le> e' \<Longrightarrow> sender base st R P e' pr c"
  by (auto simp: sender_def)

text \<open>Writing: the stream gets longer.\<close>

lemma sender_put:
  assumes s: "sender base st R P e pr c" and d: "d \<noteq> []" "length d \<le> sb_room c" and lim: "base + length st + length d < 2 ^ 32"
  shows "sender base (st @ d) R P e pr (after_put c d)"
proof -
  have wf: "sb_wf c" and l: "unat (lbw (sendBuf c)) = base + length st" using s by (simp_all add: sender_def)
  have "length d < sb_limit c" using lim l by (simp add: sb_limit_def)
  note put = after_put_wf [OF wf d this]
  note o = sender_order [OF s]
  have same: "state (after_put c d) = state c" "windowSize (after_put c d) = windowSize c" "expectedSeqNum (after_put c d) = expectedSeqNum c"
      "earlyArrivalQ (after_put c d) = earlyArrivalQ c" "inflightQ (after_put c d) = inflightQ c" "sndNxt (after_put c d) = sndNxt c"
      "sndUna (after_put c d) = sndUna c" "sndWnd (after_put c d) = sndWnd c" "freespaceC (sendBuf (after_put c d)) = 0"
      "timer_wf (after_put c d) = timer_wf c" "window_ok (after_put c d) = window_ok c" "hasUnsentC (sendBuf (after_put c d)) = hasUnsentC (sendBuf c) + 1"
    by (simp_all add: after_put_def timer_wf_def window_ok_def)
  have "unat (lbw (sendBuf c)) + length d < 2 ^ 32" using lim l by simp
  from unat_plus_nat [OF this] have lbw: "unat (lbw (sendBuf (after_put c d))) = base + length (st @ d)" unfolding put(5) using l by simp
  then have un: "unsent (after_put c d) = unsent c + length d" using o(2,5) same(6) by (simp add: unsent_def)
  have pos: "1 \<le> length d" using d(1) by (cases d) simp_all
  have "kept (after_put c d) \<le> scapacity (sendBuf (after_put c d))" using put(1) by (simp add: sb_wf_def)
  moreover have "stored (after_put c d) = drop (unat (sndUna c) - base) (st @ d)" using s put(2) o by (simp add: sender_def)
  moreover have "probe_ok base (st @ d) R P (after_put c d) pr"
    using s carries_append pos un by (auto simp: sender_def probe_ok_def same split: option.splits)
  ultimately show ?thesis using s put(1) lbw un pos by (simp add: sender_def same)
qed

lemma VWriteLoop_counts:
  "VWriteLoop c d k = ok r \<Longrightarrow> k \<le> (case r of VWriteDone n e c' \<Rightarrow> n | VWriteWaits n c' \<Rightarrow> n)"
proof (induction c d k rule: VWriteLoop.induct)
  case (1 c d k)
  note body = 1(2) [unfolded VWriteLoop.simps [of c d k]]
  show ?case
  proof (cases "k < length d \<and> state c \<notin> {FIN_WAIT_1, FIN_WAIT_2, CLOSING, TIME_WAIT} \<and> sendBufFreeSpace c \<noteq> 0")
    case False
    then show ?thesis using body by (auto split: if_splits)
  next
    case True
    then obtain w c1 where w: "writeToSendBuf c (drop k d) = Inr (w, c1)" "VWriteLoop c1 d (k + w) = ok r"
      using body by (auto simp: ok_def split: sum.splits)
    have "k + w \<le> (case r of VWriteDone n e c' \<Rightarrow> n | VWriteWaits n c' \<Rightarrow> n)" using True w by (intro 1(1)) auto
    then show ?thesis by (simp split: vwrite_outcome.splits)
  qed
qed

lemma VWriteLoop_put:
  assumes "sb_wf c" and "state c = ESTABLISHED" and "k < length d" and "sb_room c \<noteq> 0"
  shows "VWriteLoop c d k = VWriteLoop (after_put c (take (sb_room c) (drop k d))) d (k + min (sb_room c) (length d - k))"
proof -
  have "writeToSendBuf c (drop k d) = ok (min (sb_room c) (length (drop k d)), after_put c (take (sb_room c) (drop k d)))"
    using writeToSendBuf_room [OF assms(1), of "drop k d"] assms(4) by simp
  then show ?thesis using assms FreeSpace_room [OF assms(1)] by (simp add: VWriteLoop.simps [of c d k] ok_def)
qed

text \<open>The call takes what fits, and waits or returns.\<close>

lemma VWrite_room:
  assumes wf: "sb_wf c" and est: "state c = ESTABLISHED" and lim: "length (take (sb_room c) d) < sb_limit c"
  shows "VWrite c d = (let n = min (sb_room c) (length d); c' = (if n = 0 then c else after_put c (take (sb_room c) d)) in
     if n = length d then ok (VWriteDone n None c') else ok (VWriteWaits n c'))"
proof -
  let ?n = "min (sb_room c) (length d)" and ?c = "after_put c (take (sb_room c) d)"
  have stop: "VWriteLoop c d k = ok (VWriteDone k None c)" if "k = length d" for c k using that by (simp add: VWriteLoop.simps)
  have wait: "VWriteLoop c d k = ok (VWriteWaits k c)" if "k < length d" "sb_wf c" "sb_room c = 0" "state c = ESTABLISHED" for c k
    using that FreeSpace_room [OF that(2)] by (simp add: VWriteLoop.simps)
  show ?thesis
  proof (cases "?n = 0")
    case True
    then show ?thesis using stop wait [OF _ wf _ est] by (auto simp: VWrite_def Let_def min_def split: if_splits)
  next
    case False
    then have d: "take (sb_room c) d \<noteq> []" "length (take (sb_room c) d) \<le> sb_room c" by auto
    note put = after_put_wf [OF wf d lim]
    have run: "VWrite c d = VWriteLoop ?c d ?n" using VWriteLoop_put [OF wf est, of 0 d] False by (simp add: VWrite_def)
    have "state ?c = ESTABLISHED" using est by (simp add: after_put_def)
    then show ?thesis unfolding run using stop wait [OF _ put(1)] put(3) False by (auto simp: Let_def min_def)
  qed
qed

lemma sender_write:
  assumes s: "sender base st R P e pr c" and run: "VWrite c d = ok r" and count: "n = (case r of VWriteDone n e c' \<Rightarrow> n | VWriteWaits n c' \<Rightarrow> n)"
    and lim: "base + length (st @ take n d) < 2 ^ 32"
  shows "\<exists>c'. r = (if n = length d then VWriteDone n None c' else VWriteWaits n c') \<and> n = min (sb_room c) (length d) \<and>
    sender base (st @ take n d) R P e pr c' \<and> sndUna c' = sndUna c \<and> sndNxt c' = sndNxt c \<and> endpoint c' = endpoint c"
proof -
  let ?m = "min (sb_room c) (length d)" and ?d = "take (sb_room c) d"
  have wf: "sb_wf c" "state c = ESTABLISHED" and l: "unat (lbw (sendBuf c)) = base + length st" using s by (simp_all add: sender_def)
  have "?m \<le> n"
  proof (cases "?m = 0")
    case False
    then have "VWriteLoop (after_put c ?d) d ?m = ok r" using run VWriteLoop_put [OF wf, of 0 d] by (simp add: VWrite_def)
    then show ?thesis using VWriteLoop_counts count by simp
  qed simp
  then have lim': "base + length st + length ?d < 2 ^ 32" using lim by (simp add: min_def split: if_splits)
  then have "length ?d < sb_limit c" using l by (simp add: sb_limit_def)
  note v = VWrite_room [OF wf this, unfolded run, unfolded Let_def]
  then have n: "n = ?m" using count by (auto split: if_splits)
  have td: "take n d = ?d" by (simp add: n min_def)
  show ?thesis
  proof (cases "?m = 0")
    case True
    then have "take n d = []" using n by simp
    then show ?thesis using v True s n by (intro exI [of _ c]) (auto split: if_splits)
  next
    case False
    then have d: "?d \<noteq> []" "length ?d \<le> sb_room c" by auto
    have "sender base (st @ take n d) R P e pr (after_put c ?d)" unfolding td by (rule sender_put [OF s d lim'])
    then show ?thesis using v False n by (intro exI [of _ "after_put c ?d"]) (auto simp: after_put_def split: if_splits)
  qed
qed

text \<open>What the network gets from a step of the sender.\<close>

definition grows :: "nat \<Rightarrow> bytes \<Rightarrow> u32 \<Rightarrow> nat \<Rightarrow> nat \<Rightarrow> TCPPacket set \<Rightarrow> TCPPacket set \<Rightarrow> bool" where
  "grows base st R e n P P' \<longleftrightarrow> P \<subseteq> P' \<and> (network base st R e P \<longrightarrow> network base st R e P') \<and>
     (\<forall>k \<le> n. whole P k \<longrightarrow> whole P' k)"

lemma grows_refl [simp]: "grows base st R e n P P"
  by (simp add: grows_def)

lemma grows_new:
  assumes "carries base st R p" and "1 < length (TPayload p) \<longrightarrow> seg_end p \<le> e" and "\<forall>q \<in> P. seg_end q \<le> seg_at p" and "n \<le> seg_at p"
  shows "grows base st R e n P (insert p P)"
  using assms tiled_new [of P p] whole_new [of P _ p] by (auto simp: grows_def network_def)

lemma grows_repeat:
  assumes "carries base st R p" and "repeats p P"
  shows "grows base st R e n P (insert p P)"
proof -
  obtain q where "q \<in> P" "seg_at q = seg_at p" "seg_end q = seg_end p" using assms(2) by (auto simp: repeats_def)
  then show ?thesis using assms tiled_repeat [of P p] whole_repeat [OF assms(2)] by (auto simp: grows_def network_def seg_end_def)
qed

lemma sender_core:
  assumes s: "sender base st R P e pr c" and core: "core c' = core c" and t: "timer_wf c'"
    and q: "\<forall>m \<in> set (inflightQ c'). packet m \<in> P"
  shows "sender base st R P e pr c'"
proof -
  note f = core_fields [OF core]
  have k: "kept c' = kept c" "unsent c' = unsent c" "stored c' = stored c" "window_ok c' = window_ok c"
    using f by (simp_all add: kept_def unsent_def stored_def window_ok_def)
  then have "sb_wf c' = sb_wf c" "probe_ok base st R P c' pr = probe_ok base st R P c pr"
    using f by (simp_all add: sb_wf_def probe_ok_def split: option.split)
  then show ?thesis using s t q f k by (simp add: sender_def)
qed

text \<open>A segment that the network already has changes nothing for the sender.\<close>

lemma sender_more:
  assumes "sender base st R P e pr c" and "seg_end p \<le> unat (sndNxt c)"
  shows "sender base st R (insert p P) e pr c"
  using assms by (auto simp: sender_def probe_ok_def repeats_def split: option.splits)

lemma sender_stored:
  assumes s: "sender base st R P e pr c" and "unat (sndUna c) \<le> n"
  shows "drop (n - unat (sndUna c)) (stored c) = drop (n - base) st"
  using s assms(2) by (simp add: sender_def)

text \<open>New text goes out.\<close>

lemma sender_sends:
  assumes s: "sender base st R P e None c" and lim: "base + length st + 65535 < 2 ^ 32"
    and n: "0 < n" "n \<le> unsent c" and one: "1 < n \<longrightarrow> unat (sndNxt c) + n \<le> e"
    and p: "SeqNum (TcpHeader p) = sndNxt c" "AckNum (TcpHeader p) = R" "Flags (TcpHeader p) = TCPFlagAck"
      "TPayload p = take n (drop (unat (sndNxt c) - base) st)"
    and core: "core c' = core (c\<lparr>sendBuf := (sendBuf c)\<lparr>hasUnsentC := 0\<rparr>, sndNxt := sndNxt c + of_nat n\<rparr>)"
    and t: "timer_wf c'" and q: "\<forall>m \<in> set (inflightQ c'). packet m = p \<or> packet m \<in> P"
  shows "carries base st R p" "seg_at p = unat (sndNxt c)" "seg_end p = unat (sndNxt c) + n"
    and "grows base st R e (unat (sndNxt c)) P (insert p P)" and "sender base st R (insert p P) e None c'"
proof -
  note o = sender_order [OF s]
  note f = core_fields [OF core, simplified]
  have at: "seg_at p = unat (sndNxt c)" by (simp add: seg_at_def p(1))
  have len: "length (TPayload p) = n" using n o p(4) by simp
  then have e: "seg_end p = unat (sndNxt c) + n" by (simp add: seg_end_def at)
  show "seg_at p = unat (sndNxt c)" "seg_end p = unat (sndNxt c) + n" by (rule at e)+
  show c: "carries base st R p"
    using p o n at e by (simp add: carries_def span_stream)
  have ends: "\<forall>q \<in> P. seg_end q \<le> seg_at p" using s at by (simp add: sender_def)
  show "grows base st R e (unat (sndNxt c)) P (insert p P)" using c one at e len ends by (intro grows_new) simp_all
  have top: "unat (sndNxt c) + n \<le> base + length st" using o n by linarith
  then have "unat (sndNxt c) + n < 2 ^ 32" using lim by simp
  from unat_plus_nat [OF this] have nxt: "unat (sndNxt c') = unat (sndNxt c) + n" unfolding f(5) .
  have same: "kept c' = kept c" "stored c' = stored c" "window_ok c' = window_ok c" "unsent c' = unsent c - n"
    using f nxt by (simp_all add: kept_def stored_def window_ok_def unsent_def)
  have wf: "sb_wf c" using s by (simp add: sender_def)
  then have "sb_wf c'" using f same nxt top s
    by (simp add: sb_wf_def word_le_nat_alt sender_def)
  moreover have "\<forall>m \<in> set (inflightQ c'). packet m \<in> insert p P" using q by auto
  moreover have "\<forall>q \<in> insert p P. seg_end q \<le> unat (sndNxt c')" using ends e nxt at by auto
  ultimately show "sender base st R (insert p P) e None c'"
    using s f same t by (simp add: sender_def probe_ok_def)
qed


text \<open>A step of the sender itself.\<close>

definition goes_on :: "nat \<Rightarrow> bytes \<Rightarrow> u32 \<Rightarrow> nat \<Rightarrow> nat \<Rightarrow> (TCPPacket \<times> u32 \<times> u32) option \<Rightarrow> tcb \<Rightarrow> tcb \<Rightarrow> bool" where
  "goes_on base st R r e pr a a' \<longleftrightarrow> sender base st R (set (outs a')) e pr (conn a') \<and>
     grows base st R e (unat (sndNxt (conn a))) (set (outs a)) (set (outs a')) \<and> endpoint (conn a') = endpoint (conn a) \<and>
     entry a' = entry a \<and> unat (sndNxt (conn a)) \<le> unat (sndNxt (conn a')) \<and>
     unat (sndUna (conn a')) \<le> max (unat (sndUna (conn a))) r"

definition probing_of :: "loop_result \<Rightarrow> (TCPPacket \<times> u32 \<times> u32) option" where
  "probing_of r = (case r of Probe p una n s \<Rightarrow> Some (p, una, n) | _ \<Rightarrow> None)"

lemma probing_of_simps [simp]:
  "probing_of (Waiting s) = None" "probing_of (Again s) = None" "probing_of (LoopEnds s) = None"
  "probing_of (Probe p una n s) = Some (p, una, n)"
  by (simp_all add: probing_of_def)

lemma goes_on_refl: "sender base st R (set (outs a)) e pr (conn a) \<Longrightarrow> goes_on base st R r e pr a a"
  by (simp add: goes_on_def)

lemma goes_on_emit:
  assumes "sender base st R (insert p (set (outs a))) e pr c" and "grows base st R e (unat (sndNxt (conn a))) (set (outs a)) (insert p (set (outs a)))"
    and "endpoint c = endpoint (conn a)" and "unat (sndNxt (conn a)) \<le> unat (sndNxt c)" and "sndUna c = sndUna (conn a)"
  shows "goes_on base st R r e pr a (set_conn (emit a p) c)"
  using assms by (simp add: goes_on_def)

lemma sender_woken:
  assumes "sender base st R P e None c"
  shows "sender base st R P e None (c\<lparr>sendBuf := (sendBuf c)\<lparr>hasUnsentC := 0\<rparr>\<rparr>)"
proof -
  let ?c = "c\<lparr>sendBuf := (sendBuf c)\<lparr>hasUnsentC := 0\<rparr>\<rparr>"
  have same: "kept ?c = kept c" "stored ?c = stored c" "window_ok ?c = window_ok c" "timer_wf ?c = timer_wf c" "unsent ?c = unsent c"
    by (simp_all add: kept_def stored_def window_ok_def timer_wf_def unsent_def)
  then have "sb_wf c \<Longrightarrow> sb_wf ?c" by (simp add: sb_wf_def)
  then show ?thesis using assms same by (simp add: sender_def probe_ok_def)
qed

lemma next_byte:
  assumes s: "sender base st R P e pr c" and u: "0 < unsent c"
  shows "sindex (sendBuf c) (sndNxt c) = ok ((unat (sndNxt c) - unat (biss (sendBuf c))) mod scapacity (sendBuf c))"
    and "(unat (sndNxt c) - unat (biss (sendBuf c))) mod scapacity (sendBuf c) < length (sbuf (sendBuf c))"
    and "sbuf (sendBuf c) ! ((unat (sndNxt c) - unat (biss (sendBuf c))) mod scapacity (sendBuf c)) = st ! (unat (sndNxt c) - base)"
proof -
  have wf: "sb_wf c" "stored c = drop (unat (sndUna c) - base) st" using s by (simp_all add: sender_def)
  have L: "0 < scapacity (sendBuf c)" "length (sbuf (sendBuf c)) = scapacity (sendBuf c)" using wf(1) by (simp_all add: sb_wf_def)
  note o = sender_order [OF s] and ord = sb_wf_order [OF wf(1)]
  let ?i = "unat (sndNxt c) - unat (sndUna c)"
  have i: "?i < kept c" using u o by linarith
  show "sindex (sendBuf c) (sndNxt c) = ok ((unat (sndNxt c) - unat (biss (sendBuf c))) mod scapacity (sendBuf c))"
    using L sb_differences(3) [OF wf(1)] by (simp add: sindex_def)
  show "(unat (sndNxt c) - unat (biss (sendBuf c))) mod scapacity (sendBuf c) < length (sbuf (sendBuf c))" using L by simp
  have "stored c ! ?i = sbuf (sendBuf c) ! ((unat (sndUna c) - unat (biss (sendBuf c)) + ?i) mod scapacity (sendBuf c))"
    using i L by (simp add: stored_def nth_ring)
  moreover have "unat (sndUna c) - unat (biss (sendBuf c)) + ?i = unat (sndNxt c) - unat (biss (sendBuf c))" using ord by linarith
  moreover have "stored c ! ?i = st ! (unat (sndNxt c) - base)" unfolding wf(2) using o by simp
  ultimately show "sbuf (sendBuf c) ! ((unat (sndNxt c) - unat (biss (sendBuf c))) mod scapacity (sendBuf c)) = st ! (unat (sndNxt c) - base)"
    by simp
qed

lemma sender_turn:
  assumes s: "sender base st R (set (outs a)) e None (conn a)" and up: "net_up E (RemoteAddr (endpoint (conn a)))"
    and lim: "base + length st + 65535 < 2 ^ 32" and e: "e < 2 ^ 32"
  shows "\<exists>l. sendBufferedData_turn E now a = ok l \<and> goes_on base st R r e (probing_of l) a (loop_tcb l)"
proof -
  let ?c = "conn a"
  let ?c1 = "?c\<lparr>sendBuf := (sendBuf ?c)\<lparr>hasUnsentC := 0\<rparr>\<rparr>"
  let ?s1 = "set_conn a ?c1"
  have c: "sb_wf ?c" "timer_wf ?c" "unat (sndUna ?c) + unat (sndWnd ?c) \<le> e" "hasUnsentC (sendBuf ?c) \<le> unsent ?c"
      "expectedSeqNum ?c = R" "\<forall>m \<in> set (inflightQ ?c). packet m \<in> set (outs a)"
    using s by (simp_all add: sender_def)
  have u: "unat (numBytesNotSent ?c) = unsent ?c" using sb_differences(4) [OF c(1)] by (simp add: unsent_def)
  note o = sender_order [OF s]
  note woken = sender_woken [OF s]
  consider "unsent ?c = 0" | "0 < unsent ?c" "sndWnd ?c = 0" | "0 < unsent ?c" "sndWnd ?c \<noteq> 0" by blast
  then show ?thesis
  proof cases
    case 1
    then have "numBytesNotSent ?c = 0" using u by (simp add: word_unat_eq_iff)
    then have "sendBufferedData_turn E now a = ok (Waiting a)" using 1 c(4) by (simp add: sendBufferedData_turn_def)
    then show ?thesis using goes_on_refl [OF s] by auto
  next
    case 2
    note b = next_byte [OF s 2(1)]
    let ?byte = "st ! (unat (sndNxt ?c) - base)"
    let ?p = "newPacket ?s1 (sndNxt ?c) (expectedSeqNum ?c) TCPFlagAck [?byte]"
    have nz: "numBytesNotSent ?c \<noteq> 0" using 2(1) u by auto
    have turn: "sendBufferedData_turn E now a = ok (Probe ?p (sndUna ?c) (sndNxt ?c + 1) ?s1)"
      using nz 2(2) b by (simp add: sendBufferedData_turn_def Let_def not_le)
    have p: "seg_at ?p = unat (sndNxt ?c)" "seg_end ?p = unat (sndNxt ?c) + 1" "length (TPayload ?p) = 1"
      by (simp_all add: seg_end_def seg_at_def newPacket_def)
    have top: "unat (sndNxt ?c) + 1 \<le> base + length st" using 2(1) o by linarith
    have "span (stream_at base st) (unat (sndNxt ?c)) (unat (sndNxt ?c) + 1) = [?byte]"
      by (simp add: span_def stream_at_def)
    then have car: "carries base st R ?p" using p top o c(5) by (simp add: carries_def newPacket_def)
    have "unat (sndNxt ?c) + 1 < 2 ^ 32" using top lim by linarith
    then have nxt: "unat (sndNxt ?c + 1) = seg_end ?p" using unat_plus_nat [of "sndNxt ?c" 1] p by simp
    have "probe_ok base st R (set (outs a)) ?c1 (Some (?p, sndUna ?c, sndNxt ?c + 1))"
      using car p nxt 2(1) by (simp add: probe_ok_def unsent_def)
    then have "sender base st R (set (outs a)) e (Some (?p, sndUna ?c, sndNxt ?c + 1)) ?c1"
      using woken by (simp add: sender_def)
    then show ?thesis using turn by (auto simp: goes_on_def)
  next
    case 3
    have wnd: "unat (sndUna ?c) + unat (sndWnd ?c) < 2 ^ 32" using c(3) e by linarith
    let ?n = "sendable_now ?c MSS"
    show ?thesis
    proof (cases "?n = 0")
      case True
      have nz: "numBytesNotSent ?c \<noteq> 0" using 3(1) u by auto
      have "sb_wf ?c1" using woken by (simp add: sender_def)
      moreover have "sendable_now ?c1 MSS = 0" using True by (simp add: sendable_now_def)
      ultimately have "bytesNotSent ?c1 MSS = ok (0, [])" using bytesNotSent_exact [of ?c1 MSS] wnd by simp
      then have "sendBufferedData_turn E now a = ok (Again ?s1)" using nz 3(2) by (simp add: sendBufferedData_turn_def Let_def)
      then show ?thesis using woken by (auto simp: goes_on_def)
    next
      case False
      then have n: "0 < ?n" by simp
      obtain c' p where t: "sendBufferedData_turn E now a = ok (Again (set_conn (emit a p) c'))" "timer_wf c'"
          "SeqNum (TcpHeader p) = sndNxt ?c" "AckNum (TcpHeader p) = expectedSeqNum ?c" "Flags (TcpHeader p) = TCPFlagAck"
          "TPayload p = take ?n (drop (unat (sndNxt ?c) - unat (sndUna ?c)) (stored ?c))"
          "core c' = core (?c\<lparr>sendBuf := (sendBuf ?c)\<lparr>hasUnsentC := 0\<rparr>, sndNxt := sndNxt ?c + of_nat ?n\<rparr>)"
          "inflightQ c' = inflightQ ?c @ [\<lparr>timeSent = now, plength = of_nat ?n, counter = 0, packet = p\<rparr>]"
        using turn_sends [OF up c(2,1) wnd 3(2) n, of now] by (auto simp: data_segment_def newPacket_def)
      have fit: "?n \<le> unat (sndUna ?c) + unat (sndWnd ?c) - unat (sndNxt ?c)" by (simp add: sendable_now_def)
      have len: "?n \<le> unsent ?c" "unat (sndNxt ?c) + ?n \<le> e"
        by (simp add: sendable_now_def unsent_def) (use fit n c(3) in linarith)
      have pay: "TPayload p = take ?n (drop (unat (sndNxt ?c) - base) st)"
        using t(6) sender_stored [OF s o(1)] by simp
      have "\<forall>m \<in> set (inflightQ c'). packet m = p \<or> packet m \<in> set (outs a)" using t(8) c(6) by auto
      moreover have "1 < ?n \<longrightarrow> unat (sndNxt ?c) + ?n \<le> e" "AckNum (TcpHeader p) = R" using len(2) t(4) c(5) by simp_all
      ultimately have sends: "grows base st R e (unat (sndNxt ?c)) (set (outs a)) (insert p (set (outs a)))"
          "sender base st R (insert p (set (outs a))) e None c'"
        using sender_sends(4,5) [OF s lim n len(1) _ t(3) _ t(5) pay t(7,2)] by blast+
      have "unat (sndNxt ?c) \<le> unat (sndNxt c')"
      proof -
        have "unat (sndNxt ?c) + ?n < 2 ^ 32" using len o lim by linarith
        from unat_plus_nat [OF this] show ?thesis using core_fields(5) [OF t(7)] by simp
      qed
      then have "goes_on base st R r e None a (set_conn (emit a p) c')"
        using sends core_fields(1,6) [OF t(7)] by (intro goes_on_emit) simp_all
      then show ?thesis using t(1) by auto
    qed
  qed
qed


lemma sender_probe:
  assumes s: "sender base st R (set (outs a)) e (Some (p, una, n)) (conn a)" and up: "net_up E (RemoteAddr (endpoint (conn a)))"
    and lim: "base + length st + 65535 < 2 ^ 32"
  shows "\<exists>l. probe_round E p una n a = ok l \<and> goes_on base st R r e (probing_of l) a (loop_tcb l)"
proof -
  let ?c = "conn a" and ?P = "set (outs a)"
  have pr: "carries base st R p" "length (TPayload p) = 1" "seg_end p = unat n"
      "sndNxt ?c = n \<and> repeats p ?P \<or> unat (sndNxt ?c) = seg_at p \<and> hasUnsentC (sendBuf ?c) < unsent ?c"
    using s by (simp_all add: sender_def probe_ok_def)
  show ?thesis
  proof (cases "sndWnd ?c = 0 \<and> sndUna ?c = una")
    case False
    have "probe_round E p una n a = ok (Again a)" unfolding probe_round_def if_not_P [OF False] ..
    moreover have "sender base st R ?P e None ?c" using s by (simp add: sender_def probe_ok_def)
    ultimately show ?thesis using goes_on_refl by auto
  next
    case True
    let ?q = "sealed E a p" and ?c' = "?c\<lparr>sndNxt := n\<rparr>"
    have q: "carries base st R ?q" "length (TPayload ?q) = 1" "seg_end ?q = unat n" "seg_at ?q = seg_at p" "seg_end ?q = seg_end p"
      using pr(1-3) by (simp_all add: carries_def seg_at_def seg_end_def)
    have run: "probe_round E p una n a = ok (Probe ?q una n (set_conn (emit a ?q) ?c'))"
      using True send_from_up [OF up, of p] by (simp add: probe_round_def)
    have rep: "repeats ?q (insert ?q ?P)" by (auto simp: repeats_def)
    have at: "seg_end p = seg_at p + 1" using pr(2) by (simp add: seg_end_def)
    from pr(4) consider "sndNxt ?c = n" "repeats p ?P" | "unat (sndNxt ?c) = seg_at p" "hasUnsentC (sendBuf ?c) < unsent ?c" by blast
    then have "sender base st R (insert ?q ?P) e (Some (?q, una, n)) ?c' \<and>
      grows base st R e (unat (sndNxt ?c)) ?P (insert ?q ?P) \<and> unat (sndNxt ?c) \<le> unat n"
    proof cases
      case 1
      then have "repeats ?q ?P" using q(4,5) by (auto simp: repeats_def)
      then have g: "grows base st R e (unat (sndNxt ?c)) ?P (insert ?q ?P)" by (intro grows_repeat q(1))
      have same: "?c' = ?c" using 1(1) by simp
      have "sender base st R (insert ?q ?P) e (Some (p, una, n)) ?c"
        using sender_more [OF s, of ?q] q(3) 1(1) by simp
      then have "sender base st R (insert ?q ?P) e (Some (?q, una, n)) ?c"
        using q rep 1(1) by (simp add: sender_def probe_ok_def)
      then show ?thesis unfolding same using g 1(1) by simp
    next
      case 2
      have ends: "\<forall>r \<in> ?P. seg_end r \<le> seg_at ?q" using s 2(1) q(4) by (simp add: sender_def)
      then have g: "grows base st R e (unat (sndNxt ?c)) ?P (insert ?q ?P)" using 2(1) q by (intro grows_new) simp_all
      have nxt: "unat n = unat (sndNxt ?c) + 1" using 2(1) pr(3) at by simp
      have same: "kept ?c' = kept ?c" "stored ?c' = stored ?c" "window_ok ?c' = window_ok ?c" "timer_wf ?c' = timer_wf ?c" "unsent ?c' = unsent ?c - 1"
        using nxt by (simp_all add: kept_def stored_def window_ok_def timer_wf_def unsent_def)
      note o = sender_order [OF s]
      have "sb_wf ?c" using s by (simp add: sender_def)
      moreover have "unat n \<le> unat (lbw (sendBuf ?c))" using nxt 2(2) by (simp add: unsent_def)
      ultimately have "sb_wf ?c'" using same(1) nxt by (simp add: sb_wf_def word_le_nat_alt)
      moreover have "\<forall>r \<in> insert ?q ?P. seg_end r \<le> unat n" using ends q nxt at 2(1) by auto
      ultimately show ?thesis using s same q rep g nxt 2(2) by (simp add: sender_def probe_ok_def)
    qed
    then show ?thesis using run by (auto intro!: goes_on_emit)
  qed
qed

lemma sender_fires:
  "sender base st R P e pr c \<Longrightarrow> sender base st R P e pr (c\<lparr>retransTimer := (retransTimer c)\<lparr>running := False, tick := True\<rparr>\<rparr>)"
  by (rule sender_core) (simp_all add: core_def timer_wf_def sender_def)

text \<open>The handler of the retransmission timer: nothing to do, the oldest segment again, or the end.\<close>

lemma sender_tick:
  assumes s: "sender base st R (set (outs a)) e pr (conn a)" and up: "net_up E (RemoteAddr (endpoint (conn a)))"
    and mine: "entry a = Mine" and net: "network base st R e (set (outs a))"
  shows "(\<exists>a'. handleRTO_tick E now a = ok (True, a') \<and> goes_on base st R r e pr a a') \<or>
    (\<exists>a'. handleRTO_tick E now a = ok (False, a') \<and> state (conn a') = CLOSED \<and> outs a' = outs a \<and> endpoint (conn a') = endpoint (conn a))"
proof -
  let ?c = "(conn a)\<lparr>retransTimer := (retransTimer (conn a))\<lparr>tick := False\<rparr>\<rparr>" and ?P = "set (outs a)"
  have q: "\<forall>m \<in> set (inflightQ (conn a)). packet m \<in> ?P" "expectedSeqNum (conn a) = R" using s by (simp_all add: sender_def)
  show ?thesis
  proof (cases "inflightQ (conn a)")
    case Nil
    then have run: "handleRTO_tick E now a = ok (True, set_conn a (?c\<lparr>rtoIsRunning := False\<rparr>))" by (simp add: handleRTO_tick_def Let_def)
    have "sender base st R ?P e pr (?c\<lparr>rtoIsRunning := False\<rparr>)"
      using q by (intro sender_core [OF s]) (simp_all add: core_def timer_wf_def)
    then show ?thesis using run by (auto simp: goes_on_def)
  next
    case (Cons m ms)
    show ?thesis
    proof (cases "counter m \<ge> MAX_RETRANSMISSIONS")
      case True
      then show ?thesis using Cons mine by (simp add: handleRTO_tick_def Let_def deleteSocket_def set_conn_def)
    next
      case False
      let ?c1 = "timer_reset (?c\<lparr>rto := min (rto ?c * 2) MAX_RTO\<rparr>)"
      let ?p = "(packet m)\<lparr>TcpHeader := (TcpHeader (packet m))\<lparr>AckNum := expectedSeqNum ?c1, TcpWindowSize := ucast (windowSize ?c1)\<rparr>\<rparr>"
      let ?p1 = "sealed E (set_conn a ?c1) ?p"
      let ?c2 = "?c1\<lparr>inflightQ := m\<lparr>packet := ?p1, timeSent := now, counter := counter m + 1\<rparr> # ms\<rparr>"
      have c1: "endpoint ?c1 = endpoint (conn a)" "rtoIsRunning ?c1" "expectedSeqNum ?c1 = R" "running (retransTimer ?c1)"
        using q(2) by (simp_all add: timer_reset_def getRTODuration_def)
      have "send_timed E (set_conn a ?c1) ?p = ok (True, ?p1, emit (set_conn a ?c1) ?p1)"
        using up c1 by (intro send_timed_up) simp_all
      then have run: "handleRTO_tick E now a = ok (True, set_conn (emit a ?p1) ?c2)"
        using Cons False by (simp add: handleRTO_tick_def Let_def set_conn_def emit_def)
      have m: "packet m \<in> ?P" using q(1) Cons by simp
      then have old: "carries base st R (packet m)" "seg_end (packet m) \<le> unat (sndNxt (conn a))"
        using net s by (simp_all add: network_def sender_def)
      have p1: "seg_at ?p1 = seg_at (packet m)" "seg_end ?p1 = seg_end (packet m)" by (simp_all add: seg_at_def seg_end_def)
      have car: "carries base st R ?p1" using old(1) p1 c1(3) by (simp add: carries_def)
      have rep: "repeats ?p1 ?P" using m p1 by (auto simp: repeats_def)
      have core: "core ?c2 = core (conn a)" by (simp add: core_def timer_reset_def getRTODuration_def)
      have t: "timer_wf ?c2" using c1 by (simp add: timer_wf_def)
      have more: "sender base st R (insert ?p1 ?P) e pr (conn a)" using sender_more [OF s] old(2) p1(2) by simp
      have "\<forall>k \<in> set (inflightQ ?c2). packet k \<in> insert ?p1 ?P" using q(1) Cons by simp
      note sender_core [OF more core t this]
      then have "goes_on base st R r e pr a (set_conn (emit a ?p1) ?c2)"
        using grows_repeat [OF car rep] core_fields(1,5,6) [OF core] by (intro goes_on_emit) simp_all
      then show ?thesis using run by blast
    qed
  qed
qed


text \<open>What the receiver sends back: an acknowledgement and a window that it has offered.\<close>

definition reply :: "nat \<Rightarrow> u32 \<Rightarrow> nat \<Rightarrow> nat \<Rightarrow> TCPPacket \<Rightarrow> bool" where
  "reply base R r e q \<longleftrightarrow> SeqNum (TcpHeader q) = R \<and> Flags (TcpHeader q) = TCPFlagAck \<and> TPayload q = [] \<and>
     base \<le> unat (AckNum (TcpHeader q)) \<and> unat (AckNum (TcpHeader q)) \<le> r \<and>
     unat (AckNum (TcpHeader q)) + unat (TcpWindowSize (TcpHeader q)) \<le> e"

lemma unat_ucast_up: "unat (ucast (w :: u16) :: u32) = unat w"
proof -
  have "unat w < 2 ^ 16" using unsigned_less [of w] by simp
  then have "take_bit 32 (unat w) = unat w" by (intro take_bit_nat_eq_self) simp
  then show ?thesis by (simp add: unsigned_ucast_eq unsigned_take_bit_eq)
qed

lemma reply_mono: "reply base R r e q \<Longrightarrow> r \<le> r' \<Longrightarrow> e \<le> e' \<Longrightarrow> reply base R r' e' q"
  by (auto simp: reply_def)

lemma sender_ack:
  assumes s: "sender base st R P e pr c" and a: "sndUna c \<le> a" "a \<le> sndNxt c" and w: "unat a + unat w \<le> e"
    and core: "core c' = core (c\<lparr>sndUna := a, sndWnd := w, sendBuf := acked_buf c a\<rparr>)"
    and t: "timer_wf c'" and q: "set (inflightQ c') \<subseteq> set (inflightQ c)"
  shows "sender base st R P e pr c'"
proof -
  note f = core_fields [OF core, simplified] and o = sender_order [OF s]
  have buf: "sbuf (acked_buf c a) = sbuf (sendBuf c)" "scapacity (acked_buf c a) = scapacity (sendBuf c)" "biss (acked_buf c a) = biss (sendBuf c)"
      "lbw (acked_buf c a) = lbw (sendBuf c)" "hasUnsentC (acked_buf c a) = hasUnsentC (sendBuf c)"
      "freespaceC (acked_buf c a) = freespaceC (sendBuf c) + (if a = sndUna c then 0 else 1)"
    by (simp_all add: acked_buf_def)
  have wf: "sb_wf c" and st: "stored c = drop (unat (sndUna c) - base) st" and cap: "freespaceC (sendBuf c) + kept c \<le> scapacity (sendBuf c)"
    using s by (simp_all add: sender_def)
  note ord = sb_wf_order [OF wf]
  have a': "unat (sndUna c) \<le> unat a" "unat a \<le> unat (sndNxt c)" using a by (simp_all add: word_le_nat_alt)
  let ?n = "unat a - unat (sndUna c)"
  have n: "?n \<le> kept c" "a \<noteq> sndUna c \<Longrightarrow> 0 < ?n" using a' o by (auto simp: word_unat_eq_iff)
  have kept': "kept c' = kept c - ?n" using f buf a' by (simp add: kept_def)
  have unsent': "unsent c' = unsent c" "window_ok c' = window_ok c" using f buf by (simp_all add: unsent_def window_ok_def)
  have "stored c' = drop ?n (stored c)" using f buf kept' n ord a' by (simp add: stored_def drop_ring)
  then have st': "stored c' = drop (unat a - base) st" using st a' o(3) by simp
  have un: "hasUnsentC (sendBuf c) \<le> unsent c" using s by (simp add: sender_def)
  then have "hasUnsentC (sendBuf c) \<le> kept c'" unfolding kept' using a' o by simp
  moreover have "kept c' \<le> scapacity (sendBuf c)" using wf unfolding kept' sb_wf_def by linarith
  ultimately have "sb_wf c'" using wf f buf ord a' by (simp add: sb_wf_def word_le_nat_alt)
  moreover have "freespaceC (acked_buf c a) + kept c' \<le> scapacity (sendBuf c)"
    using cap n buf unfolding kept' by (cases "a = sndUna c") simp_all
  moreover have "probe_ok base st R P c' pr = probe_ok base st R P c pr"
    using f buf unsent' by (simp add: probe_ok_def split: option.split)
  moreover have "\<forall>m \<in> set (inflightQ c'). packet m \<in> P" using s q by (auto simp: sender_def)
  ultimately show ?thesis using s f buf unsent' st' w t a' by (simp add: sender_def)
qed

lemma zero_ack:
  assumes s: "sender base st R (set (outs a)) e pr (conn a)"
  shows "goes_on base st R r e pr a (emit a (ack_segment E a))"
proof -
  let ?p = "ack_segment E a" and ?P = "set (outs a)"
  have p: "seg_at ?p = unat (sndNxt (conn a))" "seg_end ?p = unat (sndNxt (conn a))" by (simp_all add: seg_at_def seg_end_def)
  have "carries base st R ?p" using s sender_order [OF s] p by (simp add: carries_def sender_def span_def)
  moreover have "\<forall>q \<in> ?P. seg_end q \<le> seg_at ?p" using s p by (simp add: sender_def)
  ultimately have "grows base st R e (unat (sndNxt (conn a))) ?P (insert ?p ?P)" using p by (intro grows_new) simp_all
  moreover have "sender base st R (insert ?p ?P) e pr (conn a)" using sender_more [OF s] p(2) by simp
  ultimately show ?thesis by (simp add: goes_on_def)
qed

text \<open>Any acknowledgement of the network arrives at the sender, new, old or repeated.\<close>

lemma sender_answered:
  assumes s: "sender base st R (set (outs a)) e pr (conn a)" and q: "reply base R r e q" and r: "r \<le> unat (sndNxt (conn a))"
    and up: "net_up E (RemoteAddr (endpoint (conn a)))"
  shows "\<exists>a'. stateMachine E rnd now q a = ok a' \<and> goes_on base st R r e pr a a'"
proof -
  let ?c = "conn a" and ?a = "AckNum (TcpHeader q)" and ?w = "ucast (TcpWindowSize (TcpHeader q)) :: u32"
  have c: "state ?c = ESTABLISHED" "window_ok ?c" "earlyArrivalQ ?c = []" "timer_wf ?c" "expectedSeqNum ?c = R" "65535 \<le> base"
      "freespaceC (sendBuf ?c) + kept ?c \<le> scapacity (sendBuf ?c)"
    using s by (simp_all add: sender_def)
  note o = sender_order [OF s]
  have p: "SeqNum (TcpHeader q) = R" "Flags (TcpHeader q) = TCPFlagAck" "TPayload q = []" "unat ?a \<le> r" "base \<le> unat ?a"
      "unat ?a + unat ?w \<le> e" using q by (simp_all add: reply_def unat_ucast_up)
  have order: "sndUna ?c \<le> sndNxt ?c" "?a \<le> sndNxt ?c" using o p(4) r by (simp_all add: word_le_nat_alt)
  have h: "handleSeqNum E q a = ok (Inr [], a)" using handleSeqNum_next [OF up c(2,3), of q] p c(5) by simp
  note run = stateMachine_def stateFuncEstablished_def onAccepted_def withText_def finToCloseWait_def
  note cases = handleAck_cases [OF up c(4) order(1), of q rnd now]
  have floor: "ack_floor (sndUna ?c) = unat (sndUna ?c) - 65535" using o(3) c(6) by (simp add: ack_floor_def)
  consider "unat ?a < ack_floor (sndUna ?c)" | "ack_floor (sndUna ?c) \<le> unat ?a" "?a < sndUna ?c" | "sndUna ?c \<le> ?a"
    by (meson leI)
  then show ?thesis
  proof cases
    case 1
    then have "stateMachine E rnd now q a = ok (emit a (ack_segment E a))"
      using c(1) h cases(1) pure_ack [OF p(2)] by (simp add: run)
    then show ?thesis using zero_ack [OF s, of r E] by simp
  next
    case 2
    then have "stateMachine E rnd now q a = ok a" using c(1) h cases(4) pure_ack [OF p(2)] by (simp add: run)
    then show ?thesis using goes_on_refl [OF s] by simp
  next
    case 3
    then have low: "ack_floor (sndUna ?c) \<le> unat ?a" unfolding floor by (simp add: word_le_nat_alt)
    have room: "freespaceC (sendBuf ?c) < scapacity (sendBuf ?c)" if "sndUna ?c < ?a"
    proof -
      have "0 < kept ?c" using that order(2) o by (simp add: word_less_nat_alt word_le_nat_alt)
      then show ?thesis using c(7) by linarith
    qed
    obtain c' where c': "handleAck E rnd now q a = ok (None, set_conn a c')" "timer_wf c'"
        "core c' = core (?c\<lparr>sndUna := ?a, sndWnd := ?w, sendBuf := acked_buf ?c ?a\<rparr>)" "set (inflightQ c') \<subseteq> set (inflightQ ?c)"
    proof (cases "?a = sndUna ?c")
      case True
      then have "?c\<lparr>sndUna := ?a, sndWnd := ?w, sendBuf := acked_buf ?c ?a\<rparr> = ?c\<lparr>sndWnd := ?w\<rparr>" by (simp add: acked_buf_def)
      then show ?thesis using that cases(3) [OF low] True by auto
    next
      case False
      then have "sndUna ?c < ?a" using 3 by simp
      moreover have "?c\<lparr>sndUna := ?a, sndWnd := ?w, sendBuf := acked_buf ?c ?a\<rparr> =
          ?c\<lparr>sndUna := ?a, sndWnd := ?w, sendBuf := (sendBuf ?c)\<lparr>freespaceC := freespaceC (sendBuf ?c) + 1\<rparr>\<rparr>"
        using False by (simp add: acked_buf_def)
      ultimately show ?thesis using that cases(2) [OF low _ order(2)] room set_dropWhileD by fastforce
    qed
    have "stateMachine E rnd now q a = ok (set_conn a c')" using c(1) h c'(1) pure_ack [OF p(2)] by (simp add: run)
    moreover have "sender base st R (set (outs a)) e pr c'" by (rule sender_ack [OF s 3 order(2) p(6) c'(3,2,4)])
    ultimately show ?thesis using core_fields [OF c'(3), simplified] p(4) by (auto simp: goes_on_def)
  qed
qed

end
