(* ===== verification/Tcp_Network.thy ===== *)
theory Tcp_Network imports Stream_Sender begin

text \<open>
  Two ends of a connection and a network between them that may lose, repeat, delay and reorder what they
  send, with several segments on the way at a time: the invariant of every run, and what follows for the
  bytes that the applications see.
\<close>

section \<open>The two ends and the network\<close>

record channel =
  sending :: tcb
  prober :: "(TCPPacket \<times> u32 \<times> u32) option"
  receiving :: tcb

text \<open>
  A step accepts bytes from one application and delivers bytes to the other. The network delivers, at any time
  and any number of times, any segment that either end has ever sent; what it never delivers is lost.
\<close>

inductive wire_step :: "env \<Rightarrow> (rat \<Rightarrow> rat) \<Rightarrow> channel \<Rightarrow> bytes \<Rightarrow> bytes \<Rightarrow> channel \<Rightarrow> bool" for E rnd where
  wrote: "state (conn (sending n)) = ESTABLISHED \<Longrightarrow> VWrite (conn (sending n)) d = ok (VWriteDone k err c) \<Longrightarrow>
    wire_step E rnd n (take k d) [] (n\<lparr>sending := set_conn (sending n) c\<rparr>)"
| write_waits: "state (conn (sending n)) = ESTABLISHED \<Longrightarrow> VWrite (conn (sending n)) d = ok (VWriteWaits k c) \<Longrightarrow>
    wire_step E rnd n (take k d) [] (n\<lparr>sending := set_conn (sending n) c\<rparr>)"
| turn: "state (conn (sending n)) = ESTABLISHED \<Longrightarrow> prober n = None \<Longrightarrow> sendBufferedData_turn E now (sending n) = ok r \<Longrightarrow>
    wire_step E rnd n [] [] (n\<lparr>sending := loop_tcb r, prober := probing_of r\<rparr>)"
| probe: "state (conn (sending n)) = ESTABLISHED \<Longrightarrow> prober n = Some (p, una, nx) \<Longrightarrow> probe_round E p una nx (sending n) = ok r \<Longrightarrow>
    wire_step E rnd n [] [] (n\<lparr>sending := loop_tcb r, prober := probing_of r\<rparr>)"
| fires: "state (conn (sending n)) = ESTABLISHED \<Longrightarrow> running (retransTimer (conn (sending n))) \<Longrightarrow>
    wire_step E rnd n [] [] (n\<lparr>sending := set_conn (sending n) ((conn (sending n))
      \<lparr>retransTimer := (retransTimer (conn (sending n)))\<lparr>running := False, tick := True\<rparr>\<rparr>)\<rparr>)"
| retransmit: "state (conn (sending n)) = ESTABLISHED \<Longrightarrow> tick (retransTimer (conn (sending n))) \<Longrightarrow>
    handleRTO_tick E now (sending n) = ok (goes, a) \<Longrightarrow> wire_step E rnd n [] [] (n\<lparr>sending := a\<rparr>)"
| segment: "p \<in> set (outs (sending n)) \<Longrightarrow> stateMachine E rnd now p (receiving n) = ok b \<Longrightarrow>
    wire_step E rnd n [] [] (n\<lparr>receiving := b\<rparr>)"
| answer: "q \<in> set (outs (receiving n)) \<Longrightarrow> stateMachine E rnd now q (sending n) = ok a \<Longrightarrow>
    wire_step E rnd n [] [] (n\<lparr>sending := a\<rparr>)"
| read: "k < 2 ^ 31 \<Longrightarrow> VRead (conn (receiving n)) (replicate k 0) = ok (VReadDone j err buf c) \<Longrightarrow>
    wire_step E rnd n [] (take (nat j) buf) (n\<lparr>receiving := set_conn (receiving n) c\<rparr>)"
| receiver_fires: "running (retransTimer (conn (receiving n))) \<Longrightarrow>
    wire_step E rnd n [] [] (n\<lparr>receiving := set_conn (receiving n) ((conn (receiving n))
      \<lparr>retransTimer := (retransTimer (conn (receiving n)))\<lparr>running := False, tick := True\<rparr>\<rparr>)\<rparr>)"
| receiver_tick: "tick (retransTimer (conn (receiving n))) \<Longrightarrow> handleRTO_tick E now (receiving n) = ok (goes, b) \<Longrightarrow>
    wire_step E rnd n [] [] (n\<lparr>receiving := b\<rparr>)"

inductive_cases wire_stepE: "wire_step E rnd n w r n'"

text \<open>A run, with all the bytes accepted and all the bytes delivered.\<close>

inductive wire_run :: "env \<Rightarrow> (rat \<Rightarrow> rat) \<Rightarrow> channel \<Rightarrow> bytes \<Rightarrow> bytes \<Rightarrow> channel \<Rightarrow> bool" for E rnd where
  start: "wire_run E rnd n [] [] n"
| step: "wire_run E rnd n ws rs n1 \<Longrightarrow> wire_step E rnd n1 w r n2 \<Longrightarrow> wire_run E rnd n (ws @ w) (rs @ r) n2"

definition on_line :: "channel \<Rightarrow> TCPPacket set" where
  "on_line n = set (outs (sending n))"

definition net_ok :: "env \<Rightarrow> nat \<Rightarrow> bytes \<Rightarrow> u32 \<Rightarrow> bytes \<Rightarrow> bytes \<Rightarrow> channel \<Rightarrow> bool" where
  "net_ok E base st R pre got n \<longleftrightarrow> (let a = conn (sending n); b = conn (receiving n) in
     65535 \<le> base \<and> links_up E (sending n, receiving n) \<and> receiver base st R (on_line n) pre got b \<and>
     network base st R (edge b) (on_line n) \<and> (\<forall>q \<in> set (outs (receiving n)). reply base R (unat (expectedSeqNum b)) (edge b) q) \<and>
     (state a = CLOSED \<or> entry (sending n) = Mine \<and> sender base st R (on_line n) (edge b) (prober n) a \<and>
        unat (expectedSeqNum b) \<le> unat (sndNxt a) \<and> unat (sndUna a) \<le> unat (expectedSeqNum b)))"

lemma sender_established: "sender base st R P e pr c \<Longrightarrow> state c = ESTABLISHED"
  by (simp add: sender_def)

lemma receiver_grows:
  assumes "receiver base st R P pre got c" and "grows base st R e n P P'" and "unat (expectedSeqNum c) \<le> n"
  shows "receiver base st R P' pre got c"
  using assms by (auto simp: receiver_def grows_def)

lemma receiver_append:
  assumes "receiver base st R P pre got c"
  shows "receiver base (st @ w) R P pre got c"
  using assms by (auto simp: receiver_def)

lemma network_append: "network base st R e P \<Longrightarrow> network base (st @ w) R e P"
  using carries_append by (auto simp: network_def)

lemma network_edge: "network base st R e P \<Longrightarrow> e \<le> e' \<Longrightarrow> network base st R e' P"
  by (fastforce simp: network_def)

lemma carries_take:
  assumes "carries base st R p" and "seg_end p \<le> base + k"
  shows "carries base (take k st) R p"
proof -
  have "span (stream_at base (take k st)) (seg_at p) (seg_end p) = span (stream_at base st) (seg_at p) (seg_end p)"
    using assms by (auto simp: span_def stream_at_def carries_def)
  then show ?thesis using assms by (simp add: carries_def min_def)
qed

lemma receiver_take:
  assumes "receiver base st R P pre got c" and "unat (expectedSeqNum c) \<le> base + k"
  shows "receiver base (take k st) R P pre got c"
  using assms by (auto simp: receiver_def min_def)

text \<open>A step of the sender.\<close>

lemma net_ok_sender:
  assumes n: "net_ok E base st R pre got n" and est: "state (conn (sending n)) = ESTABLISHED"
    and a: "goes_on base st R (unat (expectedSeqNum (conn (receiving n)))) (edge (conn (receiving n))) pr (sending n) a"
  shows "net_ok E base st R pre got (n\<lparr>sending := a, prober := pr\<rparr>)"
proof -
  have n': "receiver base st R (on_line n) pre got (conn (receiving n))" "unat (expectedSeqNum (conn (receiving n))) \<le> unat (sndNxt (conn (sending n)))"
      "unat (sndUna (conn (sending n))) \<le> unat (expectedSeqNum (conn (receiving n)))"
    using n est by (auto simp: net_ok_def Let_def)
  have "grows base st R (edge (conn (receiving n))) (unat (sndNxt (conn (sending n)))) (on_line n) (set (outs a))"
    using a by (simp add: goes_on_def on_line_def)
  then have "receiver base st R (set (outs a)) pre got (conn (receiving n))" by (rule receiver_grows [OF n'(1) _ n'(2)])
  then show ?thesis using n n'(2,3) est a by (auto simp: net_ok_def Let_def goes_on_def grows_def links_up_def on_line_def)
qed

lemma net_ok_closed:
  assumes "net_ok E base st R pre got n" and "state (conn a) = CLOSED" and "outs a = outs (sending n)"
    and "endpoint (conn a) = endpoint (conn (sending n))"
  shows "net_ok E base st R pre got (n\<lparr>sending := a\<rparr>)"
  using assms by (auto simp: net_ok_def Let_def links_up_def on_line_def)

text \<open>A step of the receiver.\<close>

lemma net_ok_receiver:
  assumes n: "net_ok E base st R pre got n" and b: "receiver base st R (on_line n) pre got' (conn b)"
    and more: "edge (conn (receiving n)) \<le> edge (conn b)" "unat (expectedSeqNum (conn (receiving n))) \<le> unat (expectedSeqNum (conn b))"
    and ep: "endpoint (conn b) = endpoint (conn (receiving n))"
    and top: "state (conn (sending n)) = ESTABLISHED \<Longrightarrow> unat (expectedSeqNum (conn b)) \<le> unat (sndNxt (conn (sending n)))"
    and outs: "outs b = outs (receiving n) @ qs" "\<forall>q \<in> set qs. answers q (conn b)" and lim: "base + length st + 65535 < 2 ^ 32"
  shows "net_ok E base st R pre got' (n\<lparr>receiving := b\<rparr>)"
proof -
  have "reply base R (unat (expectedSeqNum (conn b))) (edge (conn b)) q" if "q \<in> set qs" for q
  proof -
    have "answers q (conn b)" using outs(2) that by simp
    moreover have "unat (ucast (windowSize (conn b)) :: u16) = free (recvBuf (conn b))"
      using receiver_window [OF b lim] by (simp add: unsigned_ucast_eq unsigned_take_bit_eq take_bit_nat_eq_self)
    ultimately show ?thesis using b by (simp add: answers_def reply_def receiver_def edge_def)
  qed
  then show ?thesis
    using n b more ep top [OF sender_established] outs(1) network_edge [OF _ more(1)] sender_edge [OF _ more(1)] reply_mono [OF _ more(2,1)]
    by (auto simp: net_ok_def Let_def links_up_def on_line_def)
qed


lemma net_okD:
  assumes "net_ok E base st R pre got n"
  shows "65535 \<le> base" "net_up E (RemoteAddr (endpoint (conn (sending n))))" "net_up E (RemoteAddr (endpoint (conn (receiving n))))"
    "receiver base st R (on_line n) pre got (conn (receiving n))" "network base st R (edge (conn (receiving n))) (on_line n)"
    "q \<in> set (outs (receiving n)) \<Longrightarrow> reply base R (unat (expectedSeqNum (conn (receiving n)))) (edge (conn (receiving n))) q"
    "state (conn (sending n)) = ESTABLISHED \<or> state (conn (sending n)) = CLOSED"
  using assms by (auto simp: net_ok_def Let_def links_up_def dest: sender_established)

lemma net_ok_established:
  assumes "net_ok E base st R pre got n" and "state (conn (sending n)) = ESTABLISHED"
  shows "entry (sending n) = Mine" "sender base st R (set (outs (sending n))) (edge (conn (receiving n))) (prober n) (conn (sending n))"
    "unat (expectedSeqNum (conn (receiving n))) \<le> unat (sndNxt (conn (sending n)))"
    "unat (sndUna (conn (sending n))) \<le> unat (expectedSeqNum (conn (receiving n)))"
  using assms by (auto simp: net_ok_def Let_def on_line_def)

lemma net_ok_segment:
  assumes n: "net_ok E base st R pre got n" and p: "p \<in> on_line n" and lim: "base + length st + 65535 < 2 ^ 32"
  shows "stateMachine E rnd now p (receiving n) = panic SliceBounds \<or>
    (\<exists>b. stateMachine E rnd now p (receiving n) = ok b \<and> net_ok E base st R pre got (n\<lparr>receiving := b\<rparr>))"
proof -
  let ?b = "receiving n" and ?a = "conn (sending n)"
  note r = net_okD [OF n]
  define k where "k = (if state ?a = ESTABLISHED then unat (sndNxt ?a) - base else length st)"
  have k: "k \<le> length st \<and> unat (expectedSeqNum (conn ?b)) \<le> base + k \<and> (\<forall>q \<in> on_line n. seg_end q \<le> base + k) \<and>
      (state ?a = ESTABLISHED \<longrightarrow> base + k = unat (sndNxt ?a))"
  proof (cases "state ?a = ESTABLISHED")
    case True
    note s = net_ok_established [OF n True]
    have "\<forall>q \<in> on_line n. seg_end q \<le> unat (sndNxt ?a)" using s(2) by (simp add: sender_def on_line_def)
    moreover have "base \<le> unat (sndNxt ?a)" "unat (sndNxt ?a) \<le> base + length st" using sender_order [OF s(2)] by simp_all
    ultimately show ?thesis using s(3) True by (simp add: k_def)
  next
    case False
    then show ?thesis using r(4,5) by (auto simp: k_def receiver_def network_def carries_def)
  qed
  let ?st = "take k st"
  have "network base ?st R (edge (conn ?b)) (on_line n)" using r(5) k carries_take by (auto simp: network_def)
  moreover have "receiver base ?st R (on_line n) pre got (conn ?b)" using receiver_take [OF r(4)] k by simp
  moreover have "base + length ?st + 65535 < 2 ^ 32" using lim k by simp
  ultimately consider "stateMachine E rnd now p ?b = panic SliceBounds" | b where "stateMachine E rnd now p ?b = ok b"
      "received_stream base ?st R (on_line n) pre got ?b b"
    using segment_received [OF _ _ p r(3) _ r(1), of ?st R pre got rnd now] by blast
  then show ?thesis
  proof cases
    case (2 b)
    then obtain qs where b: "receiver base ?st R (on_line n) pre got (conn b)" "edge (conn b) = edge (conn ?b)"
        "endpoint (conn b) = endpoint (conn ?b)" "unat (expectedSeqNum (conn ?b)) \<le> unat (expectedSeqNum (conn b))"
        "outs b = outs ?b @ qs" "\<forall>q \<in> set qs. answers q (conn b)"
      by (auto simp: received_stream_def)
    have "unat (expectedSeqNum (conn b)) \<le> base + k" using b(1) k by (simp add: receiver_def)
    then have top: "unat (expectedSeqNum (conn b)) \<le> unat (sndNxt ?a)" if "state ?a = ESTABLISHED" using k that by simp
    have "receiver base st R (on_line n) pre got (conn b)" using receiver_append [OF b(1), of "drop k st"] by simp
    from net_ok_receiver [OF n this _ b(4,3) top b(5,6) lim] show ?thesis using b(2) 2(1) by simp
  qed simp
qed

lemma net_ok_answer:
  assumes n: "net_ok E base st R pre got n" and q: "q \<in> set (outs (receiving n))"
  shows "\<exists>a. stateMachine E rnd now q (sending n) = ok a \<and> net_ok E base st R pre got (n\<lparr>sending := a\<rparr>)"
proof (cases "state (conn (sending n)) = ESTABLISHED")
  case True
  note s = net_ok_established [OF n True]
  obtain a where "stateMachine E rnd now q (sending n) = ok a"
      "goes_on base st R (unat (expectedSeqNum (conn (receiving n)))) (edge (conn (receiving n))) (prober n) (sending n) a"
    using sender_answered [OF s(2) net_okD(6) [OF n q] s(3) net_okD(2) [OF n]] by blast
  then show ?thesis using net_ok_sender [OF n True] by fastforce
next
  case False
  then have "stateMachine E rnd now q (sending n) = ok (sending n)" using net_okD(7) [OF n] by (auto simp: stateMachine_def)
  then show ?thesis using n by simp
qed


lemma net_ok_edge:
  assumes "net_ok E base st R pre got n" and "base + length st + 65535 < 2 ^ 32"
  shows "edge (conn (receiving n)) < 2 ^ 32"
  using receiver_window(4) [OF net_okD(4) [OF assms(1)] assms(2)] net_okD(4) [OF assms(1)] assms(2)
  by (simp add: edge_def receiver_def)

lemma net_ok_write:
  assumes n: "net_ok E base st R pre got n" and est: "state (conn (sending n)) = ESTABLISHED"
    and run: "VWrite (conn (sending n)) d = ok r" and r: "(k, c) = (case r of VWriteDone k e c \<Rightarrow> (k, c) | VWriteWaits k c \<Rightarrow> (k, c))"
    and lim: "base + length (st @ take k d) < 2 ^ 32"
  shows "net_ok E base (st @ take k d) R pre got (n\<lparr>sending := set_conn (sending n) c\<rparr>)"
proof -
  note s = net_ok_established [OF n est]
  have "k = (case r of VWriteDone k e c \<Rightarrow> k | VWriteWaits k c \<Rightarrow> k)" using r by (cases r) simp_all
  from sender_write [OF s(2) run this lim]
  have "sender base (st @ take k d) R (set (outs (sending n))) (edge (conn (receiving n))) (prober n) c"
      "sndUna c = sndUna (conn (sending n))" "sndNxt c = sndNxt (conn (sending n))" "endpoint c = endpoint (conn (sending n))"
    using r by (auto split: if_splits)
  then show ?thesis using s n receiver_append network_append by (auto simp: net_ok_def Let_def links_up_def on_line_def)
qed

lemma net_ok_turn:
  assumes n: "net_ok E base st R pre got n" and est: "state (conn (sending n)) = ESTABLISHED" and lim: "base + length st + 65535 < 2 ^ 32"
    and none: "prober n = None"
  shows "\<exists>r. sendBufferedData_turn E now (sending n) = ok r \<and> net_ok E base st R pre got (n\<lparr>sending := loop_tcb r, prober := probing_of r\<rparr>)"
  using sender_turn [OF _ net_okD(2) [OF n] lim net_ok_edge [OF n lim]] net_ok_established(2) [OF n est] net_ok_sender [OF n est] none
  by fastforce

lemma net_ok_probe:
  assumes n: "net_ok E base st R pre got n" and est: "state (conn (sending n)) = ESTABLISHED" and lim: "base + length st + 65535 < 2 ^ 32"
    and some: "prober n = Some (p, una, nx)"
  shows "\<exists>r. probe_round E p una nx (sending n) = ok r \<and> net_ok E base st R pre got (n\<lparr>sending := loop_tcb r, prober := probing_of r\<rparr>)"
  using sender_probe [OF _ net_okD(2) [OF n] lim] net_ok_established(2) [OF n est] net_ok_sender [OF n est] some
  by fastforce

lemma net_ok_fires:
  assumes n: "net_ok E base st R pre got n" and est: "state (conn (sending n)) = ESTABLISHED"
  shows "net_ok E base st R pre got (n\<lparr>sending := set_conn (sending n) ((conn (sending n))
      \<lparr>retransTimer := (retransTimer (conn (sending n)))\<lparr>running := False, tick := True\<rparr>\<rparr>)\<rparr>)"
  using n est sender_fires [OF net_ok_established(2) [OF n est]] by (auto simp: net_ok_def Let_def links_up_def on_line_def)

lemma net_ok_tick:
  assumes n: "net_ok E base st R pre got n" and est: "state (conn (sending n)) = ESTABLISHED"
  shows "\<exists>goes a. handleRTO_tick E now (sending n) = ok (goes, a) \<and> net_ok E base st R pre got (n\<lparr>sending := a\<rparr>)"
proof -
  note s = net_ok_established [OF n est]
  consider a where "handleRTO_tick E now (sending n) = ok (True, a)"
      "goes_on base st R (unat (expectedSeqNum (conn (receiving n)))) (edge (conn (receiving n))) (prober n) (sending n) a"
    | a where "handleRTO_tick E now (sending n) = ok (False, a)" "state (conn a) = CLOSED" "outs a = outs (sending n)"
      "endpoint (conn a) = endpoint (conn (sending n))"
    using sender_tick [OF s(2) net_okD(2) [OF n] s(1)] net_okD(5) [OF n] unfolding on_line_def by blast
  then show ?thesis
  proof cases
    case (1 a)
    then show ?thesis using net_ok_sender [OF n est] by fastforce
  next
    case (2 a)
    then show ?thesis using net_ok_closed [OF n] by blast
  qed
qed

lemma net_ok_read:
  assumes n: "net_ok E base st R pre got n" and lim: "base + length st + 65535 < 2 ^ 32"
    and k: "k < 2 ^ 31" and run: "VRead (conn (receiving n)) (replicate k 0) = ok (VReadDone j e buf c)"
  shows "net_ok E base st R pre (got @ take (nat j) buf) (n\<lparr>receiving := set_conn (receiving n) c\<rparr>)"
proof -
  note r = receiver_read [OF net_okD(4) [OF n] k run]
  show ?thesis
    by (rule net_ok_receiver [OF n, where qs = "[]"]) (use r lim net_ok_established(3) [OF n] in auto)
qed

lemma net_ok_receiver_timer:
  assumes n: "net_ok E base st R pre got n" and lim: "base + length st + 65535 < 2 ^ 32"
    and c: "core c = core (conn (receiving n))" "timer_wf c" "inflightQ c = []"
  shows "net_ok E base st R pre got (n\<lparr>receiving := set_conn (receiving n) c\<rparr>)"
proof -
  have "core c = core ((conn (receiving n))\<lparr>sndWnd := sndWnd (conn (receiving n))\<rparr>)" using c(1) by simp
  note r = receiver_core [OF net_okD(4) [OF n] this c(2,3)]
  show ?thesis
    by (rule net_ok_receiver [OF n, where qs = "[]"]) (use r lim core_fields [OF c(1)] net_ok_established(3) [OF n] in auto)
qed

lemma net_ok_receiver_tick:
  assumes n: "net_ok E base st R pre got n" and lim: "base + length st + 65535 < 2 ^ 32"
  shows "\<exists>b. handleRTO_tick E now (receiving n) = ok (True, b) \<and> net_ok E base st R pre got (n\<lparr>receiving := b\<rparr>)"
proof -
  have q: "inflightQ (conn (receiving n)) = []" using net_okD(4) [OF n] by (simp add: receiver_def)
  let ?c = "(conn (receiving n))\<lparr>retransTimer := (retransTimer (conn (receiving n)))\<lparr>tick := False\<rparr>, rtoIsRunning := False\<rparr>"
  have "handleRTO_tick E now (receiving n) = ok (True, set_conn (receiving n) ?c)" using q by (simp add: handleRTO_tick_def Let_def)
  moreover have "net_ok E base st R pre got (n\<lparr>receiving := set_conn (receiving n) ?c\<rparr>)"
    by (rule net_ok_receiver_timer [OF n lim]) (simp_all add: core_def timer_wf_def q)
  ultimately show ?thesis by blast
qed

section \<open>Every run\<close>

lemma net_ok_step:
  assumes "wire_step E rnd n w r n'" and n: "net_ok E base st R pre got n" and lim: "base + length (st @ w) + 65535 < 2 ^ 32"
  shows "net_ok E base (st @ w) R pre (got @ r) n'"
  using assms
proof (cases rule: wire_step.cases)
  case (wrote d k err c)
  then show ?thesis using net_ok_write [OF n wrote(4,5), of k c] lim by simp
next
  case (write_waits d k c)
  then show ?thesis using net_ok_write [OF n write_waits(4,5), of k c] lim by simp
next
  case (turn now r)
  then show ?thesis using net_ok_turn [OF n turn(4) _ turn(5), of now] lim by auto
next
  case (probe p una nx r)
  then show ?thesis using net_ok_probe [OF n probe(4) _ probe(5)] lim by auto
next
  case fires
  then show ?thesis using net_ok_fires [OF n] by simp
next
  case (retransmit now goes a)
  then show ?thesis using net_ok_tick [OF n retransmit(4), of now] by auto
next
  case (segment p now b)
  then show ?thesis using net_ok_segment [OF n, of p rnd now] lim by (auto simp: on_line_def)
next
  case (answer q now a)
  then show ?thesis using net_ok_answer [OF n, of q rnd now] by auto
next
  case (read k j err buf c)
  then show ?thesis using net_ok_read [OF n _ read(4,5)] lim by simp
next
  case receiver_fires
  then show ?thesis using net_ok_receiver_timer [OF n] lim net_okD(4) [OF n] by (simp add: core_def timer_wf_def receiver_def)
next
  case (receiver_tick now goes b)
  then show ?thesis using net_ok_receiver_tick [OF n, of now] lim by auto
qed


lemma net_ok_run:
  assumes "wire_run E rnd n ws rs n'" and "net_ok E base st R pre got n" and "base + length (st @ ws) + 65535 < 2 ^ 32"
  shows "net_ok E base (st @ ws) R pre (got @ rs) n'"
  using assms
proof (induction rule: wire_run.induct)
  case (step n ws rs n1 w r n2)
  have "net_ok E base (st @ ws) R pre (got @ rs) n1" using step.IH step.prems by simp
  then have "net_ok E base ((st @ ws) @ w) R pre ((got @ rs) @ r) n2" by (rule net_ok_step [OF step.hyps(2)]) (use step.prems(2) in simp)
  then show ?case by (simp only: append.assoc)
qed simp

text \<open>
  Where a run starts: two ends that agree, with nothing on the network, and the sending loop between two
  turns.
\<close>

definition opened_ends :: "env \<Rightarrow> tcb \<Rightarrow> tcb \<Rightarrow> bool" where
  "opened_ends E a b \<longleftrightarrow> linked (a, b) \<and> links_up E (a, b) \<and> entry a = Mine \<and> outs a = [] \<and> outs b = [] \<and> inflightQ (conn b) = []"

definition channel_of :: "tcb \<Rightarrow> tcb \<Rightarrow> channel" where
  "channel_of a b = \<lparr>sending = a, prober = None, receiving = b\<rparr>"

lemma net_ok_opened:
  assumes "opened_ends E a b"
  shows "net_ok E (unat (sndUna (conn a))) (stored (conn a)) (expectedSeqNum (conn a)) (contents (recvBuf (conn b))) [] (channel_of a b)"
proof -
  let ?a = "conn a" and ?b = "conn b"
  have l: "linked (a, b)" "links_up E (a, b)" "entry a = Mine" "outs a = []" "outs b = []" "inflightQ ?b = []"
    using assms by (simp_all add: opened_ends_def)
  have s: "snd_side ?a" "rcv_side ?b" "expectedSeqNum ?b = sndNxt ?a" "sndNxt ?b = expectedSeqNum ?a" "unat (sndWnd ?a) \<le> free (recvBuf ?b)"
      "sndNxt ?a = sndUna ?a" "sb_wf ?a"
    using l(1) by (simp_all add: linked_def snd_side_def)
  have "hasUnsentC (sendBuf ?a) \<le> unsent ?a" using s(6,7) by (simp add: sb_wf_def kept_def unsent_def)
  then have "sender (unat (sndUna ?a)) (stored ?a) (expectedSeqNum ?a) {} (edge ?b) None ?a"
    using s(1,3,5,6) linked_snd(2) [OF l(1)] by (simp add: sender_def snd_side_def probe_ok_def edge_def)
  moreover have "receiver (unat (sndUna ?a)) (stored ?a) (expectedSeqNum ?a) {} (contents (recvBuf ?b)) [] ?b"
    using s(2,3,4,6) l(6) by (auto simp: receiver_def rcv_side_def whole_def)
  moreover have "65535 \<le> unat (sndUna ?a)" using s(1) by (simp add: snd_side_def)
  ultimately show ?thesis using l s(3,6) by (simp add: net_ok_def Let_def on_line_def channel_of_def network_def tiled_def)
qed

lemma reached:
  assumes "opened_ends E a b" and "wire_run E rnd (channel_of a b) ws rs n" and "last_written (a, b) + length ws + 65535 < 2 ^ 32"
  shows "net_ok E (unat (sndUna (conn a))) (stored (conn a) @ ws) (expectedSeqNum (conn a)) (contents (recvBuf (conn b))) rs n"
    and "unat (sndUna (conn a)) + length (stored (conn a) @ ws) + 65535 < 2 ^ 32"
proof -
  have "linked (a, b)" using assms(1) by (simp add: opened_ends_def)
  then show lim: "unat (sndUna (conn a)) + length (stored (conn a) @ ws) + 65535 < 2 ^ 32"
    using linked_snd(2) [of a b] assms(3) by (simp add: last_written_def)
  then show "net_ok E (unat (sndUna (conn a))) (stored (conn a) @ ws) (expectedSeqNum (conn a)) (contents (recvBuf (conn b))) rs n"
    using net_ok_run [OF assms(2) net_ok_opened [OF assms(1)]] by simp
qed

section \<open>Properties\<close>

text \<open>
  C2. TCP over a network that may lose, repeat, delay and reorder segments and acknowledgements, with any
  number of them on the way: after every run of writes, turns of the sending loop, zero-window probes,
  timers, arrivals and reads, the bytes delivered so far and those in the receiver's buffer are a prefix
  of the bytes that the sender accepted, in order, without a gap or a repetition. As long as the sender has not given up, the
  rest is exactly what it still keeps beyond \<^verbatim>\<open>RCV.NXT\<close>, so nothing is lost.
\<close>

theorem tcp_over_any_network:
  assumes "opened_ends E a b" and "wire_run E rnd (channel_of a b) ws rs n" and "last_written (a, b) + length ws + 65535 < 2 ^ 32"
  shows "\<exists>rest. in_transit (a, b) @ ws = rs @ contents (recvBuf (conn (receiving n))) @ rest \<and>
    (state (conn (sending n)) \<noteq> CLOSED \<longrightarrow>
       rest = drop (unat (expectedSeqNum (conn (receiving n))) - unat (sndUna (conn (sending n)))) (stored (conn (sending n))))"
proof -
  let ?s = "conn (sending n)" and ?r = "conn (receiving n)" and ?base = "unat (sndUna (conn a))" and ?st = "stored (conn a) @ ws"
  note ok = reached(1) [OF assms]
  have "rs @ contents (recvBuf ?r) = contents (recvBuf (conn b)) @ take (unat (expectedSeqNum ?r) - ?base) ?st"
    using net_okD(4) [OF ok] by (simp add: receiver_def)
  then have "in_transit (a, b) @ ws = rs @ contents (recvBuf ?r) @ drop (unat (expectedSeqNum ?r) - ?base) ?st"
    unfolding in_transit_def by (metis append.assoc append_take_drop_id fst_conv snd_conv)
  moreover have "drop (unat (expectedSeqNum ?r) - ?base) ?st = drop (unat (expectedSeqNum ?r) - unat (sndUna ?s)) (stored ?s)"
    if "state ?s \<noteq> CLOSED"
    using net_ok_established [OF ok] net_okD(7) [OF ok] that by (simp add: sender_stored)
  ultimately show ?thesis by auto
qed



text \<open>A run for the witnesses: the three bytes go out in one segment, which the network delivers twice.\<close>

lemma demo_opened: "opened_ends demo_env (fst demo_pair) (snd demo_pair)"
  using demo_linked by (simp add: opened_ends_def) (simp add: demo_pair_def demo_tcb_def NewSocket_def)

lemma demo_run:
  "\<exists>n. wire_run demo_env (\<lambda>x. x) (channel_of (fst demo_pair) (snd demo_pair)) [] [] n \<and> contents (recvBuf (conn (receiving n))) = [5, 6, 7] \<and>
     state (conn (sending n)) = ESTABLISHED \<and> prober n = None \<and> (\<exists>q. q \<in> set (outs (receiving n)))"
proof -
  let ?a = "fst demo_pair" and ?b = "snd demo_pair" and ?n0 = "channel_of (fst demo_pair) (snd demo_pair)"
  have l: "linked (?a, ?b)" using demo_linked(1) by simp
  have w: "sndWnd (conn ?a) = 65535" "kept (conn ?a) = 3" "outs ?a = []" "outs ?b = []"
    by (simp_all add: demo_pair_def demo_tcb_def kept_def)
  then have n: "3 = sendable_now (conn ?a) MSS" "0 < (3 :: nat)" using linked_snd(5) [OF l] by simp_all
  obtain a1 p where a1: "sendBufferedData_turn demo_env 0 ?a = ok (Again a1)" "outs a1 = [p]" "in_flight (conn ?a) 3 0 p (conn a1)"
    using turn_in_flight [OF l demo_net_up n, of 0] w(3) by auto
  obtain b1 q where b1: "stateMachine demo_env (\<lambda>x. x) 0 p ?b = ok b1" "outs b1 = [q]" "arrived (conn ?b) (take 3 (stored (conn ?a))) (conn b1)"
    using first_arrival [OF l demo_net_up n a1(3), of "\<lambda>x. x" 0] w(4) by auto
  have b2: "stateMachine demo_env (\<lambda>x. x) 0 p b1 = ok (emit b1 (ack_segment demo_env b1))"
    by (rule second_arrival [OF l demo_net_up n a1(3) b1(3)])
  have est: "state (conn ?a) = ESTABLISHED" by (simp add: demo_pair_def demo_tcb_def NewSocket_def)
  let ?n1 = "\<lparr>sending = a1, prober = None, receiving = ?b\<rparr>"
  have "wire_step demo_env (\<lambda>x. x) ?n0 [] [] ?n1"
    using wire_step.turn [of ?n0 demo_env 0 "Again a1" "\<lambda>x. x"] est a1(1) by (simp add: channel_of_def)
  moreover have "wire_step demo_env (\<lambda>x. x) ?n1 [] [] (?n1\<lparr>receiving := b1\<rparr>)"
    using wire_step.segment [of p ?n1 demo_env "\<lambda>x. x" 0 b1] a1(2) b1(1) by simp
  moreover have "wire_step demo_env (\<lambda>x. x) (?n1\<lparr>receiving := b1\<rparr>) [] [] (?n1\<lparr>receiving := emit b1 (ack_segment demo_env b1)\<rparr>)"
    using wire_step.segment [of p "?n1\<lparr>receiving := b1\<rparr>" demo_env "\<lambda>x. x" 0] a1(2) b2 by simp
  ultimately have "wire_run demo_env (\<lambda>x. x) ?n0 [] [] (?n1\<lparr>receiving := emit b1 (ack_segment demo_env b1)\<rparr>)"
    using wire_run.step [of demo_env "\<lambda>x. x" _ "[]" "[]" _ "[]" "[]"] wire_run.start [of demo_env "\<lambda>x. x" ?n0] by (metis append_Nil)
  moreover have "contents (recvBuf (conn b1)) = [5, 6, 7]" using b1(3) demo_linked(3) demo_rcv_ok(2) by (simp add: arrived_def)
  moreover have "state (conn a1) = ESTABLISHED"
    using a1(3) est core_fields(2) [of "conn a1"] by (fastforce simp: in_flight_def)
  ultimately show ?thesis by (intro exI conjI) (assumption | simp | auto)+
qed

lemma tcp_over_any_network_witness:
  "\<exists>n. wire_run demo_env (\<lambda>x. x) (channel_of (fst demo_pair) (snd demo_pair)) [] [] n \<and> contents (recvBuf (conn (receiving n))) = [5, 6, 7] \<and>
     drop (unat (expectedSeqNum (conn (receiving n))) - unat (sndUna (conn (sending n)))) (stored (conn (sending n))) = []"
proof -
  obtain n where n: "wire_run demo_env (\<lambda>x. x) (channel_of (fst demo_pair) (snd demo_pair)) [] [] n"
      "contents (recvBuf (conn (receiving n))) = [5, 6, 7]" "state (conn (sending n)) = ESTABLISHED"
    using demo_run by blast
  have "in_transit (fst demo_pair, snd demo_pair) = [5, 6, 7]" using demo_linked(3) demo_rcv_ok(2) by (simp add: in_transit_def)
  then show ?thesis using tcp_over_any_network [OF demo_opened n(1)] n demo_linked(4) by auto
qed


end
