(* ===== verification/Tcp_Locks.thy ===== *)
theory Tcp_Locks imports Tcp_Delivery begin

text \<open>
  The lock of the socket tables. The other theories take an operation under \<^verbatim>\<open>tableMu\<close> as one step; here the goroutines
  acquire and release it: the receive loops of the interfaces, which run \<^verbatim>\<open>tcpRecvHandler\<close> with the read lock held while they
  send on a channel; for each listener the goroutine that calls \<^verbatim>\<open>VAccept\<close>; and any other user of the tables. What the handler
  has looked up stays true until it has delivered; and a handler that waits for a busy listener is a deadlock.
\<close>

section \<open>Goroutines and the lock\<close>

datatype role = Handler | Acceptor VTCPListener | Caller

datatype table_write =
  BindListener u16 VTCPListener | BindSocket TCPEndpointID nat | DeleteListener u16 | DeleteSocket TCPEndpointID

fun apply_write :: "table_write \<Rightarrow> TCPGlobalInfo \<Rightarrow> TCPGlobalInfo go" where
  "apply_write (BindListener port l) t = ok (bindListener port l t)"
| "apply_write (BindSocket ep p) t = ok (bindSocket ep p t)"
| "apply_write (DeleteListener port) t = ok (deleteListener port t)"
| "apply_write (DeleteSocket ep) t = deleteSocketAt ep t"

text \<open>
  Where a goroutine is. \<open>Receiving\<close>: in the receive loop; \<open>Dispatching\<close>: at \<^verbatim>\<open>RLock\<close> in the handler, the segment having passed its
  checks; \<open>Sending\<close>: at the send on a channel; \<open>Leaving\<close>: at the deferred \<^verbatim>\<open>RUnlock\<close>. \<open>Accepting\<close>: at the receive in \<^verbatim>\<open>VAccept\<close>;
  \<open>Accepted\<close>: with a segment from the channel; \<open>Existing\<close>: in \<^verbatim>\<open>socketExists\<close>; \<open>Opened\<close> and \<open>Shaking\<close>: in \<^verbatim>\<open>doHandshakes\<close>, which
  has met some events since it was called. \<open>Calling\<close> and \<open>Reading\<close>: another goroutine outside and inside a look-up.
  \<open>Writing w k\<close>: at \<^verbatim>\<open>Lock\<close> for the change \<open>w\<close>, and at \<open>k\<close> after it.
\<close>

datatype point =
    Receiving
  | Dispatching Addr Addr TCPPacket
  | Sending Addr Addr TCPPacket dispatch
  | Leaving
  | Accepting
  | Accepted TCPPacket Addr
  | Existing TCPPacket Addr
  | Opened TCPEndpointID nat
  | Shaking TCPEndpointID nat tcb "hs_event list"
  | Calling
  | Reading
  | Writing table_write point

text \<open>
  Go's \<^verbatim>\<open>RWMutex\<close>: \<open>readers\<close> hold the read lock; \<open>writer\<close> has called \<^verbatim>\<open>Lock\<close>, which keeps new readers out, and has the lock when
  the readers have left. A second writer waits until the first has called \<^verbatim>\<open>Unlock\<close>.
\<close>

record locked =
  node :: TCPGlobalInfo
  readers :: "nat set"
  writer :: "nat option"
  pc :: "nat \<Rightarrow> point"

definition goes :: "nat \<Rightarrow> point \<Rightarrow> locked \<Rightarrow> locked" where
  "goes th k s = s\<lparr>pc := (pc s)(th := k)\<rparr>"

definition put_sock :: "TCPGlobalInfo \<Rightarrow> nat \<Rightarrow> tcb \<Rightarrow> TCPGlobalInfo" where
  "put_sock t p s = t\<lparr>socks := (socks t)[p := (socks t ! p)\<lparr>sconn := conn s, sent := outs s, started := spawned s\<rparr>]\<rparr>"

definition take_segment :: "nat \<Rightarrow> TCPGlobalInfo \<Rightarrow> TCPGlobalInfo" where
  "take_segment p t = t\<lparr>socks := (socks t)[p := (socks t ! p)\<lparr>recvChan := tl (recvChan (socks t ! p))\<rparr>]\<rparr>"

text \<open>
  What goroutine \<open>a\<close> does with a result of \<^verbatim>\<open>doHandshakes\<close>: go on waiting, accept again, or first delete the socket, because
  the handshake failed or because the state machine closed the connection.
\<close>

fun after_shake :: "nat \<Rightarrow> TCPEndpointID \<Rightarrow> nat \<Rightarrow> tcb \<Rightarrow> hs_event list \<Rightarrow> hs_result \<Rightarrow> locked \<Rightarrow> locked" where
  "after_shake a ep p s0 evs (HsWaiting s1) s = goes a (Shaking ep p s0 evs) (s\<lparr>node := put_sock (node s) p s1\<rparr>)"
| "after_shake a ep p s0 evs (HsDone suc s1) s =
     goes a (if suc \<and> entry s1 \<noteq> NoEntry then Accepting else Writing (DeleteSocket ep) Accepting)
       (s\<lparr>node := put_sock (node s) p (if suc then spawn s1 HandleRTO else s1)\<rparr>)"

definition accepted_ep :: "TCPGlobalInfo \<Rightarrow> VTCPListener \<Rightarrow> TCPPacket \<Rightarrow> Addr \<Rightarrow> TCPEndpointID" where
  "accepted_ep t l seg src = \<lparr>LocalAddr = localAddr t, LocalPort = lport l, RemoteAddr = src, RemotePort = SrcPort (TcpHeader seg)\<rparr>"

text \<open>
  The steps. A receive loop waits in the handler; \<^verbatim>\<open>VAccept\<close> is called again when it returns, as in \<^verbatim>\<open>acceptHandler\<close>. \<open>other\<close>
  is everything that leaves the tables alone: run loops take segments from their channels, connections change, sockets are made.
\<close>

inductive lock_step :: "env \<Rightarrow> (rat \<Rightarrow> rat) \<Rightarrow> (nat \<Rightarrow> role) \<Rightarrow> locked \<Rightarrow> locked \<Rightarrow> bool" for E rnd R where
  arrive: "R h = Handler \<Longrightarrow> pc s h = Receiving \<Longrightarrow>
    slice_to (Payload (ip :: IPPacket)) (TotalLen (Header ip) - Len (Header ip)) = ok data \<Longrightarrow> UnmarshalTCP E data = ok p \<Longrightarrow>
    ValidTCPChecksum E p (Src (Header ip)) (Dst (Header ip)) = ok (True, p') \<Longrightarrow> localAddr (node s) = Dst (Header ip) \<Longrightarrow>
    lock_step E rnd R s (goes h (Dispatching (Src (Header ip)) (Dst (Header ip)) p') s)"
| lookup: "R h = Handler \<Longrightarrow> pc s h = Dispatching src dst p \<Longrightarrow> writer s = None \<Longrightarrow>
    lock_step E rnd R s (goes h (Sending src dst p (route_segment (node s) src dst p)) (s\<lparr>readers := insert h (readers s)\<rparr>))"
| to_conn: "R h = Handler \<Longrightarrow> pc s h = Sending src dst p (ToConn q seg) \<Longrightarrow> chan_send (node s) q seg = Some t \<Longrightarrow>
    lock_step E rnd R s (goes h Leaving (s\<lparr>node := t\<rparr>))"
| to_listener: "R h = Handler \<Longrightarrow> pc s h = Sending src dst p (ToListener l seg addr) \<Longrightarrow> R a = Acceptor l \<Longrightarrow> pc s a = Accepting \<Longrightarrow>
    lock_step E rnd R s (goes a (Accepted seg addr) (goes h Leaving s))"
| nobody: "R h = Handler \<Longrightarrow> pc s h = Sending src dst p Discard \<Longrightarrow> lock_step E rnd R s (goes h Leaving s)"
| leave: "R h = Handler \<Longrightarrow> pc s h = Leaving \<Longrightarrow> lock_step E rnd R s (goes h Receiving (s\<lparr>readers := readers s - {h}\<rparr>))"
| refuse: "R a = Acceptor l \<Longrightarrow> pc s a = Accepted seg src \<Longrightarrow> Flags (TcpHeader seg) \<noteq> TCPFlagSyn \<Longrightarrow>
    lock_step E rnd R s (goes a Accepting s)"
| check: "R a = Acceptor l \<Longrightarrow> pc s a = Accepted seg src \<Longrightarrow> Flags (TcpHeader seg) = TCPFlagSyn \<Longrightarrow> writer s = None \<Longrightarrow>
    lock_step E rnd R s (goes a (Existing seg src) (s\<lparr>readers := insert a (readers s)\<rparr>))"
| exists: "R a = Acceptor l \<Longrightarrow> pc s a = Existing seg src \<Longrightarrow> socketExists (node s) (accepted_ep (node s) l seg src) \<Longrightarrow>
    lock_step E rnd R s (goes a Accepting (s\<lparr>readers := readers s - {a}\<rparr>))"
| create: "R a = Acceptor l \<Longrightarrow> pc s a = Existing seg src \<Longrightarrow> ep = accepted_ep (node s) l seg src \<Longrightarrow> \<not> socketExists (node s) ep \<Longrightarrow>
    newSocketIn (node s) SYN_RECEIVED ep (SeqNum (TcpHeader seg)) startSeq = (p, t) \<Longrightarrow>
    lock_step E rnd R s (goes a (Writing (BindSocket ep p) (Opened ep p)) (s\<lparr>node := t, readers := readers s - {a}\<rparr>))"
| shake: "R a = Acceptor l \<Longrightarrow> pc s a = Opened ep p \<Longrightarrow> s0 = tcb_at (node s) p \<Longrightarrow> doHandshakes E rnd now False [] 0 s0 = ok r \<Longrightarrow>
    lock_step E rnd R s (after_shake a ep p s0 [] r s)"
| timeout: "R a = Acceptor l \<Longrightarrow> pc s a = Shaking ep p s0 evs \<Longrightarrow> doHandshakes E rnd now False (evs @ [HsTimeout]) 0 s0 = ok r \<Longrightarrow>
    lock_step E rnd R s (after_shake a ep p s0 (evs @ [HsTimeout]) r s)"
| segment: "R a = Acceptor l \<Longrightarrow> pc s a = Shaking ep p s0 evs \<Longrightarrow> recvChan (socks (node s) ! p) = seg # segs \<Longrightarrow>
    doHandshakes E rnd now False (evs @ [HsSegment seg]) 0 s0 = ok r \<Longrightarrow>
    lock_step E rnd R s (after_shake a ep p s0 (evs @ [HsSegment seg]) r (s\<lparr>node := take_segment p (node s)\<rparr>))"
| lock: "pc s th = Writing w k \<Longrightarrow> writer s = None \<Longrightarrow> lock_step E rnd R s (s\<lparr>writer := Some th\<rparr>)"
| writes: "pc s th = Writing w k \<Longrightarrow> writer s = Some th \<Longrightarrow> readers s = {} \<Longrightarrow> apply_write w (node s) = ok t \<Longrightarrow>
    lock_step E rnd R s (goes th k (s\<lparr>node := t, writer := None\<rparr>))"
| reads: "R c = Caller \<Longrightarrow> pc s c = Calling \<Longrightarrow> writer s = None \<Longrightarrow>
    lock_step E rnd R s (goes c Reading (s\<lparr>readers := insert c (readers s)\<rparr>))"
| read_done: "R c = Caller \<Longrightarrow> pc s c = Reading \<Longrightarrow> lock_step E rnd R s (goes c Calling (s\<lparr>readers := readers s - {c}\<rparr>))"
| change: "R c = Caller \<Longrightarrow> pc s c = Calling \<Longrightarrow> lock_step E rnd R s (goes c (Writing w Calling) s)"
| other: "connTable t = connTable (node s) \<Longrightarrow> listenerTable t = listenerTable (node s) \<Longrightarrow> localAddr t = localAddr (node s) \<Longrightarrow>
    length (socks (node s)) \<le> length (socks t) \<Longrightarrow>
    \<forall>p < length (socks (node s)). recvChan (socks t ! p) \<in> {recvChan (socks (node s) ! p), tl (recvChan (socks (node s) ! p))} \<Longrightarrow>
    lock_step E rnd R s (s\<lparr>node := t\<rparr>)"

fun first_point :: "role \<Rightarrow> point" where
  "first_point Handler = Receiving"
| "first_point (Acceptor l) = Accepting"
| "first_point Caller = Calling"

inductive lock_run :: "env \<Rightarrow> (rat \<Rightarrow> rat) \<Rightarrow> (nat \<Rightarrow> role) \<Rightarrow> TCPGlobalInfo \<Rightarrow> locked \<Rightarrow> bool" for E rnd R t where
  start: "lock_run E rnd R t \<lparr>node = t, readers = {}, writer = None, pc = (\<lambda>th. first_point (R th))\<rparr>"
| step: "lock_run E rnd R t s \<Longrightarrow> lock_step E rnd R s s' \<Longrightarrow> lock_run E rnd R t s'"

lemma goes_fields [simp]: "node (goes th k s) = node s" "readers (goes th k s) = readers s" "writer (goes th k s) = writer s" "pc (goes th k s) = (pc s)(th := k)"
  by (simp_all add: goes_def)

section \<open>What does not change without the write lock\<close>

lemma route_cong: "connTable t = connTable t' \<Longrightarrow> listenerTable t = listenerTable t' \<Longrightarrow> route_segment t src dst p = route_segment t' src dst p"
  by (simp only: route_segment_def)

lemma put_sock_fields [simp]:
  "connTable (put_sock t p s) = connTable t" "listenerTable (put_sock t p s) = listenerTable t" "localAddr (put_sock t p s) = localAddr t"
  "length (socks (put_sock t p s)) = length (socks t)" "recvChan (socks (put_sock t p s) ! q) = recvChan (socks t ! q)"
  by (simp_all add: put_sock_def nth_update_if)

lemma take_segment_fields [simp]:
  "connTable (take_segment p t) = connTable t" "listenerTable (take_segment p t) = listenerTable t" "localAddr (take_segment p t) = localAddr t"
  "length (socks (take_segment p t)) = length (socks t)"
  by (simp_all add: take_segment_def)

lemma after_shake_fields [simp]:
  "connTable (node (after_shake a ep p s0 evs r s)) = connTable (node s)" "listenerTable (node (after_shake a ep p s0 evs r s)) = listenerTable (node s)"
  "readers (after_shake a ep p s0 evs r s) = readers s" "writer (after_shake a ep p s0 evs r s) = writer s"
  "length (socks (node (after_shake a ep p s0 evs r s))) = length (socks (node s))"
  "recvChan (socks (node (after_shake a ep p s0 evs r s)) ! q) = recvChan (socks (node s) ! q)"
  "b \<noteq> a \<Longrightarrow> pc (after_shake a ep p s0 evs r s) b = pc s b"
  by (cases r; simp)+

text \<open>A step that is not a write leaves both tables as they are.\<close>

lemma tables_change:
  "lock_step E rnd R s s' \<Longrightarrow> readers s \<noteq> {} \<Longrightarrow>
   connTable (node s') = connTable (node s) \<and> listenerTable (node s') = listenerTable (node s)"
  by (induction rule: lock_step.induct) (auto simp: chan_send_def newSocketIn_def Let_def split: if_splits)


section \<open>The invariant of the lock\<close>

fun reading :: "point \<Rightarrow> bool" where
  "reading (Sending src dst p d) = True"
| "reading Leaving = True"
| "reading (Existing seg src) = True"
| "reading Reading = True"
| "reading _ = False"

text \<open>The socket that a goroutine of \<^verbatim>\<open>VAccept\<close> works on.\<close>

fun own_sock :: "point \<Rightarrow> nat option" where
  "own_sock (Opened ep p) = Some p"
| "own_sock (Shaking ep p s0 evs) = Some p"
| "own_sock (Writing w k) = own_sock k"
| "own_sock _ = None"

fun resting :: "point \<Rightarrow> bool" where
  "resting Accepting = True"
| "resting (Opened ep p) = True"
| "resting Calling = True"
| "resting _ = False"

definition readers_ok :: "locked \<Rightarrow> bool" where
  "readers_ok s \<longleftrightarrow> (\<forall>th. (th \<in> readers s \<longleftrightarrow> reading (pc s th)) \<and> (\<forall>w k. pc s th = Writing w k \<longrightarrow> resting k))"

definition writer_ok :: "locked \<Rightarrow> bool" where
  "writer_ok s \<longleftrightarrow> (\<forall>th. writer s = Some th \<longrightarrow> (\<exists>w k. pc s th = Writing w k))"

definition routes_ok :: "locked \<Rightarrow> bool" where
  "routes_ok s \<longleftrightarrow> (\<forall>th src dst p d. pc s th = Sending src dst p d \<longrightarrow> d = route_segment (node s) src dst p)"

definition socks_ok :: "locked \<Rightarrow> bool" where
  "socks_ok s \<longleftrightarrow> (\<forall>th p. own_sock (pc s th) = Some p \<longrightarrow> p < length (socks (node s)))"

lemma after_shake_point:
  "\<exists>k. pc (after_shake a ep p s0 evs r s) = (pc s)(a := k) \<and> \<not> reading k \<and> (\<forall>w k'. k = Writing w k' \<longrightarrow> resting k') \<and>
     own_sock k \<in> {None, Some p} \<and> k \<noteq> Receiving \<and> (\<forall>src dst p d. k \<noteq> Sending src dst p d)"
  by (cases r) auto

lemma resting_not_reading: "resting k \<Longrightarrow> \<not> reading k \<and> k \<noteq> Writing w k' \<and> k \<noteq> Sending src dst p d"
  by (cases k) auto

lemma readers_ok_step: "lock_step E rnd R s s' \<Longrightarrow> readers_ok s \<Longrightarrow> readers_ok s'"
proof (induction rule: lock_step.induct)
  case (shake a l s ep p s0 now r)
  then show ?case using after_shake_point [of a ep p s0 "[]" r s] by (auto simp: readers_ok_def split: if_splits)
next
  case (timeout a l s ep p s0 evs now r)
  then show ?case using after_shake_point [of a ep p s0 "evs @ [HsTimeout]" r s] by (auto simp: readers_ok_def split: if_splits)
next
  case (segment a l s ep p s0 evs seg segs now r)
  then show ?case using after_shake_point [of a ep p s0 "evs @ [HsSegment seg]" r "s\<lparr>node := take_segment p (node s)\<rparr>"]
    by (auto simp: readers_ok_def split: if_splits)
next
  case (writes s th w k t)
  then show ?case using resting_not_reading [of k] by (auto simp: readers_ok_def)
qed (auto simp: readers_ok_def)


lemma writer_ok_step: "lock_step E rnd R s s' \<Longrightarrow> writer_ok s \<Longrightarrow> writer_ok s'"
proof (induction rule: lock_step.induct)
  case (shake a l s ep p s0 now r)
  then have "writer s \<noteq> Some a" by (auto simp: writer_ok_def)
  then show ?case using shake by (auto simp: writer_ok_def)
next
  case (timeout a l s ep p s0 evs now r)
  then have "writer s \<noteq> Some a" by (auto simp: writer_ok_def)
  then show ?case using timeout by (auto simp: writer_ok_def)
next
  case (segment a l s ep p s0 evs seg segs now r)
  then have "writer s \<noteq> Some a" by (auto simp: writer_ok_def)
  then show ?case using segment by (auto simp: writer_ok_def)
qed (auto simp: writer_ok_def)

text \<open>Nothing that the handler looked up changes while it holds the read lock.\<close>

lemma routes_ok_step:
  assumes "lock_step E rnd R s s'" and "routes_ok s" and "readers_ok s"
  shows "routes_ok s'"
  unfolding routes_ok_def
proof (intro allI impI)
  fix th src dst p d assume s': "pc s' th = Sending src dst p d"
  show "d = route_segment (node s') src dst p"
  proof (cases "pc s th = Sending src dst p d")
    case True
    then have "th \<in> readers s" using assms(3) by (simp add: readers_ok_def)
    then have "route_segment (node s') src dst p = route_segment (node s) src dst p"
      using tables_change [OF assms(1)] by (intro route_cong) auto
    then show ?thesis using True assms(2) by (simp add: routes_ok_def)
  next
    case False
    have "d = route_segment (node s) src dst p \<and> node s' = node s" using assms(1) s' False
    proof cases
      case (shake a l ep p s0 now r)
      then show ?thesis using s' False after_shake_point [of a ep p s0 "[]" r s] by (auto split: if_splits)
    next
      case (timeout a l ep p s0 evs now r)
      then show ?thesis using s' False after_shake_point [of a ep p s0 "evs @ [HsTimeout]" r s] by (auto split: if_splits)
    next
      case (segment a l ep p s0 evs seg segs now r)
      then show ?thesis using s' False after_shake_point [of a ep p s0 "evs @ [HsSegment seg]" r "s\<lparr>node := take_segment p (node s)\<rparr>"]
        by (auto split: if_splits)
    next
      case (writes th w k t)
      then have "resting k" using assms(3) by (simp add: readers_ok_def)
      then show ?thesis using s' False writes resting_not_reading [of k] by (auto split: if_splits)
    qed (auto split: if_splits)
    then show ?thesis by simp
  qed
qed

lemma apply_write_socks: "apply_write w t = ok t' \<Longrightarrow> length (socks t') = length (socks t)"
  by (cases w) (auto simp: deleteSocketAt_def Let_def split: option.splits)

lemma socks_ok_step: "lock_step E rnd R s s' \<Longrightarrow> socks_ok s \<Longrightarrow> socks_ok s'"
proof (induction rule: lock_step.induct)
  case (shake a l s ep p s0 now r)
  have "own_sock (pc s a) = Some p \<longrightarrow> p < length (socks (node s))" using shake.prems unfolding socks_ok_def by blast
  then have "p < length (socks (node s))" using shake(2) by simp
  then show ?case using shake after_shake_point [of a ep p s0 "[]" r s] by (auto simp: socks_ok_def split: if_splits)
next
  case (timeout a l s ep p s0 evs now r)
  have "own_sock (pc s a) = Some p \<longrightarrow> p < length (socks (node s))" using timeout.prems unfolding socks_ok_def by blast
  then have "p < length (socks (node s))" using timeout(2) by simp
  then show ?case using timeout after_shake_point [of a ep p s0 "evs @ [HsTimeout]" r s] by (auto simp: socks_ok_def split: if_splits)
next
  case (segment a l s ep p s0 evs seg segs now r)
  have "own_sock (pc s a) = Some p \<longrightarrow> p < length (socks (node s))" using segment.prems unfolding socks_ok_def by blast
  then have "p < length (socks (node s))" using segment(2) by simp
  then show ?case using segment after_shake_point [of a ep p s0 "evs @ [HsSegment seg]" r "s\<lparr>node := take_segment p (node s)\<rparr>"]
    by (auto simp: socks_ok_def split: if_splits)
next
  case (writes s th w k t)
  have "own_sock (pc s th) = own_sock k" using writes(1) by simp
  then show ?case using writes(5) apply_write_socks [OF writes(4)] unfolding socks_ok_def by auto
next
  case (other t s)
  then show ?case by (fastforce simp: socks_ok_def)
next
  case (to_conn h s src dst p q seg t)
  then show ?case by (auto simp: socks_ok_def chan_send_def split: if_splits)
next
  case (create a l s seg src ep startSeq p t)
  then show ?case by (fastforce simp: socks_ok_def newSocketIn_def Let_def)
qed (auto simp: socks_ok_def)

lemma lock_run_ok: "lock_run E rnd R t s \<Longrightarrow> readers_ok s \<and> writer_ok s \<and> routes_ok s \<and> socks_ok s"
proof (induction rule: lock_run.induct)
  case start
  have "first_point (R th) \<in> {Receiving, Accepting, Calling}" for th by (cases "R th") auto
  then have "\<not> reading (first_point (R th)) \<and> first_point (R th) \<noteq> Writing w k \<and> first_point (R th) \<noteq> Sending src dst p d \<and>
      own_sock (first_point (R th)) = None" for th w k src dst p d
    by (cases "R th") auto
  then show ?case by (simp add: readers_ok_def writer_ok_def routes_ok_def socks_ok_def)
next
  case (step s s')
  then show ?case using readers_ok_step writer_ok_step routes_ok_step socks_ok_step by blast
qed


section \<open>A busy listener\<close>

text \<open>
  The handler \<open>h\<close> waits with a segment for the listener \<open>l\<close>, whose only goroutine \<open>a\<close> waits for the write lock, or is in a
  handshake of which no segment arrives, since \<open>h\<close> is the only receive loop.
\<close>

fun waits :: "(nat \<Rightarrow> role) \<Rightarrow> nat \<Rightarrow> TCPGlobalInfo \<Rightarrow> point \<Rightarrow> bool" where
  "waits R h t (Writing w k) = True"
| "waits R h t (Opened ep p) = ((\<forall>th. R th = Handler \<longrightarrow> th = h) \<and> recvChan (socks t ! p) = [])"
| "waits R h t (Shaking ep p s0 evs) =
     ((\<forall>th. R th = Handler \<longrightarrow> th = h) \<and> recvChan (socks t ! p) = [] \<and> set evs \<subseteq> {HsTimeout})"
| "waits R h t _ = False"

definition stuck :: "(nat \<Rightarrow> role) \<Rightarrow> nat \<Rightarrow> nat \<Rightarrow> VTCPListener \<Rightarrow> locked \<Rightarrow> bool" where
  "stuck R h a l s \<longleftrightarrow> R h = Handler \<and> R a = Acceptor l \<and> (\<forall>th. R th = Acceptor l \<longrightarrow> th = a) \<and>
     (\<exists>src dst p seg addr. pc s h = Sending src dst p (ToListener l seg addr)) \<and> waits R h (node s) (pc s a)"

text \<open>A handshake that meets only time-outs does not succeed.\<close>

lemma timeouts_fail: "set evs \<subseteq> {HsTimeout} \<Longrightarrow> doHandshakes E rnd now False evs n s0 = ok (HsDone suc s1) \<Longrightarrow> \<not> suc"
proof (induction evs arbitrary: n s0)
  case Nil
  then show ?case by (auto simp: doHandshakes.simps [of _ _ _ _ "[]"] elim!: bindG_okE split: if_splits prod.splits)
next
  case (Cons e evs)
  then have "e = HsTimeout" by simp
  with Cons show ?case
    by (auto simp: doHandshakes.simps [of _ _ _ _ "HsTimeout # evs"] elim!: bindG_okE split: if_splits prod.splits)
qed

lemma after_shake_waits:
  assumes "\<forall>th. R th = Handler \<longrightarrow> th = h" and "recvChan (socks (node s) ! p) = []" and "set evs \<subseteq> {HsTimeout}"
    and "doHandshakes E rnd now False evs 0 s0 = ok r"
  shows "waits R h (node (after_shake a ep p s0 evs r s)) (pc (after_shake a ep p s0 evs r s) a)"
proof (cases r)
  case (HsDone suc s1)
  then have "\<not> suc" using timeouts_fail assms(3,4) by blast
  then show ?thesis using HsDone by simp
qed (use assms(1-3) in simp)

lemma waits_cong:
  assumes "waits R h t k" and "\<forall>p. own_sock k = Some p \<longrightarrow> p < length (socks t)"
    and "(\<forall>th. R th = Handler \<longrightarrow> th = h) \<Longrightarrow> \<forall>p < length (socks t). recvChan (socks t ! p) = [] \<longrightarrow> recvChan (socks t' ! p) = []"
  shows "waits R h t' k"
  using assms by (cases k) auto

text \<open>A step of another goroutine, and one of \<open>a\<close> in its handshake.\<close>

lemma stuck_other:
  assumes "stuck R h a l s" and "pc s' h = pc s h" and "pc s' a = pc s a" and "socks_ok s"
    and "(\<forall>th. R th = Handler \<longrightarrow> th = h) \<Longrightarrow>
      \<forall>p < length (socks (node s)). recvChan (socks (node s) ! p) = [] \<longrightarrow> recvChan (socks (node s') ! p) = []"
  shows "stuck R h a l s'"
proof -
  have "\<forall>p. own_sock (pc s a) = Some p \<longrightarrow> p < length (socks (node s))" using assms(4) unfolding socks_ok_def by blast
  with assms(1) have "waits R h (node s') (pc s a)" unfolding stuck_def by (intro waits_cong [OF _ _ assms(5)]) simp_all
  then show ?thesis using assms(1-3) by (simp add: stuck_def)
qed

lemma stuck_shaking:
  assumes "stuck R h a l s" and "R h = Handler" and "R a = Acceptor l'" and "pc s a = Opened ep p \<and> evs = [] \<or> pc s a = Shaking ep p s0 evs0 \<and> evs = evs0 @ [HsTimeout]"
    and "doHandshakes E rnd now False evs 0 s0 = ok r"
  shows "stuck R h a l (after_shake a ep p s0 evs r s)"
proof -
  have "h \<noteq> a" using assms(2,3) by auto
  moreover have "waits R h (node (after_shake a ep p s0 evs r s)) (pc (after_shake a ep p s0 evs r s) a)"
  proof -
    have "waits R h (node s) (pc s a)" using assms(1) by (simp add: stuck_def)
    then show ?thesis using assms(4) by (intro after_shake_waits [OF _ _ _ assms(5)]) auto
  qed
  ultimately show ?thesis using assms(1) by (simp add: stuck_def)
qed

lemma stuck_step:
  assumes "lock_step E rnd R s s'" and "stuck R h a l s" and "readers_ok s" and "socks_ok s"
  shows "stuck R h a l s' \<and> pc s' h = pc s h"
proof -
  obtain src dst p seg addr where h: "R h = Handler" "pc s h = Sending src dst p (ToListener l seg addr)"
    and a: "R a = Acceptor l" "\<And>th. R th = Acceptor l \<Longrightarrow> th = a" and w: "waits R h (node s) (pc s a)"
    using assms(2) unfolding stuck_def by blast
  have ha: "h \<noteq> a" using h(1) a(1) by auto
  have rd: "readers s \<noteq> {}" using assms(3) h(2) unfolding readers_ok_def by (metis empty_iff reading.simps(1))
  note other = stuck_other [OF assms(2) _ _ assms(4)]
  have moves: ?thesis if "s' = goes th k s1" "node s1 = node s" "pc s1 = pc s" "th \<noteq> h" "th \<noteq> a" for th k s1
    using that by (intro conjI other) simp_all
  show ?thesis using assms(1)
  proof cases
    case (to_conn h' src' dst' p' q seg' t)
    then have "h' \<noteq> h" "h' \<noteq> a" using h(2) a(1) by auto
    then show ?thesis using to_conn by (intro conjI other) auto
  next
    case (to_listener h' src' dst' p' l' seg' addr' a')
    have "a' \<noteq> a" using to_listener(5) w by auto
    moreover have "h' \<noteq> h" using to_listener(3,4) h(2) a(2) calculation by auto
    moreover have "h' \<noteq> a" "a' \<noteq> h" using to_listener(2,4) a(1) h(1) by auto
    ultimately show ?thesis using to_listener by (intro conjI other) auto
  next
    case (create a' l' seg' src' ep startSeq q t)
    have "a' \<noteq> a" "a' \<noteq> h" using create(3) w h(2) by auto
    then show ?thesis using create(1,6) by (intro conjI other) (auto simp: newSocketIn_def Let_def nth_append)
  next
    case (shake a' l' ep q s0 now r)
    then show ?thesis
    proof (cases "a' = a")
      case True
      then show ?thesis using shake ha stuck_shaking [OF assms(2) h(1), of l' ep q "[]" s0] by auto
    next
      case False
      moreover have "a' \<noteq> h" using shake(3) h(2) by auto
      ultimately show ?thesis using shake(1) by (intro conjI other) auto
    qed
  next
    case (timeout a' l' ep q s0 evs now r)
    then show ?thesis
    proof (cases "a' = a")
      case True
      then show ?thesis using timeout ha stuck_shaking [OF assms(2) h(1), of l' ep q "evs @ [HsTimeout]" s0 evs] by auto
    next
      case False
      moreover have "a' \<noteq> h" using timeout(3) h(2) by auto
      ultimately show ?thesis using timeout(1) by (intro conjI other) auto
    qed
  next
    case (segment a' l' ep q s0 evs seg' segs now r)
    have "a' \<noteq> a" "a' \<noteq> h" using segment(3,4) w h(2) by auto
    then show ?thesis using segment(1) by (intro conjI other) (auto simp: take_segment_def nth_update_if)
  next
    case (writes th w k t)
    then show ?thesis using rd by simp
  next
    case (other t)
    then show ?thesis by (intro conjI stuck_other [OF assms(2) _ _ assms(4)]) fastforce+
  next
    case (lock th w k)
    then show ?thesis by (intro conjI other) simp_all
  next
    case (arrive h' ip data q q')
    have "h' \<noteq> h" "h' \<noteq> a" using arrive(2,3) h(2) a(1) by auto
    then show ?thesis using moves [OF arrive(1)] by simp
  next
    case (lookup h' src' dst' q)
    have "h' \<noteq> h" "h' \<noteq> a" using lookup(2,3) h(2) a(1) by auto
    then show ?thesis using moves [OF lookup(1)] by simp
  next
    case (nobody h' src' dst' q)
    have "h' \<noteq> h" "h' \<noteq> a" using nobody(2,3) h(2) a(1) by auto
    then show ?thesis using moves [OF nobody(1)] by simp
  next
    case (leave h')
    have "h' \<noteq> h" "h' \<noteq> a" using leave(2,3) h(2) a(1) by auto
    then show ?thesis using moves [OF leave(1)] by simp
  next
    case (refuse a' l' seg' src')
    have "a' \<noteq> h" "a' \<noteq> a" using refuse(3) h(2) w by auto
    then show ?thesis using moves [OF refuse(1)] by simp
  next
    case (check a' l' seg' src')
    have "a' \<noteq> h" "a' \<noteq> a" using check(3) h(2) w by auto
    then show ?thesis using moves [OF check(1)] by simp
  next
    case (exists a' l' seg' src')
    have "a' \<noteq> h" "a' \<noteq> a" using exists(3) h(2) w by auto
    then show ?thesis using moves [OF exists(1)] by simp
  next
    case (reads c)
    have "c \<noteq> h" "c \<noteq> a" using reads(2) h(1) a(1) by auto
    then show ?thesis using moves [OF reads(1)] by simp
  next
    case (read_done c)
    have "c \<noteq> h" "c \<noteq> a" using read_done(2) h(1) a(1) by auto
    then show ?thesis using moves [OF read_done(1)] by simp
  next
    case (change c w')
    have "c \<noteq> h" "c \<noteq> a" using change(2) h(1) a(1) by auto
    then show ?thesis using moves [OF change(1)] by simp
  qed
qed


lemma write_waits:
  assumes "lock_step E rnd R s s'" and "readers s \<noteq> {}" and "pc s th = Writing w k"
  shows "pc s' th = Writing w k"
  using assms(1)
proof cases
  case (shake a l ep p s0 now r)
  then have "a \<noteq> th" using assms(3) by auto
  then show ?thesis using shake assms(3) by simp
next
  case (timeout a l ep p s0 evs now r)
  then have "a \<noteq> th" using assms(3) by auto
  then show ?thesis using timeout assms(3) by simp
next
  case (segment a l ep p s0 evs seg segs now r)
  then have "a \<noteq> th" using assms(3) by auto
  then show ?thesis using segment assms(3) by simp
qed (use assms(2,3) in auto)

section \<open>Properties\<close>

text \<open>
  C13. The read lock does its work. Whenever a receive loop stands at the send on a channel, what it looked up is still what the
  tables say: it never delivers to a connection that was deleted or a listener that was closed meanwhile, and no goroutine
  can change the tables before it has left.
\<close>

theorem lookup_stays_current:
  assumes "lock_run E rnd R t s" and "pc s h = Sending src dst p d"
  shows "d = route_segment (node s) src dst p \<and>
    (\<forall>s'. lock_step E rnd R s s' \<longrightarrow> connTable (node s') = connTable (node s) \<and> listenerTable (node s') = listenerTable (node s))"
proof -
  have "readers_ok s" "routes_ok s" using lock_run_ok [OF assms(1)] by simp_all
  then have "readers s \<noteq> {}" "d = route_segment (node s) src dst p"
    using assms(2) unfolding readers_ok_def routes_ok_def by (metis empty_iff reading.simps(1), blast)
  then show ?thesis using tables_change by blast
qed

text \<open>
  C12. Two connects deadlock a host. When a segment for a listener arrives while the listener's only goroutine waits for the
  write lock, to bind or to delete a socket, or while it waits in a handshake with nothing in its channel and the receive loop is the only one, then from there on,
  whatever the other goroutines do, the receive loop never returns, the tables never change and no goroutine that waits for the
  write lock gets it: the handler waits on the channel with the read lock held, for a goroutine that waits for the handler.
\<close>

theorem two_connects_deadlock:
  assumes "lock_run E rnd R t s" and "R h = Handler" and "R a = Acceptor l" and "\<forall>th. R th = Acceptor l \<longrightarrow> th = a"
    and "pc s h = Sending src dst p (ToListener l seg addr)" and "waits R h (node s) (pc s a)" and "(lock_step E rnd R)\<^sup>*\<^sup>* s s'"
  shows "pc s' h = pc s h \<and> connTable (node s') = connTable (node s) \<and> listenerTable (node s') = listenerTable (node s) \<and>
    (\<forall>th w k. pc s th = Writing w k \<longrightarrow> pc s' th = Writing w k)"
proof -
  have "stuck R h a l s" using assms(2-6) unfolding stuck_def by blast
  from assms(7,1) this show ?thesis
  proof (induction rule: converse_rtranclp_induct)
    case (step x y)
    have ok: "readers_ok x" "socks_ok x" using lock_run_ok [OF step.prems(1)] by simp_all
    have st: "stuck R h a l y" "pc y h = pc x h" using stuck_step [OF step.hyps(1) step.prems(2) ok] by simp_all
    obtain src dst p seg addr where "pc x h = Sending src dst p (ToListener l seg addr)" using step.prems(2) unfolding stuck_def by blast
    then have "readers x \<noteq> {}" using ok(1) unfolding readers_ok_def by (metis empty_iff reading.simps(1))
    then show ?case
      using step.IH [OF lock_run.step [OF step.prems(1) step.hyps(1)] st(1)] st(2) tables_change [OF step.hyps(1)] write_waits [OF step.hyps(1)]
      by simp
  qed simp
qed


section \<open>Two clients\<close>

definition demo_listener :: VTCPListener where
  "demo_listener = \<lparr>listenerId = 0, lport = 80\<rparr>"

definition demo_server :: TCPGlobalInfo where
  "demo_server = (demo_node 0x0a010001)\<lparr>listenerTable := [(80, demo_listener)], socketNum := 0\<rparr>"

definition demo_roles :: "nat \<Rightarrow> role" where
  "demo_roles th = (if th = 0 then Handler else if th = 1 then Acceptor demo_listener else Caller)"

definition demo_seg :: TCPPacket where
  "demo_seg = demo_syn\<lparr>TcpHeader := (TcpHeader demo_syn)\<lparr>TcpChecksum := 0\<rparr>\<rparr>"

lemma demo_seg_fields: "DstPort (TcpHeader demo_seg) = 80" "SrcPort (TcpHeader demo_seg) = 20007" "Flags (TcpHeader demo_seg) = TCPFlagSyn"
  by (simp_all add: demo_seg_def demo_syn_def NewTCPacket_def)

text \<open>A SYN reaches the send on the listener's channel.\<close>

lemma demo_arrives:
  assumes "lock_run demo_codec rnd demo_roles demo_server s" and "pc s 0 = Receiving" and "writer s = None"
    and "localAddr (node s) = V4 0x0a010001" "connTable (node s) = []" "listenerTable (node s) = [(80, demo_listener)]"
  shows "\<exists>s'. lock_run demo_codec rnd demo_roles demo_server s' \<and> node s' = node s \<and> writer s' = None \<and>
    readers s' = insert 0 (readers s) \<and>
    pc s' = (pc s)(0 := Sending src (V4 0x0a010001) demo_seg (ToListener demo_listener demo_seg src))"
proof -
  let ?s1 = "goes 0 (Dispatching src (V4 0x0a010001) demo_seg) s"
  have "lock_step demo_codec rnd demo_roles s ?s1"
    using lock_step.arrive [where ip = "demo_ip src" and h = 0 and R = demo_roles, OF _ assms(2) demo_ip_checked(1-3)] assms(4)
    by (simp add: demo_ip_checked demo_roles_def demo_seg_def)
  then have r1: "lock_run demo_codec rnd demo_roles demo_server ?s1" by (rule lock_run.step [OF assms(1)])
  have route: "route_segment (node s) src (V4 0x0a010001) demo_seg = ToListener demo_listener demo_seg src"
    using assms(5,6) by (simp add: route_segment_def Let_def demo_seg_fields)
  have "lock_step demo_codec rnd demo_roles ?s1
      (goes 0 (Sending src (V4 0x0a010001) demo_seg (ToListener demo_listener demo_seg src)) (?s1\<lparr>readers := insert 0 (readers s)\<rparr>))"
    using lock_step.lookup [of demo_roles 0 ?s1 src "V4 0x0a010001" demo_seg] assms(3) route by (simp add: demo_roles_def)
  from lock_run.step [OF r1 this] show ?thesis
    by (intro exI [of _ "goes 0 (Sending src (V4 0x0a010001) demo_seg (ToListener demo_listener demo_seg src)) (?s1\<lparr>readers := insert 0 (readers s)\<rparr>)"])
      (simp add: assms(3))
qed

lemma two_connects_deadlock_witness:
  "\<exists>s w k. lock_run demo_codec (\<lambda>x. x) demo_roles demo_server s \<and> pc s 1 = Writing w k \<and>
     (\<forall>s'. (lock_step demo_codec (\<lambda>x. x) demo_roles)\<^sup>*\<^sup>* s s' \<longrightarrow>
        pc s' 0 = Sending (V4 10) (V4 0x0a010001) demo_seg (ToListener demo_listener demo_seg (V4 10)) \<and> pc s' 1 = Writing w k)"
proof -
  let ?run = "lock_run demo_codec (\<lambda>x. x) demo_roles demo_server" and ?me = "V4 0x0a010001"
  let ?to = "\<lambda>src. Sending src ?me demo_seg (ToListener demo_listener demo_seg src)"
  have R: "demo_roles 0 = Handler" "demo_roles 1 = Acceptor demo_listener" by (simp_all add: demo_roles_def)
  have srv: "localAddr demo_server = ?me" "connTable demo_server = []" "listenerTable demo_server = [(80, demo_listener)]" "socks demo_server = []"
    by (simp_all add: demo_server_def demo_node_def)
  let ?s0 = "\<lparr>node = demo_server, readers = {}, writer = None, pc = (\<lambda>th. first_point (demo_roles th))\<rparr>"
  obtain s1 where s1: "?run s1" "node s1 = demo_server" "writer s1 = None" "readers s1 = {0}" "pc s1 = (pc ?s0)(0 := ?to (V4 9))"
    using demo_arrives [OF lock_run.start, of "\<lambda>x. x" "V4 9"] srv R by auto
  let ?s2 = "goes 1 (Accepted demo_seg (V4 9)) (goes 0 Leaving s1)"
  have "?run ?s2" by (rule lock_run.step [OF s1(1) lock_step.to_listener [where R = demo_roles and h = 0 and a = 1 and l = demo_listener, OF R(1) _ R(2)]]) (simp_all add: s1(5) R [simplified])
  let ?s3 = "goes 0 Receiving (?s2\<lparr>readers := readers ?s2 - {0}\<rparr>)"
  have "?run ?s3" by (rule lock_run.step [OF \<open>?run ?s2\<close> lock_step.leave [where R = demo_roles and h = 0, OF R(1)]]) simp
  let ?s4 = "goes 1 (Existing demo_seg (V4 9)) (?s3\<lparr>readers := insert 1 (readers ?s3)\<rparr>)"
  have "?run ?s4" by (rule lock_run.step [OF \<open>?run ?s3\<close> lock_step.check [where R = demo_roles and a = 1, OF R(2)]]) (simp_all add: s1(3) demo_seg_fields)
  let ?ep = "accepted_ep demo_server demo_listener demo_seg (V4 9)"
  obtain q t where new: "newSocketIn demo_server SYN_RECEIVED ?ep (SeqNum (TcpHeader demo_seg)) 0 = (q, t)" by fastforce
  then have t: "localAddr t = ?me" "connTable t = []" "listenerTable t = [(80, demo_listener)]"
    using srv by (auto simp: newSocketIn_def Let_def)
  let ?s5 = "goes 1 (Writing (BindSocket ?ep q) (Opened ?ep q)) (?s4\<lparr>node := t, readers := readers ?s4 - {1}\<rparr>)"
  have "?run ?s5"
    by (rule lock_run.step [OF \<open>?run ?s4\<close> lock_step.create [where R = demo_roles and a = 1 and ep = ?ep and startSeq = 0, OF R(2)]]) (auto simp: s1(2) socketExists_def srv intro: new)
  from demo_arrives [OF this, of "V4 10"] obtain s6
    where s6: "?run s6" "pc s6 = (pc ?s5)(0 := ?to (V4 10))" "node s6 = t"
    using t s1(3) by auto
  have w: "pc s6 1 = Writing (BindSocket ?ep q) (Opened ?ep q)" "pc s6 0 = ?to (V4 10)" by (simp_all add: s6(2))
  have only: "\<forall>th. demo_roles th = Acceptor demo_listener \<longrightarrow> th = 1" by (auto simp: demo_roles_def split: if_splits)
  have waits: "waits demo_roles 0 (node s6) (pc s6 1)" by (simp add: w(1) del: One_nat_def)
  have "pc s' 0 = ?to (V4 10) \<and> pc s' 1 = Writing (BindSocket ?ep q) (Opened ?ep q)"
    if "(lock_step demo_codec (\<lambda>x. x) demo_roles)\<^sup>*\<^sup>* s6 s'" for s'
    using two_connects_deadlock [OF s6(1) R only w(2) waits that] w by simp
  then show ?thesis using s6(1) w(1) by blast
qed

lemma lookup_stays_current_witness:
  "\<exists>s :: locked. pc s 0 = Sending (V4 9) (V4 0x0a010001) demo_seg (ToListener demo_listener demo_seg (V4 9)) \<and>
     route_segment (node s) (V4 9) (V4 0x0a010001) demo_seg = ToListener demo_listener demo_seg (V4 9)"
proof -
  have srv: "localAddr demo_server = V4 0x0a010001" "connTable demo_server = []" "listenerTable demo_server = [(80, demo_listener)]"
    by (simp_all add: demo_server_def demo_node_def)
  obtain s where s: "lock_run demo_codec (\<lambda>x. x) demo_roles demo_server s"
      "pc s 0 = Sending (V4 9) (V4 0x0a010001) demo_seg (ToListener demo_listener demo_seg (V4 9))"
    using demo_arrives [OF lock_run.start, of "\<lambda>x. x" "V4 9"] srv by (auto simp: demo_roles_def)
  from lookup_stays_current [OF s] s(2) show ?thesis by (intro exI [of _ s]) simp
qed

end
