(* ===== verification/Spec2Isabelle.thy ===== *)
theory Spec2Isabelle imports Router Host Tcp_Network Tcp_Locks begin

text \<open>
  \<^bold>\<open>Scope\<close>

  The program is an IP network in user space: hosts and routers as processes that exchange IPv4 packets
  over UDP sockets, routes by static configuration or RIP, and a TCP on top of it, driven from a
  console. This development models the Go code under \<^verbatim>\<open>src/pkg\<close> as HOL functions, operation by operation, and
  proves what each part promises and how the parts work together.

  A node is started by \<^verbatim>\<open>src/cmd/vhost\<close> or \<^verbatim>\<open>src/cmd/vrouter\<close>. \<^verbatim>\<open>lnxconfig\<close> reads its configuration; \<^verbatim>\<open>ipstack\<close> keeps
  its interfaces, neighbours and routing table, sends packets through an interface's UDP socket, and hands what a socket receives
  to the handler registered for its protocol number; \<^verbatim>\<open>proto\<close> has the packet formats. A router (\<^verbatim>\<open>vrouter\<close>) registers
  RIP and test packets; a host (\<^verbatim>\<open>vhost\<close>) test packets and TCP. \<^verbatim>\<open>tcpstack\<close> keeps the tables of listeners and
  connections; its receive handler finds the socket of a segment, and each connection runs the state machine of RFC 9293 on the
  segments it gets, with a circular receive buffer, a circular send buffer, a queue of early segments and
  a retransmission queue. \<^verbatim>\<open>repl\<close>, \<^verbatim>\<open>ip_repl.go\<close> and \<^verbatim>\<open>tcp_repl.go\<close> are the console.

  \<^bold>\<open>Conventions\<close>

  \<^item> A record or datatype stands for each struct or enumeration and has its fields; machine integers are words of
    their width (an \<^verbatim>\<open>int32\<close> is a word whose comparisons go through \<^verbatim>\<open>sint\<close>), Go's \<^verbatim>\<open>int\<close> is \<^verbatim>\<open>int\<close> or \<^verbatim>\<open>nat\<close>, floating-point numbers are
    rationals with the rounding as an argument.
  \<^item> A Go computation returns \<^verbatim>\<open>'a go\<close>: a value, or a fault. Faults are the run-time panics, a call of
    \<^verbatim>\<open>panic\<close>, a loop that never ends, and a wait that only another goroutine can end. Returned errors are values of
    error types, one per component.
  \<^item> State is passed explicitly. Each operation that the code guards with a lock is one step (but see \<^verbatim>\<open>Tcp_Locks\<close>); the goroutines of a
    connection are the turns of their loops, interleaved by a step relation.
  \<^item> Go visits a map in no fixed order: the order is an argument, and theorems hold for each.
  \<^item> Randomness, time and what arrives are arguments: draws, clock readings, lists of events.
  \<^item> Code outside the repository (netstack's TCP header codec, iptcp-headers' IP header codec and checksums, the
    sockets of the operating system, the readline package, netip's IPv6 parser) is an argument of the definitions that use
    it. Theorems that rely on it assume what is documented of it: \<^verbatim>\<open>header_doc\<close>, \<^verbatim>\<open>checksum_doc\<close>, \<^verbatim>\<open>tcp_doc\<close>, \<^verbatim>\<open>proper6\<close>; their
    witnesses instantiate these with concrete functions.

  \<^bold>\<open>Theories and what they show\<close>

  \<^bold>\<open>Foundations.\<close>
  \<^item> \<^verbatim>\<open>Prelude\<close>: machine types, faults, slices and \<^verbatim>\<open>copy\<close>, circular arrays.
  \<^item> \<^verbatim>\<open>Byte_Fifo\<close>: the locale of a byte queue that both buffers implement. \<^verbatim>\<open>Socket_Table\<close>: the locale of a table with
    guarded insertion, which both socket tables implement.
  \<^item> \<^verbatim>\<open>Netip\<close>, \<^verbatim>\<open>Go_Text\<close>, \<^verbatim>\<open>Netip_Text\<close>: the parts of \<^verbatim>\<open>encoding/binary\<close>, \<^verbatim>\<open>net/netip\<close>, \<^verbatim>\<open>strings\<close>, \<^verbatim>\<open>strconv\<close>, \<^verbatim>\<open>fmt\<close> and
    \<^verbatim>\<open>bufio\<close> that the code calls, with the round trips between IPv4 addresses, prefixes, endpoints and their texts.

  \<^bold>\<open>Configuration.\<close>
  \<^item> \<^verbatim>\<open>Lnx_Config\<close>, \<^verbatim>\<open>Config_Parser\<close> (\<^verbatim>\<open>lnxconfig.go\<close>): every directive and the loop over the lines. The meaning of a file of
    directives is defined apart from its text and the parser is shown to compute it; whatever it accepts is
    well-formed; the lines on which it panics are characterised.

  \<^bold>\<open>Packets.\<close>
  \<^item> \<^verbatim>\<open>Rip_Codec\<close> (\<^verbatim>\<open>rip.go\<close>), \<^verbatim>\<open>Ip_Packet\<close> (\<^verbatim>\<open>ippacket.go\<close>), \<^verbatim>\<open>Tcp_Packet\<close> (\<^verbatim>\<open>tcppacket.go\<close>): encoding and decoding, checksums, flags.

  \<^bold>\<open>IP.\<close>
  \<^item> \<^verbatim>\<open>Ip_Stack\<close> (\<^verbatim>\<open>ipstack.go\<close>, \<^verbatim>\<open>ip_internal.go\<close>): initialisation, longest-prefix match (correct, and independent of the order
    of the map on canonical tables), the next-hop search (returns on ranked routes; runs for ever on a route
    that resolves to itself), sending, one turn of the receive loop.
  \<^item> \<^verbatim>\<open>Ip_Delivery\<close>: from \<^verbatim>\<open>Send\<close> on one node to the handler on the other.
  \<^item> \<^verbatim>\<open>Vrouter\<close> (\<^verbatim>\<open>vrouter.go\<close>, \<^verbatim>\<open>utils.go\<close>): RIP requests, responses, the update rule on every branch, expiry, and the invariant
    of the table along every run of a router.
  \<^item> \<^verbatim>\<open>Rip_Network\<close>: any number of routers. Costs are lengths of ways that exist, whatever happens to the messages; rounds
    of responses converge to shortest routes. \<^verbatim>\<open>Rip_Recovery\<close>: links that fail or come up. Wrong routes count to infinity, are gone after
    fifteen periods of expiry, and the rounds then find the new shortest routes.
  \<^item> \<^verbatim>\<open>Router\<close> (\<^verbatim>\<open>cmd/vrouter\<close>): the start of a router from its file, and its life under the two tickers: no learnt route is older
    than 22 seconds.

  \<^bold>\<open>A connection.\<close>
  \<^item> \<^verbatim>\<open>Tcp_Types\<close>, \<^verbatim>\<open>Recv_Buf\<close> (\<^verbatim>\<open>recvbuf.go\<close>), \<^verbatim>\<open>Send_Buf\<close> (\<^verbatim>\<open>sendbuf.go\<close>), \<^verbatim>\<open>Priority_Queue\<close> (\<^verbatim>\<open>priorityqueue.go\<close>): the data
    structures, each with its invariant and its refinement of a byte queue or of a multiset.
  \<^item> \<^verbatim>\<open>Tcp_Conn\<close> (\<^verbatim>\<open>conn.go\<close>, \<^verbatim>\<open>retransmission.go\<close>): sending, reading, writing, the timer and the retransmission queue.
  \<^item> \<^verbatim>\<open>Tcp_Segment\<close> (\<^verbatim>\<open>state_internal.go\<close>, \<^verbatim>\<open>tcp_internal.go\<close>) and \<^verbatim>\<open>Tcp_Receive\<close>: acceptance of a segment, acknowledgements, text,
    FIN, merging of early segments.
  \<^item> \<^verbatim>\<open>Tcp_State\<close> (\<^verbatim>\<open>state.go\<close>): one function per state, the close, the handshake; \<^verbatim>\<open>Tcp_Machine\<close>: the step relation of a connection and
    its life along the diagram of the RFC.
  \<^item> \<^verbatim>\<open>Tcp_Transfer\<close>, \<^verbatim>\<open>Tcp_Handshake\<close>, \<^verbatim>\<open>Tcp_Closing\<close>: two ends of a connection together. The stream arrives in order and
    complete under every schedule, although the link loses segments and answers, and is flushed in a bounded number of
    rounds; the handshake and the exchange of FINs end in agreement.
  \<^item> \<^verbatim>\<open>Stream_Receiver\<close>, \<^verbatim>\<open>Stream_Sender\<close>, \<^verbatim>\<open>Tcp_Network\<close>: the two ends over a network that keeps every packet it was given and may
    deliver any of them at any time, again, late, or never, with any number of segments on the way. What the receiver makes of any old, early
    or repeated piece of the stream; what the sender makes of any old acknowledgement; and together: what is read is a prefix of what was
    written, the rest is still in the sender's hands, and the one fault any step can end in is a slice bound of the receiver.

  \<^bold>\<open>A node.\<close>
  \<^item> \<^verbatim>\<open>Tcp_Stack\<close> (\<^verbatim>\<open>tcpstack.go\<close>, \<^verbatim>\<open>tcp_internal.go\<close>, \<^verbatim>\<open>listener.go\<close>, \<^verbatim>\<open>utils.go\<close>): the tables, the API, the receive handler; the
    invariant of the tables and of socket ids along every run; a connect and an accept together; a connect that times out.
  \<^item> \<^verbatim>\<open>Tcp_Delivery\<close>: where a segment goes, and a segment's way from socket to socket through IP.
  \<^item> \<^verbatim>\<open>Tcp_Locks\<close>: the lock of the tables, taken and left by receive loops, \<^verbatim>\<open>VAccept\<close> and other goroutines. What the handler looked up
    stays true until it has delivered; two clients that connect to one listener can deadlock the host.
  \<^item> \<^verbatim>\<open>Tcp_Repl\<close> (\<^verbatim>\<open>tcp_repl.go\<close>): the TCP commands and the loops of \<^verbatim>\<open>sf\<close> and \<^verbatim>\<open>rf\<close>; a file arrives as it was sent; a
    reader that waits misses the FIN.
  \<^item> \<^verbatim>\<open>Repl\<close> (\<^verbatim>\<open>repl.go\<close>), \<^verbatim>\<open>Ip_Repl\<close> (\<^verbatim>\<open>ip_repl.go\<close>, \<^verbatim>\<open>ip_print.go\<close>), \<^verbatim>\<open>Host\<close> (\<^verbatim>\<open>vhost.go\<close>, \<^verbatim>\<open>tcp_print.go\<close>, \<^verbatim>\<open>cmd/vhost\<close>): the tables of commands
    and the loop over the lines, sessions at the console, and the start of a host from its file.

  \<^bold>\<open>Interfaces\<close>

  Three locales state what one part expects of another: \<^verbatim>\<open>byte_fifo\<close> (interpreted on the receive and on the send
  buffer), \<^verbatim>\<open>key_table\<close> (on the listener table and on the connection table), \<^verbatim>\<open>console\<close> (a relation that every command
  keeps is kept by a session; interpreted on the IP commands). Their clients' lemmas are proved from
  the laws, and reach the properties through the interpretations.

  \<^bold>\<open>Bounds and fuel\<close>

  \<^item> No definition has fuel. Loops that may not end are \<^verbatim>\<open>partial_function (option)\<close>: \<^verbatim>\<open>nextHopLoop\<close>, \<^verbatim>\<open>aggLoop\<close>,
    \<^verbatim>\<open>readFile_loop\<close>; for each, a theorem says when it returns. A handshake or a search for a port is
    driven by the finite list of the events or draws it meets; \<^verbatim>\<open>Unfinished\<close> says that the list ended first.
  \<^item> Sequence numbers are compared by the code as plain integers. The theorems on streams therefore bound the last
    sequence number by \<open>2 ^ 32 - 65537\<close> and, for the peer's first acknowledgements, ask for initial numbers of at least 65535;
    what goes wrong outside is stated by lemmas of its own.
  \<^item> RIP's theorems on networks are for distances up to 15 and for at most 114 announced prefixes, which is what a packet
    holds; IPv4 interfaces have prefixes of at least one bit (a default route is learnt wrongly).
  \<^item> Socket ids are unique until \<open>2 ^ 32\<close> sockets were created. Lines of a configuration have less than 65536 bytes, which is the
    buffer of Go's scanner. Text is ASCII.

  \<^bold>\<open>What is not modelled\<close>

  \<^item> The pretty-printers for flags and headers in \<^verbatim>\<open>tcppacket.go\<close>, which only the log uses, the sample value \<^verbatim>\<open>LnxConfig\<close>, logging, the terminal
    that \<^verbatim>\<open>NewRepl\<close> opens, and what handlers print besides tables of rows.
  \<^item> The parsing of the command line in \<^verbatim>\<open>src/cmd\<close>; the start of the receive loops in \<^verbatim>\<open>Start\<close>, whose turns are steps of the machines.
  \<^item> Data races. Operations under a lock are atomic here, except in \<^verbatim>\<open>Tcp_Locks\<close>, which has \<^verbatim>\<open>tableMu\<close>; fields that the code reads without a
    lock are read at one point of the step that uses them. The locks of a connection (\<^verbatim>\<open>mu\<close>, \<^verbatim>\<open>rtoMu\<close>, \<^verbatim>\<open>inflightMu\<close>, those of the
    buffers) are not modelled as such.
  \<^item> Progress is for links that lose a bounded number of transmissions in a row: in \<^verbatim>\<open>Tcp_Transfer\<close> one segment is on the link at a time, and up
    to three of its transmissions may lose the segment or the answer (a fourth closes the connection, as \<^verbatim>\<open>handleRTO\<close> does). For the
    network of \<^verbatim>\<open>Tcp_Network\<close> the theorems are of safety: its runs start from an established pair and carry data in one direction; the
    sender takes no more steps once it gave up. The theorems on handshakes and closes are for a link that delivers.
  \<^item> A period of \<^verbatim>\<open>Rip_Recovery\<close> starts with nothing on the wire: a response that is delayed over more than a period is not covered.
  \<^item> Options in headers, and IPv6 beyond its place in the type of addresses.

  \<^bold>\<open>Remaining work\<close>

  Progress over the general network; handshakes and closes over a network that loses and repeats.
\<close>

end
